(* ===== verification/Prelude.thy ===== *)
theory Prelude
  imports Main "HOL-Library.Word" "HOL-Library.AList" "HOL-Library.Char_ord"
    "HOL-Library.List_Lexorder" "HOL-Library.Multiset" "HOL-Library.Sublist"
begin

text \<open>
  Shared types, the state-and-error operation type, the two map representations (a concurrent
  hash map as an association list in iteration order, a B-tree map as an ordered association
  list), big- and little-endian byte strings and UTF-8. Nothing here is specific to a component.
\<close>

named_theorems codec \<open>rules that decode what an encoder wrote\<close>
named_theorems opsimps \<open>evaluation of state-and-error operations\<close>

section \<open>Machine types\<close>

type_synonym u8 = "8 word"
type_synonym u32 = "32 word"
type_synonym u64 = "64 word"
type_synonym f64 = "64 word"
type_synonym bytes = "u8 list"

section \<open>Operations with state and errors\<close>

text \<open>
  A method that mutates shared state and returns \<open>Result<A, E>\<close>: the state is returned on both
  branches, because an early return with the \<open>?\<close> operator keeps every mutation done so far.
\<close>

type_synonym ('s, 'e, 'a) op = "'s \<Rightarrow> ('e + 'a) \<times> 's"

definition op_return :: "'a \<Rightarrow> ('s, 'e, 'a) op" where
  "op_return a s = (Inr a, s)"

definition op_raise :: "'e \<Rightarrow> ('s, 'e, 'a) op" where
  "op_raise e s = (Inl e, s)"

definition op_bind :: "('s, 'e, 'a) op \<Rightarrow> ('a \<Rightarrow> ('s, 'e, 'b) op) \<Rightarrow> ('s, 'e, 'b) op" where
  "op_bind m f s = (case m s of (Inl e, s') \<Rightarrow> (Inl e, s') | (Inr a, s') \<Rightarrow> f a s')"

definition op_upd :: "('s \<Rightarrow> 's) \<Rightarrow> ('s, 'e, unit) op" where
  "op_upd g s = (Inr (), g s)"

text \<open>\<open>for x in xs { f(x)?; }\<close>\<close>

fun op_iter :: "('a \<Rightarrow> ('s, 'e, unit) op) \<Rightarrow> 'a list \<Rightarrow> ('s, 'e, unit) op" where
  "op_iter f [] = op_return ()"
| "op_iter f (x # xs) = op_bind (f x) (\<lambda>_. op_iter f xs)"

lemma op_return_app [simp, opsimps]: "op_return a s = (Inr a, s)"
  by (simp add: op_return_def)

lemma op_raise_app [simp, opsimps]: "op_raise e s = (Inl e, s)"
  by (simp add: op_raise_def)

lemma op_upd_app [simp, opsimps]: "op_upd g s = (Inr (), g s)"
  by (simp add: op_upd_def)

lemma op_bind_Inr [simp]: "m s = (Inr a, s') \<Longrightarrow> op_bind m f s = f a s'"
  by (simp add: op_bind_def)

lemma op_bind_Inl [simp]: "m s = (Inl e, s') \<Longrightarrow> op_bind m f s = (Inl e, s')"
  by (simp add: op_bind_def)

lemma op_bind_eq_Inr:
  "op_bind m f s = (Inr b, t) \<longleftrightarrow> (\<exists>a s'. m s = (Inr a, s') \<and> f a s' = (Inr b, t))"
  by (auto simp: op_bind_def split: prod.splits sum.splits)

lemma op_bind_eq_Inl:
  "op_bind m f s = (Inl e, t) \<longleftrightarrow>
     m s = (Inl e, t) \<or> (\<exists>a s'. m s = (Inr a, s') \<and> f a s' = (Inl e, t))"
  by (auto simp: op_bind_def split: prod.splits sum.splits)

text \<open>An assertion on the state that an operation keeps, whether it succeeds or fails.\<close>

definition keeps :: "('s \<Rightarrow> bool) \<Rightarrow> ('s, 'e, 'a) op \<Rightarrow> bool" where
  "keeps P m \<longleftrightarrow> (\<forall>s. P s \<longrightarrow> P (snd (m s)))"

lemma keepsD: "keeps P m \<Longrightarrow> P s \<Longrightarrow> m s = (r, s') \<Longrightarrow> P s'"
  by (metis keeps_def snd_conv)

lemma keeps_return [intro!]: "keeps P (op_return a)"
  by (simp add: keeps_def)

lemma keeps_raise [intro!]: "keeps P (op_raise e)"
  by (simp add: keeps_def)

lemma keeps_bind [intro]:
  assumes "keeps P m" and "\<And>a. keeps P (f a)"
  shows "keeps P (op_bind m f)"
  using assms by (fastforce simp: keeps_def op_bind_def split: prod.splits sum.splits)

lemma keeps_iter: "(\<And>x. x \<in> set xs \<Longrightarrow> keeps P (f x)) \<Longrightarrow> keeps P (op_iter f xs)"
  by (induction xs) auto

section \<open>Key-value maps\<close>

text \<open>
  The contract every map of the engine offers to its clients: what a lookup returns after an
  insert or a removal, and the representation invariant both keep.
\<close>

locale kv_map =
  fixes get :: "'m \<Rightarrow> 'k \<Rightarrow> 'v option"
    and ins :: "'k \<Rightarrow> 'v \<Rightarrow> 'm \<Rightarrow> 'm"
    and del :: "'k \<Rightarrow> 'm \<Rightarrow> 'm"
    and inv :: "'m \<Rightarrow> bool"
  assumes get_ins: "get (ins k v m) k' = (if k' = k then Some v else get m k')"
    and get_del: "inv m \<Longrightarrow> get (del k m) k' = (if k' = k then None else get m k')"
    and inv_ins: "inv m \<Longrightarrow> inv (ins k v m)"
    and inv_del: "inv m \<Longrightarrow> inv (del k m)"
begin

lemma inv_fold_ins: "inv m \<Longrightarrow> inv (fold (\<lambda>(k, v). ins k v) kvs m)"
  by (induction kvs arbitrary: m) (auto simp: inv_ins)

lemma get_fold_ins:
  "get (fold (\<lambda>(k, v). ins k v) kvs m) k =
     (case map_of (rev kvs) k of Some v \<Rightarrow> Some v | None \<Rightarrow> get m k)"
proof (induction kvs arbitrary: m)
  case Nil
  show ?case by simp
next
  case (Cons kv kvs)
  obtain k0 v0 where kv: "kv = (k0, v0)" by (cases kv)
  have "map_of (rev (kv # kvs)) k =
      (case map_of (rev kvs) k of Some v \<Rightarrow> Some v | None \<Rightarrow> if k = k0 then Some v0 else None)"
    by (auto simp: kv map_add_def split: option.splits)
  then show ?case
    by (simp add: Cons.IH kv get_ins split: option.splits)
qed

lemma inv_fold_del: "inv m \<Longrightarrow> inv (fold del ks m)"
  by (induction ks arbitrary: m) (auto simp: inv_del)

lemma get_fold_del:
  "inv m \<Longrightarrow> get (fold del ks m) k = (if k \<in> set ks then None else get m k)"
  by (induction ks arbitrary: m) (auto simp: get_del inv_del)

end

subsection \<open>DashMap: an association list in iteration order\<close>

text \<open>
  \<open>DashMap\<close> iterates in an unspecified order. The model's order is the order of the list, and
  the theorems hold for every list, so for every iteration order.
\<close>

type_synonym ('k, 'v) dashmap = "('k \<times> 'v) list"

abbreviation dm_get :: "('k, 'v) dashmap \<Rightarrow> 'k \<Rightarrow> 'v option" where
  "dm_get \<equiv> map_of"
abbreviation dm_insert :: "'k \<Rightarrow> 'v \<Rightarrow> ('k, 'v) dashmap \<Rightarrow> ('k, 'v) dashmap" where
  "dm_insert \<equiv> AList.update"
abbreviation dm_remove :: "'k \<Rightarrow> ('k, 'v) dashmap \<Rightarrow> ('k, 'v) dashmap" where
  "dm_remove \<equiv> AList.delete"

definition dm_ok :: "('k, 'v) dashmap \<Rightarrow> bool" where
  "dm_ok m \<longleftrightarrow> distinct (map fst m)"

lemma dm_ok_Nil [simp]: "dm_ok []"
  by (simp add: dm_ok_def)

interpretation dm: kv_map dm_get dm_insert dm_remove dm_ok
  by unfold_locales
    (auto simp: update_conv' delete_conv' dm_ok_def distinct_update distinct_delete)

lemmas dm_simps [simp] = dm.get_ins
lemmas dm_inv [intro] = dm.inv_ins dm.inv_del

lemma dm_get_remove [simp]: "dm_get (dm_remove k m) k' = (if k' = k then None else dm_get m k')"
  by (simp add: delete_conv')

lemma dm_get_in: "dm_ok m \<Longrightarrow> (k, v) \<in> set m \<longleftrightarrow> dm_get m k = Some v"
  by (simp add: dm_ok_def)

subsection \<open>BTreeMap: an ordered association list\<close>

type_synonym ('k, 'v) btreemap = "('k \<times> 'v) list"

primrec bt_insert :: "'k::linorder \<Rightarrow> 'v \<Rightarrow> ('k, 'v) btreemap \<Rightarrow> ('k, 'v) btreemap" where
  "bt_insert k v [] = [(k, v)]"
| "bt_insert k v (p # m) =
     (if fst p < k then p # bt_insert k v m
      else if fst p = k then (k, v) # m
      else (k, v) # p # m)"

definition bt_remove :: "'k \<Rightarrow> ('k, 'v) btreemap \<Rightarrow> ('k, 'v) btreemap" where
  "bt_remove k m = filter (\<lambda>p. fst p \<noteq> k) m"

abbreviation bt_get :: "('k, 'v) btreemap \<Rightarrow> 'k \<Rightarrow> 'v option" where
  "bt_get \<equiv> map_of"

definition bt_ok :: "('k::linorder, 'v) btreemap \<Rightarrow> bool" where
  "bt_ok m \<longleftrightarrow> sorted_wrt (<) (map fst m)"

lemma bt_ok_Nil [simp]: "bt_ok []"
  by (simp add: bt_ok_def)

lemma bt_ok_Cons [simp]: "bt_ok (p # m) \<longleftrightarrow> (\<forall>q\<in>set m. fst p < fst q) \<and> bt_ok m"
  by (auto simp: bt_ok_def)

lemma bt_keys_insert: "fst ` set (bt_insert k v m) = insert k (fst ` set m)"
  by (induction m) auto

lemma bt_ok_insert: "bt_ok m \<Longrightarrow> bt_ok (bt_insert k v m)"
proof (induction m)
  case Nil
  show ?case by (simp add: bt_ok_def)
next
  case (Cons p m)
  have keys: "fst q \<in> insert k (fst ` set m)" if "q \<in> set (bt_insert k v m)" for q
    using that bt_keys_insert [of k v m] by (metis image_eqI)
  show ?case
    using Cons keys by fastforce
qed

lemma map_of_bt_insert: "map_of (bt_insert k v m) k' = (if k' = k then Some v else map_of m k')"
  by (induction m) auto

lemma bt_ok_remove: "bt_ok m \<Longrightarrow> bt_ok (bt_remove k m)"
  unfolding bt_ok_def bt_remove_def by (induction m) auto

lemma map_of_bt_remove: "map_of (bt_remove k m) k' = (if k' = k then None else map_of m k')"
  by (induction m) (auto simp: bt_remove_def)

interpretation bt: kv_map bt_get bt_insert bt_remove bt_ok
  by unfold_locales (simp_all add: map_of_bt_insert map_of_bt_remove bt_ok_insert bt_ok_remove)

lemmas bt_simps [simp] = bt.get_ins map_of_bt_remove
lemmas bt_inv [intro] = bt.inv_ins bt.inv_del

lemma bt_distinct: "bt_ok m \<Longrightarrow> distinct (map fst m)"
  by (induction m) force+

lemma bt_get_in: "bt_ok m \<Longrightarrow> (k, v) \<in> set m \<longleftrightarrow> bt_get m k = Some v"
  by (simp add: bt_distinct)

text \<open>Two B-tree maps with the same lookups are the same map.\<close>

lemma bt_ext:
  assumes "bt_ok m" and "bt_ok m'" and "map_of m = map_of m'"
  shows "m = m'"
proof -
  have "set m = set m'"
    using assms by (metis bt_distinct map_of_inject_set)
  moreover have "sorted_wrt (\<lambda>p q. fst p < fst q) m" and "sorted_wrt (\<lambda>p q. fst p < fst q) m'"
    using assms by (simp_all add: bt_ok_def sorted_wrt_map)
  ultimately show ?thesis
  proof (induction m arbitrary: m')
    case Nil
    then show ?case by simp
  next
    case (Cons p m)
    then obtain q n where m': "m' = q # n" by (cases m') auto
    have "p = q"
      using Cons.prems unfolding m' by (metis list.set_intros(1) not_less_iff_gr_or_eq
          set_ConsD sorted_wrt.simps(2))
    moreover have "p \<notin> set m" and "q \<notin> set n"
      using Cons.prems unfolding m' by auto
    ultimately have "set m = set n"
      using Cons.prems(1) unfolding m' by auto
    with Cons \<open>p = q\<close> show ?case unfolding m' by simp
  qed
qed

lemma bt_insert_same: "bt_ok m \<Longrightarrow> map_of m k = Some v \<Longrightarrow> bt_insert k v m = m"
  by (rule bt_ext) (auto simp: bt_ok_insert map_of_bt_insert)

text \<open>Appending a key above all others: how an ordered map is built from its own entries.\<close>

lemma bt_insert_last: "\<forall>p\<in>set m. fst p < k \<Longrightarrow> bt_insert k v m = m @ [(k, v)]"
  by (induction m) auto

lemma bt_rebuild:
  assumes "bt_ok (m @ kvs)"
  shows "fold (\<lambda>(k, v). bt_insert k v) kvs m = m @ kvs"
  using assms
proof (induction kvs arbitrary: m)
  case Nil
  then show ?case by simp
next
  case (Cons kv kvs)
  obtain k v where kv: "kv = (k, v)" by (cases kv)
  have "\<forall>p\<in>set m. fst p < k"
    using Cons.prems by (auto simp: bt_ok_def sorted_wrt_append kv)
  then have "bt_insert k v m = m @ [(k, v)]" by (rule bt_insert_last)
  with Cons show ?case by (simp add: kv)
qed

section \<open>Byte strings\<close>

text \<open>\<open>uN::to_be_bytes\<close>, \<open>to_le_bytes\<close> and their inverses, on the unsigned value.\<close>

primrec be_bytes :: "nat \<Rightarrow> nat \<Rightarrow> bytes" where
  "be_bytes 0 x = []"
| "be_bytes (Suc n) x = word_of_nat (x div 256 ^ n) # be_bytes n x"

definition from_be :: "bytes \<Rightarrow> nat" where
  "from_be bs = foldl (\<lambda>a b. a * 256 + unat b) 0 bs"

definition le_bytes :: "nat \<Rightarrow> nat \<Rightarrow> bytes" where
  "le_bytes n x = rev (be_bytes n x)"

definition from_le :: "bytes \<Rightarrow> nat" where
  "from_le bs = from_be (rev bs)"

lemma length_be_bytes [simp]: "length (be_bytes n x) = n"
  by (induction n) auto

lemma length_le_bytes [simp]: "length (le_bytes n x) = n"
  by (simp add: le_bytes_def)

lemma foldl_be_bytes:
  "foldl (\<lambda>a b. a * 256 + unat b) a (be_bytes n x) = a * 256 ^ n + x mod 256 ^ n"
proof (induction n arbitrary: a)
  case 0
  show ?case by simp
next
  case (Suc n)
  have "x mod 256 ^ Suc n = 256 ^ n * (x div 256 ^ n mod 256) + x mod 256 ^ n"
    by (metis mod_mult2_eq power_Suc2)
  then show ?case
    by (simp add: Suc.IH unat_of_nat) (simp add: algebra_simps)
qed

lemma from_be_be_bytes: "from_be (be_bytes n x) = x mod 256 ^ n"
  by (simp add: from_be_def foldl_be_bytes)

lemma from_le_le_bytes: "from_le (le_bytes n x) = x mod 256 ^ n"
  by (simp add: from_le_def le_bytes_def from_be_be_bytes)

lemma from_be_bound: "from_be bs < 256 ^ length bs"
proof -
  have "foldl (\<lambda>a b. a * 256 + unat (b :: u8)) a bs < (a + 1) * 256 ^ length bs" for a
  proof (induction bs arbitrary: a)
    case Nil
    show ?case by simp
  next
    case (Cons b bs)
    have "a * 256 + unat b + 1 \<le> (a + 1) * 256"
      using unsigned_less [of b, where ?'a = nat] by simp
    then have "(a * 256 + unat b + 1) * 256 ^ length bs \<le> (a + 1) * 256 * 256 ^ length bs"
      by (rule mult_le_mono1)
    with Cons [of "a * 256 + unat b"]
    have "foldl (\<lambda>a b. a * 256 + unat b) (a * 256 + unat b) bs < (a + 1) * 256 * 256 ^ length bs"
      by (rule less_le_trans)
    then show ?case by (simp add: distrib_right mult.assoc)
  qed
  from this [of 0] show ?thesis by (simp add: from_be_def)
qed

subsection \<open>Strings as bytes\<close>

text \<open>
  A Rust \<open>String\<close> is its UTF-8 bytes: one \<open>char\<close> of the HOL string per byte, so that \<open>len\<close>
  is \<open>length\<close> and \<open>Ord for str\<close> is the lexicographic order on bytes.
\<close>

definition bytes_of :: "string \<Rightarrow> bytes" where
  "bytes_of s = map (\<lambda>c. word_of_nat (of_char c)) s"

definition string_of :: "bytes \<Rightarrow> string" where
  "string_of bs = map (\<lambda>b. char_of (unat b)) bs"

lemma length_bytes_of [simp]: "length (bytes_of s) = length s"
  by (simp add: bytes_of_def)

lemma string_of_bytes_of [simp]: "string_of (bytes_of s) = s"
proof -
  have "char_of (unat (word_of_nat (of_char c) :: u8)) = c" for c
    by (simp add: unat_of_nat)
  then show ?thesis by (simp add: string_of_def bytes_of_def comp_def)
qed

text \<open>\<open>std::str::from_utf8\<close> accepts exactly the well-formed byte sequences of the standard.\<close>

definition utf8_cont :: "u8 \<Rightarrow> bool" where
  "utf8_cont b \<longleftrightarrow> 0x80 \<le> b \<and> b \<le> 0xbf"

definition utf8_second :: "u8 \<Rightarrow> u8 \<Rightarrow> bool" where
  "utf8_second a b \<longleftrightarrow>
     (if a = 0xe0 then 0xa0 \<le> b \<and> b \<le> 0xbf
      else if a = 0xed then 0x80 \<le> b \<and> b \<le> 0x9f
      else if a = 0xf0 then 0x90 \<le> b \<and> b \<le> 0xbf
      else if a = 0xf4 then 0x80 \<le> b \<and> b \<le> 0x8f
      else utf8_cont b)"

fun utf8_valid :: "bytes \<Rightarrow> bool" where
  "utf8_valid [] = True"
| "utf8_valid (a # r) =
     (if a < 0x80 then utf8_valid r
      else if 0xc2 \<le> a \<and> a \<le> 0xdf then
        (case r of b # r' \<Rightarrow> utf8_cont b \<and> utf8_valid r' | _ \<Rightarrow> False)
      else if 0xe0 \<le> a \<and> a \<le> 0xef then
        (case r of b # c # r' \<Rightarrow> utf8_second a b \<and> utf8_cont c \<and> utf8_valid r' | _ \<Rightarrow> False)
      else if 0xf0 \<le> a \<and> a \<le> 0xf4 then
        (case r of b # c # d # r' \<Rightarrow>
             utf8_second a b \<and> utf8_cont c \<and> utf8_cont d \<and> utf8_valid r'
         | _ \<Rightarrow> False)
      else False)"

definition str_ok :: "string \<Rightarrow> bool" where
  "str_ok s \<longleftrightarrow> utf8_valid (bytes_of s)"

definition from_utf8 :: "bytes \<Rightarrow> string option" where
  "from_utf8 bs = (if utf8_valid bs then Some (string_of bs) else None)"

lemma from_utf8_bytes_of [simp]: "str_ok s \<Longrightarrow> from_utf8 (bytes_of s) = Some s"
  by (simp add: from_utf8_def str_ok_def)

text \<open>\<open>&str[..]\<close> helpers of the standard library.\<close>

primrec split_on :: "char \<Rightarrow> string \<Rightarrow> string list" where
  "split_on d [] = [[]]"
| "split_on d (c # s) =
     (if c = d then [] # split_on d s
      else (case split_on d s of [] \<Rightarrow> [[c]] | w # ws \<Rightarrow> (c # w) # ws))"

lemma split_on_not_Nil [simp]: "split_on d s \<noteq> []"
  by (induction s) (auto split: list.splits)

lemma zip_map_self: "zip xs (map f xs) = map (\<lambda>x. (x, f x)) xs"
  by (induction xs) simp_all

subsection \<open>Decimal text\<close>

text \<open>\<open>u64::to_string\<close>, \<open>i8::to_string\<close> and \<open>str::parse::<u64>\<close> (an optional plus sign,
  at least one digit, no overflow).\<close>

fun dec :: "nat \<Rightarrow> string" where
  "dec n = (if n < 10 then [char_of (48 + n)] else dec (n div 10) @ [char_of (48 + n mod 10)])"

declare dec.simps [simp del]

definition dec_int :: "int \<Rightarrow> string" where
  "dec_int i = (if i < 0 then CHR ''-'' # dec (nat (- i)) else dec (nat i))"

definition is_digit :: "char \<Rightarrow> bool" where
  "is_digit c \<longleftrightarrow> 48 \<le> (of_char c :: nat) \<and> (of_char c :: nat) \<le> 57"

definition dec_value :: "string \<Rightarrow> nat" where
  "dec_value s = foldl (\<lambda>a c. a * 10 + (of_char c - 48)) 0 s"

definition parse_u64 :: "string \<Rightarrow> u64 option" where
  "parse_u64 s =
     (let ds = (case s of [] \<Rightarrow> [] | c # r \<Rightarrow> if c = CHR ''+'' then r else s)
      in if ds = [] \<or> \<not> list_all is_digit ds then None
         else if dec_value ds < 2 ^ 64 then Some (word_of_nat (dec_value ds)) else None)"

lemma of_char_char_of_small: "n < 256 \<Longrightarrow> of_char (char_of n) = (n :: nat)"
  by (simp add: of_char_of)

lemma dec_not_Nil: "dec n \<noteq> []"
  by (subst dec.simps) simp

lemma dec_digits: "list_all is_digit (dec n)"
proof (induction n rule: dec.induct)
  case (1 n)
  have "is_digit (char_of (48 + k))" if "k < 10" for k :: nat
    using that by (simp add: is_digit_def of_char_char_of_small)
  with 1 show ?case by (subst dec.simps) simp
qed

lemma dec_value_dec: "dec_value (dec n) = n"
proof (induction n rule: dec.induct)
  case (1 n)
  show ?case
  proof (cases "n < 10")
    case True
    then show ?thesis
      by (simp add: dec.simps [of n] dec_value_def of_char_char_of_small)
  next
    case False
    then have "dec_value (dec n) = dec_value (dec (n div 10)) * 10 + n mod 10"
      by (simp add: dec.simps [of n] dec_value_def of_char_char_of_small)
    with 1 False show ?thesis by simp
  qed
qed

lemma parse_u64_dec: "parse_u64 (dec (unat n)) = Some n"
proof -
  obtain c r where cr: "dec (unat n) = c # r"
    using dec_not_Nil [of "unat n"] by (cases "dec (unat n)") auto
  have "is_digit c"
    using dec_digits [of "unat n"] by (simp add: cr)
  then have "c \<noteq> CHR ''+''" by (auto simp: is_digit_def)
  moreover have "unat n < 2 ^ 64"
    using unsigned_less [of n, where ?'a = nat] by simp
  ultimately show ?thesis
    using dec_digits [of "unat n"] dec_value_dec [of "unat n"]
    by (simp add: parse_u64_def cr)
qed

end
