(* ===== verification/Json.thy ===== *)
theory Json
  imports Prelude
begin

text \<open>
  The JSON values of \<open>serde_json\<close> as the engine uses them: numbers with their three
  representations, objects as B-tree maps (the crate is built without \<open>preserve_order\<close>), the
  accessors \<open>as_u64\<close>, \<open>as_str\<close>, \<open>get\<close> and their kin, the object stamping the engine
  does with \<open>insert\<close>, and the well-formedness every value of the program has.
\<close>

section \<open>Values\<close>

text \<open>
  \<open>PosInt\<close> holds an unsigned 64-bit integer, \<open>NegInt\<close> the bits of a negative signed one,
  \<open>Float\<close> the IEEE bits of a finite double.
\<close>

datatype number = PosInt u64 | NegInt u64 | Float f64

datatype json =
    Null
  | Bool bool
  | Number number
  | String string
  | Array "json list"
  | Object "(string \<times> json) list"

type_synonym object = "(string, json) btreemap"

definition f64_finite :: "f64 \<Rightarrow> bool" where
  "f64_finite f \<longleftrightarrow> take_bit 11 (drop_bit 52 f) \<noteq> 0x7ff"

definition number_from_i64 :: "u64 \<Rightarrow> number" where
  "number_from_i64 i = (if sint i < 0 then NegInt i else PosInt i)"

definition number_from_f64 :: "f64 \<Rightarrow> number option" where
  "number_from_f64 f = (if f64_finite f then Some (Float f) else None)"

fun number_as_u64 :: "number \<Rightarrow> u64 option" where
  "number_as_u64 (PosInt n) = Some n"
| "number_as_u64 (NegInt i) = None"
| "number_as_u64 (Float f) = None"

fun number_as_i64 :: "number \<Rightarrow> u64 option" where
  "number_as_i64 (PosInt n) = (if 0 \<le> sint n then Some n else None)"
| "number_as_i64 (NegInt i) = Some i"
| "number_as_i64 (Float f) = None"

section \<open>Accessors\<close>

fun as_u64 :: "json \<Rightarrow> u64 option" where
  "as_u64 (Number n) = number_as_u64 n"
| "as_u64 v = None"

fun as_str :: "json \<Rightarrow> string option" where
  "as_str (String s) = Some s"
| "as_str v = None"

fun as_bool :: "json \<Rightarrow> bool option" where
  "as_bool (Bool b) = Some b"
| "as_bool v = None"

fun as_array :: "json \<Rightarrow> json list option" where
  "as_array (Array vs) = Some vs"
| "as_array v = None"

fun as_object :: "json \<Rightarrow> object option" where
  "as_object (Object m) = Some m"
| "as_object v = None"

definition is_object :: "json \<Rightarrow> bool" where
  "is_object v \<longleftrightarrow> as_object v \<noteq> None"

text \<open>\<open>Value::get\<close> with a string index: only objects have string keys.\<close>

fun vget :: "json \<Rightarrow> string \<Rightarrow> json option" where
  "vget (Object m) k = bt_get m k"
| "vget v k = None"

text \<open>\<open>payload[k]\<close>: \<open>Null\<close> where the key is absent.\<close>

definition vindex :: "json \<Rightarrow> string \<Rightarrow> json" where
  "vindex v k = (case vget v k of Some x \<Rightarrow> x | None \<Rightarrow> Null)"

definition get_u64 :: "json \<Rightarrow> string \<Rightarrow> u64 option" where
  "get_u64 v k = Option.bind (vget v k) as_u64"

definition json_u64 :: "u64 \<Rightarrow> json" where
  "json_u64 n = Number (PosInt n)"

lemma is_object_iff [simp]: "is_object v \<longleftrightarrow> (\<exists>m. v = Object m)"
  by (cases v) (auto simp: is_object_def)

lemma is_object_code [code]: "is_object v = (case v of Object _ \<Rightarrow> True | _ \<Rightarrow> False)"
  by (cases v) auto

lemma as_object_Some [simp]: "as_object v = Some m \<longleftrightarrow> v = Object m"
  by (cases v) auto

lemma as_object_None: "as_object v = None \<longleftrightarrow> \<not> is_object v"
  by (cases v) auto

lemma as_u64_json [simp]: "as_u64 (json_u64 n) = Some n"
  by (simp add: json_u64_def)

lemma as_u64_Some: "as_u64 v = Some n \<longleftrightarrow> v = Number (PosInt n)"
  by (cases v rule: as_u64.cases) (auto elim: number_as_u64.elims)

section \<open>Induction and size\<close>

lemma size_value_pair [termination_simp]:
  "(k, v) \<in> set m \<Longrightarrow> size v < Suc (size_list (size_prod (\<lambda>_. 0) size) m)"
  by (induction m) auto

lemma size_value_snd [termination_simp]:
  "p \<in> set m \<Longrightarrow> size (snd p) < Suc (size_list (size_prod (\<lambda>_. 0) size) m)"
  using size_value_pair [of "fst p" "snd p" m] by simp

lemma json_induct [case_names Null Bool Number String Array Object]:
  assumes "P Null" and "\<And>b. P (Bool b)" and "\<And>n. P (Number n)" and "\<And>s. P (String s)"
    and "\<And>vs. (\<And>v. v \<in> set vs \<Longrightarrow> P v) \<Longrightarrow> P (Array vs)"
    and "\<And>m. (\<And>k v. (k, v) \<in> set m \<Longrightarrow> P v) \<Longrightarrow> P (Object m)"
  shows "P v"
proof (induction v rule: json.induct)
  case (Object m)
  then show ?case by (intro assms(6)) (metis snds.intros prod.sel(2))
qed (use assms in auto)

section \<open>Well-formed values\<close>

text \<open>
  What the types of the program guarantee: a negative integer is negative, a float is finite, a
  string is UTF-8, an object is ordered by its keys.
\<close>

fun wf_number :: "number \<Rightarrow> bool" where
  "wf_number (PosInt n) = True"
| "wf_number (NegInt i) = (sint i < 0)"
| "wf_number (Float f) = f64_finite f"

fun wf_value :: "json \<Rightarrow> bool" where
  "wf_value (Number n) = wf_number n"
| "wf_value (String s) = str_ok s"
| "wf_value (Array vs) = list_all wf_value vs"
| "wf_value (Object m) = (bt_ok m \<and> list_all (\<lambda>(k, v). str_ok k \<and> wf_value v) m)"
| "wf_value v = True"

text \<open>Lengths that fit the 32-bit length fields of the storage format.\<close>

definition len_ok :: "'a list \<Rightarrow> bool" where
  "len_ok xs \<longleftrightarrow> length xs < 2 ^ 32"

fun fits :: "json \<Rightarrow> bool" where
  "fits (String s) = len_ok s"
| "fits (Array vs) = (len_ok vs \<and> list_all fits vs)"
| "fits (Object m) = (len_ok m \<and> list_all (\<lambda>(k, v). len_ok k \<and> fits v) m)"
| "fits v = True"

lemma wf_json_u64 [simp]: "wf_value (json_u64 n)"
  by (simp add: json_u64_def)

lemma fits_json_u64 [simp]: "fits (json_u64 n)"
  by (simp add: json_u64_def)

lemma wf_ObjectD:
  assumes "wf_value (Object m)"
  shows "bt_ok m" and "(k, v) \<in> set m \<Longrightarrow> str_ok k" and "(k, v) \<in> set m \<Longrightarrow> wf_value v"
  using assms by (auto simp: list_all_iff)

text \<open>
  Nesting depth: \<open>serde_json\<close> refuses input nested more than 128 levels deep, so every document
  that reaches the engine is within that bound.
\<close>

fun nested :: "nat \<Rightarrow> json \<Rightarrow> bool" where
  "nested d (Array vs) = (case d of 0 \<Rightarrow> False | Suc d' \<Rightarrow> list_all (nested d') vs)"
| "nested d (Object m) = (case d of 0 \<Rightarrow> False | Suc d' \<Rightarrow> list_all (\<lambda>(k, v). nested d' v) m)"
| "nested d v = True"

text \<open>A document, and a field of a document object.\<close>

definition doc_ok :: "json \<Rightarrow> bool" where
  "doc_ok v \<longleftrightarrow> wf_value v \<and> fits v \<and> nested 128 v"

definition field_ok :: "string \<Rightarrow> json \<Rightarrow> bool" where
  "field_ok k v \<longleftrightarrow> str_ok k \<and> len_ok k \<and> wf_value v \<and> fits v \<and> nested 127 v"

lemma doc_ok_Object:
  "doc_ok (Object m) \<longleftrightarrow> bt_ok m \<and> len_ok m \<and> (\<forall>(k, v)\<in>set m. field_ok k v)"
proof -
  have "nested 128 (Object m) = list_all (\<lambda>(k, v). nested 127 v) m"
    using nested.simps(2) [of "Suc 127" m] by simp
  then show ?thesis
    unfolding doc_ok_def field_ok_def wf_value.simps fits.simps list_all_iff by blast
qed

lemma doc_okD: "doc_ok v \<Longrightarrow> wf_value v" "doc_ok v \<Longrightarrow> fits v"
  by (simp_all add: doc_ok_def)

lemma nested_mono: "nested d v \<Longrightarrow> d \<le> d' \<Longrightarrow> nested d' v"
proof (induction v arbitrary: d d' rule: json_induct)
  case (Array vs)
  obtain e e' where d: "d = Suc e" "d' = Suc e'" "e \<le> e'"
    using Array.prems by (cases d; cases d') auto
  have "nested e' v" if "v \<in> set vs" for v
  proof -
    have "nested e v" using that Array.prems(1) d by (auto simp: list_all_iff)
    with Array.IH [OF that] d(3) show ?thesis by blast
  qed
  then show ?case by (simp add: d list_all_iff)
next
  case (Object m)
  obtain e e' where d: "d = Suc e" "d' = Suc e'" "e \<le> e'"
    using Object.prems by (cases d; cases d') auto
  have "nested e' v" if "(k, v) \<in> set m" for k v
  proof -
    have "nested e v" using that Object.prems(1) d by (auto simp: list_all_iff)
    with Object.IH [OF that] d(3) show ?thesis by blast
  qed
  then show ?case by (auto simp: d list_all_iff)
qed simp_all

lemma field_doc_ok: "field_ok k v \<Longrightarrow> doc_ok v"
  by (auto simp: field_ok_def doc_ok_def elim: nested_mono)

end
