(* ===== verification/SystemFields.thy ===== *)
theory SystemFields
  imports Json
begin

text \<open>
  The constants of \<open>common/system_fields.rs\<close>, \<open>common/log_commands.rs\<close> and
  \<open>common/where_operators.rs\<close>: public names of system fields, their one-byte storage tokens and
  the integer strings that stand for them in memory; log commands; query operators.
\<close>

section \<open>System fields\<close>

abbreviation VERSION :: string where "VERSION \<equiv> ''_v''"
abbreviation KEY :: string where "KEY \<equiv> ''_key''"
abbreviation SEQ :: string where "SEQ \<equiv> ''_seq''"
abbreviation CREATED_AT :: string where "CREATED_AT \<equiv> ''_createdAt''"
abbreviation MODIFIED_AT :: string where "MODIFIED_AT \<equiv> ''_modifiedAt''"
abbreviation EXPIRES_AT :: string where "EXPIRES_AT \<equiv> ''_expiresAt''"

abbreviation IKEY_VERSION :: string where "IKEY_VERSION \<equiv> ''-1''"
abbreviation IKEY_KEY :: string where "IKEY_KEY \<equiv> ''-2''"
abbreviation IKEY_SEQ :: string where "IKEY_SEQ \<equiv> ''-3''"
abbreviation IKEY_CREATED_AT :: string where "IKEY_CREATED_AT \<equiv> ''-4''"
abbreviation IKEY_MODIFIED_AT :: string where "IKEY_MODIFIED_AT \<equiv> ''-5''"
abbreviation IKEY_EXPIRES_AT :: string where "IKEY_EXPIRES_AT \<equiv> ''-6''"

abbreviation TOK_VERSION :: u8 where "TOK_VERSION \<equiv> 0xff"
abbreviation TOK_KEY :: u8 where "TOK_KEY \<equiv> 0xfe"
abbreviation TOK_SEQ :: u8 where "TOK_SEQ \<equiv> 0xfd"
abbreviation TOK_CREATED_AT :: u8 where "TOK_CREATED_AT \<equiv> 0xfc"
abbreviation TOK_MODIFIED_AT :: u8 where "TOK_MODIFIED_AT \<equiv> 0xfb"
abbreviation TOK_EXPIRES_AT :: u8 where "TOK_EXPIRES_AT \<equiv> 0xfa"

section \<open>Log commands\<close>

abbreviation IKEY_INSERT :: string where "IKEY_INSERT \<equiv> ''-10''"
abbreviation IKEY_DELETE :: string where "IKEY_DELETE \<equiv> ''-11''"
abbreviation IKEY_DROP :: string where "IKEY_DROP \<equiv> ''-12''"
abbreviation IKEY_INDEX :: string where "IKEY_INDEX \<equiv> ''-13''"
abbreviation IKEY_SCHEMA :: string where "IKEY_SCHEMA \<equiv> ''-14''"
abbreviation IKEY_ENC :: string where "IKEY_ENC \<equiv> ''-15''"
abbreviation IKEY_TX_BEGIN :: string where "IKEY_TX_BEGIN \<equiv> ''-16''"
abbreviation IKEY_TX_COMMIT :: string where "IKEY_TX_COMMIT \<equiv> ''-17''"
abbreviation TTL_EXPIRY :: string where "TTL_EXPIRY \<equiv> ''TTL_EXPIRY''"

definition to_ikey :: "string \<Rightarrow> string" where
  "to_ikey cmd =
     (if cmd = ''INSERT'' then IKEY_INSERT
      else if cmd = ''DELETE'' then IKEY_DELETE
      else if cmd = ''DROP'' then IKEY_DROP
      else if cmd = ''INDEX'' then IKEY_INDEX
      else if cmd = ''SCHEMA'' then IKEY_SCHEMA
      else if cmd = ''ENC'' then IKEY_ENC
      else if cmd = ''TX_BEGIN'' then IKEY_TX_BEGIN
      else if cmd = ''TX_COMMIT'' then IKEY_TX_COMMIT
      else [])"

definition from_ikey :: "string \<Rightarrow> string option" where
  "from_ikey ikey =
     (if ikey = IKEY_INSERT then Some ''INSERT''
      else if ikey = IKEY_DELETE then Some ''DELETE''
      else if ikey = IKEY_DROP then Some ''DROP''
      else if ikey = IKEY_INDEX then Some ''INDEX''
      else if ikey = IKEY_SCHEMA then Some ''SCHEMA''
      else if ikey = IKEY_ENC then Some ''ENC''
      else if ikey = IKEY_TX_BEGIN then Some ''TX_BEGIN''
      else if ikey = IKEY_TX_COMMIT then Some ''TX_COMMIT''
      else None)"

lemma from_ikey_to_ikey: "to_ikey cmd \<noteq> [] \<Longrightarrow> from_ikey (to_ikey cmd) = Some cmd"
  by (auto simp: to_ikey_def from_ikey_def split: if_splits)

section \<open>Query operators\<close>

datatype WhereOperator =
  Eq | NotEq | Gt | Gte | Lt | Lte | In | NotIn | Contains | Or | And

fun op_as_str :: "WhereOperator \<Rightarrow> string" where
  "op_as_str Eq = ''$eq''"
| "op_as_str NotEq = ''$ne''"
| "op_as_str Gt = ''$gt''"
| "op_as_str Gte = ''$gte''"
| "op_as_str Lt = ''$lt''"
| "op_as_str Lte = ''$lte''"
| "op_as_str In = ''$in''"
| "op_as_str NotIn = ''$nin''"
| "op_as_str Contains = ''$ct''"
| "op_as_str Or = ''$or''"
| "op_as_str And = ''$and''"

fun op_aliases :: "WhereOperator \<Rightarrow> string list" where
  "op_aliases Eq = [''$eq'', ''$equals'']"
| "op_aliases NotEq = [''$ne'', ''$notEquals'']"
| "op_aliases Gt = [''$gt'', ''$greaterThan'']"
| "op_aliases Gte = [''$gte'', ''$greaterThanOrEqual'']"
| "op_aliases Lt = [''$lt'', ''$lessThan'']"
| "op_aliases Lte = [''$lte'', ''$lessThanOrEqual'']"
| "op_aliases In = [''$in'', ''$oneOf'']"
| "op_aliases NotIn = [''$nin'', ''$notIn'']"
| "op_aliases Contains = [''$ct'', ''$contains'']"
| "op_aliases Or = [''$or'']"
| "op_aliases And = [''$and'']"

definition op_all :: "WhereOperator list" where
  "op_all = [Eq, NotEq, Gt, Gte, Lt, Lte, In, NotIn, Contains, Or, And]"

definition op_from_str :: "string \<Rightarrow> WhereOperator option" where
  "op_from_str s = List.find (\<lambda>op. s \<in> set (op_aliases op)) op_all"

lemma op_from_str_alias: "s \<in> set (op_aliases op) \<longleftrightarrow> op_from_str s = Some op"
  by (cases op) (auto simp: op_from_str_def op_all_def)

end
