(* ===== verification/MsgPack.thy ===== *)
theory MsgPack
  imports SystemFields
begin

text \<open>
  The storage format of \<open>common/system_field_tokens.rs\<close>: the MessagePack writer and reader for
  documents, with the keys of system fields as one-byte negative integers. A cursor (a buffer
  and a position) is the list of bytes not read yet. The reader is recursive and carries fuel;
  \<open>read_value_enough\<close> shows that one unit more than the number of bytes is always enough.
  The main result is the round trip \<open>msgpack_roundtrip\<close>.
\<close>

unbundle bit_operations_syntax

section \<open>Writer\<close>

definition write_str :: "string \<Rightarrow> bytes" where
  "write_str s =
     (let len = length s in
      (if len \<le> 31 then [0xa0 OR word_of_nat len]
       else if len \<le> 0xff then [0xd9, word_of_nat len]
       else if len \<le> 0xffff then 0xda # be_bytes 2 len
       else 0xdb # be_bytes 4 len) @ bytes_of s)"

definition write_array_header :: "nat \<Rightarrow> bytes" where
  "write_array_header len =
     (if len \<le> 15 then [0x90 OR word_of_nat len]
      else if len \<le> 0xffff then 0xdc # be_bytes 2 len
      else 0xdd # be_bytes 4 len)"

definition write_map_header :: "nat \<Rightarrow> bytes" where
  "write_map_header len =
     (if len \<le> 15 then [0x80 OR word_of_nat len]
      else if len \<le> 0xffff then 0xde # be_bytes 2 len
      else 0xdf # be_bytes 4 len)"

definition write_number :: "number \<Rightarrow> bytes" where
  "write_number n =
     (case number_as_u64 n of
        Some u \<Rightarrow>
          (if u \<le> 0x7f then [ucast u]
           else if u \<le> 0xff then [0xcc, ucast u]
           else if u \<le> 0xffff then 0xcd # be_bytes 2 (unat u)
           else if u \<le> 0xffffffff then 0xce # be_bytes 4 (unat u)
           else 0xcf # be_bytes 8 (unat u))
      | None \<Rightarrow>
          (case number_as_i64 n of
             Some i \<Rightarrow>
               (if sint i \<ge> - 32 then [ucast i]
                else if sint i \<ge> - 128 then [0xd0, ucast i]
                else if sint i \<ge> - 32768 then 0xd1 # be_bytes 2 (unat i)
                else if sint i \<ge> - 2147483648 then 0xd2 # be_bytes 4 (unat i)
                else 0xd3 # be_bytes 8 (unat i))
           | None \<Rightarrow> (case n of Float f \<Rightarrow> 0xcb # be_bytes 8 (unat f) | _ \<Rightarrow> [])))"

text \<open>The token of a system field, under its public or its in-memory name.\<close>

definition key_token :: "string \<Rightarrow> u8 option" where
  "key_token k =
     (if k = VERSION \<or> k = IKEY_VERSION then Some TOK_VERSION
      else if k = KEY \<or> k = IKEY_KEY then Some TOK_KEY
      else if k = SEQ \<or> k = IKEY_SEQ then Some TOK_SEQ
      else if k = CREATED_AT \<or> k = IKEY_CREATED_AT then Some TOK_CREATED_AT
      else if k = MODIFIED_AT \<or> k = IKEY_MODIFIED_AT then Some TOK_MODIFIED_AT
      else if k = EXPIRES_AT \<or> k = IKEY_EXPIRES_AT then Some TOK_EXPIRES_AT
      else None)"

definition write_map_key :: "string \<Rightarrow> bytes" where
  "write_map_key k = (case key_token k of Some t \<Rightarrow> [t] | None \<Rightarrow> write_str k)"

fun write_value :: "json \<Rightarrow> bytes" where
  "write_value Null = [0xc0]"
| "write_value (Bool b) = (if b then [0xc3] else [0xc2])"
| "write_value (Number n) = write_number n"
| "write_value (String s) = write_str s"
| "write_value (Array vs) = write_array_header (length vs) @ concat (map write_value vs)"
| "write_value (Object m) =
     write_map_header (length m) @ concat (map (\<lambda>(k, v). write_map_key k @ write_value v) m)"

definition value_to_msgpack :: "json \<Rightarrow> bytes" where
  "value_to_msgpack v = write_value v"

section \<open>Reader\<close>

text \<open>\<open>if *pos + n > buf.len() { return None }\<close>, then the big-endian integer of \<open>n\<close> bytes.\<close>

definition read_be :: "nat \<Rightarrow> bytes \<Rightarrow> (nat \<times> bytes) option" where
  "read_be n bs = (if length bs < n then None else Some (from_be (take n bs), drop n bs))"

definition read_str_body :: "nat \<Rightarrow> bytes \<Rightarrow> (string \<times> bytes) option" where
  "read_str_body len bs =
     (if length bs < len then None
      else case from_utf8 (take len bs) of None \<Rightarrow> None | Some s \<Rightarrow> Some (s, drop len bs))"

definition read_str_value :: "nat \<Rightarrow> bytes \<Rightarrow> (json \<times> bytes) option" where
  "read_str_value len bs = map_option (\<lambda>(s, r). (String s, r)) (read_str_body len bs)"

primrec read_array :: "(bytes \<Rightarrow> (json \<times> bytes) option) \<Rightarrow> nat \<Rightarrow> bytes \<Rightarrow>
    (json list \<times> bytes) option" where
  "read_array rv 0 bs = Some ([], bs)"
| "read_array rv (Suc n) bs =
     (case rv bs of None \<Rightarrow> None
      | Some (v, r) \<Rightarrow> map_option (\<lambda>(vs, r'). (v # vs, r')) (read_array rv n r))"

definition read_map_key :: "(bytes \<Rightarrow> (json \<times> bytes) option) \<Rightarrow> bytes \<Rightarrow>
    (string \<times> bytes) option" where
  "read_map_key rv bs =
     (case bs of [] \<Rightarrow> None
      | b # r \<Rightarrow>
        (if b = TOK_VERSION then Some (IKEY_VERSION, r)
         else if b = TOK_KEY then Some (IKEY_KEY, r)
         else if b = TOK_SEQ then Some (IKEY_SEQ, r)
         else if b = TOK_CREATED_AT then Some (IKEY_CREATED_AT, r)
         else if b = TOK_MODIFIED_AT then Some (IKEY_MODIFIED_AT, r)
         else if b = TOK_EXPIRES_AT then Some (IKEY_EXPIRES_AT, r)
         else if 0xe0 \<le> b \<and> b \<le> 0xf9 then Some (dec_int (sint b), r)
         else (case rv bs of Some (String s, r') \<Rightarrow> Some (s, r') | _ \<Rightarrow> None)))"

primrec read_map :: "(bytes \<Rightarrow> (json \<times> bytes) option) \<Rightarrow> nat \<Rightarrow> object \<Rightarrow> bytes \<Rightarrow>
    (object \<times> bytes) option" where
  "read_map rv 0 m bs = Some (m, bs)"
| "read_map rv (Suc n) m bs =
     (case read_map_key rv bs of None \<Rightarrow> None
      | Some (k, r) \<Rightarrow>
        (case rv r of None \<Rightarrow> None
         | Some (v, r') \<Rightarrow> read_map rv n (bt_insert k v m) r'))"

text \<open>An IEEE single as a double: \<open>f32 as f64\<close> is exact; a subnormal single is normalised.\<close>

definition f64_of_f32 :: "u32 \<Rightarrow> f64" where
  "f64_of_f32 w =
     (let sign = drop_bit 31 w; ex = unat (take_bit 8 (drop_bit 23 w));
          man = unat (take_bit 23 w);
          pack = (\<lambda>e m. push_bit 63 (ucast sign) OR push_bit 52 (word_of_nat e) OR word_of_nat m)
      in if ex = 255 then pack 2047 (man * 2 ^ 29)
         else if ex > 0 then pack (ex + 896) (man * 2 ^ 29)
         else if man = 0 then pack 0 0
         else (let top = Max (set (filter (bit w) [0..<23]))
               in pack (top + 874) ((man - 2 ^ top) * 2 ^ (52 - top))))"

definition number_value :: "number option \<Rightarrow> bytes \<Rightarrow> (json \<times> bytes) option" where
  "number_value n r = map_option (\<lambda>x. (Number x, r)) n"

primrec read_value :: "nat \<Rightarrow> bytes \<Rightarrow> (json \<times> bytes) option" where
  "read_value 0 bs = None"
| "read_value (Suc fuel) bs =
     (case bs of [] \<Rightarrow> None
      | b # r \<Rightarrow>
        (if b = 0xc0 then Some (Null, r)
         else if b = 0xc2 then Some (Bool False, r)
         else if b = 0xc3 then Some (Bool True, r)
         else if b \<le> 0x7f then Some (Number (PosInt (ucast b)), r)
         else if 0xe0 \<le> b then Some (Number (number_from_i64 (scast b)), r)
         else if b = 0xcc then
           (case r of [] \<Rightarrow> None | v # r' \<Rightarrow> Some (Number (PosInt (ucast v)), r'))
         else if b = 0xcd then
           map_option (\<lambda>(n, r'). (Number (PosInt (word_of_nat n)), r')) (read_be 2 r)
         else if b = 0xce then
           map_option (\<lambda>(n, r'). (Number (PosInt (word_of_nat n)), r')) (read_be 4 r)
         else if b = 0xcf then
           map_option (\<lambda>(n, r'). (Number (PosInt (word_of_nat n)), r')) (read_be 8 r)
         else if b = 0xd0 then
           (case r of [] \<Rightarrow> None | v # r' \<Rightarrow> Some (Number (number_from_i64 (scast v)), r'))
         else if b = 0xd1 then
           map_option (\<lambda>(n, r'). (Number (number_from_i64 (scast (word_of_nat n :: 16 word))), r'))
             (read_be 2 r)
         else if b = 0xd2 then
           map_option (\<lambda>(n, r'). (Number (number_from_i64 (scast (word_of_nat n :: 32 word))), r'))
             (read_be 4 r)
         else if b = 0xd3 then
           map_option (\<lambda>(n, r'). (Number (number_from_i64 (word_of_nat n)), r')) (read_be 8 r)
         else if b = 0xca then
           (case read_be 4 r of None \<Rightarrow> None
            | Some (n, r') \<Rightarrow> number_value (number_from_f64 (f64_of_f32 (word_of_nat n))) r')
         else if b = 0xcb then
           (case read_be 8 r of None \<Rightarrow> None
            | Some (n, r') \<Rightarrow> number_value (number_from_f64 (word_of_nat n)) r')
         else if 0xa0 \<le> b \<and> b \<le> 0xbf then read_str_value (unat (b AND 0x1f)) r
         else if b = 0xd9 then
           (case r of [] \<Rightarrow> None | n # r' \<Rightarrow> read_str_value (unat n) r')
         else if b = 0xda then
           (case read_be 2 r of None \<Rightarrow> None | Some (n, r') \<Rightarrow> read_str_value n r')
         else if b = 0xdb then
           (case read_be 4 r of None \<Rightarrow> None | Some (n, r') \<Rightarrow> read_str_value n r')
         else if 0x90 \<le> b \<and> b \<le> 0x9f then
           map_option (\<lambda>(vs, r'). (Array vs, r')) (read_array (read_value fuel) (unat (b AND 0x0f)) r)
         else if b = 0xdc then
           (case read_be 2 r of None \<Rightarrow> None
            | Some (n, r') \<Rightarrow>
              map_option (\<lambda>(vs, r'). (Array vs, r')) (read_array (read_value fuel) n r'))
         else if b = 0xdd then
           (case read_be 4 r of None \<Rightarrow> None
            | Some (n, r') \<Rightarrow>
              map_option (\<lambda>(vs, r'). (Array vs, r')) (read_array (read_value fuel) n r'))
         else if 0x80 \<le> b \<and> b \<le> 0x8f then
           map_option (\<lambda>(m, r'). (Object m, r')) (read_map (read_value fuel) (unat (b AND 0x0f)) [] r)
         else if b = 0xde then
           (case read_be 2 r of None \<Rightarrow> None
            | Some (n, r') \<Rightarrow>
              map_option (\<lambda>(m, r'). (Object m, r')) (read_map (read_value fuel) n [] r'))
         else if b = 0xdf then
           (case read_be 4 r of None \<Rightarrow> None
            | Some (n, r') \<Rightarrow>
              map_option (\<lambda>(m, r'). (Object m, r')) (read_map (read_value fuel) n [] r'))
         else if b = 0xc4 then
           (case r of [] \<Rightarrow> None | n # r' \<Rightarrow> Some (Null, drop (unat n) r'))
         else if b = 0xc5 then
           (case read_be 2 r of None \<Rightarrow> None | Some (n, r') \<Rightarrow> Some (Null, drop n r'))
         else if b = 0xc6 then
           (case read_be 4 r of None \<Rightarrow> None | Some (n, r') \<Rightarrow> Some (Null, drop n r'))
         else None))"

definition msgpack_to_value :: "bytes \<Rightarrow> json option" where
  "msgpack_to_value bs = map_option fst (read_value (Suc (length bs)) bs)"

section \<open>The API boundary\<close>

text \<open>The public name of a key that is stored as an integer string.\<close>

definition expand_key :: "string \<Rightarrow> string" where
  "expand_key k =
     (if k = IKEY_VERSION then VERSION
      else if k = IKEY_KEY then KEY
      else if k = IKEY_SEQ then SEQ
      else if k = IKEY_CREATED_AT then CREATED_AT
      else if k = IKEY_MODIFIED_AT then MODIFIED_AT
      else if k = IKEY_EXPIRES_AT then EXPIRES_AT
      else k)"

text \<open>An object built by inserting its entries in order, a later entry replacing an earlier one.\<close>

definition of_entries :: "(string \<times> json) list \<Rightarrow> object" where
  "of_entries kvs = fold (\<lambda>(k, v). bt_insert k v) kvs []"

fun expand_system_fields :: "json \<Rightarrow> json" where
  "expand_system_fields (Object m) =
     Object (of_entries (map (\<lambda>(k, v). (expand_key k, expand_system_fields v)) m))"
| "expand_system_fields (Array vs) = Array (map expand_system_fields vs)"
| "expand_system_fields v = v"

section \<open>Reading back what was written\<close>

text \<open>The name a key has after a write and a read: system fields come back as integer strings.\<close>

definition ikey_of :: "string \<Rightarrow> string" where
  "ikey_of k =
     (if k = VERSION then IKEY_VERSION
      else if k = KEY then IKEY_KEY
      else if k = SEQ then IKEY_SEQ
      else if k = CREATED_AT then IKEY_CREATED_AT
      else if k = MODIFIED_AT then IKEY_MODIFIED_AT
      else if k = EXPIRES_AT then IKEY_EXPIRES_AT
      else k)"

text \<open>
  The stored form of a value: every object rebuilt from its entries in key order with the keys
  renamed, a later entry replacing an earlier one of the same name.
\<close>

fun tokenize :: "json \<Rightarrow> json" where
  "tokenize (Array vs) = Array (map tokenize vs)"
| "tokenize (Object m) = Object (of_entries (map (\<lambda>(k, v). (ikey_of k, tokenize v)) m))"
| "tokenize v = v"

lemmas byte_nat = word_le_nat_alt word_less_nat_alt word_unat_eq_iff

lemma read_be_be_bytes [simp, codec]: "read_be n (be_bytes n x @ r) = Some (x mod 256 ^ n, r)"
  by (simp add: read_be_def from_be_be_bytes)

lemma read_str_value_bytes_of [simp, codec]:
  "str_ok s \<Longrightarrow> n = length s \<Longrightarrow> read_str_value n (bytes_of s @ r) = Some (String s, r)"
  by (simp add: read_str_value_def read_str_body_def)

lemma read_posfix: "b \<le> 0x7f \<Longrightarrow> read_value (Suc f) (b # r) = Some (Number (PosInt (ucast b)), r)"
  by (simp add: byte_nat)

lemma read_negfix:
  "0xe0 \<le> b \<Longrightarrow> read_value (Suc f) (b # r) = Some (Number (number_from_i64 (scast b)), r)"
  by (simp add: byte_nat)

lemma read_fixstr:
  "0xa0 \<le> b \<Longrightarrow> b \<le> 0xbf \<Longrightarrow>
     read_value (Suc f) (b # r) = read_str_value (unat (b AND 0x1f)) r"
  by (simp add: byte_nat)

lemma read_fixarray:
  "0x90 \<le> b \<Longrightarrow> b \<le> 0x9f \<Longrightarrow>
     read_value (Suc f) (b # r) =
       map_option (\<lambda>(vs, r'). (Array vs, r')) (read_array (read_value f) (unat (b AND 0x0f)) r)"
  by (simp add: byte_nat)

lemma read_fixmap:
  "0x80 \<le> b \<Longrightarrow> b \<le> 0x8f \<Longrightarrow>
     read_value (Suc f) (b # r) =
       map_option (\<lambda>(m, r'). (Object m, r')) (read_map (read_value f) (unat (b AND 0x0f)) [] r)"
  by (simp add: byte_nat)

text \<open>One equation per constant tag byte; the general equation is then taken out of the simpset.\<close>

lemma read_tags [simp]:
  "read_value (Suc f) [] = None"
  "read_value (Suc f) (0xc0 # r) = Some (Null, r)"
  "read_value (Suc f) (0xc2 # r) = Some (Bool False, r)"
  "read_value (Suc f) (0xc3 # r) = Some (Bool True, r)"
  "read_value (Suc f) (0xcc # v # r) = Some (Number (PosInt (ucast v)), r)"
  "read_value (Suc f) (0xcd # r) =
     map_option (\<lambda>(n, r'). (Number (PosInt (word_of_nat n)), r')) (read_be 2 r)"
  "read_value (Suc f) (0xce # r) =
     map_option (\<lambda>(n, r'). (Number (PosInt (word_of_nat n)), r')) (read_be 4 r)"
  "read_value (Suc f) (0xcf # r) =
     map_option (\<lambda>(n, r'). (Number (PosInt (word_of_nat n)), r')) (read_be 8 r)"
  "read_value (Suc f) (0xd0 # v # r) = Some (Number (number_from_i64 (scast v)), r)"
  "read_value (Suc f) (0xd1 # r) =
     map_option (\<lambda>(n, r'). (Number (number_from_i64 (scast (word_of_nat n :: 16 word))), r'))
       (read_be 2 r)"
  "read_value (Suc f) (0xd2 # r) =
     map_option (\<lambda>(n, r'). (Number (number_from_i64 (scast (word_of_nat n :: 32 word))), r'))
       (read_be 4 r)"
  "read_value (Suc f) (0xd3 # r) =
     map_option (\<lambda>(n, r'). (Number (number_from_i64 (word_of_nat n)), r')) (read_be 8 r)"
  "read_value (Suc f) (0xcb # r) =
     (case read_be 8 r of None \<Rightarrow> None
      | Some (n, r') \<Rightarrow> number_value (number_from_f64 (word_of_nat n)) r')"
  "read_value (Suc f) (0xd9 # n # r) = read_str_value (unat n) r"
  "read_value (Suc f) (0xda # r) =
     (case read_be 2 r of None \<Rightarrow> None | Some (n, r') \<Rightarrow> read_str_value n r')"
  "read_value (Suc f) (0xdb # r) =
     (case read_be 4 r of None \<Rightarrow> None | Some (n, r') \<Rightarrow> read_str_value n r')"
  "read_value (Suc f) (0xdc # r) =
     (case read_be 2 r of None \<Rightarrow> None
      | Some (n, r') \<Rightarrow> map_option (\<lambda>(vs, r'). (Array vs, r')) (read_array (read_value f) n r'))"
  "read_value (Suc f) (0xdd # r) =
     (case read_be 4 r of None \<Rightarrow> None
      | Some (n, r') \<Rightarrow> map_option (\<lambda>(vs, r'). (Array vs, r')) (read_array (read_value f) n r'))"
  "read_value (Suc f) (0xde # r) =
     (case read_be 2 r of None \<Rightarrow> None
      | Some (n, r') \<Rightarrow> map_option (\<lambda>(m, r'). (Object m, r')) (read_map (read_value f) n [] r'))"
  "read_value (Suc f) (0xdf # r) =
     (case read_be 4 r of None \<Rightarrow> None
      | Some (n, r') \<Rightarrow> map_option (\<lambda>(m, r'). (Object m, r')) (read_map (read_value f) n [] r'))"
  by simp_all

declare read_value.simps(2) [simp del]

lemma fix_headers:
  "n \<le> 31 \<Longrightarrow> 0xa0 \<le> (0xa0 OR word_of_nat n :: u8) \<and> (0xa0 OR word_of_nat n :: u8) \<le> 0xbf \<and>
     unat ((0xa0 OR word_of_nat n :: u8) AND 0x1f) = n"
  "n \<le> 15 \<Longrightarrow> 0x90 \<le> (0x90 OR word_of_nat n :: u8) \<and> (0x90 OR word_of_nat n :: u8) \<le> 0x9f \<and>
     unat ((0x90 OR word_of_nat n :: u8) AND 0x0f) = n"
  "n \<le> 15 \<Longrightarrow> 0x80 \<le> (0x80 OR word_of_nat n :: u8) \<and> (0x80 OR word_of_nat n :: u8) \<le> 0x8f \<and>
     unat ((0x80 OR word_of_nat n :: u8) AND 0x0f) = n"
proof -
  have a: "list_all (\<lambda>n. 0xa0 \<le> (0xa0 OR word_of_nat n :: u8) \<and> (0xa0 OR word_of_nat n :: u8) \<le> 0xbf \<and>
     unat ((0xa0 OR word_of_nat n :: u8) AND 0x1f) = n) [0..<32]" by code_simp
  have b: "list_all (\<lambda>n. 0x90 \<le> (0x90 OR word_of_nat n :: u8) \<and> (0x90 OR word_of_nat n :: u8) \<le> 0x9f \<and>
     unat ((0x90 OR word_of_nat n :: u8) AND 0x0f) = n) [0..<16]" by code_simp
  have c: "list_all (\<lambda>n. 0x80 \<le> (0x80 OR word_of_nat n :: u8) \<and> (0x80 OR word_of_nat n :: u8) \<le> 0x8f \<and>
     unat ((0x80 OR word_of_nat n :: u8) AND 0x0f) = n) [0..<16]" by code_simp
  show "n \<le> 31 \<Longrightarrow> 0xa0 \<le> (0xa0 OR word_of_nat n :: u8) \<and> (0xa0 OR word_of_nat n :: u8) \<le> 0xbf \<and>
     unat ((0xa0 OR word_of_nat n :: u8) AND 0x1f) = n"
    using a by (simp only: list_all_iff set_upt) (simp add: Ball_def)
  show "n \<le> 15 \<Longrightarrow> 0x90 \<le> (0x90 OR word_of_nat n :: u8) \<and> (0x90 OR word_of_nat n :: u8) \<le> 0x9f \<and>
     unat ((0x90 OR word_of_nat n :: u8) AND 0x0f) = n"
    using b by (simp only: list_all_iff set_upt) (simp add: Ball_def)
  show "n \<le> 15 \<Longrightarrow> 0x80 \<le> (0x80 OR word_of_nat n :: u8) \<and> (0x80 OR word_of_nat n :: u8) \<le> 0x8f \<and>
     unat ((0x80 OR word_of_nat n :: u8) AND 0x0f) = n"
    using c by (simp only: list_all_iff set_upt) (simp add: Ball_def)
qed

lemma read_write_str [codec]:
  assumes "str_ok s" and "len_ok s"
  shows "read_value (Suc f) (write_str s @ r) = Some (String s, r)"
proof -
  have len: "length s < 256 ^ 4" using assms(2) by (simp add: len_ok_def)
  consider "length s \<le> 31" | "31 < length s" "length s \<le> 0xff"
    | "0xff < length s" "length s \<le> 0xffff" | "0xffff < length s" by linarith
  then show ?thesis
  proof cases
    case 1
    then show ?thesis
      using assms(1) by (simp add: write_str_def read_fixstr fix_headers(1))
  next
    case 2
    then show ?thesis
      using assms(1) by (simp add: write_str_def unat_of_nat)
  next
    case 3
    then show ?thesis
      using assms(1) by (simp add: write_str_def)
  next
    case 4
    then show ?thesis
      using assms(1) len by (simp add: write_str_def)
  qed
qed

lemma unat_ucast_mod: "unat (ucast w :: 'b::len word) = unat w mod 2 ^ LENGTH('b)"
  by (simp add: unsigned_ucast_eq take_bit_eq_mod)

text \<open>Narrowing a small negative number to fewer bits and sign-extending it again.\<close>

lemma ucast_sint:
  assumes "LENGTH('b::len) \<le> 64"
  shows "(ucast (i :: u64) :: 'b word) = word_of_int (sint i)"
proof -
  have "is_down (ucast :: u64 \<Rightarrow> 'b word)"
    using assms by (simp add: is_down)
  then have "ucast (word_of_int (sint i) :: u64) = (word_of_int (sint i) :: 'b word)"
    by (rule ucast_down_wi)
  then show ?thesis by simp
qed

lemma scast_narrow:
  assumes "- (2 ^ (LENGTH('b::len) - 1)) \<le> sint (i :: u64)" and "sint i < 2 ^ (LENGTH('b) - 1)"
    and "LENGTH('b) \<le> 64"
  shows "scast (ucast i :: 'b word) = i"
proof -
  have "sint (ucast i :: 'b word) = sint i"
    unfolding ucast_sint [OF assms(3)] sint_sbintrunc'
    by (rule signed_take_bit_int_eq_self [OF assms(1,2)])
  then show ?thesis by (simp add: scast_eq)
qed

lemma negfix_bound:
  assumes "sint (i :: u64) < 0" and "- 32 \<le> sint i"
  shows "(0xe0 :: u8) \<le> ucast i"
proof -
  have le: "LENGTH(8) \<le> 64" by simp
  have "uint (ucast i :: u8) = sint i mod 256"
    unfolding ucast_sint [OF le] uint_word_of_int by simp
  also have "\<dots> = sint i + 256"
    using assms by presburger
  finally show ?thesis
    using assms by (simp add: word_le_def)
qed

lemma word_of_nat_mod16: "(word_of_nat (unat (i :: u64) mod 65536) :: 16 word) = ucast i"
  by (simp add: word_unat_eq_iff unat_ucast_mod unat_of_nat)

lemma word_of_nat_mod32: "(word_of_nat (unat (i :: u64) mod 4294967296) :: 32 word) = ucast i"
  by (simp add: word_unat_eq_iff unat_ucast_mod unat_of_nat)

lemma read_write_number [codec]:
  assumes "wf_number n"
  shows "read_value (Suc f) (write_number n @ r) = Some (Number n, r)"
proof (cases n)
  case (PosInt u)
  consider "u \<le> 0x7f" | "\<not> u \<le> 0x7f" "u \<le> 0xff" | "\<not> u \<le> 0x7f" "\<not> u \<le> 0xff" "u \<le> 0xffff"
    | "\<not> u \<le> 0x7f" "\<not> u \<le> 0xff" "\<not> u \<le> 0xffff" "u \<le> 0xffffffff"
    | "\<not> u \<le> 0x7f" "\<not> u \<le> 0xff" "\<not> u \<le> 0xffff" "\<not> u \<le> 0xffffffff" by blast
  then show ?thesis
  proof cases
    case 1
    then have "(ucast u :: u8) \<le> 0x7f" and "ucast (ucast u :: u8) = u"
      by (simp_all add: byte_nat unat_ucast_mod)
    with 1 show ?thesis by (simp add: PosInt write_number_def read_posfix)
  next
    case 2
    then have "ucast (ucast u :: u8) = u" by (simp add: byte_nat unat_ucast_mod)
    with 2 show ?thesis by (simp add: PosInt write_number_def)
  next
    case 3
    then have "unat u mod 65536 = unat u" by (simp add: byte_nat)
    with 3 show ?thesis by (simp add: PosInt write_number_def)
  next
    case 4
    then have "unat u mod 4294967296 = unat u" by (simp add: byte_nat)
    with 4 show ?thesis by (simp add: PosInt write_number_def)
  next
    case 5
    have "unat u mod 18446744073709551616 = unat u"
      using unsigned_less [of u, where ?'a = nat] by simp
    with 5 show ?thesis by (simp add: PosInt write_number_def)
  qed
next
  case (Float x)
  have "unat x mod 18446744073709551616 = unat x"
    using unsigned_less [of x, where ?'a = nat] by simp
  with assms show ?thesis
    by (simp add: Float write_number_def number_from_f64_def number_value_def)
next
  case (NegInt i)
  have neg: "sint i < 0" using assms by (simp add: NegInt)
  consider "sint i \<ge> - 32" | "sint i < - 32" "sint i \<ge> - 128"
    | "sint i < - 128" "sint i \<ge> - 32768"
    | "sint i < - 32768" "sint i \<ge> - 2147483648" | "sint i < - 2147483648" by linarith
  then show ?thesis
  proof cases
    case 1
    then have "scast (ucast i :: u8) = i" and "(0xe0 :: u8) \<le> ucast i"
      using neg by (auto intro: scast_narrow negfix_bound)
    with 1 neg show ?thesis
      by (simp add: NegInt write_number_def read_negfix number_from_i64_def)
  next
    case 2
    then have "scast (ucast i :: u8) = i"
      using neg by (auto intro: scast_narrow)
    with 2 neg show ?thesis by (simp add: NegInt write_number_def number_from_i64_def)
  next
    case 3
    then have "scast (ucast i :: 16 word) = i"
      using neg by (auto intro: scast_narrow)
    with 3 neg show ?thesis
      by (simp add: NegInt write_number_def number_from_i64_def word_of_nat_mod16)
  next
    case 4
    then have "scast (ucast i :: 32 word) = i"
      using neg by (auto intro: scast_narrow)
    with 4 neg show ?thesis
      by (simp add: NegInt write_number_def number_from_i64_def word_of_nat_mod32)
  next
    case 5
    have "unat i mod 18446744073709551616 = unat i"
      using unsigned_less [of i, where ?'a = nat] by simp
    with 5 neg show ?thesis by (simp add: NegInt write_number_def number_from_i64_def)
  qed
qed

lemma write_number_not_Nil [simp]: "write_number n \<noteq> []"
  by (cases n) (auto simp: write_number_def)

lemma write_str_not_Nil [simp]: "write_str s \<noteq> []"
  by (simp add: write_str_def Let_def)

lemma write_array_header_not_Nil [simp]: "write_array_header n \<noteq> []"
  by (simp add: write_array_header_def)

lemma write_map_header_not_Nil [simp]: "write_map_header n \<noteq> []"
  by (simp add: write_map_header_def)

lemma write_value_not_Nil [simp]: "write_value v \<noteq> []"
  by (cases v) auto

lemma write_str_head: "\<exists>b t. write_str s = b # t \<and> \<not> 0xe0 \<le> b"
proof (cases "length s \<le> 31")
  case True
  then have "(0xa0 OR word_of_nat (length s) :: u8) \<le> 0xbf"
    using fix_headers(1) by blast
  then have "\<not> 0xe0 \<le> (0xa0 OR word_of_nat (length s) :: u8)"
    by (simp add: byte_nat)
  with True show ?thesis by (simp add: write_str_def)
next
  case False
  then show ?thesis by (simp add: write_str_def Let_def)
qed

lemma read_write_map_key [codec]:
  assumes "\<And>r'. rv (write_str k @ r') = Some (String k, r')"
  shows "read_map_key rv (write_map_key k @ r) = Some (ikey_of k, r)"
proof (cases "key_token k")
  case None
  obtain b t where b: "write_str k = b # t" "\<not> 0xe0 \<le> b"
    using write_str_head by blast
  then have ne: "b \<noteq> 0xff" "b \<noteq> 0xfe" "b \<noteq> 0xfd" "b \<noteq> 0xfc" "b \<noteq> 0xfb" "b \<noteq> 0xfa"
    by (auto simp: byte_nat)
  have "ikey_of k = k"
    using None by (auto simp: key_token_def ikey_of_def split: if_splits)
  with ne b assms [of r] None show ?thesis
    by (simp add: read_map_key_def write_map_key_def)
next
  case (Some t)
  then show ?thesis
    by (auto simp: key_token_def write_map_key_def read_map_key_def ikey_of_def split: if_splits)
qed

lemma read_array_written:
  assumes "\<And>v r'. v \<in> set vs \<Longrightarrow> rv (write_value v @ r') = Some (tokenize v, r')"
  shows "read_array rv (length vs) (concat (map write_value vs) @ r) = Some (map tokenize vs, r)"
  using assms by (induction vs) auto

lemma read_map_written:
  assumes "\<And>k v r'. (k, v) \<in> set m \<Longrightarrow> rv (write_value v @ r') = Some (tokenize v, r')"
    and "\<And>k v r'. (k, v) \<in> set m \<Longrightarrow> rv (write_str k @ r') = Some (String k, r')"
  shows "read_map rv (length m) acc (concat (map (\<lambda>(k, v). write_map_key k @ write_value v) m) @ r)
    = Some (fold (\<lambda>(k, v). bt_insert k v) (map (\<lambda>(k, v). (ikey_of k, tokenize v)) m) acc, r)"
  using assms
proof (induction m arbitrary: acc)
  case Nil
  show ?case by simp
next
  case (Cons kv m)
  obtain k v where kv: "kv = (k, v)" by (cases kv)
  have key: "read_map_key rv (write_map_key k @ r') = Some (ikey_of k, r')" for r'
    using Cons.prems(2) kv by (intro read_write_map_key) auto
  have val: "rv (write_value v @ r') = Some (tokenize v, r')" for r'
    using Cons.prems(1) kv by auto
  have "read_map rv (length m) acc' (concat (map (\<lambda>(k, v). write_map_key k @ write_value v) m) @ r)
    = Some (fold (\<lambda>(k, v). bt_insert k v) (map (\<lambda>(k, v). (ikey_of k, tokenize v)) m) acc', r)" for acc'
    by (rule Cons.IH) (meson Cons.prems list.set_intros(2))+
  then show ?case by (simp add: kv key val)
qed

lemma read_array_header:
  assumes "len_ok vs"
  shows "read_value (Suc f) (write_array_header (length vs) @ r) =
    map_option (\<lambda>(vs, r'). (Array vs, r')) (read_array (read_value f) (length vs) r)"
proof -
  have "length vs < 256 ^ 4" using assms by (simp add: len_ok_def)
  then show ?thesis
    by (auto simp: write_array_header_def read_fixarray fix_headers(2))
qed

lemma read_map_header_value:
  assumes "len_ok m"
  shows "read_value (Suc f) (write_map_header (length m) @ r) =
    map_option (\<lambda>(m, r'). (Object m, r')) (read_map (read_value f) (length m) [] r)"
proof -
  have "length m < 256 ^ 4" using assms by (simp add: len_ok_def)
  then show ?thesis
    by (auto simp: write_map_header_def read_fixmap fix_headers(3))
qed

lemma length_concat_member: "x \<in> set xs \<Longrightarrow> length (g x) \<le> length (concat (map g xs))"
  by (induction xs) auto

theorem read_write_value [codec]:
  assumes "wf_value v" and "fits v" and "length (write_value v) \<le> f"
  shows "read_value f (write_value v @ r) = Some (tokenize v, r)"
  using assms
proof (induction v arbitrary: f r rule: json_induct)
  case (Array vs)
  obtain f' where f: "f = Suc f'"
    using Array.prems(3) by (cases f) auto
  have len: "length (write_value v) \<le> f'" if "v \<in> set vs" for v
  proof -
    obtain b t where "write_array_header (length vs) = b # t"
      by (meson neq_Nil_conv write_array_header_not_Nil)
    with Array.prems(3) length_concat_member [OF that, of write_value] show ?thesis
      by (simp add: f)
  qed
  have "read_value f' (write_value v @ r') = Some (tokenize v, r')" if "v \<in> set vs" for v r'
    using Array.IH [OF that] Array.prems that len by (auto simp: list_all_iff)
  then show ?case
    using Array.prems by (simp add: f read_array_header read_array_written)
next
  case (Object m)
  obtain f' where f: "f = Suc f'"
    using Object.prems(3) by (cases f) auto
  have len: "length (write_value v) \<le> f'" "f' \<noteq> 0" if "(k, v) \<in> set m" for k v
  proof -
    obtain b t where "write_map_header (length m) = b # t"
      by (meson neq_Nil_conv write_map_header_not_Nil)
    with Object.prems(3) length_concat_member [OF that, of "\<lambda>(k, v). write_map_key k @ write_value v"]
    show "length (write_value v) \<le> f'" by (simp add: f)
    then show "f' \<noteq> 0" by (metis le_zero_eq length_0_conv write_value_not_Nil)
  qed
  have parts: "wf_value v" "fits v" if "(k, v) \<in> set m" for k v
    using Object.prems that by (auto simp: list_all_iff)
  have "read_value f' (write_value v @ r') = Some (tokenize v, r')" if "(k, v) \<in> set m" for k v r'
    using Object.IH [OF that parts [OF that] len(1) [OF that]] .
  moreover have "read_value f' (write_str k @ r') = Some (String k, r')" if "(k, v) \<in> set m" for k v r'
    using Object.prems that len(2) [OF that]
    by (cases f') (auto simp: list_all_iff intro!: read_write_str)
  ultimately show ?case
    using Object.prems by (simp add: f read_map_header_value read_map_written of_entries_def)
next
  case (Number n)
  then show ?case by (cases f) (simp_all add: read_write_number)
next
  case (String s)
  then show ?case by (cases f) (simp_all add: read_write_str)
qed (auto simp: Suc_le_eq dest!: gr0_implies_Suc)

section \<open>Progress of the reader and enough fuel\<close>

definition consumes :: "(bytes \<Rightarrow> ('a \<times> bytes) option) \<Rightarrow> bool" where
  "consumes rv \<longleftrightarrow> (\<forall>bs v r. rv bs = Some (v, r) \<longrightarrow> length r < length bs)"

lemma consumesD: "consumes rv \<Longrightarrow> rv bs = Some (v, r) \<Longrightarrow> length r < length bs"
  by (simp add: consumes_def)

text \<open>A parser result that leaves at most \<open>n\<close> bytes, with one rule per shape of the reader.\<close>

definition leaves :: "nat \<Rightarrow> ('a \<times> bytes) option \<Rightarrow> bool" where
  "leaves n x \<longleftrightarrow> (\<forall>v r. x = Some (v, r) \<longrightarrow> length r \<le> n)"

lemma leaves_None: "leaves n None"
  and leaves_Some: "length r \<le> n \<Longrightarrow> leaves n (Some (v, r))"
  and leaves_if: "leaves n x \<Longrightarrow> leaves n y \<Longrightarrow> leaves n (if c then x else y)"
  and leaves_map: "leaves n z \<Longrightarrow> leaves n (map_option (\<lambda>(v, r). (g v, r)) z)"
  by (auto simp: leaves_def)

lemma leaves_bind:
  "leaves n x \<Longrightarrow> (\<And>k r. length r \<le> n \<Longrightarrow> leaves n (h k r)) \<Longrightarrow>
     leaves n (case x of None \<Rightarrow> None | Some (k, r) \<Rightarrow> h k r)"
  by (auto simp: leaves_def split: option.splits)

lemma leaves_list:
  "length xs \<le> n \<Longrightarrow> (\<And>a t. length t \<le> n \<Longrightarrow> leaves n (h a t)) \<Longrightarrow>
     leaves n (case xs of [] \<Rightarrow> None | a # t \<Rightarrow> h a t)"
  by (cases xs) (auto simp: leaves_None)

lemma leaves_read_be: "length bs \<le> n \<Longrightarrow> leaves n (read_be k bs)"
  by (auto simp: leaves_def read_be_def split: if_splits)

lemma leaves_read_str: "length bs \<le> n \<Longrightarrow> leaves n (read_str_value k bs)"
  by (auto simp: leaves_def read_str_value_def read_str_body_def split: if_splits option.splits)

lemma leaves_number: "length r \<le> n \<Longrightarrow> leaves n (number_value x r)"
  by (auto simp: leaves_def number_value_def)

lemma leaves_read_array: "consumes rv \<Longrightarrow> length bs \<le> n \<Longrightarrow> leaves n (read_array rv k bs)"
proof (induction k arbitrary: bs)
  case (Suc k)
  have "leaves n (read_array rv k r)" if "rv bs = Some (v, r)" for v r
    using consumesD [OF Suc.prems(1) that] Suc.prems by (intro Suc.IH) auto
  then show ?case
    by (auto simp: leaves_def split: option.splits)
qed (simp add: leaves_def)

lemma read_map_key_length:
  "consumes rv \<Longrightarrow> read_map_key rv bs = Some (k, r) \<Longrightarrow> length r < length bs"
  by (auto simp: read_map_key_def split: list.splits if_splits option.splits prod.splits json.splits
      dest: consumesD)

lemma leaves_read_map: "consumes rv \<Longrightarrow> length bs \<le> n \<Longrightarrow> leaves n (read_map rv k m bs)"
proof (induction k arbitrary: m bs)
  case (Suc k)
  have "leaves n (read_map rv k m' r')"
    if "read_map_key rv bs = Some (key, r)" "rv r = Some (v, r')" for key r v r' m'
    using read_map_key_length [OF Suc.prems(1) that(1)] consumesD [OF Suc.prems(1) that(2)] Suc.prems
    by (intro Suc.IH) auto
  then show ?case
    by (auto simp: leaves_None split: option.splits)
qed (simp add: leaves_def)

lemmas leaves_intros = leaves_None leaves_Some leaves_if leaves_map leaves_bind leaves_list
  leaves_read_be leaves_read_str leaves_number leaves_read_array leaves_read_map

lemma read_value_consumes: "consumes (read_value f)"
proof (induction f)
  case 0
  show ?case by (simp add: consumes_def)
next
  case (Suc f)
  have "leaves (length r) (read_value (Suc f) (b # r))" for b r
    unfolding read_value.simps(2) list.case
    by (intro leaves_intros Suc) (simp_all add: le_diff_conv)
  then have "length r' < length bs" if "read_value (Suc f) bs = Some (v, r')" for bs v r'
    using that by (cases bs) (auto simp: leaves_def less_Suc_eq_le)
  then show ?case by (simp add: consumes_def)
qed

lemma read_array_cong:
  assumes "consumes rv" and "\<And>bs'. length bs' \<le> length bs \<Longrightarrow> rv bs' = rv' bs'"
  shows "read_array rv n bs = read_array rv' n bs"
  using assms(2)
proof (induction n arbitrary: bs)
  case (Suc n)
  have "rv bs = rv' bs" by (simp add: Suc.prems)
  moreover have "read_array rv n r = read_array rv' n r" if "rv bs = Some (v, r)" for v r
    using consumesD [OF assms(1) that] Suc.prems by (intro Suc.IH) simp
  ultimately show ?case by (auto split: option.splits)
qed simp

lemma read_map_cong:
  assumes "consumes rv" and "\<And>bs'. length bs' \<le> length bs \<Longrightarrow> rv bs' = rv' bs'"
  shows "read_map rv n m bs = read_map rv' n m bs"
  using assms(2)
proof (induction n arbitrary: m bs)
  case (Suc n)
  have "rv bs = rv' bs" by (simp add: Suc.prems)
  then have key: "read_map_key rv bs = read_map_key rv' bs"
    unfolding read_map_key_def by (simp only:)
  have val: "rv r = rv' r" if "read_map_key rv bs = Some (k, r)" for k r
    using read_map_key_length [OF assms(1) that] by (intro Suc.prems) simp
  have rest: "read_map rv n m' r' = read_map rv' n m' r'"
    if "read_map_key rv bs = Some (k, r)" "rv r = Some (v, r')" for k r v r' m'
    using read_map_key_length [OF assms(1) that(1)] consumesD [OF assms(1) that(2)] Suc.prems
    by (intro Suc.IH) simp
  show ?case
    using key val rest by (auto split: option.splits)
qed simp

theorem read_value_enough:
  "length bs < f \<Longrightarrow> length bs < f' \<Longrightarrow> read_value f bs = read_value f' bs"
proof (induction f arbitrary: f' bs)
  case (Suc f)
  obtain g where f': "f' = Suc g" using Suc.prems(2) by (cases f') auto
  show ?case
  proof (cases bs)
    case (Cons b r)
    have sub: "read_value f bs' = read_value g bs'" if "length bs' \<le> length r" for bs'
      using that Suc.prems by (intro Suc.IH) (auto simp: Cons f')
    have arr: "read_array (read_value f) n bs' = read_array (read_value g) n bs'"
      if "length bs' \<le> length r" for n bs'
      using that sub by (intro read_array_cong [OF read_value_consumes]) simp
    have mp: "read_map (read_value f) n m bs' = read_map (read_value g) n m bs'"
      if "length bs' \<le> length r" for n m bs'
      using that sub by (intro read_map_cong [OF read_value_consumes]) simp
    show ?thesis
      by (simp add: read_value.simps(2) Cons f' read_be_def arr mp)
  qed (simp add: f')
qed simp

theorem msgpack_to_value_write:
  assumes "wf_value v" and "fits v"
  shows "msgpack_to_value (value_to_msgpack v) = Some (tokenize v)"
  using read_write_value [OF assms, of _ "[]"]
  by (simp add: msgpack_to_value_def value_to_msgpack_def)

section \<open>Stored values\<close>

lemma bt_ok_of_entries [simp]: "bt_ok (of_entries kvs)"
  unfolding of_entries_def by (rule bt.inv_fold_ins) simp

lemma set_bt_insert: "set (bt_insert k v m) \<subseteq> insert (k, v) (set m)"
  by (induction m) auto

lemma set_fold_bt_insert: "set (fold (\<lambda>(k, v). bt_insert k v) kvs m) \<subseteq> set kvs \<union> set m"
proof (induction kvs arbitrary: m)
  case (Cons kv kvs)
  obtain k v where kv: "kv = (k, v)" by (cases kv)
  show ?case
    using Cons [of "bt_insert k v m"] set_bt_insert [of k v m] by (auto simp: kv)
qed simp

lemma set_of_entries: "set (of_entries kvs) \<subseteq> set kvs"
  using set_fold_bt_insert [of kvs "[]"] by (simp add: of_entries_def)

lemma length_bt_insert: "length (bt_insert k v m) \<le> Suc (length m)"
  by (induction m) auto

lemma length_of_entries: "length (of_entries kvs) \<le> length kvs"
proof -
  have "length (fold (\<lambda>(k, v). bt_insert k v) kvs m) \<le> length kvs + length m" for m :: object
  proof (induction kvs arbitrary: m)
    case (Cons kv kvs)
    obtain k v where kv: "kv = (k, v)" by (cases kv)
    show ?case
      using Cons [of "bt_insert k v m"] length_bt_insert [of k v m] by (simp add: kv)
  qed simp
  from this [of "[]"] show ?thesis by (simp add: of_entries_def)
qed

lemma of_entries_sorted [simp]: "bt_ok m \<Longrightarrow> of_entries m = m"
  using bt_rebuild [of "[]" m] by (simp add: of_entries_def)

lemma map_of_of_entries: "map_of (of_entries kvs) = map_of (rev kvs)"
  by (rule ext) (simp add: of_entries_def bt.get_fold_ins split: option.split)

lemma ikey_of_idem [simp]: "ikey_of (ikey_of k) = ikey_of k"
  by (simp add: ikey_of_def)

lemma ikey_of_bounds: "str_ok k \<Longrightarrow> str_ok (ikey_of k)" "len_ok k \<Longrightarrow> len_ok (ikey_of k)"
proof -
  have "str_ok ''-1''" "str_ok ''-2''" "str_ok ''-3''" "str_ok ''-4''" "str_ok ''-5''" "str_ok ''-6''"
    by (simp_all add: str_ok_def bytes_of_def)
  then show "str_ok k \<Longrightarrow> str_ok (ikey_of k)" by (simp add: ikey_of_def)
qed (simp add: ikey_of_def len_ok_def)

theorem tokenize_idem [simp]: "tokenize (tokenize v) = tokenize v"
proof (induction v rule: json_induct)
  case (Object m)
  let ?kvs = "map (\<lambda>(k, v). (ikey_of k, tokenize v)) m"
  have "(\<lambda>(k, v). (ikey_of k, tokenize v)) kv = kv" if "kv \<in> set (of_entries ?kvs)" for kv
    using that set_of_entries [of ?kvs] Object.IH by auto
  then have "map (\<lambda>(k, v). (ikey_of k, tokenize v)) (of_entries ?kvs) = of_entries ?kvs"
    by (intro map_idI) blast
  then show ?case by simp
qed (simp_all add: comp_def)

lemma wf_tokenize [simp]: "wf_value v \<Longrightarrow> wf_value (tokenize v)"
proof (induction v rule: json_induct)
  case (Object m)
  let ?kvs = "map (\<lambda>(k, v). (ikey_of k, tokenize v)) m"
  have "list_all (\<lambda>(k, v). str_ok k \<and> wf_value v) ?kvs"
    using Object by (auto simp: list_all_iff intro: ikey_of_bounds)
  then show ?case
    using set_of_entries [of ?kvs] by (fastforce simp: list_all_iff)
qed (auto simp: list_all_iff)

lemma fits_tokenize [simp]: "fits v \<Longrightarrow> fits (tokenize v)"
proof (induction v rule: json_induct)
  case (Object m)
  let ?kvs = "map (\<lambda>(k, v). (ikey_of k, tokenize v)) m"
  have "list_all (\<lambda>(k, v). len_ok k \<and> fits v) ?kvs"
    using Object by (auto simp: list_all_iff intro: ikey_of_bounds)
  moreover have "len_ok (of_entries ?kvs)"
    using Object.prems length_of_entries [of ?kvs] by (simp add: len_ok_def)
  ultimately show ?case
    using set_of_entries [of ?kvs] by (fastforce simp: list_all_iff)
qed (auto simp: list_all_iff len_ok_def)

lemma nested_tokenize: "nested d v \<Longrightarrow> nested d (tokenize v)"
proof (induction v arbitrary: d rule: json_induct)
  case (Array vs)
  then show ?case by (cases d) (auto simp: list_all_iff)
next
  case (Object m)
  let ?kvs = "map (\<lambda>(k, v). (ikey_of k, tokenize v)) m"
  show ?case
  proof (cases d)
    case (Suc e)
    then have "list_all (\<lambda>(k, v). nested e v) ?kvs"
      using Object by (auto simp: list_all_iff)
    then show ?thesis
      using Suc set_of_entries [of ?kvs] by (fastforce simp: list_all_iff)
  qed (use Object in simp)
qed simp_all

lemma doc_ok_tokenize [simp]: "doc_ok v \<Longrightarrow> doc_ok (tokenize v)"
  by (simp add: doc_ok_def nested_tokenize)

lemma msgpack_to_value_doc [simp, codec]:
  "doc_ok v \<Longrightarrow> msgpack_to_value (value_to_msgpack v) = Some (tokenize v)"
  by (simp add: msgpack_to_value_write doc_okD)

section \<open>Public names survive storage\<close>

text \<open>Values in which no object uses an integer string of a system field as a key.\<close>

fun no_ikeys :: "json \<Rightarrow> bool" where
  "no_ikeys (Object m) = list_all (\<lambda>(k, v). expand_key k = k \<and> no_ikeys v) m"
| "no_ikeys (Array vs) = list_all no_ikeys vs"
| "no_ikeys v = True"

lemma expand_ikey_of: "expand_key k = k \<Longrightarrow> expand_key (ikey_of k) = k"
  by (auto simp: expand_key_def ikey_of_def split: if_splits)

text \<open>An injective renaming of an object keeps every entry.\<close>

lemma set_of_entries_rename:
  assumes "bt_ok m" and "inj_on f (fst ` set m)"
  shows "set (of_entries (map (\<lambda>(k, v). (f k, g v)) m)) = (\<lambda>(k, v). (f k, g v)) ` set m"
proof -
  let ?kvs = "map (\<lambda>(k, v). (f k, g v)) m"
  have "distinct (map fst m)" using assms(1) by (rule bt_distinct)
  then have "distinct (map f (map fst m))"
    using assms(2) by (subst distinct_map) simp
  then have d: "distinct (map fst ?kvs)"
    by (simp add: comp_def case_prod_unfold)
  then have "map_of (of_entries ?kvs) = map_of ?kvs"
    by (simp add: map_of_of_entries map_of_inject_set rev_map [symmetric])
  then have "set (of_entries ?kvs) = set ?kvs"
    using d bt_distinct [of "of_entries ?kvs"] by (metis bt_ok_of_entries map_of_inject_set)
  then show ?thesis by simp
qed

lemma expand_tokenize:
  assumes "wf_value v" and "no_ikeys v"
  shows "expand_system_fields (tokenize v) = v"
  using assms
proof (induction v rule: json_induct)
  case (Object m)
  let ?t = "\<lambda>(k, v). (ikey_of k, tokenize v)"
  let ?e = "\<lambda>(k, v). (expand_key k, expand_system_fields v)"
  have m: "bt_ok m" using Object.prems by simp
  have kinv: "expand_key (ikey_of k) = k" if "(k, v) \<in> set m" for k v
    using Object.prems that by (intro expand_ikey_of) (auto simp: list_all_iff)
  have vals: "expand_system_fields (tokenize v) = v" if "(k, v) \<in> set m" for k v
    using Object.prems that by (intro Object.IH) (auto simp: list_all_iff)
  let ?m1 = "of_entries (map ?t m)"
  have m1: "set ?m1 = ?t ` set m"
    by (rule set_of_entries_rename [OF m]) (auto intro!: inj_on_inverseI kinv)
  have "inj_on expand_key (fst ` set ?m1)"
    unfolding m1 by (rule inj_on_inverseI [where g = ikey_of]) (auto simp: kinv)
  then have "set (of_entries (map ?e ?m1)) = ?e ` ?t ` set m"
    using set_of_entries_rename [of ?m1] m1 by simp
  also have "\<dots> = set m"
    by (force simp: image_iff kinv vals)
  finally have "of_entries (map ?e ?m1) = m"
    by (intro bt_ext) (auto simp: m intro!: map_of_inject_set [THEN iffD2] bt_distinct)
  then show ?case by simp
next
  case (Array vs)
  then show ?case by (auto simp: list_all_iff intro!: map_idI)
qed simp_all

end
