(* ===== verification/LogCodec.thy ===== *)
theory LogCodec
  imports MsgPack
begin

text \<open>
  Log records and the readers that work on encoded bytes: \<open>LogEntry\<close> of \<open>engine/types.rs\<close>, its
  encoding in \<open>common/system_field_tokens.rs\<close>, and the raw scan for one system field
  (\<open>read_token_u64\<close>), which never decodes the document. Skipping over one MessagePack value is
  done by the \<open>rmp_serde\<close> crate; it is the parameter \<open>skip\<close>, with the contract
  \<open>skips_values\<close>.
\<close>

section \<open>Records\<close>

record log_entry =
  e_cmd :: string
  e_collection :: string
  e_key :: string
  e_value :: json
  e_t :: u64

definition new_entry :: "u64 \<Rightarrow> string \<Rightarrow> string \<Rightarrow> string \<Rightarrow> json \<Rightarrow> log_entry" where
  "new_entry now cmd collection key v =
     \<lparr>e_cmd = cmd, e_collection = collection, e_key = key, e_value = v, e_t = now\<rparr>"

section \<open>Encoding\<close>

text \<open>The command tokens \<open>-10\<close> to \<open>-17\<close> as negative fixed integers.\<close>

definition cmd_token :: "string \<Rightarrow> u8 option" where
  "cmd_token cmd =
     (if cmd = ''INSERT'' \<or> cmd = IKEY_INSERT then Some 0xf6
      else if cmd = ''DELETE'' \<or> cmd = IKEY_DELETE then Some 0xf5
      else if cmd = ''DROP'' \<or> cmd = IKEY_DROP then Some 0xf4
      else if cmd = ''INDEX'' \<or> cmd = IKEY_INDEX then Some 0xf3
      else if cmd = ''SCHEMA'' \<or> cmd = IKEY_SCHEMA then Some 0xf2
      else if cmd = ''ENC'' \<or> cmd = IKEY_ENC then Some 0xf1
      else if cmd = ''TX_BEGIN'' \<or> cmd = IKEY_TX_BEGIN then Some 0xf0
      else if cmd = ''TX_COMMIT'' \<or> cmd = IKEY_TX_COMMIT then Some 0xef
      else None)"

definition log_entry_to_msgpack :: "log_entry \<Rightarrow> bytes" where
  "log_entry_to_msgpack e =
     write_map_header 5 @
     write_str ''cmd'' @
     (case cmd_token (e_cmd e) of Some t \<Rightarrow> [t] | None \<Rightarrow> write_str (e_cmd e)) @
     write_str ''collection'' @ write_str (e_collection e) @
     write_str ''key'' @ write_str (e_key e) @
     write_str ''value'' @ write_value (e_value e) @
     write_str ''_t'' @ write_number (PosInt (e_t e))"

section \<open>Readers on a cursor\<close>

definition read_map_header :: "bytes \<Rightarrow> (nat \<times> bytes) option" where
  "read_map_header bs =
     (case bs of [] \<Rightarrow> None
      | b # r \<Rightarrow>
        (if 0x80 \<le> b \<and> b \<le> 0x8f then Some (unat (b AND 0x0f), r)
         else if b = 0xde then read_be 2 r
         else if b = 0xdf then read_be 4 r
         else None))"

definition read_string :: "bytes \<Rightarrow> (string \<times> bytes) option" where
  "read_string bs =
     (case bs of [] \<Rightarrow> None
      | b # r \<Rightarrow>
        (if 0xa0 \<le> b \<and> b \<le> 0xbf then read_str_body (unat (b AND 0x1f)) r
         else if b = 0xd9 then (case r of [] \<Rightarrow> None | n # r' \<Rightarrow> read_str_body (unat n) r')
         else if b = 0xda then
           (case read_be 2 r of None \<Rightarrow> None | Some (n, r') \<Rightarrow> read_str_body n r')
         else if b = 0xdb then
           (case read_be 4 r of None \<Rightarrow> None | Some (n, r') \<Rightarrow> read_str_body n r')
         else None))"

definition read_uint_at :: "bytes \<Rightarrow> (u64 \<times> bytes) option" where
  "read_uint_at bs =
     (case bs of [] \<Rightarrow> None
      | b # r \<Rightarrow>
        (if b \<le> 0x7f then Some (ucast b, r)
         else if b = 0xcc then (case r of [] \<Rightarrow> None | v # r' \<Rightarrow> Some (ucast v, r'))
         else if b = 0xcd then map_option (\<lambda>(n, r'). (word_of_nat n, r')) (read_be 2 r)
         else if b = 0xce then map_option (\<lambda>(n, r'). (word_of_nat n, r')) (read_be 4 r)
         else if b = 0xcf then map_option (\<lambda>(n, r'). (word_of_nat n, r')) (read_be 8 r)
         else None))"

section \<open>Decoding a record\<close>

definition token_cmd :: "u8 \<Rightarrow> string" where
  "token_cmd b =
     (if b = 0xf6 then IKEY_INSERT
      else if b = 0xf5 then IKEY_DELETE
      else if b = 0xf4 then IKEY_DROP
      else if b = 0xf3 then IKEY_INDEX
      else if b = 0xf2 then IKEY_SCHEMA
      else if b = 0xf1 then IKEY_ENC
      else if b = 0xf0 then IKEY_TX_BEGIN
      else if b = 0xef then IKEY_TX_COMMIT
      else dec_int (sint b))"

text \<open>A command read as plain text; \<open>from_ikey\<close> is consulted before \<open>to_ikey\<close>.\<close>

definition normalise_cmd :: "string \<Rightarrow> string" where
  "normalise_cmd cmd =
     (case from_ikey cmd of Some c \<Rightarrow> c
      | None \<Rightarrow> if to_ikey cmd \<noteq> [] then to_ikey cmd else cmd)"

definition read_cmd :: "bytes \<Rightarrow> (string \<times> bytes) option" where
  "read_cmd bs =
     (case bs of
        b # r \<Rightarrow>
          if 0xe0 \<le> b then Some (token_cmd b, r)
          else map_option (\<lambda>(c, r'). (normalise_cmd c, r')) (read_string bs)
      | [] \<Rightarrow> map_option (\<lambda>(c, r'). (normalise_cmd c, r')) (read_string bs))"

definition read_field :: "(bytes \<Rightarrow> bytes option) \<Rightarrow> log_entry \<Rightarrow> bytes \<Rightarrow>
    (log_entry \<times> bytes) option" where
  "read_field skip e bs =
     (case read_string bs of None \<Rightarrow> None
      | Some (name, r) \<Rightarrow>
        (if name = ''cmd'' then
           map_option (\<lambda>(c, r'). (e\<lparr>e_cmd := c\<rparr>, r')) (read_cmd r)
         else if name = ''collection'' then
           map_option (\<lambda>(c, r'). (e\<lparr>e_collection := c\<rparr>, r')) (read_string r)
         else if name = ''key'' then
           map_option (\<lambda>(c, r'). (e\<lparr>e_key := c\<rparr>, r')) (read_string r)
         else if name = ''value'' then
           map_option (\<lambda>(v, r'). (e\<lparr>e_value := v\<rparr>, r')) (read_value (Suc (length r)) r)
         else if name = ''_t'' then
           map_option (\<lambda>(t, r'). (e\<lparr>e_t := t\<rparr>, r')) (read_uint_at r)
         else map_option (\<lambda>r'. (e, r')) (skip r)))"

primrec read_fields :: "(bytes \<Rightarrow> bytes option) \<Rightarrow> nat \<Rightarrow> log_entry \<Rightarrow> bytes \<Rightarrow>
    log_entry option" where
  "read_fields skip 0 e bs = Some e"
| "read_fields skip (Suc n) e bs =
     (case read_field skip e bs of None \<Rightarrow> None | Some (e', r) \<Rightarrow> read_fields skip n e' r)"

definition log_entry_from_msgpack :: "(bytes \<Rightarrow> bytes option) \<Rightarrow> bytes \<Rightarrow> log_entry option" where
  "log_entry_from_msgpack skip bs =
     (case read_map_header bs of None \<Rightarrow> None
      | Some (n, r) \<Rightarrow>
        read_fields skip n
          \<lparr>e_cmd = [], e_collection = [], e_key = [], e_value = Null, e_t = 0\<rparr> r)"

section \<open>The raw scan for a system field\<close>

text \<open>
  Slicing beyond the end of the buffer aborts the process, so a scan of arbitrary bytes either
  aborts or returns.
\<close>

datatype 'a outcome = Aborts | Returns 'a

text \<open>The extra bytes of a key after its first byte: the length to skip and the cursor.\<close>

definition key_skip :: "u8 \<Rightarrow> bytes \<Rightarrow> (nat \<times> bytes) option" where
  "key_skip b r =
     (if 0xa0 \<le> b \<and> b \<le> 0xbf then Some (unat (b AND 0x1f), r)
      else if b = 0xd9 then (case r of [] \<Rightarrow> None | n # r' \<Rightarrow> Some (unat n, r'))
      else if b = 0xda then read_be 2 r
      else if b = 0xdb then read_be 4 r
      else Some (0, r))"

primrec scan_token :: "(bytes \<Rightarrow> bytes option) \<Rightarrow> u8 \<Rightarrow> nat \<Rightarrow> bytes \<Rightarrow> u64 option outcome" where
  "scan_token skip token 0 bs = Returns None"
| "scan_token skip token (Suc n) bs =
     (case bs of [] \<Rightarrow> Returns None
      | b # r \<Rightarrow>
        (if b = token then Returns (map_option fst (read_uint_at r))
         else case key_skip b r of None \<Rightarrow> Returns None
         | Some (l, r') \<Rightarrow>
           (if length r' < l then Aborts
            else case skip (drop l r') of None \<Rightarrow> Returns None
            | Some r'' \<Rightarrow> scan_token skip token n r'')))"

definition read_token_u64 :: "(bytes \<Rightarrow> bytes option) \<Rightarrow> bytes \<Rightarrow> u8 \<Rightarrow> u64 option outcome" where
  "read_token_u64 skip bs token =
     (case read_map_header bs of None \<Rightarrow> Returns None
      | Some (n, r) \<Rightarrow> scan_token skip token n r)"

definition read_msgpack_seq_token :: "(bytes \<Rightarrow> bytes option) \<Rightarrow> bytes \<Rightarrow> u64 outcome" where
  "read_msgpack_seq_token skip bs =
     (case read_token_u64 skip bs TOK_SEQ of
        Aborts \<Rightarrow> Aborts
      | Returns None \<Rightarrow> Returns (- 1)
      | Returns (Some n) \<Rightarrow> Returns n)"

section \<open>Reading back what was written\<close>

text \<open>The contract of \<open>IgnoredAny::deserialize\<close>: it consumes one MessagePack value.\<close>

definition skips_values :: "(bytes \<Rightarrow> bytes option) \<Rightarrow> bool" where
  "skips_values skip \<longleftrightarrow> (\<forall>v r. doc_ok v \<longrightarrow> skip (write_value v @ r) = Some r)"

text \<open>An instance: skipping by decoding.\<close>

definition skip_by_reading :: "bytes \<Rightarrow> bytes option" where
  "skip_by_reading bs = map_option snd (read_value (Suc (length bs)) bs)"

lemma skips_by_reading [simp]: "skips_values skip_by_reading"
  by (simp add: skips_values_def skip_by_reading_def read_write_value doc_okD)

lemma read_map_header_written [simp, codec]:
  assumes "n < 2 ^ 32"
  shows "read_map_header (write_map_header n @ r) = Some (n, r)"
  using assms fix_headers(3) [of n]
  by (auto simp: read_map_header_def write_map_header_def)

lemma read_str_body_bytes_of [simp]:
  "str_ok s \<Longrightarrow> n = length s \<Longrightarrow> read_str_body n (bytes_of s @ r) = Some (s, r)"
  by (simp add: read_str_body_def)

lemma read_string_written [simp, codec]:
  assumes "str_ok s" and "len_ok s"
  shows "read_string (write_str s @ r) = Some (s, r)"
  using assms fix_headers(1) [of "length s"]
  by (auto simp: read_string_def write_str_def Let_def unat_of_nat len_ok_def)

lemma read_uint_written [simp, codec]: "read_uint_at (write_number (PosInt u) @ r) = Some (u, r)"
proof -
  have "unat u mod 18446744073709551616 = unat u"
    using unsigned_less [of u, where ?'a = nat] by simp
  moreover have "unat u mod 256 = unat u" if "u \<le> 0xff"
    using that by (simp add: word_le_nat_alt)
  moreover have "unat u mod 65536 = unat u" if "u \<le> 0xffff"
    using that by (simp add: word_le_nat_alt)
  moreover have "unat u mod 4294967296 = unat u" if "u \<le> 0xffffffff"
    using that by (simp add: word_le_nat_alt)
  moreover have "(ucast (ucast u :: u8) :: u64) = u" if "u \<le> 0xff"
    using that by (simp add: word_le_nat_alt word_unat_eq_iff unat_ucast_mod)
  moreover have "(ucast u :: u8) \<le> 0x7f" if "u \<le> 0x7f"
    using that by (simp add: word_le_nat_alt unat_ucast_mod)
  ultimately show ?thesis
    by (auto simp: write_number_def read_uint_at_def word_le_nat_alt)
qed

lemma neg_number_head:
  assumes "wf_number (NegInt i)"
  shows "\<exists>b t. write_number (NegInt i) = b # t \<and> \<not> b \<le> 0x7f \<and> b \<noteq> 0xcc \<and> b \<noteq> 0xcd \<and> b \<noteq> 0xce \<and> b \<noteq> 0xcf"
proof (cases "sint i \<ge> - 32")
  case True
  then have "(0xe0 :: u8) \<le> ucast i" using assms by (auto intro: negfix_bound)
  with True show ?thesis by (auto simp: write_number_def byte_nat)
next
  case False
  then show ?thesis using assms by (simp add: write_number_def)
qed

lemma fix_head_ne:
  assumes "(0x80 :: u8) \<le> b" "b \<le> 0xbf"
  shows "\<not> b \<le> 0x7f" "b \<noteq> 0xcc" "b \<noteq> 0xcd" "b \<noteq> 0xce" "b \<noteq> 0xcf"
  using assms by (auto simp: byte_nat)

lemma read_uint_other:
  assumes "wf_value v" and "as_u64 v = None"
  shows "read_uint_at (write_value v @ r) = None"
proof (cases v)
  case (Number n)
  show ?thesis
  proof (cases n)
    case (NegInt i)
    then show ?thesis
      using neg_number_head [of i] assms Number by (auto simp: read_uint_at_def)
  qed (use assms Number in \<open>simp_all add: write_number_def read_uint_at_def byte_nat\<close>)
next
  case (String s)
  have "\<not> (0xa0 OR word_of_nat (length s) :: u8) \<le> 0x7f \<and> (0xa0 OR word_of_nat (length s) :: u8) \<le> 0xbf" if "length s \<le> 31"
    using fix_headers(1) [OF that] by (auto simp: byte_nat)
  then show ?thesis
    using String by (auto simp: write_str_def Let_def read_uint_at_def byte_nat)
next
  case (Array vs)
  have "\<not> (0x90 OR word_of_nat (length vs) :: u8) \<le> 0x7f \<and> (0x90 OR word_of_nat (length vs) :: u8) \<le> 0x9f" if "length vs \<le> 15"
    using fix_headers(2) [OF that] by (auto simp: byte_nat)
  then show ?thesis
    using Array by (auto simp: write_array_header_def read_uint_at_def byte_nat)
next
  case (Object m)
  have "\<not> (0x80 OR word_of_nat (length m) :: u8) \<le> 0x7f \<and> (0x80 OR word_of_nat (length m) :: u8) \<le> 0x8f" if "length m \<le> 15"
    using fix_headers(3) [OF that] by (auto simp: byte_nat)
  then show ?thesis
    using Object by (auto simp: write_map_header_def read_uint_at_def byte_nat)
qed (auto simp: read_uint_at_def byte_nat)

lemma read_uint_value:
  assumes "wf_value v"
  shows "map_option fst (read_uint_at (write_value v @ r)) = as_u64 v"
proof (cases "as_u64 v")
  case None
  then show ?thesis using read_uint_other [OF assms] by simp
next
  case (Some n)
  then show ?thesis by (auto simp: as_u64_Some)
qed

section \<open>Round trip of a log record\<close>

definition entry_ok :: "log_entry \<Rightarrow> bool" where
  "entry_ok e \<longleftrightarrow>
     str_ok (e_cmd e) \<and> len_ok (e_cmd e) \<and> str_ok (e_collection e) \<and> len_ok (e_collection e) \<and>
     str_ok (e_key e) \<and> len_ok (e_key e) \<and> doc_ok (e_value e)"

text \<open>What a record is after a write and a read: the command in its in-memory form, the document
  with its stored keys.\<close>

definition stored_cmd :: "string \<Rightarrow> string" where
  "stored_cmd cmd = (if to_ikey cmd = [] then cmd else to_ikey cmd)"

definition stored_entry :: "log_entry \<Rightarrow> log_entry" where
  "stored_entry e = e\<lparr>e_cmd := stored_cmd (e_cmd e), e_value := tokenize (e_value e)\<rparr>"

lemma token_cmds:
  "token_cmd 0xf6 = IKEY_INSERT" "token_cmd 0xf5 = IKEY_DELETE" "token_cmd 0xf4 = IKEY_DROP"
  "token_cmd 0xf3 = IKEY_INDEX" "token_cmd 0xf2 = IKEY_SCHEMA" "token_cmd 0xf1 = IKEY_ENC"
  "token_cmd 0xf0 = IKEY_TX_BEGIN" "token_cmd 0xef = IKEY_TX_COMMIT"
  by (simp_all add: token_cmd_def)

lemma stored_cmds [simp]:
  "stored_cmd ''INSERT'' = IKEY_INSERT" "stored_cmd ''DELETE'' = IKEY_DELETE"
  "stored_cmd ''DROP'' = IKEY_DROP" "stored_cmd ''INDEX'' = IKEY_INDEX"
  "stored_cmd ''SCHEMA'' = IKEY_SCHEMA" "stored_cmd ''ENC'' = IKEY_ENC"
  "stored_cmd ''TX_BEGIN'' = IKEY_TX_BEGIN" "stored_cmd ''TX_COMMIT'' = IKEY_TX_COMMIT"
  "stored_cmd IKEY_INSERT = IKEY_INSERT" "stored_cmd IKEY_DELETE = IKEY_DELETE"
  "stored_cmd IKEY_DROP = IKEY_DROP" "stored_cmd IKEY_INDEX = IKEY_INDEX"
  "stored_cmd IKEY_SCHEMA = IKEY_SCHEMA" "stored_cmd IKEY_ENC = IKEY_ENC"
  "stored_cmd IKEY_TX_BEGIN = IKEY_TX_BEGIN" "stored_cmd IKEY_TX_COMMIT = IKEY_TX_COMMIT"
  "stored_cmd TTL_EXPIRY = TTL_EXPIRY"
  by (simp_all add: stored_cmd_def to_ikey_def)

text \<open>The commands and their tokens as a table.\<close>

lemma cmd_token_table:
  "cmd_token c = map_of
     [(''INSERT'', 0xf6), (IKEY_INSERT, 0xf6), (''DELETE'', 0xf5), (IKEY_DELETE, 0xf5),
      (''DROP'', 0xf4), (IKEY_DROP, 0xf4), (''INDEX'', 0xf3), (IKEY_INDEX, 0xf3),
      (''SCHEMA'', 0xf2), (IKEY_SCHEMA, 0xf2), (''ENC'', 0xf1), (IKEY_ENC, 0xf1),
      (''TX_BEGIN'', 0xf0), (IKEY_TX_BEGIN, 0xf0), (''TX_COMMIT'', 0xef), (IKEY_TX_COMMIT, 0xef)] c"
proof -
  have "(if a \<or> b then x else y) = (if a then x else if b then x else y)" for a b and x y :: "u8 option"
    by simp
  then show ?thesis
    unfolding cmd_token_def map_of.simps fun_upd_apply fst_conv snd_conv by (simp only:)
qed

lemma cmd_token_Some:
  assumes "cmd_token c = Some t"
  shows "0xe0 \<le> t \<and> token_cmd t = stored_cmd c"
  using map_of_SomeD [OF assms [unfolded cmd_token_table]]
  by (simp only: list.set insert_iff empty_iff prod.inject)
    (elim disjE; simp only: token_cmds stored_cmds; simp)

lemma read_cmd_written [simp, codec]:
  assumes "str_ok c" and "len_ok c"
  shows "read_cmd ((case cmd_token c of Some t \<Rightarrow> [t] | None \<Rightarrow> write_str c) @ r) = Some (stored_cmd c, r)"
proof (cases "cmd_token c")
  case None
  then have "normalise_cmd c = stored_cmd c"
    by (auto simp: cmd_token_def normalise_cmd_def stored_cmd_def from_ikey_def to_ikey_def split: if_splits)
  moreover obtain b t where "write_str c = b # t" "\<not> 0xe0 \<le> b"
    using write_str_head by blast
  ultimately show ?thesis
    using None assms read_string_written [OF assms, of r] by (simp add: read_cmd_def)
next
  case (Some t)
  then show ?thesis
    using cmd_token_Some [OF Some] by (simp add: read_cmd_def)
qed

lemma literal_ok:
  "str_ok ''cmd''" "str_ok ''collection''" "str_ok ''key''" "str_ok ''value''" "str_ok ''_t''"
  "len_ok ''cmd''" "len_ok ''collection''" "len_ok ''key''" "len_ok ''value''" "len_ok ''_t''"
  by (simp_all add: str_ok_def bytes_of_def len_ok_def)

lemma read_field_written:
  assumes "entry_ok e"
  shows "read_field skip x (write_str ''cmd'' @
        (case cmd_token (e_cmd e) of Some t \<Rightarrow> [t] | None \<Rightarrow> write_str (e_cmd e)) @ r) =
      Some (x\<lparr>e_cmd := stored_cmd (e_cmd e)\<rparr>, r)"
    and "read_field skip x (write_str ''collection'' @ write_str (e_collection e) @ r) =
      Some (x\<lparr>e_collection := e_collection e\<rparr>, r)"
    and "read_field skip x (write_str ''key'' @ write_str (e_key e) @ r) =
      Some (x\<lparr>e_key := e_key e\<rparr>, r)"
    and "read_field skip x (write_str ''value'' @ write_value (e_value e) @ r) =
      Some (x\<lparr>e_value := tokenize (e_value e)\<rparr>, r)"
    and "read_field skip x (write_str ''_t'' @ write_number (PosInt (e_t e)) @ r) =
      Some (x\<lparr>e_t := e_t e\<rparr>, r)"
  using assms
  by (simp_all add: read_field_def literal_ok entry_ok_def read_write_value doc_okD)

lemma log_entry_read_back:
  assumes "entry_ok e"
  shows "log_entry_from_msgpack skip (log_entry_to_msgpack e) = Some (stored_entry e)"
proof -
  note rd = read_field_written [OF assms]
  have five: "5 = Suc (Suc (Suc (Suc (Suc 0))))" by simp
  have "read_fields skip 5 x (write_str ''cmd'' @
     (case cmd_token (e_cmd e) of Some t \<Rightarrow> [t] | None \<Rightarrow> write_str (e_cmd e)) @
     write_str ''collection'' @ write_str (e_collection e) @
     write_str ''key'' @ write_str (e_key e) @
     write_str ''value'' @ write_value (e_value e) @
     write_str ''_t'' @ write_number (PosInt (e_t e)) @ []) =
    Some (x\<lparr>e_cmd := stored_cmd (e_cmd e), e_collection := e_collection e, e_key := e_key e,
      e_value := tokenize (e_value e), e_t := e_t e\<rparr>)" for x
    by (simp only: five read_fields.simps rd option.case prod.case)
  then show ?thesis
    by (simp add: log_entry_from_msgpack_def log_entry_to_msgpack_def stored_entry_def)
qed

section \<open>The raw scan reads the first entry of its token\<close>

text \<open>The field the scan of an object finds, and the value it reads.\<close>

definition raw_field :: "u8 \<Rightarrow> object \<Rightarrow> u64 option" where
  "raw_field token m =
     (case List.find (\<lambda>(k, v). key_token k = Some token) m of
        Some (k, v) \<Rightarrow> as_u64 v | None \<Rightarrow> None)"

definition is_token :: "u8 \<Rightarrow> bool" where
  "is_token t \<longleftrightarrow> t \<in> {TOK_VERSION, TOK_KEY, TOK_SEQ, TOK_CREATED_AT, TOK_MODIFIED_AT, TOK_EXPIRES_AT}"

lemma key_skip_written:
  assumes "len_ok k"
  shows "\<exists>b r'. write_str k @ r = b # r' \<and> \<not> 0xe0 \<le> b \<and>
    (\<exists>l s. key_skip b r' = Some (l, s) \<and> l \<le> length s \<and> drop l s = r)"
proof (cases "length k \<le> 31")
  case True
  note f = fix_headers(1) [OF True]
  then have "\<not> 0xe0 \<le> (0xa0 OR word_of_nat (length k) :: u8)" by (auto simp: byte_nat)
  with True f show ?thesis by (simp add: write_str_def key_skip_def)
next
  case False
  with assms show ?thesis
    by (simp add: write_str_def Let_def key_skip_def unat_of_nat len_ok_def)
qed

lemma scan_token_written:
  assumes "skips_values skip" and "is_token token" and "\<forall>(k, v)\<in>set m. field_ok k v"
  shows "scan_token skip token (length m)
      (concat (map (\<lambda>(k, v). write_map_key k @ write_value v) m) @ r) = Returns (raw_field token m)"
  using assms(3)
proof (induction m)
  case Nil
  show ?case by (simp add: raw_field_def)
next
  case (Cons kv m)
  obtain k v where kv: "kv = (k, v)" by (cases kv)
  let ?rest = "concat (map (\<lambda>(k, v). write_map_key k @ write_value v) m) @ r"
  have ok: "field_ok k v" using Cons.prems by (auto simp: kv)
  have v: "wf_value v" "len_ok k" "doc_ok v"
    using ok field_doc_ok [OF ok] by (simp_all add: field_ok_def)
  have skip: "skip (write_value v @ ?rest) = Some ?rest"
    using assms(1) v(3) unfolding skips_values_def by blast
  have IH: "scan_token skip token (length m) ?rest = Returns (raw_field token m)"
    using Cons by auto
  show ?case
  proof (cases "key_token k")
    case None
    obtain b r' l s where "write_str k @ write_value v @ ?rest = b # r'" "\<not> 0xe0 \<le> b"
      "key_skip b r' = Some (l, s)" "l \<le> length s" "drop l s = write_value v @ ?rest"
      using key_skip_written [OF v(2), of "write_value v @ ?rest"] by blast
    moreover have "b \<noteq> token"
      using \<open>\<not> 0xe0 \<le> b\<close> assms(2) by (auto simp: is_token_def byte_nat)
    ultimately show ?thesis
      using None skip IH by (simp add: kv write_map_key_def raw_field_def)
  next
    case (Some t)
    show ?thesis
    proof (cases "t = token")
      case True
      then show ?thesis
        using Some read_uint_value [OF v(1), of ?rest]
        by (simp add: kv write_map_key_def raw_field_def)
    next
      case False
      have "key_skip t x = Some (0, x)" for x
        using Some by (auto simp: key_token_def key_skip_def byte_nat split: if_splits)
      with False Some skip IH show ?thesis
        by (simp add: kv write_map_key_def raw_field_def)
    qed
  qed
qed

lemma read_token_written:
  assumes "skips_values skip" and "is_token token" and "doc_ok v"
  shows "read_token_u64 skip (value_to_msgpack v) token =
    Returns (case v of Object m \<Rightarrow> raw_field token m | _ \<Rightarrow> None)"
proof (cases v)
  case (Object m)
  then have "\<forall>(k, v)\<in>set m. field_ok k v" "length m < 2 ^ 32"
    using assms(3) by (simp_all add: doc_ok_Object len_ok_def)
  then show ?thesis
    using scan_token_written [OF assms(1,2), of m "[]"] Object
    by (simp add: read_token_u64_def value_to_msgpack_def)
next
  case (Number n)
  have "read_map_header (write_number n) = None"
  proof (cases n)
    case (PosInt u)
    have "(ucast u :: u8) \<le> 0x7f" if "u \<le> 0x7f"
      using that by (simp add: word_le_nat_alt unat_ucast_mod)
    then show ?thesis
      by (auto simp: PosInt write_number_def read_map_header_def byte_nat)
  next
    case (NegInt i)
    have "sint i < 0" using assms(3) by (simp add: Number NegInt doc_ok_def)
    then have "(0xe0 :: u8) \<le> ucast i" if "sint i \<ge> - 32"
      using that by (auto intro: negfix_bound)
    then show ?thesis
      using \<open>sint i < 0\<close> by (auto simp: NegInt write_number_def read_map_header_def byte_nat)
  qed (simp add: write_number_def read_map_header_def byte_nat)
  then show ?thesis by (simp add: Number read_token_u64_def value_to_msgpack_def)
next
  case (String s)
  have "0xa0 \<le> (0xa0 OR word_of_nat (length s) :: u8) \<and> (0xa0 OR word_of_nat (length s) :: u8) \<le> 0xbf"
    if "length s \<le> 31"
    using fix_headers(1) [OF that] by blast
  then show ?thesis
    by (auto simp: String read_token_u64_def value_to_msgpack_def read_map_header_def write_str_def
        Let_def byte_nat)
next
  case (Array vs)
  have "0x90 \<le> (0x90 OR word_of_nat (length vs) :: u8) \<and> (0x90 OR word_of_nat (length vs) :: u8) \<le> 0x9f"
    if "length vs \<le> 15"
    using fix_headers(2) [OF that] by blast
  then show ?thesis
    by (auto simp: Array read_token_u64_def value_to_msgpack_def read_map_header_def
        write_array_header_def byte_nat)
qed (auto simp: read_token_u64_def value_to_msgpack_def read_map_header_def)

text \<open>In key order the in-memory name of a system field stands before its public name.\<close>

lemma find_sorted_pair:
  assumes "bt_ok m" and "a < b" and "\<And>k. P k \<longleftrightarrow> k = a \<or> k = b"
  shows "List.find (\<lambda>(k, v). P k) m =
    (case bt_get m a of Some v \<Rightarrow> Some (a, v) | None \<Rightarrow> map_option (Pair b) (bt_get m b))"
  using assms(1)
proof (induction m)
  case (Cons p m)
  obtain k v where p: "p = (k, v)" by (cases p)
  have gt: "k < fst q" if "q \<in> set m" for q using Cons.prems that by (simp add: p)
  have "bt_get m a = None" if "k = b"
    using gt that assms(2) by (force simp: map_of_eq_None_iff)
  moreover have "bt_get m k = None"
    using gt by (force simp: map_of_eq_None_iff)
  ultimately show ?case
    using Cons assms(2,3) by (auto simp: p split: option.splits)
qed simp

lemma raw_field_ikey:
  assumes "bt_ok m"
  shows "raw_field TOK_VERSION m = (case bt_get m IKEY_VERSION of Some v \<Rightarrow> as_u64 v
      | None \<Rightarrow> Option.bind (bt_get m VERSION) as_u64)"
    and "raw_field TOK_SEQ m = (case bt_get m IKEY_SEQ of Some v \<Rightarrow> as_u64 v
      | None \<Rightarrow> Option.bind (bt_get m SEQ) as_u64)"
    and "raw_field TOK_CREATED_AT m = (case bt_get m IKEY_CREATED_AT of Some v \<Rightarrow> as_u64 v
      | None \<Rightarrow> Option.bind (bt_get m CREATED_AT) as_u64)"
    and "raw_field TOK_MODIFIED_AT m = (case bt_get m IKEY_MODIFIED_AT of Some v \<Rightarrow> as_u64 v
      | None \<Rightarrow> Option.bind (bt_get m MODIFIED_AT) as_u64)"
  unfolding raw_field_def
  by (subst find_sorted_pair [OF assms, where a = IKEY_VERSION and b = VERSION]
        find_sorted_pair [OF assms, where a = IKEY_SEQ and b = SEQ]
        find_sorted_pair [OF assms, where a = IKEY_CREATED_AT and b = CREATED_AT]
        find_sorted_pair [OF assms, where a = IKEY_MODIFIED_AT and b = MODIFIED_AT];
      simp add: key_token_def split: option.split)+

text \<open>The sequence number of a document as the raw scan sees it.\<close>

definition raw_seq :: "json \<Rightarrow> u64" where
  "raw_seq v = (case v of Object m \<Rightarrow> (case raw_field TOK_SEQ m of Some n \<Rightarrow> n | None \<Rightarrow> - 1) | _ \<Rightarrow> - 1)"

lemma read_seq_written [simp]:
  "skips_values skip \<Longrightarrow> doc_ok v \<Longrightarrow>
     read_msgpack_seq_token skip (value_to_msgpack v) = Returns (raw_seq v)"
  by (auto simp: read_msgpack_seq_token_def read_token_written is_token_def raw_seq_def
      split: json.splits option.splits)

end
