(* ===== verification/Wal.thy ===== *)
theory Wal
  imports LogCodec
begin

text \<open>
  The write-ahead log: errors (\<open>engine/types.rs\<close>), the length-prefixed file format of
  \<open>storage/disk/log.rs\<close>, and the replay of \<open>storage/mod.rs\<close> and \<open>operations/recover.rs\<close>
  that rebuilds the tables from it, with transactions. The theorems show that a torn last record is
  ignored and that a crash at any byte leaves the effect of a whole number of transactions.
\<close>

section \<open>Errors\<close>

text \<open>
  \<open>Aborted\<close> is not a value of the program: it stands for a panic, which ends the process.
\<close>

datatype db_error =
    Io string
  | Serialization string
  | LockPoisoned
  | WriteError
  | InvalidQuery string
  | TypeMismatch string
  | CollectionNotFound
  | Conflict
  | StorageFault string
  | SchemaValidationError string
  | Aborted

section \<open>The world the engine reads\<close>

text \<open>
  Readings of the clock and fresh identifiers are numbered; the schema compiler, the MessagePack
  skipper and the compressor are third-party code. \<open>gunzip\<close> gives the bytes a decoder delivers
  before the end of its input or its first error.
\<close>

record env =
  clock :: "nat \<Rightarrow> u64"
  uuid :: "nat \<Rightarrow> string"
  skip_value :: "bytes \<Rightarrow> bytes option"
  validator_for :: "json \<Rightarrow> string + (json \<Rightarrow> bool)"
  gzip :: "bytes \<Rightarrow> bytes"
  gunzip :: "bytes \<Rightarrow> bytes"

section \<open>Tables\<close>

type_synonym collection = "(string, bytes) dashmap"

record tables =
  t_state :: "(string, collection) dashmap"
  t_schemas :: "(string, json \<times> (json \<Rightarrow> bool)) dashmap"
  t_ttl_expiry :: "(string, u64) dashmap"
  t_ticks :: nat

definition empty_tables :: "nat \<Rightarrow> tables" where
  "empty_tables n = \<lparr>t_state = [], t_schemas = [], t_ttl_expiry = [], t_ticks = n\<rparr>"

text \<open>\<open>state.entry(c).or_default()\<close>\<close>

definition col_of :: "(string, collection) dashmap \<Rightarrow> string \<Rightarrow> collection" where
  "col_of st c = (case dm_get st c of Some m \<Rightarrow> m | None \<Rightarrow> [])"

definition apply_entry :: "env \<Rightarrow> log_entry \<Rightarrow> 'a tables_scheme \<Rightarrow> 'a tables_scheme" where
  "apply_entry env e t =
     (if e_cmd e = IKEY_INSERT then
        t\<lparr>t_state := dm_insert (e_collection e)
            (dm_insert (e_key e) (value_to_msgpack (e_value e)) (col_of (t_state t) (e_collection e)))
            (t_state t)\<rparr>
      else if e_cmd e = IKEY_DELETE then
        (case dm_get (t_state t) (e_collection e) of
           Some col \<Rightarrow>
             t\<lparr>t_state := dm_insert (e_collection e) (dm_remove (e_key e) col) (t_state t)\<rparr>
         | None \<Rightarrow> t)
      else if e_cmd e = IKEY_DROP then
        t\<lparr>t_state := dm_remove (e_collection e) (t_state t),
          t_ttl_expiry := dm_remove (e_collection e) (t_ttl_expiry t)\<rparr>
      else if e_cmd e = TTL_EXPIRY then
        (case parse_u64 (e_key e) of
           Some expires_at \<Rightarrow>
             (if expires_at > clock env (t_ticks t) then
                t\<lparr>t_ttl_expiry := dm_insert (e_collection e) expires_at (t_ttl_expiry t),
                  t_ticks := Suc (t_ticks t)\<rparr>
              else
                t\<lparr>t_state := dm_remove (e_collection e) (t_state t),
                  t_ttl_expiry := dm_remove (e_collection e) (t_ttl_expiry t),
                  t_ticks := Suc (t_ticks t)\<rparr>)
         | None \<Rightarrow> t)
      else if e_cmd e = IKEY_INDEX then t
      else if e_cmd e = IKEY_SCHEMA then
        (case validator_for env (e_value e) of
           Inr validator \<Rightarrow>
             t\<lparr>t_schemas := dm_insert (e_collection e) (e_value e, validator) (t_schemas t)\<rparr>
         | Inl _ \<Rightarrow> t)
      else t)"

section \<open>The log file\<close>

datatype control_flow = Continue | Break

text \<open>A callback of the streaming readers: it updates its captured state and says whether to go on.\<close>

type_synonym 's callback = "log_entry \<Rightarrow> u32 \<Rightarrow> 's \<Rightarrow> control_flow \<times> 's"

text \<open>A path that does not exist, one that cannot be read, and the bytes of a file.\<close>

datatype log_file = NoFile | Unreadable string | File bytes

definition write_msgpack_entry :: "log_entry \<Rightarrow> bytes" where
  "write_msgpack_entry e =
     (let encoded = log_entry_to_msgpack e in le_bytes 4 (length encoded) @ encoded)"

definition write_compacted_log_no_tx :: "log_entry list \<Rightarrow> bytes" where
  "write_compacted_log_no_tx entries = concat (map write_msgpack_entry entries)"

function stream_frames :: "(bytes \<Rightarrow> bytes option) \<Rightarrow> nat \<Rightarrow> 's callback \<Rightarrow> bytes \<Rightarrow> nat \<Rightarrow> 's \<Rightarrow>
    control_flow \<times> 's" where
  "stream_frames skip skip_lines f buf idx s =
     (if length buf < 4 then (Continue, s)
      else
        (let len = from_le (take 4 buf); rest = drop 4 buf in
         if length rest < len then (Continue, s)
         else if idx < skip_lines then
           stream_frames skip skip_lines f (drop len rest) (Suc idx) s
         else
           (case log_entry_from_msgpack skip (take len rest) of
              Some entry \<Rightarrow>
                (case f entry (word_of_nat (len + 4)) s of
                   (Break, s') \<Rightarrow> (Break, s')
                 | (Continue, s') \<Rightarrow>
                     stream_frames skip skip_lines f (drop len rest) (Suc idx) s')
            | None \<Rightarrow> stream_frames skip skip_lines f (drop len rest) (Suc idx) s)))"
  by pat_completeness auto
termination
  by (relation "measure (\<lambda>(skip, skip_lines, f, buf, idx, s). length buf)") auto

declare stream_frames.simps [simp del]

definition stream_log_entries :: "(bytes \<Rightarrow> bytes option) \<Rightarrow> log_file \<Rightarrow> nat \<Rightarrow> 's callback \<Rightarrow>
    ('s, db_error, control_flow) op" where
  "stream_log_entries skip path skip_lines f s =
     (case path of
        NoFile \<Rightarrow> (Inr Continue, s)
      | Unreadable msg \<Rightarrow> (Inl (Io msg), s)
      | File buf \<Rightarrow>
          (if buf = [] then (Inr Continue, s)
           else case stream_frames skip skip_lines f buf 0 s of (c, s') \<Rightarrow> (Inr c, s')))"

definition read_log_from_disk :: "(bytes \<Rightarrow> bytes option) \<Rightarrow> log_file \<Rightarrow> db_error + log_entry list" where
  "read_log_from_disk skip path =
     (case stream_log_entries skip path 0 (\<lambda>e l entries. (Continue, entries @ [e])) [] of
        (Inl err, _) \<Rightarrow> Inl err
      | (Inr _, entries) \<Rightarrow> Inr entries)"

section \<open>Replay\<close>

record replay =
  rp_tables :: tables
  rp_buffer :: "log_entry list"
  rp_active :: "string option"
  rp_count :: nat

definition replay_start :: "tables \<Rightarrow> replay" where
  "replay_start t = \<lparr>rp_tables = t, rp_buffer = [], rp_active = None, rp_count = 0\<rparr>"

text \<open>The match of the replay closure, shared by startup and point-in-time recovery.\<close>

definition replay_entry :: "env \<Rightarrow> log_entry \<Rightarrow> replay \<Rightarrow> replay" where
  "replay_entry env e rp =
     (if e_cmd e = IKEY_TX_BEGIN then
        rp\<lparr>rp_active := Some (e_key e), rp_buffer := []\<rparr>
      else if e_cmd e = IKEY_TX_COMMIT then
        (if rp_active rp = Some (e_key e) then
           rp\<lparr>rp_tables := fold (apply_entry env) (rp_buffer rp) (rp_tables rp),
              rp_buffer := [], rp_active := None\<rparr>
         else rp)
      else if rp_active rp \<noteq> None then rp\<lparr>rp_buffer := rp_buffer rp @ [e]\<rparr>
      else rp\<lparr>rp_tables := apply_entry env e (rp_tables rp)\<rparr>)"

definition replay_step :: "env \<Rightarrow> replay callback" where
  "replay_step env e len rp =
     (Continue, (replay_entry env e rp)\<lparr>rp_count := Suc (rp_count rp)\<rparr>)"

text \<open>The closure of \<open>recover_to\<close>: it stops at the first record beyond the requested point.\<close>

definition recover_step :: "env \<Rightarrow> u64 option \<Rightarrow> nat option \<Rightarrow> replay callback" where
  "recover_step env to_time to_seq e len rp =
     (if (case to_time of Some t \<Rightarrow> e_t e > t | None \<Rightarrow> False) then (Break, rp)
      else if (case to_seq of Some s \<Rightarrow> rp_count rp \<ge> s | None \<Rightarrow> False) then (Break, rp)
      else replay_step env e len rp)"

text \<open>The current documents and schemas as records, each stamped with a reading of the clock.\<close>

definition doc_entries :: "(string, collection) dashmap \<Rightarrow> log_entry list" where
  "doc_entries st =
     concat (map (\<lambda>(c, col).
       List.map_filter (\<lambda>(k, b). map_option (new_entry 0 IKEY_INSERT c k) (msgpack_to_value b)) col) st)"

definition schema_entries :: "(string, json \<times> (json \<Rightarrow> bool)) dashmap \<Rightarrow> log_entry list" where
  "schema_entries schemas = map (\<lambda>(c, schema, _). new_entry 0 ''SCHEMA'' c [] schema) schemas"

definition stamp_entries :: "env \<Rightarrow> nat \<Rightarrow> log_entry list \<Rightarrow> log_entry list" where
  "stamp_entries env n es = map (\<lambda>(i, e). e\<lparr>e_t := clock env i\<rparr>) (enumerate n es)"

section \<open>The frames of a log file\<close>

text \<open>Feeding decoded records to a callback until it asks to stop.\<close>

fun stream_list :: "'s callback \<Rightarrow> (log_entry \<times> u32) list \<Rightarrow> 's \<Rightarrow> control_flow \<times> 's" where
  "stream_list f [] s = (Continue, s)"
| "stream_list f ((e, len) # es) s =
     (case f e len s of (Break, s') \<Rightarrow> (Break, s') | (Continue, s') \<Rightarrow> stream_list f es s')"

text \<open>The complete records of a file; the reader stops at the first incomplete one.\<close>

function frames :: "bytes \<Rightarrow> bytes list" where
  "frames buf =
     (if length buf < 4 then []
      else if length buf - 4 < from_le (take 4 buf) then []
      else take (from_le (take 4 buf)) (drop 4 buf) # frames (drop (4 + from_le (take 4 buf)) buf))"
  by pat_completeness auto
termination by (relation "measure length") auto

declare frames.simps [simp del]

definition decode_frames :: "(bytes \<Rightarrow> bytes option) \<Rightarrow> bytes list \<Rightarrow> (log_entry \<times> u32) list" where
  "decode_frames skip fs = List.map_filter
     (\<lambda>p. map_option (\<lambda>e. (e, word_of_nat (length p + 4))) (log_entry_from_msgpack skip p)) fs"

lemma decode_frames_simps [simp]:
  "decode_frames skip [] = []"
  "decode_frames skip (p # fs) =
     (case log_entry_from_msgpack skip p of
        Some e \<Rightarrow> (e, word_of_nat (length p + 4)) # decode_frames skip fs
      | None \<Rightarrow> decode_frames skip fs)"
  by (simp_all add: decode_frames_def map_filter_simps split: option.split)

lemma stream_frames_eq:
  "stream_frames skip k f buf idx s = stream_list f (decode_frames skip (drop (k - idx) (frames buf))) s"
proof (induction skip k f buf idx s rule: stream_frames.induct)
  case (1 skip k f buf idx s)
  let ?n = "from_le (take 4 buf)"
  show ?case
  proof (cases "length buf < 4 \<or> length buf - 4 < ?n")
    case True
    then have "frames buf = []" by (subst frames.simps) auto
    with True show ?thesis by (subst stream_frames.simps) auto
  next
    case False
    then have fr: "frames buf = take ?n (drop 4 buf) # frames (drop ?n (drop 4 buf))"
      by (subst frames.simps) (auto simp: add.commute)
    show ?thesis
    proof (cases "idx < k")
      case True
      then obtain d where "k - idx = Suc d" "k - Suc idx = d" by (cases "k - idx") auto
      with True False 1(1) show ?thesis by (subst stream_frames.simps) (simp add: fr Let_def)
    next
      case nskip: False
      then have "k - idx = 0" "k - Suc idx = 0" by auto
      with nskip False 1(2,3) show ?thesis
        by (subst stream_frames.simps)
          (auto simp: fr Let_def split: option.splits prod.splits control_flow.splits)
    qed
  qed
qed

text \<open>A record that fits its length prefix.\<close>

definition record_ok :: "log_entry \<Rightarrow> bool" where
  "record_ok e \<longleftrightarrow> entry_ok e \<and> length (log_entry_to_msgpack e) < 2 ^ 32"

lemma frames_written:
  assumes "length (log_entry_to_msgpack e) < 2 ^ 32"
  shows "frames (write_msgpack_entry e @ r) = log_entry_to_msgpack e # frames r"
  using assms by (subst frames.simps) (simp add: write_msgpack_entry_def Let_def from_le_le_bytes)

lemma frames_torn:
  assumes "length (log_entry_to_msgpack e) < 2 ^ 32" and "n < length (write_msgpack_entry e)"
  shows "frames (take n (write_msgpack_entry e)) = []"
proof (cases "n < 4")
  case False
  then have "take 4 (take n (write_msgpack_entry e)) = le_bytes 4 (length (log_entry_to_msgpack e))"
    by (simp add: write_msgpack_entry_def Let_def min_def)
  with assms False show ?thesis
    by (subst frames.simps) (simp add: from_le_le_bytes write_msgpack_entry_def Let_def)
qed (simp add: frames.simps)

definition log_bytes :: "log_entry list \<Rightarrow> bytes" where
  "log_bytes es = concat (map write_msgpack_entry es)"

lemma log_bytes_simps [simp]:
  "log_bytes [] = []"
  "log_bytes (e # es) = write_msgpack_entry e @ log_bytes es"
  "log_bytes (es @ fs) = log_bytes es @ log_bytes fs"
  by (simp_all add: log_bytes_def)

text \<open>
  A prefix of a log has exactly the records whose bytes are complete: the largest number of
  records that fit.
\<close>

lemma frames_prefix:
  assumes "list_all record_ok es"
  shows "\<exists>k\<le>length es. frames (take n (log_bytes es)) = map log_entry_to_msgpack (take k es) \<and>
    (\<forall>i\<le>length es. length (log_bytes (take i es)) \<le> n \<longrightarrow> i \<le> k)"
  using assms
proof (induction es arbitrary: n)
  case Nil
  then show ?case by (simp add: frames.simps)
next
  case (Cons e es)
  have len: "length (log_entry_to_msgpack e) < 2 ^ 32"
    using Cons.prems by (simp add: record_ok_def)
  show ?case
  proof (cases "n < length (write_msgpack_entry e)")
    case True
    have "i \<le> 0" if "i \<le> length (e # es)" "length (log_bytes (take i (e # es))) \<le> n" for i
      using that True by (cases i) auto
    then show ?thesis
      using True by (intro exI [of _ 0]) (simp add: frames_torn [OF len])
  next
    case False
    obtain k where k: "k \<le> length es"
      "frames (take (n - length (write_msgpack_entry e)) (log_bytes es)) = map log_entry_to_msgpack (take k es)"
      "\<And>i. i \<le> length es \<Longrightarrow> length (log_bytes (take i es)) \<le> n - length (write_msgpack_entry e) \<Longrightarrow> i \<le> k"
      using Cons by fastforce
    have "i \<le> Suc k" if "i \<le> length (e # es)" "length (log_bytes (take i (e # es))) \<le> n" for i
      using that k(3) [of "i - 1"] False by (cases i) auto
    then show ?thesis
      using False k(1,2) by (intro exI [of _ "Suc k"]) (simp add: frames_written [OF len])
  qed
qed

lemma decode_written:
  "list_all record_ok es \<Longrightarrow>
     map fst (decode_frames skip (map log_entry_to_msgpack es)) = map stored_entry es"
  by (induction es) (simp_all add: record_ok_def log_entry_read_back)

section \<open>Replay of a list of records\<close>

definition replay_tables :: "env \<Rightarrow> log_entry list \<Rightarrow> tables \<Rightarrow> tables" where
  "replay_tables env es t = rp_tables (fold (replay_entry env) es (replay_start t))"

lemma replay_entry_count:
  "replay_entry env e (rp\<lparr>rp_count := n\<rparr>) = (replay_entry env e rp)\<lparr>rp_count := n\<rparr>"
  by (simp add: replay_entry_def)

lemma rp_count_replay [simp]: "rp_count (replay_entry env e rp) = rp_count rp"
  by (simp add: replay_entry_def)

lemma stream_list_replay:
  "stream_list (replay_step env) els rp =
     (Continue, (fold (replay_entry env) (map fst els) rp)\<lparr>rp_count := rp_count rp + length els\<rparr>)"
proof -
  have "fold (replay_entry env) es (rp\<lparr>rp_count := n\<rparr>) = (fold (replay_entry env) es rp)\<lparr>rp_count := n\<rparr>"
    for es n rp
    by (induction es arbitrary: rp) (simp_all add: replay_entry_count)
  then show ?thesis
    by (induction els arbitrary: rp) (auto simp: replay_step_def)
qed

section \<open>Transactions\<close>

text \<open>A serial log: transactions, each between its begin and commit records, and single records.\<close>

datatype log_item = Tx log_entry "log_entry list" log_entry | Single log_entry

fun item_entries :: "log_item \<Rightarrow> log_entry list" where
  "item_entries (Tx b es c) = b # es @ [c]"
| "item_entries (Single e) = [e]"

fun item_body :: "log_item \<Rightarrow> log_entry list" where
  "item_body (Tx b es c) = es"
| "item_body (Single e) = [e]"

definition plain :: "log_entry \<Rightarrow> bool" where
  "plain e \<longleftrightarrow> e_cmd e \<noteq> IKEY_TX_BEGIN \<and> e_cmd e \<noteq> IKEY_TX_COMMIT \<and>
     e_cmd e \<noteq> ''TX_BEGIN'' \<and> e_cmd e \<noteq> ''TX_COMMIT''"

fun item_ok :: "log_item \<Rightarrow> bool" where
  "item_ok (Tx b es c) \<longleftrightarrow>
     e_cmd b = IKEY_TX_BEGIN \<and> e_cmd c = IKEY_TX_COMMIT \<and> e_key c = e_key b \<and> list_all plain es"
| "item_ok (Single e) \<longleftrightarrow> plain e"

lemma replay_body:
  assumes "list_all plain es" and "rp_active rp = Some x"
  shows "fold (replay_entry env) es rp = rp\<lparr>rp_buffer := rp_buffer rp @ es\<rparr>"
  using assms by (induction es arbitrary: rp) (auto simp: replay_entry_def plain_def)

lemma replay_item:
  assumes "item_ok i" and "rp_active rp = None" and "rp_buffer rp = []"
  shows "fold (replay_entry env) (item_entries i) rp =
    rp\<lparr>rp_tables := fold (apply_entry env) (item_body i) (rp_tables rp)\<rparr>"
proof (cases i)
  case (Tx b es c)
  let ?rp = "rp\<lparr>rp_active := Some (e_key b), rp_buffer := []\<rparr>"
  have "replay_entry env b rp = ?rp"
    using assms(1) by (simp add: Tx replay_entry_def)
  moreover have "fold (replay_entry env) es ?rp = ?rp\<lparr>rp_buffer := es\<rparr>"
    using assms(1) by (subst replay_body) (auto simp: Tx)
  ultimately show ?thesis
    using assms by (simp add: Tx replay_entry_def)
next
  case (Single e)
  then show ?thesis using assms by (auto simp: replay_entry_def plain_def)
qed

lemma replay_items:
  assumes "list_all item_ok is" and "rp_active rp = None" and "rp_buffer rp = []"
  shows "fold (replay_entry env) (concat (map item_entries is)) rp =
    rp\<lparr>rp_tables := fold (apply_entry env) (concat (map item_body is)) (rp_tables rp)\<rparr>"
  using assms by (induction "is" arbitrary: rp) (simp_all add: replay_item)

text \<open>A transaction that is cut off before its commit record has no effect.\<close>

lemma replay_cut_item:
  assumes "item_ok i" and "n < length (item_entries i)"
    and "rp_active rp = None"
  shows "rp_tables (fold (replay_entry env) (take n (item_entries i)) rp) = rp_tables rp"
proof (cases i)
  case (Tx b es c)
  show ?thesis
  proof (cases n)
    case (Suc m)
    then have "m \<le> length es" using assms(2) by (simp add: Tx)
    moreover have "list_all plain (take m es)"
      using assms(1) by (auto simp: Tx list_all_iff dest: in_set_takeD)
    ultimately show ?thesis
      using assms(1) by (simp add: Tx Suc replay_entry_def [of env b] replay_body)
  qed simp
next
  case (Single e)
  then show ?thesis using assms(2) by simp
qed

lemma replay_prefix:
  assumes "list_all item_ok is" and "rp_active rp = None" and "rp_buffer rp = []"
  shows "\<exists>j\<le>length is. rp_tables (fold (replay_entry env) (take n (concat (map item_entries is))) rp)
      = fold (apply_entry env) (concat (map item_body (take j is))) (rp_tables rp) \<and>
    (\<forall>i\<le>length is. length (concat (map item_entries (take i is))) \<le> n \<longrightarrow> i \<le> j)"
  using assms
proof (induction "is" arbitrary: n rp)
  case Nil
  then show ?case by simp
next
  case (Cons a "is")
  show ?case
  proof (cases "n < length (item_entries a)")
    case True
    have "i \<le> 0" if "length (concat (map item_entries (take i (a # is)))) \<le> n" for i
      using that True by (cases i) auto
    then show ?thesis
      using True Cons.prems replay_cut_item [OF _ True, of rp env]
      by (intro exI [of _ 0]) auto
  next
    case False
    let ?rp = "rp\<lparr>rp_tables := fold (apply_entry env) (item_body a) (rp_tables rp)\<rparr>"
    obtain j where j: "j \<le> length is"
      "rp_tables (fold (replay_entry env) (take (n - length (item_entries a)) (concat (map item_entries is))) ?rp)
        = fold (apply_entry env) (concat (map item_body (take j is))) (rp_tables ?rp)"
      "\<And>i. i \<le> length is \<Longrightarrow> length (concat (map item_entries (take i is))) \<le> n - length (item_entries a) \<Longrightarrow> i \<le> j"
      using Cons.IH [of ?rp "n - length (item_entries a)"] Cons.prems by auto
    have "i \<le> Suc j" if "i \<le> length (a # is)" "length (concat (map item_entries (take i (a # is)))) \<le> n" for i
      using that j(3) [of "i - 1"] False by (cases i) auto
    moreover have "take n (concat (map item_entries (a # is))) =
        item_entries a @ take (n - length (item_entries a)) (concat (map item_entries is))"
      using False by simp
    ultimately show ?thesis
      using Cons.prems j(1,2) by (intro exI [of _ "Suc j"]) (auto simp: replay_item)
  qed
qed

text \<open>Records change on their way through the file; a serial log stays serial.\<close>

fun map_item :: "(log_entry \<Rightarrow> log_entry) \<Rightarrow> log_item \<Rightarrow> log_item" where
  "map_item f (Tx b es c) = Tx (f b) (map f es) (f c)"
| "map_item f (Single e) = Single (f e)"

lemma item_entries_map [simp]: "item_entries (map_item f i) = map f (item_entries i)"
  by (cases i) auto

lemma item_body_map [simp]: "item_body (map_item f i) = map f (item_body i)"
  by (cases i) auto

lemma stored_entry_sel [simp]:
  "e_cmd (stored_entry e) = stored_cmd (e_cmd e)" "e_key (stored_entry e) = e_key e"
  "e_collection (stored_entry e) = e_collection e" "e_value (stored_entry e) = tokenize (e_value e)"
  by (simp_all add: stored_entry_def)

lemma plain_stored: "plain e \<Longrightarrow> plain (stored_entry e)"
  by (auto simp: plain_def stored_cmd_def to_ikey_def)

lemma item_ok_stored: "item_ok i \<Longrightarrow> item_ok (map_item stored_entry i)"
  by (cases i) (auto simp: plain_stored list_all_iff)

lemma crash_prefix:
  assumes "list_all item_ok is" and "list_all record_ok (concat (map item_entries is))"
  shows "\<exists>j\<le>length is.
    replay_tables env
      (map fst (decode_frames skip (frames (take n (log_bytes (concat (map item_entries is))))))) t
      = fold (apply_entry env) (map stored_entry (concat (map item_body (take j is)))) t \<and>
    (\<forall>i\<le>length is. length (log_bytes (concat (map item_entries (take i is)))) \<le> n \<longrightarrow> i \<le> j)"
proof -
  let ?es = "concat (map item_entries is)"
  obtain k where k: "k \<le> length ?es"
    "frames (take n (log_bytes ?es)) = map log_entry_to_msgpack (take k ?es)"
    "\<And>i. i \<le> length ?es \<Longrightarrow> length (log_bytes (take i ?es)) \<le> n \<Longrightarrow> i \<le> k"
    using frames_prefix [OF assms(2), of n] by blast
  have "list_all record_ok (take k ?es)"
    using assms(2) unfolding list_all_iff by (blast dest: in_set_takeD)
  then have dec: "map fst (decode_frames skip (frames (take n (log_bytes ?es)))) = map stored_entry (take k ?es)"
    by (simp add: k(2) decode_written)
  let ?st = "map (map_item stored_entry) is"
  have ok: "list_all item_ok ?st" using assms(1) by (auto simp: list_all_iff intro: item_ok_stored)
  have conc: "concat (map item_entries ?st) = map stored_entry ?es"
    by (simp add: comp_def map_concat)
  obtain j where j: "j \<le> length is"
    "rp_tables (fold (replay_entry env) (take k (map stored_entry ?es)) (replay_start t)) =
       fold (apply_entry env) (concat (map item_body (take j ?st))) t"
    "\<And>i. i \<le> length is \<Longrightarrow> length (concat (map item_entries (take i ?st))) \<le> k \<Longrightarrow> i \<le> j"
    using replay_prefix [OF ok, of "replay_start t" env k] unfolding conc
    by (auto simp: replay_start_def)
  have "i \<le> j" if "i \<le> length is" "length (log_bytes (concat (map item_entries (take i is)))) \<le> n" for i
  proof -
    let ?L = "length (concat (map item_entries (take i is)))"
    have "?es = concat (map item_entries (take i is)) @ concat (map item_entries (drop i is))"
      by (metis append_take_drop_id concat_append map_append)
    then have tk: "take ?L ?es = concat (map item_entries (take i is))" "?L \<le> length ?es" by simp_all
    then have "?L \<le> k" using that(2) k(3) [of ?L] by simp
    moreover have "length (concat (map item_entries (take i ?st))) = ?L"
      by (simp add: take_map comp_def length_concat)
    ultimately show ?thesis using j(3) that(1) by simp
  qed
  moreover have "concat (map item_body (take j ?st)) = map stored_entry (concat (map item_body (take j is)))"
    by (simp add: take_map comp_def map_concat)
  ultimately show ?thesis
    using j(1,2) by (intro exI [of _ j]) (simp add: replay_tables_def dec take_map)
qed

end
