(* ===== verification/Opfs.thy ===== *)
theory Opfs
  imports Wal
begin

text \<open>
  The browser's backend \<open>OpfsStorage\<close> (\<open>storage/wasm.rs\<close>): one file in the origin's private file
  system, written through a handle that belongs to the worker. Compaction empties the file and
  writes it anew.
\<close>

section \<open>The file\<close>

text \<open>
  The answer to a call on the handle: it completes, it transfers fewer bytes than asked for and
  reports their number, or it throws after some bytes. The code looks only for exceptions.
\<close>

datatype browser_io = Completes | Short nat | Throws nat

text \<open>
  The bytes of the file, whether the handle is open, the mode, the clock of the records a
  compaction makes, the answers to the coming writing calls, and the answers to the calls of a read.
\<close>

record opfs =
  of_file :: bytes
  of_open :: bool
  of_sync :: bool
  of_clock :: "nat \<Rightarrow> u64"
  of_ticks :: nat
  of_io :: "browser_io list"
  of_reads :: "browser_io list"

definition next_answer :: "opfs \<Rightarrow> browser_io \<times> opfs" where
  "next_answer s = (case of_io s of [] \<Rightarrow> (Completes, s) | i # is \<Rightarrow> (i, s\<lparr>of_io := is\<rparr>))"

text \<open>\<open>get_size\<close> and \<open>flush\<close>: calls without an effect on the bytes.\<close>

definition opfs_call :: "(opfs, db_error, unit) op" where
  "opfs_call s = (case next_answer s of (Throws n, s') \<Rightarrow> (Inl WriteError, s') | (_, s') \<Rightarrow> (Inr (), s'))"

definition opfs_truncate :: "(opfs, db_error, unit) op" where
  "opfs_truncate = op_bind opfs_call (\<lambda>_. op_upd (\<lambda>s. s\<lparr>of_file := []\<rparr>))"

text \<open>A write beyond the end fills the gap with zeros.\<close>

definition bytes_at :: "nat \<Rightarrow> bytes \<Rightarrow> bytes \<Rightarrow> bytes" where
  "bytes_at pos bs file =
     (if bs = [] then file
      else take pos file @ replicate (pos - length file) 0 @ bs @ drop (pos + length bs) file)"

definition opfs_write_at :: "nat \<Rightarrow> bytes \<Rightarrow> (opfs, db_error, unit) op" where
  "opfs_write_at pos bs s =
     (case next_answer s of
        (Completes, s') \<Rightarrow> (Inr (), s'\<lparr>of_file := bytes_at pos bs (of_file s')\<rparr>)
      | (Short n, s') \<Rightarrow> (Inr (), s'\<lparr>of_file := bytes_at pos (take n bs) (of_file s')\<rparr>)
      | (Throws n, s') \<Rightarrow> (Inl WriteError, s'\<lparr>of_file := bytes_at pos (take n bs) (of_file s')\<rparr>))"

text \<open>\<open>guard.as_ref().ok_or(WriteError)\<close>\<close>

definition with_handle :: "(opfs, db_error, 'a) op \<Rightarrow> (opfs, db_error, 'a) op" where
  "with_handle m s = (if of_open s then m s else (Inl WriteError, s))"

section \<open>Writing\<close>

definition opfs_write_entry :: "log_entry \<Rightarrow> (opfs, db_error, unit) op" where
  "opfs_write_entry e =
     (let encoded = log_entry_to_msgpack e;
          bytes = le_bytes 4 (length encoded) @ encoded in
      with_handle
        (op_bind opfs_call (\<lambda>_ s.
         op_bind (opfs_write_at (length (of_file s)) bytes) (\<lambda>_ s.
           if of_sync s then opfs_call s else (Inr (), s)) s)))"

definition truncate_and_close :: "(opfs, db_error, unit) op" where
  "truncate_and_close =
     with_handle
       (op_bind opfs_truncate (\<lambda>_.
        op_bind opfs_call (\<lambda>_.
        op_upd (\<lambda>s. s\<lparr>of_open := False\<rparr>))))"

definition opfs_drop :: "opfs \<Rightarrow> opfs" where
  "opfs_drop s = s\<lparr>of_open := False\<rparr>"

section \<open>Reading\<close>

definition chunk_size :: nat where
  "chunk_size = 64 * 1024"

text \<open>
  One call reads into the front of the chunk buffer, which keeps its old bytes where the call
  brings none; the loop takes the whole slice.
\<close>

definition read_into :: "browser_io \<Rightarrow> bytes \<Rightarrow> bytes \<Rightarrow> (bytes \<times> bool)" where
  "read_into answer avail buffer =
     (case answer of
        Completes \<Rightarrow> (avail @ drop (length avail) buffer, True)
      | Short n \<Rightarrow> (take n avail @ drop (length (take n avail)) buffer, True)
      | Throws n \<Rightarrow> (buffer, False))"

function read_chunks :: "bytes \<Rightarrow> nat \<Rightarrow> bytes \<Rightarrow> browser_io list \<Rightarrow> bytes \<Rightarrow> db_error + bytes" where
  "read_chunks file offset buffer answers linear_log =
     (if offset < length file then
        (let to_read = min (length file - offset) chunk_size;
             (answer, answers') = (case answers of [] \<Rightarrow> (Completes, []) | a # as \<Rightarrow> (a, as));
             (buffer', fine) = read_into answer (take to_read (drop offset file)) buffer in
         if fine then read_chunks file (offset + to_read) buffer' answers' (linear_log @ take to_read buffer')
         else Inl WriteError)
      else Inr linear_log)"
  by pat_completeness auto
termination
  by (relation "measure (\<lambda>(file, offset, _). length file - offset)") (auto simp: chunk_size_def)

declare read_chunks.simps [simp del]

text \<open>The records in the bytes, by a cursor; a record that does not decode is passed over.\<close>

function opfs_parse :: "(bytes \<Rightarrow> bytes option) \<Rightarrow> 's callback \<Rightarrow> bytes \<Rightarrow> nat \<Rightarrow> 's \<Rightarrow> control_flow \<times> 's" where
  "opfs_parse skip f linear_log cursor s =
     (if cursor + 4 \<le> length linear_log then
        (let msg_len = from_le (take 4 (drop cursor linear_log)) in
         if cursor + 4 + msg_len > length linear_log then (Continue, s)
         else
           (case log_entry_from_msgpack skip (take msg_len (drop (cursor + 4) linear_log)) of
              Some entry \<Rightarrow>
                (case f entry (word_of_nat msg_len) s of
                   (Break, s') \<Rightarrow> (Break, s')
                 | (Continue, s') \<Rightarrow> opfs_parse skip f linear_log (cursor + 4 + msg_len) s')
            | None \<Rightarrow> opfs_parse skip f linear_log (cursor + 4 + msg_len) s))
      else (Continue, s))"
  by pat_completeness auto
termination
  by (relation "measure (\<lambda>(skip, f, linear_log, cursor, s). length linear_log - cursor)") auto

declare opfs_parse.simps [simp del]

definition opfs_stream :: "(bytes \<Rightarrow> bytes option) \<Rightarrow> opfs \<Rightarrow> 's callback \<Rightarrow> ('s, db_error, control_flow) op" where
  "opfs_stream skip st f s =
     (if \<not> of_open st then (Inl WriteError, s)
      else
        (let (answer, answers) = (case of_reads st of [] \<Rightarrow> (Completes, []) | a # as \<Rightarrow> (a, as)) in
         case answer of
           Throws n \<Rightarrow> (Inl WriteError, s)
         | _ \<Rightarrow>
           (if of_file st = [] then (Inr Continue, s)
            else case read_chunks (of_file st) 0 (replicate chunk_size 0) answers [] of
                   Inl err \<Rightarrow> (Inl err, s)
                 | Inr linear_log \<Rightarrow>
                     (case opfs_parse skip f linear_log 0 s of (c, s') \<Rightarrow> (Inr c, s')))))"

definition opfs_read_log :: "(bytes \<Rightarrow> bytes option) \<Rightarrow> opfs \<Rightarrow> db_error + log_entry list" where
  "opfs_read_log skip st =
     (case opfs_stream skip st (\<lambda>entry len entries. (Continue, entries @ [entry])) [] of
        (Inl err, entries) \<Rightarrow> Inl err | (Inr _, entries) \<Rightarrow> Inr entries)"

section \<open>Compaction\<close>

text \<open>The records of a compaction, each made with a reading of the clock.\<close>

definition opfs_entries :: "(nat \<Rightarrow> u64) \<Rightarrow> nat \<Rightarrow> (string, collection) dashmap \<Rightarrow>
    (string, json \<times> (json \<Rightarrow> bool)) dashmap \<Rightarrow> log_entry list" where
  "opfs_entries clk n st schemas =
     map (\<lambda>(i, e). e\<lparr>e_t := clk i\<rparr>) (enumerate n
       (doc_entries st @ map (\<lambda>(c, schema, _). new_entry 0 IKEY_SCHEMA c [] schema) schemas))"

text \<open>\<open>write_buffer\<close>: the buffer goes to the file at the offset reached so far.\<close>

definition write_buffer :: "nat \<Rightarrow> bytes \<Rightarrow> (opfs, db_error, nat) op" where
  "write_buffer offset buffer =
     (if buffer = [] then op_return offset
      else op_bind (opfs_write_at offset buffer) (\<lambda>_. op_return (offset + length buffer)))"

fun write_records :: "log_entry list \<Rightarrow> nat \<Rightarrow> bytes \<Rightarrow> (opfs, db_error, nat) op" where
  "write_records [] offset buffer = write_buffer offset buffer"
| "write_records (e # es) offset buffer =
     (let encoded = log_entry_to_msgpack e;
          buffer' = buffer @ le_bytes 4 (length encoded) @ encoded in
      if chunk_size \<le> length buffer' then
        op_bind (write_buffer offset buffer') (\<lambda>offset'. write_records es offset' [])
      else write_records es offset buffer')"

definition do_compact :: "(string, collection) dashmap \<Rightarrow> (string, json \<times> (json \<Rightarrow> bool)) dashmap \<Rightarrow>
    (opfs, db_error, unit) op" where
  "do_compact st schemas =
     with_handle
       (op_bind opfs_truncate (\<lambda>_ s.
        (let es = opfs_entries (of_clock s) (of_ticks s) st schemas in
         op_bind (op_upd (\<lambda>s. s\<lparr>of_ticks := of_ticks s + length es\<rparr>)) (\<lambda>_.
         op_bind (write_records es 0 []) (\<lambda>_.
         opfs_call)) s)))"

section \<open>An intact file\<close>

text \<open>No call of the coming ones transfers less than it was asked for.\<close>

fun is_short :: "browser_io \<Rightarrow> bool" where
  "is_short (Short n) = True"
| "is_short _ = False"

definition honest :: "opfs \<Rightarrow> bool" where
  "honest s \<longleftrightarrow> list_all (\<lambda>i. \<not> is_short i) (of_io s)"

text \<open>The handle is open, the file readable, and it holds the records \<open>ls\<close>.\<close>

definition opfs_logs :: "opfs \<Rightarrow> log_entry list \<Rightarrow> bool" where
  "opfs_logs s ls \<longleftrightarrow> of_open s \<and> honest s \<and> list_all ((=) Completes) (of_reads s) \<and>
     list_all record_ok ls \<and> of_file s = log_bytes ls"

lemma read_chunks_all:
  assumes "list_all ((=) Completes) answers" and "length buffer = chunk_size"
  shows "read_chunks content pos buffer answers got = Inr (got @ drop pos content)"
  using assms
proof (induction content pos buffer answers got rule: read_chunks.induct)
  case (1 content pos buffer answers got)
  show ?case
  proof (cases "pos < length content")
    case False
    then show ?thesis by (subst read_chunks.simps) simp
  next
    case True
    let ?n = "min (length content - pos) chunk_size"
    let ?data = "take ?n (drop pos content)"
    obtain rest where rest: "(case answers of [] \<Rightarrow> (Completes, []) | a # as \<Rightarrow> (a, as)) = (Completes, rest)"
      "list_all ((=) Completes) rest"
      using "1.prems"(1) by (cases answers) auto
    have data: "length ?data = ?n" by simp
    have buf: "length (?data @ drop (length ?data) buffer) = chunk_size"
      using "1.prems"(2) data by simp
    have "read_chunks content (pos + ?n) (?data @ drop (length ?data) buffer) rest (got @ ?data) =
        Inr ((got @ ?data) @ drop (pos + ?n) content)"
      using "1.IH" [OF True refl refl rest(1) [symmetric] refl, of "?data @ drop (length ?data) buffer" True]
        rest(2) buf data by (simp add: read_into_def)
    moreover have "?data @ drop (pos + ?n) content = drop pos content"
      by (metis add.commute append_take_drop_id drop_drop)
    ultimately show ?thesis
      using True rest(1) data by (subst read_chunks.simps) (simp add: Let_def read_into_def)
  qed
qed

lemma opfs_parse_frames:
  assumes "\<And>e len s. f e len s = f e 0 s"
  shows "opfs_parse skip f buf cursor s = stream_frames skip 0 f (drop cursor buf) idx s"
  using assms
proof (induction skip f buf cursor s arbitrary: idx rule: opfs_parse.induct)
  case (1 skip f buf cursor s)
  let ?rest = "drop cursor buf"
  let ?len = "from_le (take 4 ?rest)"
  show ?case
  proof (cases "cursor + 4 \<le> length buf \<and> \<not> cursor + 4 + ?len > length buf")
    case False
    then show ?thesis
      by (subst opfs_parse.simps, subst stream_frames.simps) (auto simp: Let_def)
  next
    case True
    let ?e = "log_entry_from_msgpack skip (take ?len (drop (cursor + 4) buf))"
    have shift: "drop 4 ?rest = drop (cursor + 4) buf" "drop ?len (drop (cursor + 4) buf) = drop (cursor + 4 + ?len) buf"
      by (simp_all add: ac_simps)
    have len: "f e (word_of_nat (?len + 4)) t = f e (word_of_nat ?len) t" for e t
      using "1.prems" by metis
    have ih: "opfs_parse skip f buf (cursor + 4 + ?len) t = stream_frames skip 0 f (drop (cursor + 4 + ?len) buf) (Suc idx) t"
      if "?e = None \<and> t = s \<or> (\<exists>entry. ?e = Some entry \<and> f entry (word_of_nat ?len) s = (Continue, t))" for t
      using that "1.IH" True "1.prems" by auto
    have "opfs_parse skip f buf cursor s =
        (case ?e of
           Some entry \<Rightarrow>
             (case f entry (word_of_nat ?len) s of
                (Break, t) \<Rightarrow> (Break, t)
              | (Continue, t) \<Rightarrow> stream_frames skip 0 f (drop (cursor + 4 + ?len) buf) (Suc idx) t)
         | None \<Rightarrow> stream_frames skip 0 f (drop (cursor + 4 + ?len) buf) (Suc idx) s)"
      using True ih
      by (subst opfs_parse.simps) (auto simp: Let_def split: option.splits prod.splits control_flow.splits)
    moreover have "\<not> length ?rest < 4" "\<not> length (drop (cursor + 4) buf) < ?len" using True by auto
    ultimately show ?thesis
      by (subst stream_frames.simps) (simp only: Let_def shift len if_False not_less_zero)
  qed
qed

lemma opfs_stream_logs:
  assumes "opfs_logs st ls" and "\<And>e len s. f e len s = f e 0 s"
  shows "opfs_stream skip st f s = stream_log_entries skip (File (log_bytes ls)) 0 f s"
proof -
  obtain answers where a: "(case of_reads st of [] \<Rightarrow> (Completes, []) | a # as \<Rightarrow> (a, as)) = (Completes, answers)"
    "list_all ((=) Completes) answers"
    using assms(1) by (cases "of_reads st") (auto simp: opfs_logs_def)
  have "read_chunks (of_file st) 0 (replicate chunk_size 0) answers [] = Inr (of_file st)"
    using read_chunks_all [OF a(2)] by simp
  then show ?thesis
    using assms(1) a(1) opfs_parse_frames [of f skip "of_file st" 0 s 0, OF assms(2)]
    by (simp add: opfs_stream_def stream_log_entries_def opfs_logs_def)
qed

lemma bytes_at_end [simp]: "bytes_at (length xs) bs xs = xs @ bs"
  by (simp add: bytes_at_def)

lemma opfs_call_keeps:
  assumes "opfs_call s = (r, s')"
  shows "of_file s' = of_file s" "of_open s' = of_open s" "of_sync s' = of_sync s" "of_reads s' = of_reads s"
    "of_clock s' = of_clock s" "of_ticks s' = of_ticks s" "honest s \<Longrightarrow> honest s'"
  using assms
  by (auto simp: opfs_call_def next_answer_def honest_def split: list.splits browser_io.splits)

lemma opfs_write_at_end:
  assumes "opfs_write_at (length (of_file s)) bs s = (Inr (), s')" and "honest s"
  shows "of_file s' = of_file s @ bs" "of_open s' = of_open s" "of_reads s' = of_reads s" "honest s'"
  using assms
  by (auto simp: opfs_write_at_def next_answer_def honest_def split: list.splits browser_io.splits)

lemma opfs_write_logs:
  assumes "opfs_logs s ls" and "record_ok e" and "opfs_write_entry e s = (Inr (), s')"
  shows "opfs_logs s' (ls @ [e])"
proof -
  have s: "of_open s" "honest s" using assms(1) by (simp_all add: opfs_logs_def)
  obtain s1 s2 where s1: "opfs_call s = (Inr (), s1)"
    and s2: "opfs_write_at (length (of_file s1)) (write_msgpack_entry e) s1 = (Inr (), s2)"
    and s': "(if of_sync s2 then opfs_call s2 else (Inr (), s2)) = (Inr (), s')"
    using assms(3) s(1)
    by (auto simp: opfs_write_entry_def with_handle_def Let_def op_bind_eq_Inr write_msgpack_entry_def)
  note k1 = opfs_call_keeps [OF s1] and w = opfs_write_at_end [OF s2]
  have "of_file s' = of_file s2 \<and> of_open s' = of_open s2 \<and> of_reads s' = of_reads s2 \<and> (honest s2 \<longrightarrow> honest s')"
    using s' opfs_call_keeps [of s2 "Inr ()" s'] by (auto split: if_splits)
  then show ?thesis
    using assms(1,2) s(2) k1 w by (simp add: opfs_logs_def)
qed

text \<open>No call fails.\<close>

definition opfs_fine :: "opfs \<Rightarrow> bool" where
  "opfs_fine s \<longleftrightarrow> list_all ((=) Completes) (of_io s)"

lemma fine_honest: "opfs_fine s \<Longrightarrow> honest s"
  by (auto simp: opfs_fine_def honest_def list_all_iff)

lemma opfs_call_fine:
  assumes "opfs_fine s"
  shows "opfs_call s = (Inr (), s\<lparr>of_io := tl (of_io s)\<rparr>)" and "opfs_fine (s\<lparr>of_io := tl (of_io s)\<rparr>)"
proof -
  have "s\<lparr>of_io := []\<rparr> = s" if "of_io s = []" using that by (cases s) simp
  then show "opfs_call s = (Inr (), s\<lparr>of_io := tl (of_io s)\<rparr>)" "opfs_fine (s\<lparr>of_io := tl (of_io s)\<rparr>)"
    using assms by (cases "of_io s"; auto simp: opfs_call_def next_answer_def opfs_fine_def)+
qed

lemma opfs_write_at_fine:
  assumes "opfs_fine s"
  shows "opfs_write_at (length (of_file s)) bs s =
    (Inr (), s\<lparr>of_io := tl (of_io s), of_file := of_file s @ bs\<rparr>)"
proof -
  have "s\<lparr>of_io := []\<rparr> = s" if "of_io s = []" using that by (cases s) simp
  then show ?thesis
    using assms by (cases "of_io s") (auto simp: opfs_write_at_def next_answer_def opfs_fine_def)
qed

lemma opfs_write_fine:
  assumes "of_open s" and "opfs_fine s"
  shows "\<exists>s'. opfs_write_entry e s = (Inr (), s') \<and> of_open s' \<and> opfs_fine s'"
proof -
  let ?s1 = "s\<lparr>of_io := tl (of_io s)\<rparr>" and ?bs = "write_msgpack_entry e"
  let ?s2 = "?s1\<lparr>of_io := tl (of_io ?s1), of_file := of_file ?s1 @ ?bs\<rparr>"
  have fine: "opfs_fine ?s1" "opfs_fine ?s2"
    using opfs_call_fine(2) [OF assms(2)] opfs_call_fine(2) [of ?s1] by (simp_all add: opfs_fine_def)
  have "opfs_write_entry e s = (if of_sync ?s2 then opfs_call ?s2 else (Inr (), ?s2))"
    using assms(1) opfs_call_fine(1) [OF assms(2)] opfs_write_at_fine [OF fine(1), of ?bs]
    by (simp add: opfs_write_entry_def with_handle_def op_bind_def write_msgpack_entry_def Let_def)
  then show ?thesis
    using assms(1) fine(2) opfs_call_fine [OF fine(2)] by (auto simp: opfs_fine_def)
qed

lemma write_records_fine:
  assumes "opfs_fine s"
  shows "\<exists>ios n. write_records es (length (of_file s)) buffer s =
    (Inr n, s\<lparr>of_io := ios, of_file := of_file s @ buffer @ log_bytes es\<rparr>) \<and> list_all ((=) Completes) ios"
  using assms
proof (induction es arbitrary: s buffer)
  case Nil
  have "s\<lparr>of_io := of_io s\<rparr> = s" by simp
  then show ?case
    using Nil opfs_write_at_fine [OF Nil, of buffer] opfs_call_fine(2) [OF Nil]
    by (auto simp: write_buffer_def op_bind_def op_return_def opfs_fine_def
        intro!: exI [of _ "if buffer = [] then of_io s else tl (of_io s)"])
next
  case (Cons e es)
  let ?buf = "buffer @ write_msgpack_entry e"
  show ?case
  proof (cases "chunk_size \<le> length ?buf")
    case True
    let ?s = "s\<lparr>of_io := tl (of_io s), of_file := of_file s @ ?buf\<rparr>"
    have "?buf \<noteq> []" using True by (auto simp: chunk_size_def)
    then have "write_buffer (length (of_file s)) ?buf =
        op_bind (opfs_write_at (length (of_file s)) ?buf) (\<lambda>_. op_return (length (of_file s) + length ?buf))"
      unfolding write_buffer_def by (rule if_not_P)
    then have "write_buffer (length (of_file s)) ?buf s = (Inr (length (of_file ?s)), ?s)"
      using opfs_write_at_fine [OF Cons.prems, of ?buf] by (simp add: op_bind_def op_return_def)
    then have "write_records (e # es) (length (of_file s)) buffer s = write_records es (length (of_file ?s)) [] ?s"
      using True by (simp add: op_bind_def write_msgpack_entry_def Let_def)
    moreover have "opfs_fine ?s" using opfs_call_fine(2) [OF Cons.prems] by (simp add: opfs_fine_def)
    ultimately show ?thesis using Cons.IH [of ?s "[]"] by force
  next
    case False
    then have "write_records (e # es) (length (of_file s)) buffer s = write_records es (length (of_file s)) ?buf s"
      by (simp add: write_msgpack_entry_def Let_def)
    then show ?thesis using Cons.IH [OF Cons.prems, of ?buf] by simp
  qed
qed

lemma do_compact_logs:
  assumes "opfs_logs s ls" and "opfs_fine s"
    and "list_all record_ok (opfs_entries (of_clock s) (of_ticks s) st schemas)"
  shows "\<exists>s'. do_compact st schemas s = (Inr (), s') \<and>
    opfs_logs s' (opfs_entries (of_clock s) (of_ticks s) st schemas)"
proof -
  let ?es = "opfs_entries (of_clock s) (of_ticks s) st schemas"
  let ?s1 = "s\<lparr>of_io := tl (of_io s), of_file := [], of_ticks := of_ticks s + length ?es\<rparr>"
  have open_handle: "of_open s" using assms(1) by (simp add: opfs_logs_def)
  have "opfs_fine ?s1" using opfs_call_fine(2) [OF assms(2)] by (simp add: opfs_fine_def)
  then obtain ios n where w: "write_records ?es 0 [] ?s1 = (Inr n, ?s1\<lparr>of_io := ios, of_file := log_bytes ?es\<rparr>)"
    and ios: "list_all ((=) Completes) ios"
    using write_records_fine [of ?s1 ?es "[]"] by auto
  let ?s2 = "?s1\<lparr>of_io := ios, of_file := log_bytes ?es\<rparr>"
  have fine: "opfs_fine ?s2" using ios by (simp add: opfs_fine_def)
  have run: "do_compact st schemas s = (Inr (), ?s2\<lparr>of_io := tl ios\<rparr>)"
    using opfs_call_fine(1) [OF assms(2)] opfs_call_fine(1) [OF fine] w open_handle
    by (simp add: do_compact_def with_handle_def opfs_truncate_def op_bind_def Let_def)
  have "honest (?s2\<lparr>of_io := tl ios\<rparr>)" using opfs_call_fine(2) [OF fine] by (intro fine_honest) simp
  then have "opfs_logs (?s2\<lparr>of_io := tl ios\<rparr>) ?es"
    using assms(1,3) by (simp add: opfs_logs_def)
  with run show ?thesis by blast
qed

end
