(* ===== verification/Storage.thy ===== *)
theory Storage
  imports Opfs
begin

text \<open>
  The storage backends: \<open>SyncDiskStorage\<close> (\<open>storage/disk/sync_storage.rs\<close>), the snapshot file
  (\<open>storage/disk/snapshot.rs\<close>), \<open>EncryptedStorage\<close> and \<open>InMemoryStorage\<close>, together with \<open>OpfsStorage\<close>. Every system call
  of the disk backend may fail: the answers of the operating system are a list in the disk's state.
\<close>

section \<open>A disk\<close>

text \<open>
  \<open>IoErr n keep\<close>: the call fails after \<open>n\<close> bytes reached the file; the writer's buffer keeps the
  other bytes or has lost them.
\<close>

datatype io = IoOk | IoErr nat bool

record disk =
  d_log :: bytes
  d_buf :: bytes
  d_snapshot :: "bytes option"
  d_backups :: "bytes list"
  d_unreadable :: "string option"
  d_detached :: bool
  d_io :: "io list"

text \<open>
  \<open>d_buf\<close> is the writer's buffer; \<open>d_detached\<close>: the writer's handle is no longer the file at the
  log path, so what it writes is not in \<open>d_log\<close>.
\<close>

definition next_io :: "disk \<Rightarrow> io \<times> disk" where
  "next_io d = (case d_io d of [] \<Rightarrow> (IoOk, d) | i # is \<Rightarrow> (i, d\<lparr>d_io := is\<rparr>))"

text \<open>A call that succeeds or fails as a whole.\<close>

definition io_call :: "(disk, db_error, unit) op" where
  "io_call d = (case next_io d of (IoOk, d') \<Rightarrow> (Inr (), d') | (IoErr n keep, d') \<Rightarrow> (Inl (Io ''io''), d'))"

definition log_path :: "disk \<Rightarrow> log_file" where
  "log_path d = (case d_unreadable d of Some msg \<Rightarrow> Unreadable msg | None \<Rightarrow> File (d_log d))"

section \<open>Appending to the log\<close>

definition append_log :: "bytes \<Rightarrow> disk \<Rightarrow> disk" where
  "append_log bs d = (if d_detached d then d else d\<lparr>d_log := d_log d @ bs\<rparr>)"

definition buf_flush :: "(disk, db_error, unit) op" where
  "buf_flush d =
     (case next_io d of
        (IoOk, d') \<Rightarrow> (Inr (), (append_log (d_buf d') d')\<lparr>d_buf := []\<rparr>)
      | (IoErr n keep, d') \<Rightarrow>
          (Inl (Io ''io''),
           (append_log (take n (d_buf d')) d')\<lparr>d_buf := (if keep then drop n (d_buf d') else [])\<rparr>))"

text \<open>\<open>BufWriter::new\<close>: a buffer of eight kilobytes; flushing an empty buffer touches no file.\<close>

definition buf_capacity :: nat where
  "buf_capacity = 8192"

definition flush_writer :: "(disk, db_error, unit) op" where
  "flush_writer d = (if d_buf d = [] then (Inr (), d) else buf_flush d)"

definition file_write :: "bytes \<Rightarrow> (disk, db_error, unit) op" where
  "file_write bs d =
     (case next_io d of
        (IoOk, d') \<Rightarrow> (Inr (), append_log bs d')
      | (IoErr n keep, d') \<Rightarrow> (Inl (Io ''io''), append_log (take n bs) d'))"

text \<open>
  \<open>write_all\<close>: bytes that do not fit beside the buffered ones push these out first, and bytes
  that would fill the buffer go straight to the file.
\<close>

definition buf_writer_write :: "bytes \<Rightarrow> (disk, db_error, unit) op" where
  "buf_writer_write bs =
     op_bind (\<lambda>d. if buf_capacity - length (d_buf d) < length bs then flush_writer d else (Inr (), d)) (\<lambda>_ d.
       if buf_capacity \<le> length bs then file_write bs d
       else (Inr (), d\<lparr>d_buf := d_buf d @ bs\<rparr>))"

definition sync_write_entry :: "log_entry \<Rightarrow> (disk, db_error, unit) op" where
  "sync_write_entry e =
     (let encoded = log_entry_to_msgpack e in
      op_bind (buf_writer_write (le_bytes 4 (length encoded))) (\<lambda>_.
      op_bind (buf_writer_write encoded) (\<lambda>_.
      flush_writer)))"

section \<open>Snapshots\<close>

definition magic :: bytes where
  "magic = bytes_of ''MOLTSNG4''"

definition snapshot_header :: "nat \<Rightarrow> nat \<Rightarrow> bytes" where
  "snapshot_header entries seq = magic @ le_bytes 8 seq @ le_bytes 8 entries"

definition snapshot_entry :: "string \<Rightarrow> string \<Rightarrow> string \<Rightarrow> json \<Rightarrow> bytes" where
  "snapshot_entry cmd collection key v = write_msgpack_entry (new_entry 0 cmd collection key v)"

text \<open>The bytes of the snapshot of the tables.\<close>

definition snapshot_body :: "(string, collection) dashmap \<Rightarrow>
    (string, json \<times> (json \<Rightarrow> bool)) dashmap \<Rightarrow> bytes" where
  "snapshot_body st schemas =
     concat (map (\<lambda>(c, col).
       concat (map (\<lambda>(k, b).
         case msgpack_to_value b of Some v \<Rightarrow> snapshot_entry IKEY_INSERT c k v | None \<Rightarrow> []) col)) st)
     @ concat (map (\<lambda>(c, schema, _). snapshot_entry ''SCHEMA'' c [] schema) schemas)"

definition snapshot_count :: "(string, collection) dashmap \<Rightarrow>
    (string, json \<times> (json \<Rightarrow> bool)) dashmap \<Rightarrow> nat" where
  "snapshot_count st schemas = sum_list (map (\<lambda>(c, col). length col) st) + length schemas"

text \<open>
  The encoder gives its buffered writer back, and the drop of this ignores the outcome of its last
  flush: the file may be cut short without an error.
\<close>

definition drop_snapshot_writer :: "bytes \<Rightarrow> (disk, db_error, bytes) op" where
  "drop_snapshot_writer tmp d =
     (case next_io d of (IoOk, d') \<Rightarrow> (Inr tmp, d') | (IoErr n keep, d') \<Rightarrow> (Inr (take n tmp), d'))"

text \<open>The old snapshot is moved aside (a failed move is ignored) before the new one is moved in.\<close>

definition finish_snapshot_gz :: "bytes \<Rightarrow> (disk, db_error, unit) op" where
  "finish_snapshot_gz bytes =
     op_bind (drop_snapshot_writer bytes) (\<lambda>tmp.
     op_bind (\<lambda>d. case d_snapshot d of None \<Rightarrow> (Inr (), d)
       | Some old \<Rightarrow>
         op_bind io_call (\<lambda>_ d1.
           case io_call d1 of
             (Inr _, d2) \<Rightarrow> (Inr (), d2\<lparr>d_snapshot := None, d_backups := d_backups d2 @ [old]\<rparr>)
           | (Inl _, d2) \<Rightarrow> (Inr (), d2)) d) (\<lambda>_.
     op_bind io_call (\<lambda>_.
     op_upd (\<lambda>d. d\<lparr>d_snapshot := Some tmp\<rparr>))))"

definition write_snapshot_from_maps :: "env \<Rightarrow> (string, collection) dashmap \<Rightarrow>
    (string, json \<times> (json \<Rightarrow> bool)) dashmap \<Rightarrow> nat \<Rightarrow> (disk, db_error, unit) op" where
  "write_snapshot_from_maps env st schemas seq =
     op_bind io_call (\<lambda>_.
     finish_snapshot_gz
       (snapshot_header (snapshot_count st schemas) seq @ gzip env (snapshot_body st schemas)))"

text \<open>\<open>read_exact\<close>\<close>

definition read_exact :: "nat \<Rightarrow> bytes \<Rightarrow> (bytes \<times> bytes) option" where
  "read_exact n bs = (if length bs < n then None else Some (take n bs, drop n bs))"

primrec load_entries :: "env \<Rightarrow> 's callback \<Rightarrow> nat \<Rightarrow> bytes \<Rightarrow> 's \<Rightarrow> bool \<times> 's" where
  "load_entries env f 0 gz s = (True, s)"
| "load_entries env f (Suc n) gz s =
     (case read_exact 4 gz of None \<Rightarrow> (False, s)
      | Some (len_bytes, gz1) \<Rightarrow>
        (case read_exact (from_le len_bytes) gz1 of None \<Rightarrow> (False, s)
         | Some (buf, gz2) \<Rightarrow>
           (if from_le len_bytes > 0 \<and> list_all (\<lambda>b. b = 0) buf then (False, s)
            else case log_entry_from_msgpack (skip_value env) buf of None \<Rightarrow> (False, s)
            | Some entry \<Rightarrow>
              (case f entry 0 s of
                 (Break, s') \<Rightarrow> (False, s')
               | (Continue, s') \<Rightarrow> load_entries env f n gz2 s'))))"

definition load_snapshot :: "env \<Rightarrow> bytes option \<Rightarrow> 's callback \<Rightarrow> 's \<Rightarrow> nat option \<times> 's" where
  "load_snapshot env path f s =
     (case path of None \<Rightarrow> (None, s)
      | Some file \<Rightarrow>
        (case read_exact 8 file of None \<Rightarrow> (None, s)
         | Some (mg, r) \<Rightarrow>
           (if mg \<noteq> magic then (None, s)
            else case read_exact 8 r of None \<Rightarrow> (None, s)
            | Some (seq_bytes, r1) \<Rightarrow>
              (case read_exact 8 r1 of None \<Rightarrow> (None, s)
               | Some (count_bytes, r2) \<Rightarrow>
                 (case load_entries env f (from_le count_bytes) (gunzip env r2) s of
                    (True, s') \<Rightarrow> (Some (from_le seq_bytes), s')
                  | (False, s') \<Rightarrow> (None, s'))))))"

section \<open>Compaction and streaming\<close>

text \<open>An empty temporary file is written, moved over the log, and reopened for appending.\<close>

definition swap_log :: "(disk, db_error, unit) op" where
  "swap_log =
     op_bind io_call (\<lambda>_.
     op_bind io_call (\<lambda>_.
     op_bind (op_upd (\<lambda>d. d\<lparr>d_log := write_compacted_log_no_tx [], d_detached := True\<rparr>)) (\<lambda>_.
     op_bind io_call (\<lambda>_.
     op_upd (\<lambda>d. d\<lparr>d_buf := [], d_detached := False\<rparr>)))))"

text \<open>A failure to write the snapshot is only logged.\<close>

definition sync_compact_from_maps :: "env \<Rightarrow> (string, collection) dashmap \<Rightarrow>
    (string, json \<times> (json \<Rightarrow> bool)) dashmap \<Rightarrow> (disk, db_error, unit) op" where
  "sync_compact_from_maps env st schemas d = swap_log (snd (write_snapshot_from_maps env st schemas 0 d))"

definition sync_stream :: "env \<Rightarrow> disk \<Rightarrow> 's callback \<Rightarrow> ('s, db_error, control_flow) op" where
  "sync_stream env d f s =
     (case load_snapshot env (d_snapshot d) f s of
        (Some seq, s') \<Rightarrow> stream_log_entries (skip_value env) (log_path d) seq f s'
      | (None, s') \<Rightarrow> stream_log_entries (skip_value env) (log_path d) 0 f s')"

section \<open>Encryption\<close>

text \<open>
  The authenticated cipher under the database key, base64, the random nonces and the clock
  readings of the wrapper.
\<close>

record cipher =
  c_encrypt :: "bytes \<Rightarrow> bytes \<Rightarrow> bytes option"
  c_decrypt :: "bytes \<Rightarrow> bytes \<Rightarrow> bytes option"
  c_b64_encode :: "bytes \<Rightarrow> string"
  c_b64_decode :: "string \<Rightarrow> bytes option"
  c_nonce :: "nat \<Rightarrow> bytes"
  c_time :: "nat \<Rightarrow> u64"

definition encrypt_entry :: "cipher \<Rightarrow> nat \<Rightarrow> log_entry \<Rightarrow> db_error + log_entry" where
  "encrypt_entry c n e =
     (case c_encrypt c (c_nonce c n) (log_entry_to_msgpack e) of
        None \<Rightarrow> Inl WriteError
      | Some cipher_text \<Rightarrow>
          Inr (new_entry (c_time c n) IKEY_ENC ''_'' ''_''
            (String (c_b64_encode c (c_nonce c n @ cipher_text)))))"

definition decrypt_entry :: "env \<Rightarrow> cipher \<Rightarrow> log_entry \<Rightarrow> db_error + log_entry" where
  "decrypt_entry env c e =
     (let b64 = (case as_str (e_value e) of Some s \<Rightarrow> s | None \<Rightarrow> []) in
      case c_b64_decode c b64 of None \<Rightarrow> Inl WriteError
      | Some payload \<Rightarrow>
        (if length payload < 24 then Inl WriteError
         else case c_decrypt c (take 24 payload) (drop 24 payload) of None \<Rightarrow> Inl WriteError
         | Some plain_bytes \<Rightarrow>
           (case log_entry_from_msgpack (skip_value env) plain_bytes of
              None \<Rightarrow> Inl WriteError | Some real_entry \<Rightarrow> Inr real_entry)))"

text \<open>The callback handed to the inner backend: undecryptable records are skipped.\<close>

definition decrypting :: "env \<Rightarrow> cipher \<Rightarrow> 's callback \<Rightarrow> 's callback" where
  "decrypting env c f e len s =
     (if e_cmd e = IKEY_ENC then
        (case decrypt_entry env c e of Inr real_entry \<Rightarrow> f real_entry len s | Inl _ \<Rightarrow> (Continue, s))
      else f e len s)"

section \<open>Backends\<close>

datatype storage =
    InMemoryStorage
  | SyncDiskStorage disk
  | OpfsStorage opfs
  | EncryptedStorage cipher nat storage

fun write_entry :: "log_entry \<Rightarrow> (storage, db_error, unit) op" where
  "write_entry e InMemoryStorage = (Inr (), InMemoryStorage)"
| "write_entry e (SyncDiskStorage d) =
     (case sync_write_entry e d of (r, d') \<Rightarrow> (r, SyncDiskStorage d'))"
| "write_entry e (OpfsStorage h) =
     (case opfs_write_entry e h of (r, h') \<Rightarrow> (r, OpfsStorage h'))"
| "write_entry e (EncryptedStorage c n inner) =
     (case encrypt_entry c n e of
        Inl err \<Rightarrow> (Inl err, EncryptedStorage c (Suc n) inner)
      | Inr encrypted \<Rightarrow>
          (case write_entry encrypted inner of (r, inner') \<Rightarrow> (r, EncryptedStorage c (Suc n) inner')))"

fun read_log :: "env \<Rightarrow> storage \<Rightarrow> db_error + log_entry list" where
  "read_log env InMemoryStorage = Inr []"
| "read_log env (SyncDiskStorage d) = read_log_from_disk (skip_value env) (log_path d)"
| "read_log env (OpfsStorage h) = opfs_read_log (skip_value env) h"
| "read_log env (EncryptedStorage c n inner) =
     (case read_log env inner of Inl err \<Rightarrow> Inl err
      | Inr raw \<Rightarrow>
        Inr (List.map_filter (\<lambda>e.
          if e_cmd e = IKEY_ENC then
            (case decrypt_entry env c e of Inr real_entry \<Rightarrow> Some real_entry | Inl _ \<Rightarrow> None)
          else Some e) raw))"

fun compact_from_maps :: "env \<Rightarrow> (string, collection) dashmap \<Rightarrow>
    (string, json \<times> (json \<Rightarrow> bool)) dashmap \<Rightarrow> (storage, db_error, unit) op" where
  "compact_from_maps env st schemas InMemoryStorage = (Inr (), InMemoryStorage)"
| "compact_from_maps env st schemas (SyncDiskStorage d) =
     (case sync_compact_from_maps env st schemas d of (r, d') \<Rightarrow> (r, SyncDiskStorage d'))"
| "compact_from_maps env st schemas (OpfsStorage h) =
     (case do_compact st schemas h of (r, h') \<Rightarrow> (r, OpfsStorage h'))"
| "compact_from_maps env st schemas (EncryptedStorage c n inner) =
     (case compact_from_maps env st schemas inner of (r, inner') \<Rightarrow> (r, EncryptedStorage c n inner'))"

fun storage_mode :: "storage \<Rightarrow> string" where
  "storage_mode InMemoryStorage = ''inMemory''"
| "storage_mode (SyncDiskStorage d) = ''sync''"
| "storage_mode (OpfsStorage h) = ''inMemory''"
| "storage_mode (EncryptedStorage c n inner) = storage_mode inner"

text \<open>The trait's default does nothing; only \<open>OpfsStorage\<close> overrides it.\<close>

fun clear_opfs :: "(storage, db_error, unit) op" where
  "clear_opfs (OpfsStorage h) = (case truncate_and_close h of (r, h') \<Rightarrow> (r, OpfsStorage h'))"
| "clear_opfs st = (Inr (), st)"

text \<open>
  The records a backend feeds to a callback. Every backend counts the records its callback
  accepted; the count is taken once, around the outermost callback.
\<close>

fun stream_log :: "env \<Rightarrow> storage \<Rightarrow> 's callback \<Rightarrow> ('s, db_error, control_flow) op" where
  "stream_log env InMemoryStorage f s = (Inr Continue, s)"
| "stream_log env (SyncDiskStorage d) f s = sync_stream env d f s"
| "stream_log env (OpfsStorage h) f s = opfs_stream (skip_value env) h f s"
| "stream_log env (EncryptedStorage c n inner) f s = stream_log env inner (decrypting env c f) s"

definition counting :: "'s callback \<Rightarrow> (nat \<times> 's) callback" where
  "counting f e len ns =
     (case f e len (snd ns) of
        (Continue, s') \<Rightarrow> (Continue, (Suc (fst ns), s'))
      | (Break, s') \<Rightarrow> (Break, (fst ns, s')))"

definition stream_log_into :: "env \<Rightarrow> storage \<Rightarrow> 's callback \<Rightarrow> ('s, db_error, nat) op" where
  "stream_log_into env st f s =
     (case stream_log env st (counting f) (0, s) of
        (Inl err, (n, s')) \<Rightarrow> (Inl err, s')
      | (Inr _, (n, s')) \<Rightarrow> (Inr n, s'))"

section \<open>Startup replay and point-in-time recovery\<close>

definition stream_into_state :: "env \<Rightarrow> storage \<Rightarrow> (tables, db_error, nat) op" where
  "stream_into_state env st t =
     (case stream_log_into env st (replay_step env) (replay_start t) of
        (Inl err, rp) \<Rightarrow> (Inl err, rp_tables rp)
      | (Inr _, rp) \<Rightarrow> (Inr (rp_count rp), rp_tables rp))"

definition recover_to :: "env \<Rightarrow> nat \<Rightarrow> storage \<Rightarrow> u64 option \<Rightarrow> nat option \<Rightarrow>
    db_error + log_entry list" where
  "recover_to env tick st to_time to_seq =
     (case stream_log_into env st (recover_step env to_time to_seq) (replay_start (empty_tables tick)) of
        (Inl err, rp) \<Rightarrow> Inl err
      | (Inr _, rp) \<Rightarrow>
          (let t = rp_tables rp in
           Inr (stamp_entries env (t_ticks t) (doc_entries (t_state t) @ schema_entries (t_schemas t)))))"

section \<open>What a backend has recorded\<close>

text \<open>Contracts of the third-party code.\<close>

definition gzip_ok :: "env \<Rightarrow> bool" where
  "gzip_ok env \<longleftrightarrow> (\<forall>bs. gunzip env (gzip env bs) = bs)"

definition cipher_ok :: "cipher \<Rightarrow> bool" where
  "cipher_ok c \<longleftrightarrow>
     (\<forall>n. length (c_nonce c n) = 24) \<and>
     (\<forall>n p x. c_encrypt c n p = Some x \<longrightarrow> c_decrypt c n x = Some p) \<and>
     (\<forall>p. c_b64_decode c (c_b64_encode c p) = Some p \<and> str_ok (c_b64_encode c p))"

text \<open>
  An intact disk with the records \<open>ss\<close> in its snapshot and \<open>ls\<close> in its log.
\<close>

definition snapshot_of :: "env \<Rightarrow> log_entry list \<Rightarrow> bytes" where
  "snapshot_of env ss = snapshot_header (length ss) 0 @ gzip env (log_bytes ss)"

definition disk_logs :: "env \<Rightarrow> disk \<Rightarrow> log_entry list \<Rightarrow> log_entry list \<Rightarrow> bool" where
  "disk_logs env d ss ls \<longleftrightarrow>
     d_buf d = [] \<and> \<not> d_detached d \<and> d_unreadable d = None \<and>
     list_all record_ok ls \<and> d_log d = log_bytes ls \<and>
     (if d_snapshot d = None then ss = []
      else list_all record_ok ss \<and> length ss < 2 ^ 64 \<and> d_snapshot d = Some (snapshot_of env ss))"

definition decrypted :: "env \<Rightarrow> cipher \<Rightarrow> log_entry \<Rightarrow> log_entry option" where
  "decrypted env c e =
     (if e_cmd e = IKEY_ENC then
        (case decrypt_entry env c e of Inr real_entry \<Rightarrow> Some real_entry | Inl _ \<Rightarrow> None)
      else Some e)"

text \<open>\<open>logs env st es\<close>: the backend is intact and a reader of it is fed the records \<open>es\<close>.\<close>

fun logs :: "env \<Rightarrow> storage \<Rightarrow> log_entry list \<Rightarrow> bool" where
  "logs env InMemoryStorage es \<longleftrightarrow> False"
| "logs env (SyncDiskStorage d) es \<longleftrightarrow>
     (\<exists>ss ls. disk_logs env d ss ls \<and> es = map stored_entry (ss @ ls))"
| "logs env (OpfsStorage h) es \<longleftrightarrow> (\<exists>ls. opfs_logs h ls \<and> es = map stored_entry ls)"
| "logs env (EncryptedStorage c n inner) es \<longleftrightarrow>
     cipher_ok c \<and> (\<exists>raw. logs env inner raw \<and> es = List.map_filter (decrypted env c) raw)"

text \<open>The record, and every ciphertext made from it, fits its length prefix.\<close>

fun write_fits :: "log_entry \<Rightarrow> storage \<Rightarrow> bool" where
  "write_fits e InMemoryStorage = True"
| "write_fits e (SyncDiskStorage d) = record_ok e"
| "write_fits e (OpfsStorage h) = record_ok e"
| "write_fits e (EncryptedStorage c n inner) =
     (entry_ok e \<and>
      (case encrypt_entry c n e of Inr e' \<Rightarrow> write_fits e' inner | Inl _ \<Rightarrow> True))"

section \<open>Reading back\<close>

definition never_breaks :: "'s callback \<Rightarrow> bool" where
  "never_breaks f \<longleftrightarrow> (\<forall>e len s. fst (f e len s) = Continue)"

definition ignores_len :: "'s callback \<Rightarrow> bool" where
  "ignores_len f \<longleftrightarrow> (\<forall>e len s. f e len s = f e 0 s)"

definition feed :: "'s callback \<Rightarrow> log_entry list \<Rightarrow> 's \<Rightarrow> 's" where
  "feed f es s = fold (\<lambda>e s. snd (f e 0 s)) es s"

lemma stream_list_feed:
  assumes "never_breaks f" and "ignores_len f"
  shows "stream_list f els s = (Continue, feed f (map fst els) s)"
proof (induction els arbitrary: s)
  case Nil
  show ?case by (simp add: feed_def)
next
  case (Cons el els)
  obtain e len where el: "el = (e, len)" by (cases el)
  have "f e len s = (Continue, snd (f e 0 s))"
    using assms by (metis ignores_len_def never_breaks_def prod.collapse)
  with Cons show ?case by (simp add: el feed_def)
qed

lemma encoded_nonzero: "\<not> list_all (\<lambda>b. b = 0) (log_entry_to_msgpack e)"
  by (simp add: log_entry_to_msgpack_def write_map_header_def)

lemma read_exact_append [simp]: "length xs = n \<Longrightarrow> read_exact n (xs @ ys) = Some (xs, ys)"
  by (auto simp: read_exact_def)

lemma load_entries_written:
  assumes "list_all record_ok es" and "never_breaks f"
  shows "load_entries env f (length es) (log_bytes es) s = (True, feed f (map stored_entry es) s)"
  using assms(1)
proof (induction es arbitrary: s)
  case Nil
  show ?case by (simp add: feed_def)
next
  case (Cons e es)
  have len: "length (log_entry_to_msgpack e) mod 4294967296 = length (log_entry_to_msgpack e)"
    and ok: "entry_ok e"
    using Cons.prems by (simp_all add: record_ok_def)
  obtain s' where "f (stored_entry e) 0 s = (Continue, s')"
    using assms(2) by (metis never_breaks_def prod.collapse)
  with Cons show ?case
    by (simp add: write_msgpack_entry_def Let_def from_le_le_bytes len encoded_nonzero
        log_entry_read_back [OF ok] feed_def)
qed

lemma load_snapshot_written:
  assumes "list_all record_ok ss" and "length ss < 2 ^ 64" and "never_breaks f" and "gzip_ok env"
  shows "load_snapshot env (Some (snapshot_of env ss)) f s = (Some 0, feed f (map stored_entry ss) s)"
proof -
  have "length magic = 8" by (simp add: magic_def)
  then show ?thesis
    using assms load_entries_written [OF assms(1,3), of env s]
    by (simp add: load_snapshot_def snapshot_of_def snapshot_header_def from_le_le_bytes gzip_ok_def)
qed

lemma frames_log_bytes:
  "list_all record_ok es \<Longrightarrow> frames (log_bytes es) = map log_entry_to_msgpack es"
  by (induction es) (simp_all add: frames_written record_ok_def, simp add: frames.simps)

lemma stream_log_written:
  assumes "list_all record_ok es" and "never_breaks f" and "ignores_len f"
  shows "stream_log_entries skip (File (log_bytes es)) 0 f s = (Inr Continue, feed f (map stored_entry es) s)"
proof (cases "es = []")
  case True
  then show ?thesis by (simp add: stream_log_entries_def feed_def)
next
  case False
  then have "log_bytes es \<noteq> []"
    by (cases es) (auto simp: write_msgpack_entry_def Let_def log_entry_to_msgpack_def)
  then show ?thesis
    using assms
    by (simp add: stream_log_entries_def stream_frames_eq stream_list_feed frames_log_bytes decode_written)
qed

lemma feed_append: "feed f (xs @ ys) s = feed f ys (feed f xs s)"
  by (simp add: feed_def)

lemma sync_stream_logs:
  assumes "disk_logs env d ss ls" and "never_breaks f" and "ignores_len f" and "gzip_ok env"
  shows "sync_stream env d f s = (Inr Continue, feed f (map stored_entry (ss @ ls)) s)"
proof (cases "d_snapshot d = None")
  case True
  then show ?thesis
    using assms by (simp add: sync_stream_def load_snapshot_def disk_logs_def log_path_def stream_log_written)
next
  case False
  then have snap: "list_all record_ok ss" "length ss < 2 ^ 64" "d_snapshot d = Some (snapshot_of env ss)"
    using assms(1) by (auto simp: disk_logs_def split: if_splits)
  then have "load_snapshot env (d_snapshot d) f s = (Some 0, feed f (map stored_entry ss) s)"
    using load_snapshot_written [OF snap(1,2) assms(2,4)] by metis
  then show ?thesis
    using assms by (simp add: sync_stream_def disk_logs_def log_path_def stream_log_written feed_append)
qed

lemma feed_decrypting:
  "feed (decrypting env c f) raw s = feed f (List.map_filter (decrypted env c) raw) s"
  by (induction raw arbitrary: s)
    (auto simp: feed_def map_filter_simps decrypting_def decrypted_def split: sum.splits)

lemma stream_logs:
  assumes "logs env st es" and "never_breaks f" and "ignores_len f" and "gzip_ok env"
  shows "stream_log env st f s = (Inr Continue, feed f es s)"
  using assms(1-3)
proof (induction st arbitrary: f es)
  case (EncryptedStorage c n inner)
  then obtain raw where raw: "logs env inner raw" "es = List.map_filter (decrypted env c) raw" by auto
  have "never_breaks (decrypting env c f)" "ignores_len (decrypting env c f)"
    using EncryptedStorage.prems(2,3)
    by (auto simp: never_breaks_def ignores_len_def decrypting_def split: sum.splits)
  with EncryptedStorage.IH [OF raw(1)] show ?case
    by (simp add: raw(2) feed_decrypting)
next
  case (OpfsStorage h)
  then obtain ls where ls: "opfs_logs h ls" "es = map stored_entry ls" by auto
  have "f e len s = f e 0 s" for e len s using OpfsStorage.prems(3) by (auto simp: ignores_len_def)
  then have "opfs_stream (skip_value env) h f s = stream_log_entries (skip_value env) (File (log_bytes ls)) 0 f s"
    by (rule opfs_stream_logs [OF ls(1)])
  then show ?case
    using ls OpfsStorage.prems(2,3) by (simp add: stream_log_written opfs_logs_def)
qed (use assms(4) sync_stream_logs in auto)

lemma stream_into_state_logs:
  assumes "logs env st es" and "gzip_ok env"
  shows "stream_into_state env st t = (Inr (length es), replay_tables env es t)"
proof -
  let ?f = "counting (replay_step env)"
  have f: "never_breaks ?f" "ignores_len ?f"
    by (auto simp: never_breaks_def ignores_len_def counting_def replay_step_def)
  have "feed ?f es (n, rp) = (n + length es,
      (fold (replay_entry env) es rp)\<lparr>rp_count := rp_count rp + length es\<rparr>)" for n rp
  proof -
    have "stream_list ?f (map (\<lambda>e. (e, 0)) es) (n, rp) = (Continue, feed ?f es (n, rp))"
      using stream_list_feed [OF f, of "map (\<lambda>e. (e, 0)) es"] by (simp add: comp_def)
    moreover have "stream_list ?f els (n, rp) = (fst (stream_list (replay_step env) els rp),
        (n + length els, snd (stream_list (replay_step env) els rp)))" for els n rp
      by (induction els arbitrary: n rp) (auto simp: counting_def replay_step_def)
    ultimately show ?thesis by (simp add: stream_list_replay comp_def)
  qed
  then show ?thesis
    using stream_logs [OF assms(1) f assms(2), of "(0, replay_start t)"]
    by (simp add: stream_into_state_def stream_log_into_def replay_tables_def replay_start_def)
qed

section \<open>Durability of an acknowledged write\<close>

text \<open>
  The contract a log backend offers to the engine: when a write returns \<open>Ok\<close>, a reader is fed the
  record after all earlier ones.
\<close>

locale wal_backend =
  fixes put :: "'e \<Rightarrow> ('s, 'err, unit) op"
    and recorded :: "'s \<Rightarrow> 'e list \<Rightarrow> bool"
    and accepts :: "'e \<Rightarrow> 's \<Rightarrow> bool"
    and stored :: "'e \<Rightarrow> 'e"
  assumes put_recorded:
    "recorded s es \<Longrightarrow> accepts e s \<Longrightarrow> put e s = (Inr (), s') \<Longrightarrow> recorded s' (es @ [stored e])"
begin

lemma iter_recorded:
  assumes "recorded s es" and "\<And>e s. e \<in> set xs \<Longrightarrow> accepts e s"
    and "op_iter put xs s = (Inr (), s')"
  shows "recorded s' (es @ map stored xs)"
  using assms
proof (induction xs arbitrary: s es)
  case (Cons x xs)
  obtain s1 where s1: "put x s = (Inr (), s1)" "op_iter put xs s1 = (Inr (), s')"
    using Cons.prems(3) by (auto simp: op_bind_eq_Inr)
  have "recorded s1 (es @ [stored x])"
    using Cons.prems(1,2) s1(1) by (intro put_recorded) auto
  from Cons.IH [OF this _ s1(2)] Cons.prems(2) show ?case by simp
qed simp

end

lemma next_io_keeps:
  assumes "next_io d = (i, d')"
  shows "d_log d' = d_log d" "d_buf d' = d_buf d" "d_snapshot d' = d_snapshot d"
    "d_unreadable d' = d_unreadable d" "d_detached d' = d_detached d" "d_backups d' = d_backups d"
  using assms by (auto simp: next_io_def split: list.splits)

text \<open>What a successful call of the buffered writer leaves: file and buffer hold the bytes in order.\<close>

definition written :: "disk \<Rightarrow> bytes \<Rightarrow> disk \<Rightarrow> bool" where
  "written d bs d' \<longleftrightarrow> d_log d' @ d_buf d' = d_log d @ d_buf d @ bs \<and> d_snapshot d' = d_snapshot d \<and>
     d_unreadable d' = d_unreadable d \<and> \<not> d_detached d'"

lemma written_trans: "written a bs b \<Longrightarrow> written b bs' c \<Longrightarrow> written a (bs @ bs') c"
  by (simp add: written_def)

lemma flush_writer_written:
  assumes "flush_writer d = (Inr (), d')" and "\<not> d_detached d"
  shows "written d [] d'" and "d_buf d' = []"
  using assms
  by (auto simp: flush_writer_def buf_flush_def written_def append_log_def next_io_def
      split: if_splits prod.splits io.splits list.splits)

lemma buf_writer_write_written:
  assumes "buf_writer_write bs d = (Inr (), d')" and "\<not> d_detached d"
  shows "written d bs d'"
proof -
  let ?room = "if buf_capacity - length (d_buf d) < length bs then flush_writer d else (Inr (), d)"
  obtain d1 where d1: "?room = (Inr (), d1)"
    and rest: "(if buf_capacity \<le> length bs then file_write bs d1
      else (Inr (), d1\<lparr>d_buf := d_buf d1 @ bs\<rparr>)) = (Inr (), d')"
    using assms(1) by (auto simp: buf_writer_write_def op_bind_eq_Inr)
  have w: "written d [] d1"
  proof (cases "buf_capacity - length (d_buf d) < length bs")
    case True
    then show ?thesis using d1 flush_writer_written(1) assms(2) by simp
  qed (use d1 assms(2) in \<open>simp add: written_def\<close>)
  have "written d1 bs d'"
  proof (cases "buf_capacity \<le> length bs")
    case True
    have "d_buf d1 = []"
    proof (cases "d_buf d = []")
      case empty: True
      then show ?thesis using d1 by (auto simp: flush_writer_def split: if_splits)
    next
      case False
      then have "buf_capacity - length (d_buf d) < length bs"
        using True by (cases "d_buf d") (auto simp: buf_capacity_def)
      then show ?thesis using d1 flush_writer_written(2) assms(2) by simp
    qed
    then show ?thesis
      using rest True w by (auto simp: file_write_def written_def append_log_def next_io_def
          split: prod.splits io.splits list.splits)
  qed (use rest w in \<open>auto simp: written_def\<close>)
  from written_trans [OF w this] show ?thesis by simp
qed

text \<open>The only error of the writer is the one of a system call.\<close>

lemma flush_writer_error: "flush_writer d = (Inl err, d') \<Longrightarrow> err = Io ''io''"
  by (auto simp: flush_writer_def buf_flush_def split: if_splits prod.splits io.splits)

lemma buf_writer_write_error: "buf_writer_write bs d = (Inl err, d') \<Longrightarrow> err = Io ''io''"
  by (auto simp: buf_writer_write_def op_bind_eq_Inl file_write_def
      split: if_splits prod.splits io.splits dest: flush_writer_error)

lemma sync_write_error: "sync_write_entry e d = (Inl err, d') \<Longrightarrow> err = Io ''io''"
  by (auto simp: sync_write_entry_def op_bind_eq_Inl Let_def dest: flush_writer_error buf_writer_write_error)

lemma sync_write_ok:
  assumes "sync_write_entry e d = (Inr (), d')" and "d_buf d = []" and "\<not> d_detached d"
  shows "d_log d' = d_log d @ write_msgpack_entry e" "d_buf d' = []" "d_snapshot d' = d_snapshot d"
    "d_unreadable d' = d_unreadable d" "\<not> d_detached d'"
proof -
  let ?bs = "log_entry_to_msgpack e"
  obtain d1 d2 where d1: "buf_writer_write (le_bytes 4 (length ?bs)) d = (Inr (), d1)"
    and d2: "buf_writer_write ?bs d1 = (Inr (), d2)" and d': "flush_writer d2 = (Inr (), d')"
    using assms(1) by (auto simp: sync_write_entry_def op_bind_eq_Inr Let_def)
  have w1: "written d (le_bytes 4 (length ?bs)) d1" using buf_writer_write_written [OF d1 assms(3)] .
  then have w2: "written d1 ?bs d2" using buf_writer_write_written [OF d2] by (simp add: written_def)
  then have "\<not> d_detached d2" by (simp add: written_def)
  note f = flush_writer_written [OF d' this]
  have "written d (write_msgpack_entry e) d'"
    using written_trans [OF written_trans [OF w1 w2] f(1)] by (simp add: write_msgpack_entry_def Let_def)
  then show "d_log d' = d_log d @ write_msgpack_entry e" "d_buf d' = []" "d_snapshot d' = d_snapshot d"
    "d_unreadable d' = d_unreadable d" "\<not> d_detached d'"
    using f(2) assms(2) by (simp_all add: written_def)
qed

lemma sync_write_logs:
  assumes "disk_logs env d ss ls" and "record_ok e" and "sync_write_entry e d = (Inr (), d')"
  shows "disk_logs env d' ss (ls @ [e])"
proof -
  have "d_buf d = []" "\<not> d_detached d" using assms(1) by (simp_all add: disk_logs_def)
  note w = sync_write_ok [OF assms(3) this]
  show ?thesis using assms(1,2) w by (auto simp: disk_logs_def split: if_splits)
qed

lemma enc_entry_stored [simp]: "encrypt_entry c n e = Inr e' \<Longrightarrow> stored_entry e' = e'"
  by (auto simp: encrypt_entry_def stored_entry_def new_entry_def split: option.splits)

lemma decrypt_encrypt:
  assumes "cipher_ok c" and "entry_ok e" and "encrypt_entry c n e = Inr e'"
  shows "decrypted env c e' = Some (stored_entry e)"
proof -
  obtain x where x: "c_encrypt c (c_nonce c n) (log_entry_to_msgpack e) = Some x"
    and e': "e' = new_entry (c_time c n) IKEY_ENC ''_'' ''_'' (String (c_b64_encode c (c_nonce c n @ x)))"
    using assms(3) by (auto simp: encrypt_entry_def split: option.splits)
  have "c_decrypt c (c_nonce c n) x = Some (log_entry_to_msgpack e)" "length (c_nonce c n) = 24"
    "c_b64_decode c (c_b64_encode c (c_nonce c n @ x)) = Some (c_nonce c n @ x)"
    using assms(1) x unfolding cipher_ok_def by blast+
  then show ?thesis
    using log_entry_read_back [OF assms(2)]
    by (simp add: decrypted_def decrypt_entry_def e' new_entry_def)
qed

lemma write_logs:
  assumes "logs env st es" and "write_fits e st" and "write_entry e st = (Inr (), st')"
  shows "logs env st' (es @ [stored_entry e])"
  using assms
proof (induction st arbitrary: e es st')
  case InMemoryStorage
  then show ?case by simp
next
  case (SyncDiskStorage d)
  then obtain d' ss ls where d': "sync_write_entry e d = (Inr (), d')" "st' = SyncDiskStorage d'"
    and log: "disk_logs env d ss ls" "es = map stored_entry (ss @ ls)"
    by (auto split: prod.splits)
  have "disk_logs env d' ss (ls @ [e])"
    using sync_write_logs [OF log(1) _ d'(1)] SyncDiskStorage.prems(2) by simp
  then show ?case using d'(2) log(2) by fastforce
next
  case (OpfsStorage h)
  then obtain h' ls where h': "opfs_write_entry e h = (Inr (), h')" "st' = OpfsStorage h'"
    and log: "opfs_logs h ls" "es = map stored_entry ls"
    by (auto split: prod.splits)
  have "opfs_logs h' (ls @ [e])" using opfs_write_logs [OF log(1) _ h'(1)] OpfsStorage.prems(2) by simp
  then show ?case using h'(2) log(2) by fastforce
next
  case (EncryptedStorage c n inner)
  then obtain raw where raw: "logs env inner raw" "es = List.map_filter (decrypted env c) raw"
    and c: "cipher_ok c" and e: "entry_ok e" by auto
  obtain e' inner' where e': "encrypt_entry c n e = Inr e'" "write_entry e' inner = (Inr (), inner')"
    and st': "st' = EncryptedStorage c (Suc n) inner'"
    using EncryptedStorage.prems(3) by (auto split: sum.splits prod.splits)
  have "logs env inner' (raw @ [e'])"
    using EncryptedStorage.IH [OF raw(1) _ e'(2)] EncryptedStorage.prems(2) e'(1) by simp
  moreover have "List.map_filter (decrypted env c) (raw @ [e']) = es @ [stored_entry e]"
    using decrypt_encrypt [OF c e e'(1), of env] raw(2) by (simp add: List.map_filter_def)
  ultimately show ?case using c unfolding st' by auto
qed

interpretation wal: wal_backend write_entry "logs env" write_fits stored_entry for env
  by unfold_locales (rule write_logs)

section \<open>Compaction\<close>

text \<open>No system call of the run fails.\<close>

definition io_fine :: "disk \<Rightarrow> bool" where
  "io_fine d \<longleftrightarrow> list_all (\<lambda>i. i = IoOk) (d_io d)"

text \<open>Same files and buffer.\<close>

definition same_disk :: "disk \<Rightarrow> disk \<Rightarrow> bool" where
  "same_disk d d' \<longleftrightarrow> d_log d' = d_log d \<and> d_buf d' = d_buf d \<and> d_snapshot d' = d_snapshot d \<and>
     d_unreadable d' = d_unreadable d \<and> d_detached d' = d_detached d \<and> d_backups d' = d_backups d"

lemma io_call_fine:
  assumes "io_fine d"
  obtains d' where "io_call d = (Inr (), d')" and "same_disk d d'" and "io_fine d'"
proof (cases "d_io d")
  case Nil
  then show ?thesis using that [of d] assms by (simp add: io_call_def next_io_def same_disk_def)
next
  case (Cons i r)
  then show ?thesis
    using that [of "d\<lparr>d_io := r\<rparr>"] assms
    by (simp add: io_call_def next_io_def same_disk_def io_fine_def)
qed

lemma buf_flush_fine:
  assumes "io_fine d"
  shows "fst (flush_writer d) = Inr ()" and "io_fine (snd (flush_writer d))"
  using assms
  by (auto simp: flush_writer_def buf_flush_def next_io_def io_fine_def append_log_def split: list.splits)

lemma buf_writer_write_fine:
  assumes "io_fine d"
  shows "fst (buf_writer_write bs d) = Inr ()" and "io_fine (snd (buf_writer_write bs d))"
proof -
  let ?room = "if buf_capacity - length (d_buf d) < length bs then flush_writer d else (Inr (), d)"
  obtain d1 where d1: "?room = (Inr (), d1)" "io_fine d1"
    using buf_flush_fine [OF assms] assms that
    by (cases "buf_capacity - length (d_buf d) < length bs"; cases "flush_writer d") auto
  then have "buf_writer_write bs d = (if buf_capacity \<le> length bs then file_write bs d1
      else (Inr (), d1\<lparr>d_buf := d_buf d1 @ bs\<rparr>))"
    by (simp add: buf_writer_write_def op_bind_def)
  then show "fst (buf_writer_write bs d) = Inr ()" "io_fine (snd (buf_writer_write bs d))"
    using d1(2) by (auto simp: file_write_def next_io_def io_fine_def append_log_def split: list.splits)
qed

lemma sync_write_fine:
  assumes "io_fine d"
  shows "\<exists>d'. sync_write_entry e d = (Inr (), d') \<and> io_fine d'"
proof -
  let ?bs = "log_entry_to_msgpack e"
  obtain d1 where d1: "buf_writer_write (le_bytes 4 (length ?bs)) d = (Inr (), d1)" "io_fine d1"
    using buf_writer_write_fine [OF assms] by (metis prod.collapse)
  obtain d2 where d2: "buf_writer_write ?bs d1 = (Inr (), d2)" "io_fine d2"
    using buf_writer_write_fine [OF d1(2)] by (metis prod.collapse)
  obtain d3 where d3: "flush_writer d2 = (Inr (), d3)" "io_fine d3"
    using buf_flush_fine [OF d2(2)] by (metis prod.collapse)
  show ?thesis using d1(1) d2(1) d3 by (simp add: sync_write_entry_def op_bind_def Let_def)
qed

lemma drop_snapshot_writer_fine:
  assumes "io_fine d"
  obtains d' where "drop_snapshot_writer tmp d = (Inr tmp, d')" and "same_disk d d'" and "io_fine d'"
  using assms that by (cases "d_io d") (auto simp: drop_snapshot_writer_def next_io_def io_fine_def same_disk_def)

lemma finish_snapshot_fine:
  assumes "io_fine d"
  obtains d' where "finish_snapshot_gz tmp d = (Inr (), d')" and "d_snapshot d' = Some tmp"
    and "d_log d' = d_log d" and "d_buf d' = d_buf d" and "d_unreadable d' = d_unreadable d"
    and "d_detached d' = d_detached d" and "io_fine d'"
proof -
  obtain d0 where d0: "drop_snapshot_writer tmp d = (Inr tmp, d0)" "same_disk d d0" "io_fine d0"
    using drop_snapshot_writer_fine [OF assms] .
  show ?thesis
  proof (cases "d_snapshot d")
    case None
    obtain d1 where "io_call d0 = (Inr (), d1)" "same_disk d0 d1" "io_fine d1"
      using io_call_fine [OF d0(3)] .
    then show ?thesis
      using that [of "d1\<lparr>d_snapshot := Some tmp\<rparr>"] None d0
      by (simp add: finish_snapshot_gz_def op_bind_def same_disk_def io_fine_def)
  next
    case (Some old)
    obtain d1 where d1: "io_call d0 = (Inr (), d1)" "same_disk d0 d1" "io_fine d1"
      using io_call_fine [OF d0(3)] .
    obtain d2 where d2: "io_call d1 = (Inr (), d2)" "same_disk d1 d2" "io_fine d2"
      using io_call_fine [OF d1(3)] .
    let ?d2 = "d2\<lparr>d_snapshot := None, d_backups := d_backups d2 @ [old]\<rparr>"
    have "io_fine ?d2" using d2(3) by (simp add: io_fine_def)
    then obtain d3 where d3: "io_call ?d2 = (Inr (), d3)" "same_disk ?d2 d3" "io_fine d3"
      using io_call_fine by blast
    show ?thesis
      using that [of "d3\<lparr>d_snapshot := Some tmp\<rparr>"] Some d0 d1 d2 d3
      by (simp add: finish_snapshot_gz_def op_bind_def same_disk_def io_fine_def)
  qed
qed

lemma swap_log_fine:
  assumes "io_fine d"
  obtains d' where "swap_log d = (Inr (), d')" and "d_snapshot d' = d_snapshot d" and "d_log d' = []"
    and "d_buf d' = []" and "d_unreadable d' = d_unreadable d" and "\<not> d_detached d'" and "io_fine d'"
proof -
  obtain d1 where d1: "io_call d = (Inr (), d1)" "same_disk d d1" "io_fine d1"
    using io_call_fine [OF assms] .
  obtain d2 where d2: "io_call d1 = (Inr (), d2)" "same_disk d1 d2" "io_fine d2"
    using io_call_fine [OF d1(3)] .
  let ?d2 = "d2\<lparr>d_log := [], d_detached := True\<rparr>"
  have "io_fine ?d2" using d2(3) by (simp add: io_fine_def)
  then obtain d3 where d3: "io_call ?d2 = (Inr (), d3)" "same_disk ?d2 d3" "io_fine d3"
    using io_call_fine by blast
  show ?thesis
    using that [of "d3\<lparr>d_buf := [], d_detached := False\<rparr>"] d1 d2 d3
    by (simp add: swap_log_def op_bind_def same_disk_def io_fine_def write_compacted_log_no_tx_def)
qed

text \<open>The records a compaction writes.\<close>

definition compacted :: "(string, collection) dashmap \<Rightarrow>
    (string, json \<times> (json \<Rightarrow> bool)) dashmap \<Rightarrow> log_entry list" where
  "compacted st schemas = doc_entries st @ schema_entries schemas"

lemma snapshot_body_eq: "snapshot_body st schemas = log_bytes (compacted st schemas)"
proof -
  have "log_bytes (List.map_filter (\<lambda>(k, b). map_option (new_entry 0 IKEY_INSERT c k) (msgpack_to_value b)) col) =
      concat (map (\<lambda>(k, b). case msgpack_to_value b of Some v \<Rightarrow> snapshot_entry IKEY_INSERT c k v | None \<Rightarrow> []) col)"
    for c col
    by (induction col) (auto simp: map_filter_simps snapshot_entry_def split: option.splits)
  then have "log_bytes (doc_entries st) = concat (map (\<lambda>(c, col).
       concat (map (\<lambda>(k, b).
         case msgpack_to_value b of Some v \<Rightarrow> snapshot_entry IKEY_INSERT c k v | None \<Rightarrow> []) col)) st)"
    unfolding doc_entries_def by (induction st) (auto simp: log_bytes_def)
  moreover have "log_bytes (schema_entries schemas) =
      concat (map (\<lambda>(c, schema, _). snapshot_entry ''SCHEMA'' c [] schema) schemas)"
    unfolding schema_entries_def by (induction schemas) (auto simp: snapshot_entry_def)
  ultimately show ?thesis by (simp add: snapshot_body_def compacted_def)
qed

text \<open>Every stored document decodes.\<close>

definition all_decode :: "(string, collection) dashmap \<Rightarrow> bool" where
  "all_decode st \<longleftrightarrow> list_all (\<lambda>(c, col). list_all (\<lambda>(k, b). msgpack_to_value b \<noteq> None) col) st"

lemma snapshot_count_eq:
  assumes "all_decode st"
  shows "snapshot_count st schemas = length (compacted st schemas)"
proof -
  have "length (List.map_filter (\<lambda>(k, b). map_option (new_entry 0 IKEY_INSERT c k) (msgpack_to_value b)) col) = length col"
    if "list_all (\<lambda>(k, b). msgpack_to_value b \<noteq> None) col" for c col
    using that by (induction col) (auto simp: map_filter_simps)
  then have "length (doc_entries st) = sum_list (map (\<lambda>(c, col). length col) st)"
    using assms unfolding doc_entries_def all_decode_def by (induction st) auto
  then show ?thesis by (simp add: snapshot_count_def compacted_def schema_entries_def)
qed

lemma compact_logs:
  assumes "disk_logs env d ss ls" and "io_fine d" and "all_decode st"
    and "list_all record_ok (compacted st schemas)" and "length (compacted st schemas) < 2 ^ 64"
  obtains d' where "sync_compact_from_maps env st schemas d = (Inr (), d')"
    and "disk_logs env d' (compacted st schemas) []" and "io_fine d'"
proof -
  let ?tmp = "snapshot_of env (compacted st schemas)"
  obtain d1 where d1: "io_call d = (Inr (), d1)" "same_disk d d1" "io_fine d1"
    using io_call_fine [OF assms(2)] .
  obtain d2 where d2: "finish_snapshot_gz ?tmp d1 = (Inr (), d2)" "d_snapshot d2 = Some ?tmp"
    "d_unreadable d2 = d_unreadable d1" "io_fine d2"
    using finish_snapshot_fine [OF d1(3), of ?tmp] by metis
  obtain d3 where d3: "swap_log d2 = (Inr (), d3)" "d_snapshot d3 = d_snapshot d2" "d_log d3 = []"
    "d_buf d3 = []" "d_unreadable d3 = d_unreadable d2" "\<not> d_detached d3" "io_fine d3"
    using swap_log_fine [OF d2(4)] by metis
  have w: "write_snapshot_from_maps env st schemas 0 d = (Inr (), d2)"
    using d1(1) d2(1)
    by (simp add: write_snapshot_from_maps_def snapshot_body_eq snapshot_count_eq [OF assms(3)]
        snapshot_of_def)
  have "disk_logs env d3 (compacted st schemas) []"
    using assms(1,4,5) d1(2) d2 d3 by (simp add: disk_logs_def same_disk_def)
  then show ?thesis
    using that d3(1,7) w by (simp add: sync_compact_from_maps_def)
qed

end
