(* ===== verification/Engine.thy ===== *)
theory Engine
  imports Storage
begin

text \<open>
  The engine: the \<open>Db\<close> handle of \<open>engine/mod.rs\<close> with its methods, the operations it delegates to
  (\<open>operations/set.rs\<close>, \<open>update.rs\<close>, \<open>delete.rs\<close>, \<open>ttl.rs\<close>, \<open>compact.rs\<close>), schemas
  (\<open>engine/schema.rs\<close>) and \<open>engine/open.rs\<close>. An operation is a function on the whole handle that
  returns the handle on success and on failure, because an early return keeps what was done.
\<close>

section \<open>The handle\<close>

record db = tables +
  db_storage :: storage
  db_tx :: "json list"
  db_ttl_defaults :: "(string, u64) dashmap"
  db_seq_counters :: "(string, u64) dashmap"
  db_seq_index :: "(string, (u64, string) btreemap) dashmap"
  db_max_sizes :: "(string, nat) dashmap"
  db_io_fault :: bool
  db_uuids :: nat

type_synonym 'a db_op = "(db, db_error, 'a) op"

section \<open>Clock, identifiers, log and events\<close>

definition now_unix_ms :: "env \<Rightarrow> u64 db_op" where
  "now_unix_ms env db = (Inr (clock env (t_ticks db)), db\<lparr>t_ticks := Suc (t_ticks db)\<rparr>)"

definition new_uuid :: "env \<Rightarrow> string db_op" where
  "new_uuid env db = (Inr (uuid env (db_uuids db)), db\<lparr>db_uuids := Suc (db_uuids db)\<rparr>)"

definition log_write :: "env \<Rightarrow> string \<Rightarrow> string \<Rightarrow> string \<Rightarrow> json \<Rightarrow> unit db_op" where
  "log_write env cmd collection key v =
     op_bind (now_unix_ms env) (\<lambda>now db.
       case write_entry (new_entry now cmd collection key v) (db_storage db) of
         (r, st) \<Rightarrow> (r, db\<lparr>db_storage := st\<rparr>))"

definition send :: "json \<Rightarrow> unit db_op" where
  "send event = op_upd (\<lambda>db. db\<lparr>db_tx := db_tx db @ [event]\<rparr>)"

definition change_event :: "string \<Rightarrow> string \<Rightarrow> json \<Rightarrow> json" where
  "change_event collection key new_v =
     Object (of_entries [(''event'', String ''change''), (''collection'', String collection),
       (''key'', String key), (''new_v'', new_v)])"

definition put_doc :: "string \<Rightarrow> string \<Rightarrow> bytes \<Rightarrow> db \<Rightarrow> db" where
  "put_doc c k b db =
     db\<lparr>t_state := dm_insert c (dm_insert k b (col_of (t_state db) c)) (t_state db)\<rparr>"

section \<open>Schemas\<close>

definition validate_document :: "string \<Rightarrow> json \<Rightarrow> unit db_op" where
  "validate_document collection document db =
     (case dm_get (t_schemas db) collection of
        Some (_, is_valid) \<Rightarrow>
          (if \<not> is_valid document
           then (Inl (SchemaValidationError ''Document does not conform to schema''), db)
           else (Inr (), db))
      | None \<Rightarrow> (Inr (), db))"

definition op_set_schema :: "env \<Rightarrow> string \<Rightarrow> json \<Rightarrow> unit db_op" where
  "op_set_schema env collection schema =
     (case validator_for env schema of
        Inl msg \<Rightarrow> op_raise (SchemaValidationError (''Invalid schema: '' @ msg))
      | Inr validator \<Rightarrow>
          op_bind (new_uuid env) (\<lambda>tx_id.
          op_bind (log_write env IKEY_TX_BEGIN collection tx_id Null) (\<lambda>_.
          op_bind (log_write env ''SCHEMA'' collection [] schema) (\<lambda>_.
          op_bind (log_write env IKEY_TX_COMMIT collection tx_id Null) (\<lambda>_.
          op_bind (op_upd (\<lambda>db. db\<lparr>t_schemas := dm_insert collection (schema, validator) (t_schemas db)\<rparr>)) (\<lambda>_.
          send (Object (of_entries [(''event'', String ''SCHEMA_SET''),
            (''collection'', String collection), (''schema'', schema)]))))))))"

section \<open>Insert\<close>

text \<open>\<open>counter.fetch_add(1)\<close> on the collection's counter, created at 0.\<close>

definition next_seq :: "string \<Rightarrow> u64 db_op" where
  "next_seq c db =
     (let n = (case dm_get (db_seq_counters db) c of Some n \<Rightarrow> n | None \<Rightarrow> 0)
      in (Inr n, db\<lparr>db_seq_counters := dm_insert c (n + 1) (db_seq_counters db)\<rparr>))"

definition stored_doc :: "db \<Rightarrow> string \<Rightarrow> string \<Rightarrow> json option" where
  "stored_doc db c k =
     Option.bind (dm_get (t_state db) c) (\<lambda>col. Option.bind (dm_get col k) msgpack_to_value)"

definition u64_or :: "u64 \<Rightarrow> json \<Rightarrow> string \<Rightarrow> u64" where
  "u64_or d v k = (case get_u64 v k of Some n \<Rightarrow> n | None \<Rightarrow> d)"

text \<open>System fields of an overwrite: version bumped, creation time and sequence number kept.\<close>

definition stamp_overwrite :: "u64 \<Rightarrow> u64 \<Rightarrow> json \<Rightarrow> object \<Rightarrow> object" where
  "stamp_overwrite now seq existing obj =
     bt_insert IKEY_SEQ (json_u64 (u64_or seq existing IKEY_SEQ))
       (bt_insert IKEY_MODIFIED_AT (json_u64 now)
         (bt_insert IKEY_CREATED_AT (json_u64 (u64_or now existing IKEY_CREATED_AT))
           (bt_insert IKEY_VERSION (json_u64 (u64_or 0 existing IKEY_VERSION + 1)) obj)))"

definition stamp_new :: "u64 \<Rightarrow> u64 \<Rightarrow> object \<Rightarrow> object" where
  "stamp_new now seq obj =
     bt_insert IKEY_SEQ (json_u64 seq)
       (bt_insert IKEY_MODIFIED_AT (json_u64 now)
         (bt_insert IKEY_CREATED_AT (json_u64 now)
           (bt_insert IKEY_VERSION (json_u64 1) obj)))"

text \<open>The document to store, with the schema check where the code does it.\<close>

definition prepare_item :: "u64 \<Rightarrow> u64 \<Rightarrow> string \<Rightarrow> string \<Rightarrow> json \<Rightarrow> json db_op" where
  "prepare_item now seq c key v db =
     (case stored_doc db c key of
        Some existing \<Rightarrow>
          (let v' = (case v of Object obj \<Rightarrow> Object (stamp_overwrite now seq existing obj) | _ \<Rightarrow> v)
           in op_bind (validate_document c v') (\<lambda>_. op_return v') db)
      | None \<Rightarrow>
          (case v of
             Object obj \<Rightarrow>
               (let v' = Object (stamp_new now seq obj)
                in op_bind (validate_document c v') (\<lambda>_. op_return v') db)
           | _ \<Rightarrow> (Inr v, db)))"

definition index_put :: "string \<Rightarrow> u64 \<Rightarrow> string \<Rightarrow> db \<Rightarrow> db" where
  "index_put c seq key db =
     db\<lparr>db_seq_index := dm_insert c
         (bt_insert seq key (case dm_get (db_seq_index db) c of Some idx \<Rightarrow> idx | None \<Rightarrow> []))
         (db_seq_index db)\<rparr>"

definition insert_event :: "string \<Rightarrow> string \<Rightarrow> json \<Rightarrow> json" where
  "insert_event c key v =
     (case change_event c key (json_u64 (u64_or 0 v IKEY_VERSION)) of
        Object ev \<Rightarrow>
          Object (case get_u64 v IKEY_EXPIRES_AT of
            Some exp \<Rightarrow> bt_insert ''expires_at_ms'' (json_u64 exp) ev | None \<Rightarrow> ev)
      | ev \<Rightarrow> ev)"

definition insert_item :: "env \<Rightarrow> string \<Rightarrow> string \<times> json \<Rightarrow> unit db_op" where
  "insert_item env c item =
     (case item of (key, v0) \<Rightarrow>
      op_bind (now_unix_ms env) (\<lambda>now.
      op_bind (next_seq c) (\<lambda>seq.
      op_bind (prepare_item now seq c key v0) (\<lambda>v.
      op_bind (op_upd (put_doc c key (value_to_msgpack v))) (\<lambda>_.
      op_bind (op_upd (index_put c (u64_or seq v IKEY_SEQ) key)) (\<lambda>_.
      op_bind (log_write env IKEY_INSERT c key v) (\<lambda>_.
      send (insert_event c key v))))))))"

definition create_collection :: "string \<Rightarrow> db \<Rightarrow> db" where
  "create_collection c db = db\<lparr>t_state := dm_insert c (col_of (t_state db) c) (t_state db)\<rparr>"

definition op_insert :: "env \<Rightarrow> string \<Rightarrow> (string \<times> json) list \<Rightarrow> unit db_op" where
  "op_insert env c items =
     op_bind (op_upd (create_collection c)) (\<lambda>_.
     op_bind (new_uuid env) (\<lambda>tx_id.
     op_bind (log_write env IKEY_TX_BEGIN c tx_id Null) (\<lambda>_.
     op_bind (op_iter (insert_item env c) items) (\<lambda>_.
     log_write env IKEY_TX_COMMIT c tx_id Null))))"

section \<open>Update\<close>

text \<open>The fields of the patch, the bumped version and the modification time, in that order.\<close>

definition merge_fields :: "object \<Rightarrow> object \<Rightarrow> object" where
  "merge_fields updates doc =
     fold (\<lambda>(k, v) d. if k = VERSION \<or> k = CREATED_AT then d else bt_insert k v d) updates doc"

definition merge_update :: "u64 \<Rightarrow> u64 \<Rightarrow> object \<Rightarrow> object \<Rightarrow> object" where
  "merge_update existing_v now updates doc =
     bt_insert MODIFIED_AT (json_u64 now)
       (bt_insert VERSION (json_u64 (existing_v + 1)) (merge_fields updates doc))"

definition patch_doc :: "env \<Rightarrow> json \<Rightarrow> json \<Rightarrow> json db_op" where
  "patch_doc env updates doc =
     (case updates of
        Object upd \<Rightarrow>
          (let existing_v = u64_or 0 doc IKEY_VERSION in
           if (case get_u64 updates VERSION of Some guard_v \<Rightarrow> guard_v \<noteq> existing_v | None \<Rightarrow> False)
           then op_raise Conflict
           else (case doc of
                   Object obj \<Rightarrow>
                     op_bind (now_unix_ms env) (\<lambda>now. op_return (Object (merge_update existing_v now upd obj)))
                 | _ \<Rightarrow> op_return doc))
      | _ \<Rightarrow> op_return doc)"

definition op_update :: "env \<Rightarrow> string \<Rightarrow> string \<Rightarrow> json \<Rightarrow> bool db_op" where
  "op_update env c key updates =
     op_bind (new_uuid env) (\<lambda>tx_id.
     op_bind (log_write env IKEY_TX_BEGIN c tx_id Null) (\<lambda>_ db.
       case stored_doc db c key of
         Some doc \<Rightarrow>
           op_bind (patch_doc env updates doc) (\<lambda>new_value.
           op_bind (validate_document c new_value) (\<lambda>_.
           op_bind (op_upd (put_doc c key (value_to_msgpack new_value))) (\<lambda>_.
           op_bind (log_write env IKEY_INSERT c key new_value) (\<lambda>_.
           op_bind (log_write env IKEY_TX_COMMIT c tx_id Null) (\<lambda>_.
           op_bind (send (change_event c key (json_u64 (u64_or 0 new_value VERSION)))) (\<lambda>_.
           op_return True)))))) db
       | None \<Rightarrow>
           op_bind (log_write env IKEY_TX_COMMIT c tx_id Null) (\<lambda>_. op_return False) db))"

section \<open>Delete\<close>

definition index_remove :: "string \<Rightarrow> u64 \<Rightarrow> db \<Rightarrow> db" where
  "index_remove c seq db =
     (case dm_get (db_seq_index db) c of
        Some idx \<Rightarrow> db\<lparr>db_seq_index := dm_insert c (bt_remove seq idx) (db_seq_index db)\<rparr>
      | None \<Rightarrow> db)"

definition unindex_doc :: "env \<Rightarrow> string \<Rightarrow> string \<Rightarrow> unit db_op" where
  "unindex_doc env c key db =
     (case dm_get (col_of (t_state db) c) key of
        Some b \<Rightarrow>
          (case read_msgpack_seq_token (skip_value env) b of
             Aborts \<Rightarrow> (Inl Aborted, db)
           | Returns seq \<Rightarrow> (Inr (), index_remove c seq db))
      | None \<Rightarrow> (Inr (), db))"

definition remove_doc :: "string \<Rightarrow> string \<Rightarrow> db \<Rightarrow> db" where
  "remove_doc c key db =
     db\<lparr>t_state := dm_insert c (dm_remove key (col_of (t_state db) c)) (t_state db)\<rparr>"

definition delete_key :: "env \<Rightarrow> string \<Rightarrow> string \<Rightarrow> unit db_op" where
  "delete_key env c key =
     op_bind (unindex_doc env c key) (\<lambda>_.
     op_bind (op_upd (remove_doc c key)) (\<lambda>_.
     op_bind (log_write env IKEY_DELETE c key Null) (\<lambda>_.
     send (change_event c key Null))))"

definition op_delete :: "env \<Rightarrow> string \<Rightarrow> string list \<Rightarrow> unit db_op" where
  "op_delete env c keys =
     op_bind (new_uuid env) (\<lambda>tx_id.
     op_bind (log_write env IKEY_TX_BEGIN c tx_id Null) (\<lambda>_.
     op_bind (\<lambda>db. if dm_get (t_state db) c = None then (Inr (), db)
                   else op_iter (delete_key env c) keys db) (\<lambda>_.
     log_write env IKEY_TX_COMMIT c tx_id Null)))"

text \<open>
  Sorting by the sequence number, ascending or descending. The code's sort is unstable; the order
  of equal numbers is that of the iteration, which is arbitrary.
\<close>

definition sort_by_seq :: "bool \<Rightarrow> (u64 \<times> 'a) list \<Rightarrow> (u64 \<times> 'a) list" where
  "sort_by_seq asc pairs = (if asc then sort_key fst pairs else rev (sort_key fst (rev pairs)))"

text \<open>The sequence number of every document, unless a scan aborts.\<close>

primrec seq_pairs :: "env \<Rightarrow> collection \<Rightarrow> (u64 \<times> string) list outcome" where
  "seq_pairs env [] = Returns []"
| "seq_pairs env (kb # col) =
     (case read_msgpack_seq_token (skip_value env) (snd kb) of Aborts \<Rightarrow> Aborts
      | Returns seq \<Rightarrow>
        (case seq_pairs env col of Aborts \<Rightarrow> Aborts
         | Returns ps \<Rightarrow> Returns ((seq, fst kb) # ps)))"

text \<open>Delete the chosen keys, if any, and return their number.\<close>

definition delete_counted :: "env \<Rightarrow> string \<Rightarrow> string list \<Rightarrow> nat db_op" where
  "delete_counted env c keys db =
     (if keys = [] then (Inr 0, db)
      else op_bind (op_delete env c keys) (\<lambda>_. op_return (length keys)) db)"

definition op_delete_filtered :: "env \<Rightarrow> string \<Rightarrow> (string \<Rightarrow> bytes \<Rightarrow> bool) \<Rightarrow> nat option \<Rightarrow> bool \<Rightarrow>
    nat db_op" where
  "op_delete_filtered env c predicate count_limit default_order_asc db =
     (case dm_get (t_state db) c of None \<Rightarrow> (Inr 0, db)
      | Some col \<Rightarrow>
        (case seq_pairs env (filter (\<lambda>(k, b). predicate k b) col) of
           Aborts \<Rightarrow> (Inl Aborted, db)
         | Returns pairs \<Rightarrow>
             (let sorted_keys = map snd (sort_by_seq default_order_asc pairs);
                  keys = (case count_limit of Some limit \<Rightarrow> take limit sorted_keys | None \<Rightarrow> sorted_keys)
              in delete_counted env c keys db)))"

text \<open>The first or last \<open>n\<close> keys of the index; without an index, of a scan sorted by sequence number.\<close>

definition delete_n_keys :: "env \<Rightarrow> (u64, string) btreemap option \<Rightarrow> collection \<Rightarrow> nat \<Rightarrow> bool \<Rightarrow>
    string list outcome" where
  "delete_n_keys env index col n order_asc =
     (case index of
        Some idx \<Rightarrow> Returns (map snd (take n (if order_asc then idx else rev idx)))
      | None \<Rightarrow>
          (case seq_pairs env col of Aborts \<Rightarrow> Aborts
           | Returns pairs \<Rightarrow> Returns (map snd (take n (sort_by_seq order_asc pairs)))))"

definition op_delete_n :: "env \<Rightarrow> string \<Rightarrow> nat \<Rightarrow> bool \<Rightarrow> nat db_op" where
  "op_delete_n env c n order_asc db =
     (if n = 0 then (Inr 0, db)
      else case dm_get (t_state db) c of None \<Rightarrow> (Inr 0, db)
      | Some col \<Rightarrow>
        (case delete_n_keys env (dm_get (db_seq_index db) c) col n order_asc of
           Aborts \<Rightarrow> (Inl Aborted, db)
         | Returns keys \<Rightarrow> delete_counted env c keys db))"

definition oldest_keys :: "collection \<Rightarrow> nat \<Rightarrow> string list" where
  "oldest_keys col n =
     map snd (take n (sort_key fst
       (List.map_filter (\<lambda>(k, b). map_option (\<lambda>v. (u64_or (- 1) v IKEY_SEQ, k)) (msgpack_to_value b)) col)))"

text \<open>Best-effort eviction: the result of the delete is ignored.\<close>

definition evict_oldest :: "env \<Rightarrow> string \<Rightarrow> nat \<Rightarrow> unit db_op" where
  "evict_oldest env c n db =
     (case dm_get (t_state db) c of None \<Rightarrow> (Inr (), db)
      | Some col \<Rightarrow>
        (let keys = oldest_keys col n in
         if keys = [] then (Inr (), db)
         else case op_delete env c keys db of
             (Inl Aborted, db') \<Rightarrow> (Inl Aborted, db') | (_, db') \<Rightarrow> (Inr (), db')))"

definition op_delete_collection :: "env \<Rightarrow> string \<Rightarrow> unit db_op" where
  "op_delete_collection env c =
     op_bind (new_uuid env) (\<lambda>tx_id.
     op_bind (log_write env IKEY_TX_BEGIN c tx_id Null) (\<lambda>_.
     op_bind (op_upd (\<lambda>db. db\<lparr>t_state := dm_remove c (t_state db),
                             db_seq_index := dm_remove c (db_seq_index db)\<rparr>)) (\<lambda>_.
     op_bind (log_write env IKEY_DROP c ''*'' Null) (\<lambda>_.
     op_bind (log_write env IKEY_TX_COMMIT c tx_id Null) (\<lambda>_.
     send (change_event c ''*'' Null))))))"

section \<open>Time to live\<close>

definition leap :: "nat \<Rightarrow> bool" where
  "leap y \<longleftrightarrow> y mod 4 = 0 \<and> y mod 100 \<noteq> 0 \<or> y mod 400 = 0"

definition year_days :: "nat \<Rightarrow> nat" where
  "year_days y = (if leap y then 366 else 365)"

function year_loop :: "nat \<Rightarrow> nat \<Rightarrow> nat \<times> nat" where
  "year_loop d y = (if d < year_days y then (d, y) else year_loop (d - year_days y) (y + 1))"
  by pat_completeness auto
termination
  by (relation "measure fst") (auto simp: year_days_def split: if_splits)

declare year_loop.simps [simp del]

definition month_days :: "nat \<Rightarrow> nat list" where
  "month_days y = [31, if leap y then 29 else 28, 31, 30, 31, 30, 31, 31, 30, 31, 30, 31]"

fun month_loop :: "nat list \<Rightarrow> nat \<Rightarrow> nat \<Rightarrow> nat \<times> nat" where
  "month_loop [] d mo = (d, mo)"
| "month_loop (x # md) d mo = (if d < x then (d, mo) else month_loop md (d - x) (mo + 1))"

definition pad :: "nat \<Rightarrow> nat \<Rightarrow> string" where
  "pad w n = replicate (w - length (dec n)) (CHR ''0'') @ dec n"

definition ms_to_iso :: "u64 \<Rightarrow> string" where
  "ms_to_iso ms =
     (let secs = unat ms div 1000; s = secs mod 60; m = secs div 60 mod 60; h = secs div 3600 mod 24;
          (d, y) = year_loop (secs div 86400) 1970;
          (d', mo) = month_loop (month_days y) d 1
      in pad 4 y @ ''-'' @ pad 2 mo @ ''-'' @ pad 2 (d' + 1) @ ''T'' @ pad 2 h @ '':'' @ pad 2 m @ '':'' @
         pad 2 s @ ''Z'')"

definition collection_is_expired :: "u64 \<Rightarrow> u64 \<Rightarrow> bool" where
  "collection_is_expired expires_at_ms current_time_ms \<longleftrightarrow> current_time_ms \<ge> expires_at_ms"

section \<open>Methods of the handle\<close>

definition read_only_msg :: string where
  "read_only_msg = ''Background disk I/O failed. System is in read-only mode.''"

definition check_fault :: "unit db_op" where
  "check_fault db = (if db_io_fault db then (Inl (StorageFault read_only_msg), db) else (Inr (), db))"

definition evict_expired :: "env \<Rightarrow> string \<Rightarrow> unit db_op" where
  "evict_expired env c db =
     (case dm_get (t_ttl_expiry db) c of None \<Rightarrow> (Inr (), db)
      | Some exp \<Rightarrow>
        op_bind (now_unix_ms env) (\<lambda>now db1.
          if collection_is_expired exp now then
            (case op_delete_collection env c db1 of
               (_, db2) \<Rightarrow> (Inr (), db2\<lparr>t_ttl_expiry := dm_remove c (t_ttl_expiry db2)\<rparr>))
          else (Inr (), db1)) db)"

definition enforce_max_size :: "env \<Rightarrow> string \<Rightarrow> unit db_op" where
  "enforce_max_size env c db =
     (case dm_get (db_max_sizes db) c of None \<Rightarrow> (Inr (), db)
      | Some limit \<Rightarrow>
        (let current = length (col_of (t_state db) c) in
         if current > limit then evict_oldest env c (current - limit) db else (Inr (), db)))"

definition renew_ttl :: "env \<Rightarrow> string \<Rightarrow> unit db_op" where
  "renew_ttl env c db =
     (case dm_get (db_ttl_defaults db) c of None \<Rightarrow> (Inr (), db)
      | Some secs \<Rightarrow>
        op_bind (now_unix_ms env) (\<lambda>now db1.
          let expires_at = now + secs * 1000;
              db2 = db1\<lparr>t_ttl_expiry := dm_insert c expires_at (t_ttl_expiry db1)\<rparr>;
              db3 = snd (log_write env TTL_EXPIRY c (dec (unat expires_at)) Null db2)
          in send (Object (of_entries [(''event'', String ''ttl_expiry''),
                (''collection'', String c), (''expires_at_ms'', json_u64 expires_at)])) db3) db)"

definition db_insert :: "env \<Rightarrow> string \<Rightarrow> (string \<times> json) list \<Rightarrow> unit db_op" where
  "db_insert env c items =
     op_bind check_fault (\<lambda>_.
     op_bind (evict_expired env c) (\<lambda>_.
     op_bind (op_insert env c items) (\<lambda>_.
     op_bind (enforce_max_size env c) (\<lambda>_.
     renew_ttl env c))))"

definition db_update :: "env \<Rightarrow> string \<Rightarrow> string \<Rightarrow> json \<Rightarrow> bool db_op" where
  "db_update env c key updates = op_bind check_fault (\<lambda>_. op_update env c key updates)"

definition db_delete :: "env \<Rightarrow> string \<Rightarrow> string list \<Rightarrow> unit db_op" where
  "db_delete env c keys = op_bind check_fault (\<lambda>_. op_delete env c keys)"

definition db_delete_filtered :: "env \<Rightarrow> string \<Rightarrow> (string \<Rightarrow> bytes \<Rightarrow> bool) \<Rightarrow> nat option \<Rightarrow> bool \<Rightarrow>
    nat db_op" where
  "db_delete_filtered env c predicate count_limit asc =
     op_bind check_fault (\<lambda>_. op_delete_filtered env c predicate count_limit asc)"

definition db_delete_n :: "env \<Rightarrow> string \<Rightarrow> nat \<Rightarrow> bool \<Rightarrow> nat db_op" where
  "db_delete_n env c n asc = op_bind check_fault (\<lambda>_. op_delete_n env c n asc)"

definition db_delete_collection :: "env \<Rightarrow> string \<Rightarrow> unit db_op" where
  "db_delete_collection env c =
     op_bind (op_delete_collection env c) (\<lambda>_.
     op_upd (\<lambda>db. db\<lparr>t_ttl_expiry := dm_remove c (t_ttl_expiry db),
                     db_ttl_defaults := dm_remove c (db_ttl_defaults db),
                     db_seq_counters := dm_remove c (db_seq_counters db)\<rparr>))"

definition db_set_schema :: "env \<Rightarrow> string \<Rightarrow> json \<Rightarrow> unit db_op" where
  "db_set_schema env c schema = op_set_schema env c schema"

definition set_max_size :: "string \<Rightarrow> nat \<Rightarrow> db \<Rightarrow> db" where
  "set_max_size c n db = db\<lparr>db_max_sizes := dm_insert c n (db_max_sizes db)\<rparr>"

definition set_ttl_default :: "string \<Rightarrow> u64 \<Rightarrow> db \<Rightarrow> db" where
  "set_ttl_default c ttl_secs db =
     (if ttl_secs = 0 then
        db\<lparr>db_ttl_defaults := dm_remove c (db_ttl_defaults db),
           t_ttl_expiry := dm_remove c (t_ttl_expiry db)\<rparr>
      else db\<lparr>db_ttl_defaults := dm_insert c ttl_secs (db_ttl_defaults db)\<rparr>)"

definition clear_all :: "db \<Rightarrow> db" where
  "clear_all db = db\<lparr>t_state := [], t_schemas := []\<rparr>"

definition op_compact :: "env \<Rightarrow> (string, collection) dashmap \<Rightarrow> (string, json \<times> (json \<Rightarrow> bool)) dashmap \<Rightarrow>
    (storage, db_error, unit) op" where
  "op_compact env state schemas = op_bind (compact_from_maps env state schemas) op_return"

lemma op_compact_run [simp]: "op_compact env state schemas st = compact_from_maps env state schemas st"
  by (simp add: op_compact_def op_bind_def op_return_def split: prod.split sum.split)

definition db_compact :: "env \<Rightarrow> unit db_op" where
  "db_compact env db =
     (case op_compact env (t_state db) (t_schemas db) (db_storage db) of
        (r, st) \<Rightarrow> (r, db\<lparr>db_storage := st\<rparr>))"

definition op_get :: "db \<Rightarrow> string \<Rightarrow> string list \<Rightarrow> (string, json) dashmap" where
  "op_get db c keys =
     (case dm_get (t_state db) c of None \<Rightarrow> []
      | Some col \<Rightarrow>
        fold (\<lambda>k m. case Option.bind (dm_get col k) msgpack_to_value of
               Some v \<Rightarrow> dm_insert k v m | None \<Rightarrow> m) keys [])"

definition db_get :: "db \<Rightarrow> string \<Rightarrow> string list \<Rightarrow> (string, json) dashmap" where
  "db_get db c keys = map (\<lambda>(k, v). (k, expand_system_fields v)) (op_get db c keys)"

definition hot_keys_count :: "db \<Rightarrow> nat" where
  "hot_keys_count db = sum_list (map (\<lambda>(c, col). length col) (t_state db))"

definition collection_count :: "db \<Rightarrow> string \<Rightarrow> nat option" where
  "collection_count db c = map_option length (dm_get (t_state db) c)"

definition all_collection_counts :: "db \<Rightarrow> (string \<times> nat) list" where
  "all_collection_counts db = map (\<lambda>(c, col). (c, length col)) (t_state db)"

definition state_collections :: "db \<Rightarrow> string list" where
  "state_collections db = map fst (t_state db)"

definition with_raw_collection :: "db \<Rightarrow> string \<Rightarrow> (collection \<Rightarrow> 'r) \<Rightarrow> 'r option" where
  "with_raw_collection db c f = map_option f (dm_get (t_state db) c)"

definition raw_collection :: "db \<Rightarrow> string \<Rightarrow> collection option" where
  "raw_collection db c = dm_get (t_state db) c"

definition raw_chunk_count :: "db \<Rightarrow> string \<Rightarrow> nat" where
  "raw_chunk_count db c = length (col_of (t_state db) c)"

section \<open>Opening a database\<close>

text \<open>The index of one collection and the highest sequence number, by one pass over it.\<close>

definition index_collection :: "(u64 \<times> string) list \<Rightarrow> (u64, string) btreemap \<times> u64" where
  "index_collection pairs =
     fold (\<lambda>(seq, k) (bt, mx). (bt_insert seq k bt, if seq > mx then seq else mx)) pairs ([], 0)"

primrec build_indexes :: "env \<Rightarrow> (string, collection) dashmap \<Rightarrow> unit db_op" where
  "build_indexes env [] = op_return ()"
| "build_indexes env (ccol # rest) =
     (case ccol of (c, col) \<Rightarrow>
      (case seq_pairs env col of
         Aborts \<Rightarrow> op_raise Aborted
       | Returns pairs \<Rightarrow>
           (case index_collection pairs of (idx, max_seq) \<Rightarrow>
            op_bind (op_upd (\<lambda>db. db\<lparr>db_seq_index := dm_insert c idx (db_seq_index db),
                                   db_seq_counters := dm_insert c (max_seq + 1) (db_seq_counters db)\<rparr>))
              (\<lambda>_. build_indexes env rest))))"

definition fresh_db :: "storage \<Rightarrow> tables \<Rightarrow> db" where
  "fresh_db st t = tables.extend t
     \<lparr>db_storage = st, db_tx = [], db_ttl_defaults = [], db_seq_counters = [], db_seq_index = [],
      db_max_sizes = [], db_io_fault = False, db_uuids = 0\<rparr>"

text \<open>\<open>Db::open\<close> on the storage its configuration selects, at a given reading of the clock.\<close>

definition db_open :: "env \<Rightarrow> nat \<Rightarrow> storage \<Rightarrow> db_error + db" where
  "db_open env tick st =
     (case stream_into_state env st (empty_tables tick) of
        (Inl err, t) \<Rightarrow> Inl err
      | (Inr n, t) \<Rightarrow>
          (case build_indexes env (t_state t) (fresh_db st t) of
             (Inl err, db) \<Rightarrow> Inl err | (Inr _, db) \<Rightarrow> Inr db))"

end
