(* ===== verification/Durability.thy ===== *)
theory Durability
  imports Engine
begin

text \<open>
  The log and the tables tell the same story. The abstract database is the map of decoded documents
  (\<open>docs\<close>); \<open>docs_apply\<close> is the effect of a log record on it. Every engine operation that returns
  \<open>Ok\<close> leaves a database whose replayed log has exactly the documents that memory has
  (\<open>consistent\<close>), on the disk backend and under encryption.
\<close>

section \<open>Sizes\<close>

text \<open>A value whose encoding is short has only short strings, arrays and objects.\<close>

lemma length_write_number: "length (write_number n) \<le> 9"
  by (cases n) (auto simp: write_number_def)

lemma length_write_str: "length s \<le> length (write_str s) \<and> length (write_str s) \<le> length s + 5"
  by (simp add: write_str_def Let_def)

lemma length_write_map_key: "length (write_map_key k) \<le> length k + 5"
  using length_write_str [of k] by (simp add: write_map_key_def split: option.split)

lemma length_write_map_header: "1 \<le> length (write_map_header n) \<and> length (write_map_header n) \<le> 5"
  by (simp add: write_map_header_def)

lemma write_value_pos: "1 \<le> length (write_value v)"
  using write_value_not_Nil [of v] by (cases "write_value v") auto

lemma length_le_concat:
  assumes "\<And>x. x \<in> set xs \<Longrightarrow> 1 \<le> length (g x)"
  shows "length xs \<le> length (concat (map g xs))"
  using assms
proof (induction xs)
  case (Cons a xs)
  have "1 \<le> length (g a)" by (rule Cons.prems) simp
  moreover have "length xs \<le> length (concat (map g xs))" by (rule Cons.IH) (rule Cons.prems, simp)
  ultimately show ?case by simp
qed simp

lemma key_len_ok: "length (write_map_key k) < 2 ^ 32 \<Longrightarrow> len_ok k"
proof (cases "key_token k")
  case None
  then show "length (write_map_key k) < 2 ^ 32 \<Longrightarrow> len_ok k"
    using length_write_str [of k] by (simp add: write_map_key_def len_ok_def)
next
  case (Some t)
  then have "k \<in> {VERSION, IKEY_VERSION, KEY, IKEY_KEY, SEQ, IKEY_SEQ, CREATED_AT, IKEY_CREATED_AT,
      MODIFIED_AT, IKEY_MODIFIED_AT, EXPIRES_AT, IKEY_EXPIRES_AT}"
    by (rule_tac ccontr) (simp add: key_token_def)
  then show "len_ok k" by (auto simp: len_ok_def)
qed

lemma fits_short: "length (write_value v) < 2 ^ 32 \<Longrightarrow> fits v"
proof (induction v rule: json_induct)
  case (String s)
  then show ?case using length_write_str [of s] by (simp add: len_ok_def)
next
  case (Array vs)
  have "length (write_value v) < 2 ^ 32" if "v \<in> set vs" for v
    using length_concat_member [OF that, of write_value] Array.prems by simp
  moreover have "length vs < 2 ^ 32"
    using length_le_concat [of vs write_value] write_value_pos Array.prems by simp
  ultimately show ?case using Array.IH by (auto simp: list_all_iff len_ok_def)
next
  case (Object m)
  let ?g = "\<lambda>(k, v). write_map_key k @ write_value v"
  have part: "length (?g kv) < 2 ^ 32" if "kv \<in> set m" for kv
    using length_concat_member [OF that, of ?g] Object.prems by simp
  have "len_ok k \<and> fits v" if "(k, v) \<in> set m" for k v
    using part [OF that] Object.IH [OF that] key_len_ok [of k] by simp
  moreover have "length m < 2 ^ 32"
  proof -
    have "length m \<le> length (concat (map ?g m))"
      using write_value_pos by (intro length_le_concat) (auto simp: trans_le_add2)
    with Object.prems show ?thesis by simp
  qed
  ultimately show ?case by (auto simp: list_all_iff len_ok_def)
qed simp_all

definition doc_small :: "nat \<Rightarrow> json \<Rightarrow> bool" where
  "doc_small n v \<longleftrightarrow> wf_value v \<and> nested 128 v \<and> length (value_to_msgpack v) \<le> n"

lemma doc_small_ok: "doc_small n v \<Longrightarrow> n < 2 ^ 32 \<Longrightarrow> doc_ok v"
  by (auto simp: doc_small_def doc_ok_def value_to_msgpack_def intro: fits_short)

lemma doc_small_mono: "doc_small n v \<Longrightarrow> n \<le> n' \<Longrightarrow> doc_small n' v"
  by (simp add: doc_small_def)

lemma length_entries_insert:
  "length (concat (map (\<lambda>(k, v). write_map_key k @ write_value v) (bt_insert k v m))) \<le>
     length (concat (map (\<lambda>(k, v). write_map_key k @ write_value v) m)) +
     length (write_map_key k) + length (write_value v)"
  by (induction m) auto

lemma doc_small_insert:
  assumes "doc_small n (Object m)" and "str_ok k" and "wf_value v" and "nested 127 v"
  shows "doc_small (n + length (write_map_key k) + length (write_value v) + 4) (Object (bt_insert k v m))"
proof -
  have n: "nested 128 (Object m') \<longleftrightarrow> (\<forall>(k, v)\<in>set m'. nested 127 v)" for m'
    using nested.simps(2) [of "Suc 127" m'] by (simp add: list_all_iff)
  have "\<forall>(k', v')\<in>set (bt_insert k v m). str_ok k' \<and> wf_value v' \<and> nested 127 v'"
    using assms set_bt_insert [of k v m] by (fastforce simp: doc_small_def n list_all_iff)
  moreover have "bt_ok (bt_insert k v m)"
    using assms(1) by (auto simp: doc_small_def intro: bt_ok_insert)
  moreover have "length (value_to_msgpack (Object (bt_insert k v m))) \<le>
      n + length (write_map_key k) + length (write_value v) + 4"
    using assms(1) length_entries_insert [of k v m] length_write_map_header [of "length m"]
      length_write_map_header [of "length (bt_insert k v m)"]
    by (simp add: doc_small_def value_to_msgpack_def)
  ultimately show ?thesis
    unfolding doc_small_def n by (auto simp: list_all_iff)
qed

section \<open>Room for records\<close>

text \<open>The backend can frame the record, whatever nonce and counter it uses.\<close>

fun accepts :: "log_entry \<Rightarrow> storage \<Rightarrow> bool" where
  "accepts e InMemoryStorage \<longleftrightarrow> True"
| "accepts e (SyncDiskStorage d) \<longleftrightarrow> record_ok e"
| "accepts e (OpfsStorage h) \<longleftrightarrow> record_ok e"
| "accepts e (EncryptedStorage c n inner) \<longleftrightarrow>
     entry_ok e \<and> (\<forall>m e'. encrypt_entry c m e = Inr e' \<longrightarrow> accepts e' inner)"

text \<open>Every record of less than a gigabyte can be framed.\<close>

definition roomy :: "storage \<Rightarrow> bool" where
  "roomy st \<longleftrightarrow> (\<forall>e. entry_ok e \<and> length (log_entry_to_msgpack e) < 2 ^ 30 \<longrightarrow> accepts e st)"

lemma accepts_fits: "accepts e st \<Longrightarrow> write_fits e st"
  by (induction st arbitrary: e) (auto split: sum.splits)

lemma accepts_write: "write_entry x st = (r, st') \<Longrightarrow> accepts e st' = accepts e st"
  by (induction st arbitrary: x e r st') (auto split: prod.splits sum.splits)

lemma roomy_write: "write_entry x st = (r, st') \<Longrightarrow> roomy st' = roomy st"
  by (simp add: roomy_def accepts_write)

lemma roomy_disk [simp]: "roomy (SyncDiskStorage d)" "roomy (OpfsStorage h)"
  by (simp_all add: roomy_def record_ok_def)

text \<open>Names of collections, keys and transactions.\<close>

definition name_ok :: "string \<Rightarrow> bool" where
  "name_ok s \<longleftrightarrow> str_ok s \<and> length s < 2 ^ 20"

lemma new_entry_sel [simp]:
  "e_cmd (new_entry now cmd c k v) = cmd" "e_collection (new_entry now cmd c k v) = c"
  "e_key (new_entry now cmd c k v) = k" "e_value (new_entry now cmd c k v) = v"
  "e_t (new_entry now cmd c k v) = now"
  by (simp_all add: new_entry_def)

lemma length_log_entry:
  "length (log_entry_to_msgpack e) \<le>
     length (e_cmd e) + length (e_collection e) + length (e_key e) + length (write_value (e_value e)) + 100"
proof -
  have "length (case cmd_token (e_cmd e) of Some t \<Rightarrow> [t] | None \<Rightarrow> write_str (e_cmd e)) \<le> length (e_cmd e) + 5"
    using length_write_str [of "e_cmd e"] by (simp split: option.split)
  then show ?thesis
    using length_write_str [of "e_collection e"] length_write_str [of "e_key e"]
      length_write_number [of "PosInt (e_t e)"]
      length_write_str [of "''cmd''"] length_write_str [of "''collection''"] length_write_str [of "''key''"]
      length_write_str [of "''value''"] length_write_str [of "''_t''"] length_write_map_header [of 5]
    by (simp add: log_entry_to_msgpack_def)
qed

lemma accepts_new:
  assumes "roomy st" and "name_ok cmd" and "name_ok c" and "name_ok k" and "doc_small (2 ^ 29) v"
  shows "accepts (new_entry now cmd c k v) st"
proof -
  let ?e = "new_entry now cmd c k v"
  have "doc_ok v" using assms(5) by (rule doc_small_ok) simp
  then have ok: "entry_ok ?e"
    using assms(2-4) by (simp add: entry_ok_def name_ok_def len_ok_def)
  have "length (log_entry_to_msgpack ?e) < 2 ^ 30"
    using assms(2-5) length_log_entry [of ?e]
    by (simp add: name_ok_def doc_small_def value_to_msgpack_def)
  with ok assms(1) show ?thesis by (simp add: roomy_def)
qed

lemma small_Null [simp]: "doc_small (2 ^ 29) Null"
  by (simp add: doc_small_def value_to_msgpack_def)

lemma name_literals [simp]:
  "name_ok IKEY_INSERT" "name_ok IKEY_DELETE" "name_ok IKEY_DROP" "name_ok IKEY_TX_BEGIN"
  "name_ok IKEY_TX_COMMIT" "name_ok ''SCHEMA''" "name_ok TTL_EXPIRY" "name_ok ''*''" "name_ok []"
  by (simp_all add: name_ok_def str_ok_def bytes_of_def)

section \<open>Documents\<close>

text \<open>The abstract database: the documents of every collection, as a reader decodes them.\<close>

type_synonym docs = "string \<Rightarrow> string \<Rightarrow> json option"

definition docs_of :: "(string, collection) dashmap \<Rightarrow> docs" where
  "docs_of st c k = Option.bind (dm_get st c) (\<lambda>col. Option.bind (dm_get col k) msgpack_to_value)"

text \<open>The effect of a record on the abstract database.\<close>

definition docs_apply :: "log_entry \<Rightarrow> docs \<Rightarrow> docs" where
  "docs_apply e D =
     (if e_cmd e = IKEY_INSERT then D(e_collection e := (D (e_collection e))(e_key e \<mapsto> tokenize (e_value e)))
      else if e_cmd e = IKEY_DELETE then D(e_collection e := (D (e_collection e))(e_key e := None))
      else if e_cmd e = IKEY_DROP then D(e_collection e := (\<lambda>_. None))
      else D)"

lemma stored_doc_docs: "stored_doc db c k = docs_of (t_state db) c k"
  by (simp add: stored_doc_def docs_of_def)

lemma docs_insert:
  "docs_of (dm_insert c (dm_insert k b (col_of st c)) st) =
     (docs_of st)(c := (docs_of st c)(k := msgpack_to_value b))"
  by (intro ext) (auto simp: docs_of_def col_of_def fun_upd_def split: option.split)

lemma docs_remove:
  "docs_of (dm_insert c (dm_remove k (col_of st c)) st) = (docs_of st)(c := (docs_of st c)(k := None))"
  by (intro ext) (auto simp: docs_of_def col_of_def fun_upd_def split: option.split)

lemma docs_drop: "docs_of (dm_remove c st) = (docs_of st)(c := (\<lambda>_. None))"
  by (intro ext) (auto simp: docs_of_def)

lemma docs_create: "docs_of (dm_insert c (col_of st c) st) = docs_of st"
  by (intro ext) (auto simp: docs_of_def col_of_def split: option.split)

text \<open>A record that is not a transaction mark or an expiry: its replay follows the abstract effect.\<close>

definition doc_record :: "log_entry \<Rightarrow> bool" where
  "doc_record e \<longleftrightarrow> plain e \<and> e_cmd e \<noteq> TTL_EXPIRY \<and> doc_ok (e_value e) \<and>
     e_cmd e \<notin> {''INSERT'', ''DELETE'', ''DROP''}"

lemma docs_apply_entry:
  assumes "doc_record e"
  shows "docs_of (t_state (apply_entry env (stored_entry e) t)) = docs_apply e (docs_of (t_state t))"
proof -
  have c: "stored_cmd (e_cmd e) = e_cmd e \<or> e_cmd e \<notin> {IKEY_INSERT, IKEY_DELETE, IKEY_DROP, TTL_EXPIRY} \<and>
      stored_cmd (e_cmd e) \<notin> {IKEY_INSERT, IKEY_DELETE, IKEY_DROP, TTL_EXPIRY}"
    using assms by (auto simp: doc_record_def stored_cmd_def to_ikey_def)
  have v: "msgpack_to_value (value_to_msgpack (tokenize (e_value e))) = Some (tokenize (e_value e))"
    using assms by (simp add: doc_record_def)
  have del: "docs_of st = (docs_of st)(c := (docs_of st c)(k := None))" if "dm_get st c = None" for st c k
    using that by (intro ext) (auto simp: docs_of_def)
  have del': "docs_of (dm_insert c (dm_remove k col) st) = (docs_of st)(c := (docs_of st c)(k := None))"
    if "dm_get st c = Some col" for st c k col
    using that docs_remove [of c k st] by (simp add: col_of_def)
  show ?thesis
    using c v assms
    by (auto simp: apply_entry_def docs_apply_def docs_insert docs_drop del' doc_record_def
        intro: del split: option.splits sum.splits)
qed

section \<open>What an operation appends to the log\<close>

definition appends :: "env \<Rightarrow> log_entry list \<Rightarrow> db \<Rightarrow> db \<Rightarrow> bool" where
  "appends env ws db db' \<longleftrightarrow>
     (\<forall>es. logs env (db_storage db) es \<longrightarrow> logs env (db_storage db') (es @ map stored_entry ws)) \<and>
     roomy (db_storage db')"

lemma appends_trans: "appends env ws a b \<Longrightarrow> appends env ws' b c \<Longrightarrow> appends env (ws @ ws') a c"
  unfolding appends_def by (metis append_assoc map_append)

lemma appends_storage:
  "db_storage a' = db_storage a \<Longrightarrow> db_storage b' = db_storage b \<Longrightarrow>
     appends env ws a' b' = appends env ws a b"
  by (simp add: appends_def)

lemma appends_Nil: "roomy (db_storage db) \<Longrightarrow> db_storage db' = db_storage db \<Longrightarrow> appends env [] db db'"
  by (simp add: appends_def)

lemma log_write_appends:
  assumes "log_write env cmd c k v db = (Inr u, db')" and "roomy (db_storage db)"
    and "name_ok cmd" and "name_ok c" and "name_ok k" and "doc_small (2 ^ 29) v"
  obtains now x y where "db' = db\<lparr>t_ticks := x, db_storage := y\<rparr>"
    and "appends env [new_entry now cmd c k v] db db'"
proof -
  let ?e = "new_entry (clock env (t_ticks db)) cmd c k v"
  obtain y where y: "write_entry ?e (db_storage db) = (Inr (), y)"
    and db': "db' = db\<lparr>t_ticks := Suc (t_ticks db), db_storage := y\<rparr>"
    using assms(1) by (auto simp: log_write_def now_unix_ms_def op_bind_def split: prod.splits)
  have acc: "accepts ?e (db_storage db)" using accepts_new [OF assms(2-6)] .
  have "logs env y (es @ [stored_entry ?e])" if "logs env (db_storage db) es" for es
    using that accepts_fits [OF acc] y by (rule wal.put_recorded)
  moreover have "roomy y" using roomy_write [OF y] assms(2) by simp
  ultimately have "appends env [?e] db db'" by (simp add: appends_def db')
  then show ?thesis using that db' by blast
qed

text \<open>The document an insert stores.\<close>

definition item_doc :: "u64 \<Rightarrow> u64 \<Rightarrow> json option \<Rightarrow> json \<Rightarrow> json" where
  "item_doc now seq existing v =
     (case v of
        Object obj \<Rightarrow>
          Object (case existing of
            Some ex \<Rightarrow> stamp_overwrite now seq ex obj | None \<Rightarrow> stamp_new now seq obj)
      | _ \<Rightarrow> v)"

lemma validate_Inr: "validate_document c v db = (Inr u, db') \<Longrightarrow> db' = db"
  by (auto simp: validate_document_def split: option.splits prod.splits if_splits)

lemma prepare_item_Inr:
  assumes "prepare_item now seq c k v db = (Inr v', db')"
  shows "db' = db" and "v' = item_doc now seq (docs_of (t_state db) c k) v"
  using assms
  by (auto simp: prepare_item_def item_doc_def stored_doc_docs op_bind_eq_Inr Let_def
      split: option.splits json.splits dest!: validate_Inr)

lemma write_value_u64: "length (write_value (json_u64 n)) \<le> 9"
  using length_write_number by (simp add: json_u64_def)

lemma doc_small_stamp:
  assumes "doc_small n (Object m)" and "key_token k \<noteq> None" and "str_ok k"
  shows "doc_small (n + 14) (Object (bt_insert k (json_u64 x) m))"
proof -
  have "length (write_map_key k) = 1"
    using assms(2) by (auto simp: write_map_key_def)
  moreover have "nested 127 (json_u64 x)" by (simp add: json_u64_def)
  ultimately show ?thesis
    using doc_small_insert [OF assms(1,3), of "json_u64 x"] write_value_u64 [of x]
    by (auto elim!: doc_small_mono)
qed

lemma key_tokens [simp]:
  "key_token IKEY_VERSION = Some TOK_VERSION" "key_token IKEY_SEQ = Some TOK_SEQ"
  "key_token IKEY_CREATED_AT = Some TOK_CREATED_AT" "key_token IKEY_MODIFIED_AT = Some TOK_MODIFIED_AT"
  "key_token VERSION = Some TOK_VERSION" "key_token MODIFIED_AT = Some TOK_MODIFIED_AT"
  by (simp_all add: key_token_def)

lemma str_ok_fields [simp]:
  "str_ok IKEY_VERSION" "str_ok IKEY_SEQ" "str_ok IKEY_CREATED_AT" "str_ok IKEY_MODIFIED_AT"
  "str_ok VERSION" "str_ok MODIFIED_AT"
  by (simp_all add: str_ok_def bytes_of_def)

lemma item_doc_small:
  assumes "doc_small (2 ^ 28) v"
  shows "doc_small (2 ^ 29) (item_doc now seq existing v)"
proof (cases v)
  case (Object obj)
  have big: "2 ^ 28 + 14 + 14 + 14 + 14 \<le> (2 :: nat) ^ 29" by simp
  have "doc_small (2 ^ 28 + 14 + 14 + 14 + 14) (Object (stamp_new now seq obj))"
    unfolding stamp_new_def using assms by (intro doc_small_stamp) (simp_all add: Object)
  moreover have "doc_small (2 ^ 28 + 14 + 14 + 14 + 14) (Object (stamp_overwrite now seq ex obj))" for ex
    unfolding stamp_overwrite_def using assms by (intro doc_small_stamp) (simp_all add: Object)
  ultimately show ?thesis
    using doc_small_mono [OF _ big] by (simp add: item_doc_def Object split: option.split)
qed (use doc_small_mono [OF assms, of "2 ^ 29"] in \<open>simp_all add: item_doc_def\<close>)

definition item_small :: "string \<times> json \<Rightarrow> bool" where
  "item_small kv \<longleftrightarrow> name_ok (fst kv) \<and> doc_small (2 ^ 28) (snd kv)"

text \<open>The steps of a successful insert of one item.\<close>

lemma insert_item_steps:
  assumes "insert_item env c (k, v0) db = (Inr u, db')"
  obtains now seq v db1 db2 db3 where "next_seq c (db\<lparr>t_ticks := Suc (t_ticks db)\<rparr>) = (Inr seq, db1)"
    and "now = clock env (t_ticks db)"
    and "v = item_doc now seq (docs_of (t_state db) c k) v0"
    and "db2 = index_put c (u64_or seq v IKEY_SEQ) k (put_doc c k (value_to_msgpack v) db1)"
    and "log_write env IKEY_INSERT c k v db2 = (Inr (), db3)"
    and "db' = db3\<lparr>db_tx := db_tx db3 @ [insert_event c k v]\<rparr>"
proof -
  obtain seq db1 v db1' db3 where
    ns: "next_seq c (db\<lparr>t_ticks := Suc (t_ticks db)\<rparr>) = (Inr seq, db1)"
    and pr: "prepare_item (clock env (t_ticks db)) seq c k v0 db1 = (Inr v, db1')"
    and lw: "log_write env IKEY_INSERT c k v
      (index_put c (u64_or seq v IKEY_SEQ) k (put_doc c k (value_to_msgpack v) db1')) = (Inr (), db3)"
    and sd: "send (insert_event c k v) db3 = (Inr u, db')"
    using assms by (auto simp: insert_item_def op_bind_eq_Inr now_unix_ms_def)
  have st: "t_state db1 = t_state db" using ns by (auto simp: next_seq_def Let_def)
  note pr' = prepare_item_Inr [OF pr]
  show ?thesis
    using that [OF ns refl _ refl _ _, of v db3] pr' lw sd st by (simp add: send_def)
qed

lemma insert_item_Inr:
  assumes "insert_item env c (k, v0) db = (Inr u, db')" and "roomy (db_storage db)"
    and "name_ok c" and "item_small (k, v0)"
  obtains now t seq v where "v = item_doc now seq (docs_of (t_state db) c k) v0"
    and "appends env [new_entry t IKEY_INSERT c k v] db db'"
    and "docs_of (t_state db') = docs_apply (new_entry t IKEY_INSERT c k v) (docs_of (t_state db))"
    and "doc_record (new_entry t IKEY_INSERT c k v)"
proof -
  obtain now seq v db1 db2 db3 where ns: "next_seq c (db\<lparr>t_ticks := Suc (t_ticks db)\<rparr>) = (Inr seq, db1)"
    and v: "v = item_doc now seq (docs_of (t_state db) c k) v0"
    and db2: "db2 = index_put c (u64_or seq v IKEY_SEQ) k (put_doc c k (value_to_msgpack v) db1)"
    and lw: "log_write env IKEY_INSERT c k v db2 = (Inr (), db3)"
    and db': "db' = db3\<lparr>db_tx := db_tx db3 @ [insert_event c k v]\<rparr>"
    using insert_item_steps [OF assms(1)] by metis
  have small: "doc_small (2 ^ 29) v"
    unfolding v using assms(4) by (intro item_doc_small) (simp add: item_small_def)
  have st: "db_storage db2 = db_storage db" "t_state db1 = t_state db"
    using ns by (auto simp: db2 index_put_def put_doc_def next_seq_def Let_def)
  have room: "roomy (db_storage db2)" and k: "name_ok k"
    using assms(2,4) st by (simp_all add: item_small_def)
  obtain t x y where d3: "db3 = db2\<lparr>t_ticks := x, db_storage := y\<rparr>"
    and app: "appends env [new_entry t IKEY_INSERT c k v] db2 db3"
    using log_write_appends [OF lw room name_literals(1) assms(3) k small] .
  have ok: "doc_ok v" using small by (rule doc_small_ok) simp
  have "appends env [new_entry t IKEY_INSERT c k v] db db'"
    using app appends_storage [of db db2 db' db3] st(1) by (simp add: db')
  moreover have "docs_of (t_state db') = docs_apply (new_entry t IKEY_INSERT c k v) (docs_of (t_state db))"
    using ok st(2) by (simp add: db' d3 db2 index_put_def put_doc_def docs_insert docs_apply_def)
  moreover have "doc_record (new_entry t IKEY_INSERT c k v)"
    using ok by (simp add: doc_record_def plain_def)
  ultimately show ?thesis using that v by blast
qed

section \<open>The log describes the documents\<close>

text \<open>The operation wrote document records whose abstract effect is its effect on the tables.\<close>

definition tracks :: "env \<Rightarrow> db \<Rightarrow> db \<Rightarrow> bool" where
  "tracks env db db' \<longleftrightarrow>
     (\<exists>ws. list_all doc_record ws \<and> appends env ws db db' \<and>
        docs_of (t_state db') = fold docs_apply ws (docs_of (t_state db)))"

lemma tracksI:
  "doc_record w \<Longrightarrow> appends env [w] db db' \<Longrightarrow>
     docs_of (t_state db') = docs_apply w (docs_of (t_state db)) \<Longrightarrow> tracks env db db'"
  unfolding tracks_def by (intro exI [of _ "[w]"]) simp

lemma tracks_refl: "roomy (db_storage db) \<Longrightarrow> tracks env db db"
  unfolding tracks_def by (intro exI [of _ "[]"]) (simp add: appends_Nil)

lemma tracks_roomy: "tracks env db db' \<Longrightarrow> roomy (db_storage db')"
  by (auto simp: tracks_def appends_def)

lemma tracks_trans:
  assumes "tracks env a b" and "tracks env b c"
  shows "tracks env a c"
proof -
  obtain ws where ws: "list_all doc_record ws" "appends env ws a b"
    "docs_of (t_state b) = fold docs_apply ws (docs_of (t_state a))"
    using assms(1) by (auto simp: tracks_def)
  obtain ws' where ws': "list_all doc_record ws'" "appends env ws' b c"
    "docs_of (t_state c) = fold docs_apply ws' (docs_of (t_state b))"
    using assms(2) by (auto simp: tracks_def)
  show ?thesis
    unfolding tracks_def
    using appends_trans [OF ws(2) ws'(2)] ws(1,3) ws'(1,3) by (intro exI [of _ "ws @ ws'"]) simp
qed

definition op_tracks :: "env \<Rightarrow> unit db_op \<Rightarrow> bool" where
  "op_tracks env m \<longleftrightarrow> (\<forall>db db'. roomy (db_storage db) \<longrightarrow> m db = (Inr (), db') \<longrightarrow> tracks env db db')"

lemma op_tracksD: "op_tracks env m \<Longrightarrow> m db = (Inr (), db') \<Longrightarrow> roomy (db_storage db) \<Longrightarrow> tracks env db db'"
  by (simp add: op_tracks_def)

lemma tracks_iter: "(\<And>x. x \<in> set xs \<Longrightarrow> op_tracks env (f x)) \<Longrightarrow> op_tracks env (op_iter f xs)"
proof (induction xs)
  case Nil
  show ?case by (simp add: op_tracks_def tracks_refl)
next
  case (Cons x xs)
  have "op_tracks env (f x)" "op_tracks env (op_iter f xs)"
    using Cons.prems by (simp, intro Cons.IH) simp
  then show ?case
    unfolding op_tracks_def op_iter.simps op_bind_eq_Inr
    using tracks_trans tracks_roomy by (metis unit.exhaust)
qed

text \<open>What a restart would read is what memory holds.\<close>

definition consistent :: "env \<Rightarrow> db \<Rightarrow> bool" where
  "consistent env db \<longleftrightarrow> roomy (db_storage db) \<and>
     (\<exists>es. logs env (db_storage db) es \<and> list_all (\<lambda>e. doc_ok (e_value e)) es \<and>
        (\<forall>tick. docs_of (t_state (replay_tables env es (empty_tables tick))) = docs_of (t_state db)))"

lemma fold_docs_apply:
  "list_all doc_record ws \<Longrightarrow>
     docs_of (t_state (fold (apply_entry env) (map stored_entry ws) t)) = fold docs_apply ws (docs_of (t_state t))"
  by (induction ws arbitrary: t) (simp_all add: docs_apply_entry)

lemma replay_tx:
  assumes "list_all doc_record ws"
  shows "docs_of (t_state (replay_tables env
      (es @ map stored_entry (new_entry t IKEY_TX_BEGIN c x Null # ws @ [new_entry t' IKEY_TX_COMMIT c' x Null])) t0))
    = fold docs_apply ws (docs_of (t_state (replay_tables env es t0)))"
proof -
  let ?rp = "fold (replay_entry env) es (replay_start t0)"
  let ?b = "?rp\<lparr>rp_active := Some x, rp_buffer := []\<rparr>"
  have "replay_entry env (stored_entry (new_entry t IKEY_TX_BEGIN c x Null)) ?rp = ?b"
    by (simp add: replay_entry_def)
  moreover have "list_all plain (map stored_entry ws)"
    using assms by (auto simp: list_all_iff doc_record_def intro: plain_stored)
  then have "fold (replay_entry env) (map stored_entry ws) ?b = ?b\<lparr>rp_buffer := map stored_entry ws\<rparr>"
    by (subst replay_body) simp_all
  ultimately show ?thesis
    using fold_docs_apply [OF assms] by (simp add: replay_tables_def replay_entry_def)
qed

lemma tx_consistent:
  assumes "consistent env db" and "name_ok c" and "name_ok x"
    and "db_storage db0 = db_storage db" and "docs_of (t_state db0) = docs_of (t_state db)"
    and "log_write env IKEY_TX_BEGIN c x Null db0 = (Inr u, db1)"
    and "roomy (db_storage db1) \<Longrightarrow> tracks env db1 db2"
    and "log_write env IKEY_TX_COMMIT c x Null db2 = (Inr u', db3)"
  shows "consistent env db3" and "docs_of (t_state db3) = docs_of (t_state db2)"
proof -
  have room: "roomy (db_storage db0)" using assms(1,4) by (simp add: consistent_def)
  obtain t p q where b: "db1 = db0\<lparr>t_ticks := p, db_storage := q\<rparr>"
    "appends env [new_entry t IKEY_TX_BEGIN c x Null] db0 db1"
    using log_write_appends [OF assms(6) room name_literals(4) assms(2,3) small_Null] .
  have tr: "tracks env db1 db2" using assms(7) b(2) by (simp add: appends_def)
  obtain ws where ws: "list_all doc_record ws" "appends env ws db1 db2"
    "docs_of (t_state db2) = fold docs_apply ws (docs_of (t_state db1))"
    using tr by (auto simp: tracks_def)
  obtain t' p' q' where e: "db3 = db2\<lparr>t_ticks := p', db_storage := q'\<rparr>"
    "appends env [new_entry t' IKEY_TX_COMMIT c x Null] db2 db3"
    using log_write_appends [OF assms(8) tracks_roomy [OF tr] name_literals(5) assms(2,3) small_Null] .
  show docs: "docs_of (t_state db3) = docs_of (t_state db2)" by (simp add: e(1))
  let ?es = "new_entry t IKEY_TX_BEGIN c x Null # ws @ [new_entry t' IKEY_TX_COMMIT c x Null]"
  have app: "appends env ?es db0 db3"
    using appends_trans [OF appends_trans [OF b(2) ws(2)] e(2)] by simp
  obtain es where es: "logs env (db_storage db) es"
    "\<And>tick. docs_of (t_state (replay_tables env es (empty_tables tick))) = docs_of (t_state db)"
    "list_all (\<lambda>e. doc_ok (e_value e)) es"
    using assms(1) by (auto simp: consistent_def)
  have "list_all (\<lambda>e. doc_ok (e_value e)) (es @ map stored_entry ?es)"
    using es(3) ws(1) by (auto simp: list_all_iff doc_record_def doc_ok_def [of Null])
  moreover have "logs env (db_storage db3) (es @ map stored_entry ?es)"
    using app es(1) assms(4) by (simp add: appends_def)
  moreover have "docs_of (t_state (replay_tables env (es @ map stored_entry ?es) (empty_tables tick))) =
      docs_of (t_state db3)" for tick
    using replay_tx [OF ws(1)] es(2) docs ws(3) assms(5) b(1) by simp
  ultimately show "consistent env db3"
    using app unfolding consistent_def appends_def by blast
qed

lemma consistent_cong:
  "db_storage db' = db_storage db \<Longrightarrow> docs_of (t_state db') = docs_of (t_state db) \<Longrightarrow>
     consistent env db' = consistent env db"
  by (simp add: consistent_def)

text \<open>The contracts of the world around the engine.\<close>

definition env_ok :: "env \<Rightarrow> bool" where
  "env_ok env \<longleftrightarrow> skips_values (skip_value env) \<and> gzip_ok env \<and> (\<forall>n. name_ok (uuid env n))"

section \<open>Every operation keeps the log and memory in step\<close>

lemma op_insert_consistent:
  assumes "env_ok env" and "consistent env db" and "name_ok c" and "list_all item_small items"
    and "op_insert env c items db = (Inr u, db')"
  shows "consistent env db'"
proof -
  let ?x = "uuid env (db_uuids db)"
  let ?db0 = "(create_collection c db)\<lparr>db_uuids := Suc (db_uuids db)\<rparr>"
  obtain db1 db2 where b: "log_write env IKEY_TX_BEGIN c ?x Null ?db0 = (Inr (), db1)"
    and it: "op_iter (insert_item env c) items db1 = (Inr (), db2)"
    and e: "log_write env IKEY_TX_COMMIT c ?x Null db2 = (Inr u, db')"
    using assms(5) by (auto simp: op_insert_def op_bind_eq_Inr new_uuid_def create_collection_def)
  have x: "name_ok ?x" using assms(1) by (simp add: env_ok_def)
  have item: "op_tracks env (insert_item env c kv)" if mem: "kv \<in> set items" for kv
    unfolding op_tracks_def
  proof (intro allI impI)
    fix a a' assume room: "roomy (db_storage a)" and ins: "insert_item env c kv a = (Inr (), a')"
    obtain k v where kv: "kv = (k, v)" by (cases kv)
    have sm: "item_small (k, v)" using assms(4) mem by (simp add: list_all_iff kv)
    obtain t w where "doc_record (new_entry t IKEY_INSERT c k w)"
      "appends env [new_entry t IKEY_INSERT c k w] a a'"
      "docs_of (t_state a') = docs_apply (new_entry t IKEY_INSERT c k w) (docs_of (t_state a))"
      using insert_item_Inr [OF ins [unfolded kv] room assms(3) sm] by metis
    then show "tracks env a a'" by (rule tracksI)
  qed
  note tr = op_tracksD [OF tracks_iter [OF item] it]
  show ?thesis
    by (rule tx_consistent(1) [OF assms(2,3) x _ _ b tr e])
      (simp_all add: create_collection_def docs_create)
qed

lemma delete_key_tracks:
  assumes "delete_key env c k db = (Inr u, db')" and "roomy (db_storage db)"
    and "name_ok c" and "name_ok k"
  shows "tracks env db db'"
proof -
  obtain db1 db2 where un: "unindex_doc env c k db = (Inr (), db1)"
    and lw: "log_write env IKEY_DELETE c k Null (remove_doc c k db1) = (Inr (), db2)"
    and db': "db' = db2\<lparr>db_tx := db_tx db2 @ [change_event c k Null]\<rparr>"
    using assms(1) by (auto simp: delete_key_def op_bind_eq_Inr send_def)
  have un': "t_state db1 = t_state db" "db_storage db1 = db_storage db"
    using un by (auto simp: unindex_doc_def index_remove_def split: option.splits outcome.splits)
  have room: "roomy (db_storage (remove_doc c k db1))"
    using assms(2) un' by (simp add: remove_doc_def)
  obtain t p q where d: "db2 = (remove_doc c k db1)\<lparr>t_ticks := p, db_storage := q\<rparr>"
    "appends env [new_entry t IKEY_DELETE c k Null] (remove_doc c k db1) db2"
    using log_write_appends [OF lw room name_literals(2) assms(3,4) small_Null] .
  show ?thesis
  proof (rule tracksI)
    show "doc_record (new_entry t IKEY_DELETE c k Null)"
      by (simp add: doc_record_def plain_def doc_ok_def)
    show "appends env [new_entry t IKEY_DELETE c k Null] db db'"
      using d(2) appends_storage [of db "remove_doc c k db1" db' db2] un'(2)
      by (simp add: db' remove_doc_def)
    show "docs_of (t_state db') = docs_apply (new_entry t IKEY_DELETE c k Null) (docs_of (t_state db))"
      by (simp add: db' d(1) remove_doc_def un'(1) docs_remove docs_apply_def)
  qed
qed

lemma op_delete_consistent:
  assumes "env_ok env" and "consistent env db" and "name_ok c" and "list_all name_ok keys"
    and "op_delete env c keys db = (Inr u, db')"
  shows "consistent env db'"
proof -
  let ?x = "uuid env (db_uuids db)"
  let ?db0 = "db\<lparr>db_uuids := Suc (db_uuids db)\<rparr>"
  let ?body = "\<lambda>db. if dm_get (t_state db) c = None then (Inr (), db) else op_iter (delete_key env c) keys db"
  obtain db1 db2 where b: "log_write env IKEY_TX_BEGIN c ?x Null ?db0 = (Inr (), db1)"
    and it: "?body db1 = (Inr (), db2)"
    and e: "log_write env IKEY_TX_COMMIT c ?x Null db2 = (Inr u, db')"
    using assms(5) by (auto simp: op_delete_def op_bind_eq_Inr new_uuid_def)
  have x: "name_ok ?x" using assms(1) by (simp add: env_ok_def)
  have key: "op_tracks env (delete_key env c k)" if "k \<in> set keys" for k
    using delete_key_tracks [of env c k] assms(3,4) that by (simp add: list_all_iff op_tracks_def)
  have tr: "tracks env db1 db2" if "roomy (db_storage db1)"
  proof (cases "dm_get (t_state db1) c = None")
    case True
    then show ?thesis using it that by (simp add: tracks_refl)
  next
    case False
    then have "op_iter (delete_key env c) keys db1 = (Inr (), db2)" using it by (auto split: if_splits)
    from op_tracksD [OF tracks_iter [OF key] this that] show ?thesis .
  qed
  show ?thesis
    by (rule tx_consistent(1) [OF assms(2,3) x _ _ b tr e]) simp_all
qed

lemma op_delete_collection_consistent:
  assumes "env_ok env" and "consistent env db" and "name_ok c"
    and "op_delete_collection env c db = (Inr u, db')"
  shows "consistent env db'"
proof -
  let ?x = "uuid env (db_uuids db)"
  let ?db0 = "db\<lparr>db_uuids := Suc (db_uuids db)\<rparr>"
  let ?rm = "\<lambda>db. db\<lparr>t_state := dm_remove c (t_state db), db_seq_index := dm_remove c (db_seq_index db)\<rparr>"
  obtain db1 db2 db3 where b: "log_write env IKEY_TX_BEGIN c ?x Null ?db0 = (Inr (), db1)"
    and w: "log_write env IKEY_DROP c ''*'' Null (?rm db1) = (Inr (), db2)"
    and e: "log_write env IKEY_TX_COMMIT c ?x Null db2 = (Inr (), db3)"
    and db': "db' = db3\<lparr>db_tx := db_tx db3 @ [change_event c ''*'' Null]\<rparr>"
    using assms(4) by (auto simp: op_delete_collection_def op_bind_eq_Inr new_uuid_def send_def)
  have x: "name_ok ?x" using assms(1) by (simp add: env_ok_def)
  have tr: "tracks env db1 db2" if room1: "roomy (db_storage db1)"
  proof -
    have room: "roomy (db_storage (?rm db1))" using room1 by simp
    obtain t p q where d: "db2 = (?rm db1)\<lparr>t_ticks := p, db_storage := q\<rparr>"
      "appends env [new_entry t IKEY_DROP c ''*'' Null] (?rm db1) db2"
      using log_write_appends [OF w room name_literals(3) assms(3) name_literals(8) small_Null] .
    show ?thesis
    proof (rule tracksI)
      show "doc_record (new_entry t IKEY_DROP c ''*'' Null)"
        by (simp add: doc_record_def plain_def doc_ok_def)
      show "appends env [new_entry t IKEY_DROP c ''*'' Null] db1 db2"
        using d(2) appends_storage [of db1 "?rm db1" db2 db2] by simp
      show "docs_of (t_state db2) = docs_apply (new_entry t IKEY_DROP c ''*'' Null) (docs_of (t_state db1))"
        by (simp add: d(1) docs_drop docs_apply_def)
    qed
  qed
  have "consistent env db3"
    by (rule tx_consistent(1) [OF assms(2,3) x _ _ b tr e]) simp_all
  then show ?thesis using consistent_cong [of db' db3] by (simp add: db')
qed

lemma merge_fields_small:
  assumes "doc_small n (Object d)" and "\<forall>(k, v)\<in>set upd. str_ok k \<and> wf_value v \<and> nested 127 v"
  shows "doc_small (n + length (concat (map (\<lambda>(k, v). write_map_key k @ write_value v) upd)) + 4 * length upd)
    (Object (merge_fields upd d))"
  using assms
proof (induction upd arbitrary: n d)
  case Nil
  then show ?case by (simp add: merge_fields_def)
next
  case (Cons kv upd)
  obtain k v where kv: "kv = (k, v)" by (cases kv)
  have rest: "\<forall>(k, v)\<in>set upd. str_ok k \<and> wf_value v \<and> nested 127 v" using Cons.prems(2) by simp
  let ?n = "n + length (write_map_key k) + length (write_value v) + 4"
  let ?d = "if k = VERSION \<or> k = CREATED_AT then d else bt_insert k v d"
  have "doc_small ?n (Object (bt_insert k v d))"
    using Cons.prems by (intro doc_small_insert) (auto simp: kv)
  then have "doc_small ?n (Object ?d)"
    using doc_small_mono [OF Cons.prems(1), of ?n] by simp
  from Cons.IH [OF this rest] show ?case
    by (simp add: merge_fields_def kv algebra_simps)
qed

lemma merge_update_small:
  assumes "doc_small (2 ^ 27) (Object d)" and "doc_small (2 ^ 25) (Object upd)"
  shows "doc_small (2 ^ 29) (Object (merge_update v now upd d))"
proof -
  let ?len = "length (concat (map (\<lambda>(k, v). write_map_key k @ write_value v) upd))"
  let ?n = "2 ^ 27 + ?len + 4 * length upd"
  have n: "nested 128 (Object upd) \<longleftrightarrow> (\<forall>(k, v)\<in>set upd. nested 127 v)"
    using nested.simps(2) [of "Suc 127" upd] by (simp add: list_all_iff)
  have f: "\<forall>(k, v)\<in>set upd. str_ok k \<and> wf_value v \<and> nested 127 v"
    using assms(2) unfolding doc_small_def n by (auto simp: list_all_iff)
  have le: "?len \<le> 2 ^ 25"
    using assms(2) by (simp add: doc_small_def value_to_msgpack_def)
  have "length upd \<le> ?len"
    using write_value_pos by (intro length_le_concat) (auto simp: trans_le_add2)
  with le have "?n + 14 + 14 \<le> 2 ^ 29" by simp
  moreover have "doc_small (?n + 14 + 14) (Object (merge_update v now upd d))"
    unfolding merge_update_def
    by (intro doc_small_stamp merge_fields_small [OF assms(1) f]) simp_all
  ultimately show ?thesis by (rule doc_small_mono [rotated])
qed

text \<open>The document to patch and the patch are of moderate size.\<close>

definition patch_small :: "db \<Rightarrow> string \<Rightarrow> string \<Rightarrow> json \<Rightarrow> bool" where
  "patch_small db c k updates \<longleftrightarrow>
     doc_small (2 ^ 25) updates \<and>
     (case docs_of (t_state db) c k of Some doc \<Rightarrow> doc_small (2 ^ 27) doc | None \<Rightarrow> True)"

lemma patch_doc_Inr:
  assumes "patch_doc env updates doc db = (Inr new_value, db')"
    and "doc_small (2 ^ 25) updates" and "doc_small (2 ^ 27) doc"
  shows "db' = db\<lparr>t_ticks := t_ticks db'\<rparr>" and "doc_small (2 ^ 29) new_value"
proof -
  have "doc_small (2 ^ 29) doc" using doc_small_mono [OF assms(3), of "2 ^ 29"] by simp
  with assms merge_update_small
  show "db' = db\<lparr>t_ticks := t_ticks db'\<rparr>" and "doc_small (2 ^ 29) new_value"
    by (auto simp: patch_doc_def Let_def now_unix_ms_def op_bind_def split: json.splits if_splits)
qed

lemma op_update_consistent:
  assumes "env_ok env" and "consistent env db" and "name_ok c" and "name_ok k"
    and "patch_small db c k updates" and "op_update env c k updates db = (Inr found, db')"
  shows "consistent env db'"
proof -
  let ?x = "uuid env (db_uuids db)"
  let ?db0 = "db\<lparr>db_uuids := Suc (db_uuids db)\<rparr>"
  have x: "name_ok ?x" using assms(1) by (simp add: env_ok_def)
  have room: "roomy (db_storage ?db0)" using assms(2) by (simp add: consistent_def)
  obtain db1 where b: "log_write env IKEY_TX_BEGIN c ?x Null ?db0 = (Inr (), db1)"
    using assms(6) by (auto simp: op_update_def op_bind_eq_Inr new_uuid_def)
  obtain t p q where d1: "db1 = ?db0\<lparr>t_ticks := p, db_storage := q\<rparr>"
    using log_write_appends [OF b room name_literals(4) assms(3) x small_Null] by blast
  have doc1: "stored_doc db1 c k = docs_of (t_state db) c k"
    by (simp add: d1 stored_doc_docs)
  show ?thesis
  proof (cases "docs_of (t_state db) c k")
    case None
    then have e: "log_write env IKEY_TX_COMMIT c ?x Null db1 = (Inr (), db')"
      using assms(6) b doc1 by (auto simp: op_update_def op_bind_eq_Inr new_uuid_def)
    show ?thesis
      by (rule tx_consistent(1) [OF assms(2,3) x _ _ b tracks_refl e]) simp_all
  next
    case (Some doc)
    obtain v db2 db3 db4 db5 where pd: "patch_doc env updates doc db1 = (Inr v, db2)"
      and vd: "validate_document c v db2 = (Inr (), db3)"
      and lw: "log_write env IKEY_INSERT c k v (put_doc c k (value_to_msgpack v) db3) = (Inr (), db4)"
      and e: "log_write env IKEY_TX_COMMIT c ?x Null db4 = (Inr (), db5)"
      and db': "db_storage db' = db_storage db5" "t_state db' = t_state db5"
      using assms(6) b doc1 Some by (auto simp: op_update_def op_bind_eq_Inr new_uuid_def send_def)
    have sm: "doc_small (2 ^ 25) updates" "doc_small (2 ^ 27) doc"
      using assms(5) Some by (simp_all add: patch_small_def)
    note d2 = patch_doc_Inr(1) [OF pd sm] and v = patch_doc_Inr(2) [OF pd sm]
    have d3: "db3 = db1\<lparr>t_ticks := t_ticks db2\<rparr>" using validate_Inr [OF vd] d2 by simp
    have tr: "tracks env db1 db4" if room1: "roomy (db_storage db1)"
    proof -
      have room3: "roomy (db_storage (put_doc c k (value_to_msgpack v) db3))"
        using room1 by (simp add: put_doc_def d3)
      obtain t p q where d: "db4 = (put_doc c k (value_to_msgpack v) db3)\<lparr>t_ticks := p, db_storage := q\<rparr>"
        "appends env [new_entry t IKEY_INSERT c k v] (put_doc c k (value_to_msgpack v) db3) db4"
        using log_write_appends [OF lw room3 name_literals(1) assms(3,4) v] .
      have ok: "doc_ok v" using v by (rule doc_small_ok) simp
      show ?thesis
      proof (rule tracksI)
        show "doc_record (new_entry t IKEY_INSERT c k v)"
          using ok by (simp add: doc_record_def plain_def)
        show "appends env [new_entry t IKEY_INSERT c k v] db1 db4"
          using d(2) appends_storage [of db1 "put_doc c k (value_to_msgpack v) db3" db4 db4]
          by (simp add: put_doc_def d3)
        show "docs_of (t_state db4) = docs_apply (new_entry t IKEY_INSERT c k v) (docs_of (t_state db1))"
          using ok by (simp add: d(1) put_doc_def d3 docs_insert docs_apply_def)
      qed
    qed
    have "consistent env db5"
      by (rule tx_consistent(1) [OF assms(2,3) x _ _ b tr e]) simp_all
    then show ?thesis using consistent_cong [of db' db5] db' by simp
  qed
qed

lemma op_set_schema_consistent:
  assumes "env_ok env" and "consistent env db" and "name_ok c" and "doc_small (2 ^ 29) schema"
    and "op_set_schema env c schema db = (Inr u, db')"
  shows "consistent env db'"
proof -
  let ?x = "uuid env (db_uuids db)"
  let ?db0 = "db\<lparr>db_uuids := Suc (db_uuids db)\<rparr>"
  have x: "name_ok ?x" using assms(1) by (simp add: env_ok_def)
  obtain db1 db2 db3 where b: "log_write env IKEY_TX_BEGIN c ?x Null ?db0 = (Inr (), db1)"
    and w: "log_write env ''SCHEMA'' c [] schema db1 = (Inr (), db2)"
    and e: "log_write env IKEY_TX_COMMIT c ?x Null db2 = (Inr (), db3)"
    and db': "db_storage db' = db_storage db3" "t_state db' = t_state db3"
    using assms(5)
    by (auto simp: op_set_schema_def op_bind_eq_Inr new_uuid_def send_def split: sum.splits)
  have tr: "tracks env db1 db2" if room: "roomy (db_storage db1)"
  proof -
    obtain t p q where d: "db2 = db1\<lparr>t_ticks := p, db_storage := q\<rparr>"
      "appends env [new_entry t ''SCHEMA'' c [] schema] db1 db2"
      using log_write_appends [OF w room name_literals(6) assms(3) name_literals(9) assms(4)] .
    have "doc_ok schema" using assms(4) by (rule doc_small_ok) simp
    then show ?thesis
      by (intro tracksI [OF _ d(2)]) (simp_all add: doc_record_def plain_def d(1) docs_apply_def)
  qed
  have "consistent env db3"
    by (rule tx_consistent(1) [OF assms(2,3) x _ _ b tr e]) simp_all
  then show ?thesis using consistent_cong [of db' db3] db' by simp
qed

section \<open>Reopening\<close>

text \<open>Every stored byte string is the encoding of a document.\<close>

definition encoded :: "(string, collection) dashmap \<Rightarrow> bool" where
  "encoded st \<longleftrightarrow> (\<forall>c col k b. (c, col) \<in> set st \<longrightarrow> (k, b) \<in> set col \<longrightarrow>
     (\<exists>v. doc_ok v \<and> b = value_to_msgpack v))"

lemma set_dm_insert: "set (dm_insert k v m) \<subseteq> insert (k, v) (set m)"
  by (induction m) auto

lemma set_dm_remove: "set (dm_remove k m) \<subseteq> set m"
  by (induction m) auto

lemma encoded_insert:
  assumes "encoded st" and "\<forall>(k, b)\<in>set col. \<exists>v. doc_ok v \<and> b = value_to_msgpack v"
  shows "encoded (dm_insert c col st)"
  using assms set_dm_insert [of c col st] unfolding encoded_def by fastforce

lemma encoded_remove: "encoded st \<Longrightarrow> encoded (dm_remove c st)"
  using set_dm_remove [of c st] unfolding encoded_def by blast

lemma encoded_col: "encoded st \<Longrightarrow> (k, b) \<in> set (col_of st c) \<Longrightarrow> \<exists>v. doc_ok v \<and> b = value_to_msgpack v"
  unfolding encoded_def col_of_def by (cases "dm_get st c") (auto dest: map_of_SomeD)

lemma encoded_apply_entry:
  assumes "encoded (t_state t)" and "doc_ok (e_value e)"
  shows "encoded (t_state (apply_entry env e t))"
proof -
  have ins: "\<forall>(k, b)\<in>set (dm_insert (e_key e) (value_to_msgpack (e_value e)) (col_of (t_state t) (e_collection e))).
      \<exists>v. doc_ok v \<and> b = value_to_msgpack v"
    using set_dm_insert encoded_col [OF assms(1)] assms(2) by fastforce
  have del: "\<forall>(k, b)\<in>set (dm_remove (e_key e) col). \<exists>v. doc_ok v \<and> b = value_to_msgpack v"
    if "dm_get (t_state t) (e_collection e) = Some col" for col
    using that encoded_col [OF assms(1), of _ _ "e_collection e"] set_dm_remove [of "e_key e" col]
    by (fastforce simp: col_of_def)
  show ?thesis
    using assms(1) ins del
    by (auto simp: apply_entry_def intro!: encoded_insert encoded_remove split: option.split sum.split)
qed

lemma encoded_replay:
  assumes "list_all (\<lambda>e. doc_ok (e_value e)) es" and "encoded (t_state t)"
  shows "encoded (t_state (replay_tables env es t))"
proof -
  have fold: "encoded (t_state (fold (apply_entry env) xs t'))"
    if "list_all (\<lambda>e. doc_ok (e_value e)) xs" "encoded (t_state t')" for xs t'
    using that by (induction xs arbitrary: t') (simp_all add: encoded_apply_entry)
  have "encoded (t_state (rp_tables (fold (replay_entry env) es rp)))"
    if "encoded (t_state (rp_tables rp))" "list_all (\<lambda>e. doc_ok (e_value e)) (rp_buffer rp)" for rp
    using assms(1) that
  proof (induction es arbitrary: rp)
    case (Cons e es)
    let ?rp = "replay_entry env e rp"
    have "encoded (t_state (rp_tables ?rp))" "list_all (\<lambda>e. doc_ok (e_value e)) (rp_buffer ?rp)"
      using Cons.prems by (auto simp: replay_entry_def fold encoded_apply_entry)
    then show ?case using Cons by simp
  qed simp
  then show ?thesis using assms(2) by (simp add: replay_tables_def replay_start_def)
qed

lemma seq_pairs_encoded:
  assumes "skips_values (skip_value env)" and "\<forall>(k, b)\<in>set col. \<exists>v. doc_ok v \<and> b = value_to_msgpack v"
  shows "\<exists>ps. seq_pairs env col = Returns ps \<and> map snd ps = map fst col"
  using assms(2)
proof (induction col)
  case (Cons kb col)
  then obtain v ps where "doc_ok v" "snd kb = value_to_msgpack v" "seq_pairs env col = Returns ps"
    "map snd ps = map fst col" by (cases kb) auto
  then show ?case using assms(1) by simp
qed simp

lemma build_indexes_encoded:
  assumes "skips_values (skip_value env)" and "encoded st"
  shows "\<exists>db'. build_indexes env st db = (Inr (), db') \<and> t_state db' = t_state db \<and>
    db_storage db' = db_storage db"
  using assms(2)
proof (induction st arbitrary: db)
  case (Cons ccol st)
  obtain c col where ccol: "ccol = (c, col)" by (cases ccol)
  have "encoded st" using Cons.prems unfolding encoded_def by auto
  moreover have "\<forall>(k, b)\<in>set col. \<exists>v. doc_ok v \<and> b = value_to_msgpack v"
    using Cons.prems unfolding encoded_def ccol by auto
  then obtain ps where "seq_pairs env col = Returns ps"
    using seq_pairs_encoded [OF assms(1)] by blast
  moreover obtain idx mx where "index_collection ps = (idx, mx)" by (cases "index_collection ps")
  ultimately show ?case
    using Cons.IH [of "db\<lparr>db_seq_index := dm_insert c idx (db_seq_index db),
      db_seq_counters := dm_insert c (mx + 1) (db_seq_counters db)\<rparr>"]
    by (simp add: ccol)
qed simp

lemma fresh_db_sel [simp]:
  "t_state (fresh_db st t) = t_state t" "db_storage (fresh_db st t) = st"
  by (simp_all add: fresh_db_def tables.extend_def)

lemma open_logs:
  assumes "env_ok env" and "logs env st es" and "list_all (\<lambda>e. doc_ok (e_value e)) es"
  obtains db' where "db_open env tick st = Inr db'"
    and "t_state db' = t_state (replay_tables env es (empty_tables tick))" and "db_storage db' = st"
proof -
  let ?t = "replay_tables env es (empty_tables tick)"
  have "encoded (t_state (empty_tables tick))" by (simp add: empty_tables_def encoded_def)
  then have "encoded (t_state ?t)" by (rule encoded_replay [OF assms(3)])
  then obtain db' where "build_indexes env (t_state ?t) (fresh_db st ?t) = (Inr (), db')"
    "t_state db' = t_state ?t" "db_storage db' = st"
    using build_indexes_encoded [of env "t_state ?t" "fresh_db st ?t"] assms(1)
    by (auto simp: env_ok_def)
  moreover have "stream_into_state env st (empty_tables tick) = (Inr (length es), ?t)"
    using stream_into_state_logs [OF assms(2)] assms(1) by (simp add: env_ok_def)
  ultimately show ?thesis
    using that by (simp add: db_open_def)
qed

lemma reopen_consistent:
  assumes "env_ok env" and "consistent env db"
  shows "\<exists>db'. db_open env tick (db_storage db) = Inr db' \<and>
    docs_of (t_state db') = docs_of (t_state db) \<and> consistent env db'"
proof -
  obtain es where es: "logs env (db_storage db) es" "list_all (\<lambda>e. doc_ok (e_value e)) es"
    "\<And>tick. docs_of (t_state (replay_tables env es (empty_tables tick))) = docs_of (t_state db)"
    using assms(2) by (auto simp: consistent_def)
  obtain db' where "db_open env tick (db_storage db) = Inr db'"
    "t_state db' = t_state (replay_tables env es (empty_tables tick))" "db_storage db' = db_storage db"
    using open_logs [OF assms(1) es(1,2)] .
  then show ?thesis
    using assms(2) es(3) consistent_cong [of db' db env] by simp
qed

section \<open>A healthy backend\<close>

text \<open>Every write of a record succeeds.\<close>

fun healthy :: "storage \<Rightarrow> bool" where
  "healthy InMemoryStorage \<longleftrightarrow> True"
| "healthy (SyncDiskStorage d) \<longleftrightarrow> io_fine d"
| "healthy (OpfsStorage h) \<longleftrightarrow> of_open h \<and> opfs_fine h"
| "healthy (EncryptedStorage c n inner) \<longleftrightarrow>
     (\<forall>m p. c_encrypt c (c_nonce c m) p \<noteq> None) \<and> healthy inner"

lemma healthy_write: "healthy st \<Longrightarrow> \<exists>st'. write_entry e st = (Inr (), st') \<and> healthy st'"
proof (induction st arbitrary: e)
  case (SyncDiskStorage d)
  then show ?case
    using sync_write_fine [of d e] by auto
next
  case (OpfsStorage h)
  then show ?case using opfs_write_fine [of h e] by auto
next
  case (EncryptedStorage c n inner)
  then obtain x where "c_encrypt c (c_nonce c n) (log_entry_to_msgpack e) = Some x"
    by (metis healthy.simps(4) not_None_eq)
  then obtain e' where e': "encrypt_entry c n e = Inr e'" by (simp add: encrypt_entry_def)
  obtain st' where "write_entry e' inner = (Inr (), st')" "healthy st'"
    using EncryptedStorage.IH [of e'] EncryptedStorage.prems by auto
  with e' EncryptedStorage.prems show ?case by simp
qed simp

section \<open>A rejected write\<close>

text \<open>A write error is never reported as a schema error, and a schema error writes nothing.\<close>

lemma write_entry_error: "write_entry e st = (Inl err, st') \<Longrightarrow> err = WriteError \<or> (\<exists>m. err = Io m)"
proof (induction st arbitrary: e st')
  case (SyncDiskStorage d)
  then show ?case
    using sync_write_error by (fastforce split: prod.splits)
next
  case (OpfsStorage h)
  then show ?case
    by (auto simp: opfs_write_entry_def with_handle_def opfs_call_def opfs_write_at_def op_bind_def Let_def
        split: prod.splits sum.splits browser_io.splits if_splits)
next
  case (EncryptedStorage c n inner)
  then show ?case
    by (auto simp: encrypt_entry_def split: sum.splits prod.splits option.splits)
qed simp

lemma log_write_error: "log_write env cmd c k v db = (Inl err, db') \<Longrightarrow> err = WriteError \<or> (\<exists>m. err = Io m)"
  by (auto simp: log_write_def op_bind_eq_Inl now_unix_ms_def split: prod.splits dest: write_entry_error)

definition op_refuses :: "db_error \<Rightarrow> 'a db_op \<Rightarrow> bool" where
  "op_refuses err m \<longleftrightarrow> (\<forall>db db'. m db = (Inl err, db') \<longrightarrow> db_storage db' = db_storage db)"

lemma insert_item_rejected: "op_refuses (SchemaValidationError m) (insert_item env c kv)"
  unfolding op_refuses_def
  by (auto simp: insert_item_def op_bind_eq_Inl op_bind_eq_Inr now_unix_ms_def next_seq_def Let_def send_def
      prepare_item_def validate_document_def split: prod.splits option.splits json.splits if_splits
      dest: log_write_error)

lemma tracks_iter_prefix:
  assumes "\<And>x. x \<in> set xs \<Longrightarrow> op_tracks env (f x)"
    and "\<And>x. x \<in> set xs \<Longrightarrow> op_refuses err (f x)"
    and "op_iter f xs db = (Inl err, db')" and "roomy (db_storage db)"
  shows "\<exists>ws. list_all doc_record ws \<and> appends env ws db db'"
  using assms
proof (induction xs arbitrary: db)
  case (Cons x xs)
  consider "f x db = (Inl err, db')" | db1 where "f x db = (Inr (), db1)" "op_iter f xs db1 = (Inl err, db')"
    using Cons.prems(3) by (auto simp: op_bind_eq_Inl)
  then show ?case
  proof cases
    case 1
    have "appends env [] db db'"
      using Cons.prems(2) [of x] 1 Cons.prems(4) by (intro appends_Nil) (auto simp: op_refuses_def)
    then show ?thesis by (intro exI [of _ "[]"]) simp
  next
    case 2
    have tr: "tracks env db db1"
      using op_tracksD [OF Cons.prems(1) 2(1) Cons.prems(4)] by simp
    then obtain ws where ws: "list_all doc_record ws" "appends env ws db db1" by (auto simp: tracks_def)
    obtain ws' where "list_all doc_record ws'" "appends env ws' db1 db'"
      using Cons.IH [OF _ _ 2(2) tracks_roomy [OF tr]] Cons.prems(1,2) by auto
    then show ?thesis
      using appends_trans [OF ws(2), of ws' db'] ws(1) by (intro exI [of _ "ws @ ws'"]) simp
  qed
qed simp

lemma replay_open_tx:
  assumes "list_all doc_record ws"
  shows "rp_tables (fold (replay_entry env) (map stored_entry (new_entry t IKEY_TX_BEGIN c x Null # ws)) rp)
    = rp_tables rp"
proof -
  have "list_all plain (map stored_entry ws)"
    using assms by (auto simp: list_all_iff doc_record_def intro: plain_stored)
  then show ?thesis
    by (simp add: replay_entry_def [of env "stored_entry _"] replay_body)
qed

lemma insert_item_tracks:
  "name_ok c \<Longrightarrow> item_small kv \<Longrightarrow> op_tracks env (insert_item env c kv)"
  unfolding op_tracks_def by (cases kv) (metis insert_item_Inr tracksI)

text \<open>An insert that a schema rejects leaves the durable documents as they were.\<close>

lemma op_insert_rejected:
  assumes "env_ok env" and "consistent env db" and "name_ok c" and "list_all item_small items"
    and "op_insert env c items db = (Inl (SchemaValidationError m), db')"
  shows "\<exists>db''. db_open env tick (db_storage db') = Inr db'' \<and> docs_of (t_state db'') = docs_of (t_state db)"
proof -
  let ?x = "uuid env (db_uuids db)"
  let ?db0 = "(create_collection c db)\<lparr>db_uuids := Suc (db_uuids db)\<rparr>"
  obtain db1 where b: "log_write env IKEY_TX_BEGIN c ?x Null ?db0 = (Inr (), db1)"
    and it: "op_iter (insert_item env c) items db1 = (Inl (SchemaValidationError m), db')"
    using assms(5) log_write_error
    by (fastforce simp: op_insert_def op_bind_eq_Inl op_bind_eq_Inr new_uuid_def create_collection_def)
  have x: "name_ok ?x" using assms(1) by (simp add: env_ok_def)
  have room: "roomy (db_storage ?db0)" using assms(2) by (simp add: consistent_def create_collection_def)
  obtain t p q where d1: "appends env [new_entry t IKEY_TX_BEGIN c ?x Null] ?db0 db1"
    using log_write_appends [OF b room name_literals(4) assms(3) x small_Null] .
  have items: "op_tracks env (insert_item env c kv)" if "kv \<in> set items" for kv
    using assms(3,4) that by (intro insert_item_tracks) (simp_all add: list_all_iff)
  obtain ws where ws: "list_all doc_record ws" "appends env ws db1 db'"
    using tracks_iter_prefix [OF items insert_item_rejected it] d1 by (auto simp: appends_def)
  let ?ws = "new_entry t IKEY_TX_BEGIN c ?x Null # ws"
  obtain es where es: "logs env (db_storage db) es" "list_all (\<lambda>e. doc_ok (e_value e)) es"
    "\<And>tick. docs_of (t_state (replay_tables env es (empty_tables tick))) = docs_of (t_state db)"
    using assms(2) by (auto simp: consistent_def)
  have "appends env ?ws ?db0 db'" using appends_trans [OF d1 ws(2)] by simp
  then have "logs env (db_storage db') (es @ map stored_entry ?ws)"
    using es(1) by (simp add: appends_def create_collection_def)
  moreover have "list_all (\<lambda>e. doc_ok (e_value e)) (es @ map stored_entry ?ws)"
    using es(2) ws(1) by (auto simp: list_all_iff doc_record_def doc_ok_def [of Null])
  moreover have "replay_tables env (es @ map stored_entry ?ws) (empty_tables tick) =
      replay_tables env es (empty_tables tick)"
    unfolding replay_tables_def fold_append comp_apply by (rule replay_open_tx [OF ws(1)])
  ultimately show ?thesis
    using open_logs [OF assms(1), of "db_storage db'" "es @ map stored_entry ?ws" tick] es(3) by metis
qed

section \<open>The methods of the handle\<close>

lemma seq_pairs_keys: "seq_pairs env xs = Returns ps \<Longrightarrow> map snd ps = map fst xs"
  by (induction xs arbitrary: ps) (auto split: outcome.splits)

lemma seq_pairs_names:
  assumes "seq_pairs env xs = Returns ps" and "\<forall>(k, b)\<in>set xs. name_ok k"
  shows "\<forall>p\<in>set ps. name_ok (snd p)"
proof -
  have "snd ` set ps = fst ` set xs"
    using seq_pairs_keys [OF assms(1)] by (metis list.set_map)
  moreover have "\<forall>k\<in>fst ` set xs. name_ok k" using assms(2) by auto
  ultimately have "\<forall>k\<in>snd ` set ps. name_ok k" by simp
  then show ?thesis by simp
qed

lemma delete_counted_consistent:
  assumes "env_ok env" and "consistent env db" and "name_ok c" and "list_all name_ok keys"
    and "delete_counted env c keys db = (Inr n, db')"
  shows "consistent env db'"
  using assms op_delete_consistent [OF assms(1-4)]
  by (auto simp: delete_counted_def op_bind_eq_Inr split: if_splits)

lemma sort_by_seq_names:
  "\<forall>p\<in>set ps. name_ok (snd p) \<Longrightarrow> list_all name_ok (map snd (sort_by_seq asc ps))"
  by (auto simp: list_all_iff sort_by_seq_def)

lemma list_all_take: "list_all P xs \<Longrightarrow> list_all P (take n xs)"
  by (auto simp: list_all_iff dest: in_set_takeD)

lemma op_delete_filtered_consistent:
  assumes "env_ok env" and "consistent env db" and "name_ok c"
    and "\<forall>(k, b)\<in>set (col_of (t_state db) c). name_ok k"
    and "op_delete_filtered env c predicate limit asc db = (Inr n, db')"
  shows "consistent env db'"
proof (cases "dm_get (t_state db) c")
  case None
  then show ?thesis using assms(2,5) by (simp add: op_delete_filtered_def)
next
  case (Some col)
  then obtain ps where ps: "seq_pairs env (filter (\<lambda>(k, b). predicate k b) col) = Returns ps"
    using assms(5) by (auto simp: op_delete_filtered_def split: outcome.splits)
  have "\<forall>p\<in>set ps. name_ok (snd p)"
    using assms(4) Some by (intro seq_pairs_names [OF ps]) (auto simp: col_of_def)
  then have ok: "list_all name_ok (map snd (sort_by_seq asc ps))" by (rule sort_by_seq_names)
  then have "list_all name_ok (case limit of Some l \<Rightarrow> take l (map snd (sort_by_seq asc ps))
      | None \<Rightarrow> map snd (sort_by_seq asc ps))"
    using list_all_take [OF ok] by (simp split: option.split)
  from delete_counted_consistent [OF assms(1-3) this] show ?thesis
    using assms(5) Some ps by (simp add: op_delete_filtered_def Let_def)
qed

lemma op_delete_n_consistent:
  assumes "env_ok env" and "consistent env db" and "name_ok c"
    and "\<forall>(k, b)\<in>set (col_of (t_state db) c). name_ok k"
    and "\<forall>idx. dm_get (db_seq_index db) c = Some idx \<longrightarrow> (\<forall>(s, k)\<in>set idx. name_ok k)"
    and "op_delete_n env c n asc db = (Inr m, db')"
  shows "consistent env db'"
proof (cases "n = 0 \<or> dm_get (t_state db) c = None")
  case True
  then have "db' = db" using assms(6) by (cases "n = 0") (simp_all add: op_delete_n_def)
  then show ?thesis using assms(2) by simp
next
  case False
  then obtain col where col: "dm_get (t_state db) c = Some col" "n \<noteq> 0" by auto
  then obtain keys where keys: "delete_n_keys env (dm_get (db_seq_index db) c) col n asc = Returns keys"
    and del: "delete_counted env c keys db = (Inr m, db')"
    using assms(6) by (auto simp: op_delete_n_def split: outcome.splits)
  have "list_all name_ok keys"
  proof (cases "dm_get (db_seq_index db) c")
    case (Some idx)
    then have "\<forall>p\<in>set idx. name_ok (snd p)" using assms(5) by fastforce
    then have "list_all name_ok (map snd (if asc then idx else rev idx))"
      by (auto simp: list_all_iff)
    then show ?thesis using keys Some list_all_take by (auto simp: delete_n_keys_def simp flip: take_map)
  next
    case None
    then obtain ps where ps: "seq_pairs env col = Returns ps"
      using keys by (auto simp: delete_n_keys_def split: outcome.splits)
    have "\<forall>p\<in>set ps. name_ok (snd p)"
      using assms(4) col by (intro seq_pairs_names [OF ps]) (auto simp: col_of_def)
    then have "list_all name_ok (map snd (sort_by_seq asc ps))" by (rule sort_by_seq_names)
    then show ?thesis
      using keys None ps list_all_take by (auto simp: delete_n_keys_def simp flip: take_map)
  qed
  then show ?thesis using delete_counted_consistent [OF assms(1-3) _ del] by simp
qed

lemma check_fault_bind:
  "op_bind check_fault (\<lambda>_. m) db = (if db_io_fault db then (Inl (StorageFault read_only_msg), db) else m db)"
  by (simp add: op_bind_def check_fault_def)

text \<open>Inserting changes no setting of any collection.\<close>

definition settings :: "db \<Rightarrow> (string, nat) dashmap \<times> (string, u64) dashmap \<times> (string, u64) dashmap" where
  "settings db = (db_max_sizes db, db_ttl_defaults db, t_ttl_expiry db)"

lemma keeps_upd: "(\<And>db. P db \<Longrightarrow> P (g db)) \<Longrightarrow> keeps P (op_upd g)"
  by (simp add: keeps_def)

lemma settings_leaves:
  "keeps (\<lambda>db. settings db = s) (now_unix_ms env)"
  "keeps (\<lambda>db. settings db = s) (new_uuid env)"
  "keeps (\<lambda>db. settings db = s) (next_seq c)"
  "keeps (\<lambda>db. settings db = s) (send ev)"
  "keeps (\<lambda>db. settings db = s) (log_write env cmd c k v)"
  "keeps (\<lambda>db. settings db = s) (prepare_item now seq c k v)"
  by (auto simp: keeps_def settings_def now_unix_ms_def new_uuid_def next_seq_def Let_def send_def
      log_write_def op_bind_def prepare_item_def validate_document_def
      split: prod.splits sum.splits option.splits json.splits)

lemma settings_updates:
  "settings (create_collection c db) = settings db" "settings (put_doc c k b db) = settings db"
  "settings (index_put c n k db) = settings db"
  by (simp_all add: settings_def create_collection_def put_doc_def index_put_def)

lemma settings_insert: "keeps (\<lambda>db. settings db = s) (op_insert env c items)"
  unfolding op_insert_def insert_item_def
  by (intro keeps_bind keeps_upd keeps_iter settings_leaves)
    (auto intro!: keeps_bind keeps_upd settings_leaves split: prod.split simp: settings_updates)

end
