(* ===== verification/History.thy ===== *)
theory History
  imports Durability
begin

text \<open>
  The invariant of a running database: the tables are well formed (\<open>tables_ok\<close>), which every operation keeps, what
  a compaction writes describes the documents (\<open>compacted_ok\<close>), and the whole of it (\<open>db_ok\<close>).
\<close>

section \<open>Well-formed tables\<close>

text \<open>
  The representation invariant of the tables: no collection and no key occurs twice, names are
  storable, and every byte string is the encoding of a document.
\<close>

definition bytes_ok :: "bytes \<Rightarrow> bool" where
  "bytes_ok b \<longleftrightarrow> (\<exists>v. doc_small (2 ^ 29) v \<and> b = value_to_msgpack v)"

definition col_ok :: "collection \<Rightarrow> bool" where
  "col_ok col \<longleftrightarrow> dm_ok col \<and> (\<forall>(k, b)\<in>set col. name_ok k \<and> bytes_ok b)"

definition state_ok :: "(string, collection) dashmap \<Rightarrow> bool" where
  "state_ok st \<longleftrightarrow> dm_ok st \<and> (\<forall>(c, col)\<in>set st. name_ok c \<and> col_ok col)"

definition schemas_ok :: "(string, json \<times> (json \<Rightarrow> bool)) dashmap \<Rightarrow> bool" where
  "schemas_ok sc \<longleftrightarrow> (\<forall>(c, s, f)\<in>set sc. name_ok c \<and> doc_small (2 ^ 29) s)"

definition tables_ok :: "'a tables_scheme \<Rightarrow> bool" where
  "tables_ok t \<longleftrightarrow> state_ok (t_state t) \<and> schemas_ok (t_schemas t)"

lemma col_ok_Nil [simp]: "col_ok []"
  by (simp add: col_ok_def)

lemma col_ok_insert: "col_ok col \<Longrightarrow> name_ok k \<Longrightarrow> bytes_ok b \<Longrightarrow> col_ok (dm_insert k b col)"
  using set_dm_insert [of k b col] by (fastforce simp: col_ok_def intro: dm_inv)

lemma col_ok_remove: "col_ok col \<Longrightarrow> col_ok (dm_remove k col)"
  using set_dm_remove [of k col] by (fastforce simp: col_ok_def intro: dm_inv)

lemma state_ok_insert: "state_ok st \<Longrightarrow> name_ok c \<Longrightarrow> col_ok col \<Longrightarrow> state_ok (dm_insert c col st)"
  using set_dm_insert [of c col st] by (fastforce simp: state_ok_def intro: dm_inv)

lemma state_ok_remove: "state_ok st \<Longrightarrow> state_ok (dm_remove c st)"
  using set_dm_remove [of c st] by (fastforce simp: state_ok_def intro: dm_inv)

lemma state_ok_col: "state_ok st \<Longrightarrow> col_ok (col_of st c)"
  by (cases "dm_get st c") (auto simp: state_ok_def col_of_def dest!: map_of_SomeD)

lemma schemas_ok_insert:
  "schemas_ok sc \<Longrightarrow> name_ok c \<Longrightarrow> doc_small (2 ^ 29) s \<Longrightarrow> schemas_ok (dm_insert c (s, f) sc)"
  using set_dm_insert [of c "(s, f)" sc] by (fastforce simp: schemas_ok_def)

lemma tables_ok_updates:
  "tables_ok db \<Longrightarrow> name_ok c \<Longrightarrow> tables_ok (create_collection c db)"
  "tables_ok db \<Longrightarrow> name_ok c \<Longrightarrow> name_ok k \<Longrightarrow> bytes_ok b \<Longrightarrow> tables_ok (put_doc c k b db)"
  "tables_ok db \<Longrightarrow> name_ok c \<Longrightarrow> tables_ok (remove_doc c k db)"
  "tables_ok (index_put c n k db) = tables_ok db"
  "tables_ok (index_remove c n db) = tables_ok db"
  by (simp_all add: tables_ok_def create_collection_def put_doc_def remove_doc_def index_put_def
      index_remove_def state_ok_insert state_ok_col col_ok_insert col_ok_remove split: option.split)

lemma tables_ok_leaves:
  "keeps tables_ok (now_unix_ms env)" "keeps tables_ok (new_uuid env)" "keeps tables_ok (next_seq c)"
  "keeps tables_ok (send ev)" "keeps tables_ok (log_write env cmd c k v)"
  "keeps tables_ok (validate_document c v)" "keeps tables_ok (unindex_doc env c k)"
  by (auto simp: keeps_def tables_ok_def now_unix_ms_def new_uuid_def next_seq_def Let_def send_def
      log_write_def op_bind_def validate_document_def unindex_doc_def index_remove_def
      split: prod.splits sum.splits option.splits outcome.splits)

text \<open>A bind whose first part also says something of its result.\<close>

lemma keeps_bind_post:
  assumes "keeps P m" and "\<And>db a db'. P db \<Longrightarrow> m db = (Inr a, db') \<Longrightarrow> Q a"
    and "\<And>a. Q a \<Longrightarrow> keeps P (f a)"
  shows "keeps P (op_bind m f)"
  using assms by (fastforce simp: keeps_def op_bind_def split: prod.splits sum.splits)

lemma bytes_okI: "doc_small (2 ^ 29) v \<Longrightarrow> bytes_ok (value_to_msgpack v)"
  by (auto simp: bytes_ok_def)

lemma keeps_prepare: "keeps tables_ok (prepare_item now seq c k v)"
  by (auto simp: keeps_def prepare_item_def op_bind_def validate_document_def Let_def
      split: prod.splits sum.splits option.splits json.splits)

lemma insert_item_keeps:
  assumes "name_ok c" and "item_small kv"
  shows "keeps tables_ok (insert_item env c kv)"
proof -
  obtain k v where kv: "kv = (k, v)" by (cases kv)
  have small: "doc_small (2 ^ 29) w" if "prepare_item now seq c k v db = (Inr w, db')" for now seq w db db'
    using prepare_item_Inr(2) [OF that] assms(2) item_doc_small by (simp add: item_small_def kv)
  have tail: "keeps tables_ok (op_bind (op_upd (put_doc c k (value_to_msgpack w))) (\<lambda>_.
      op_bind (op_upd (index_put c (u64_or seq w IKEY_SEQ) k)) (\<lambda>_.
      op_bind (log_write env IKEY_INSERT c k w) (\<lambda>_. send (insert_event c k w)))))"
    if "doc_small (2 ^ 29) w" for seq w
    using assms bytes_okI [OF that]
    by (intro keeps_bind keeps_upd tables_ok_leaves) (simp_all add: tables_ok_updates item_small_def kv)
  show ?thesis
    unfolding insert_item_def kv prod.case
    by (intro keeps_bind tables_ok_leaves keeps_bind_post [OF keeps_prepare small tail])
qed

lemma op_insert_keeps:
  "name_ok c \<Longrightarrow> list_all item_small items \<Longrightarrow> keeps tables_ok (op_insert env c items)"
  unfolding op_insert_def
  by (intro keeps_bind keeps_upd keeps_iter tables_ok_leaves insert_item_keeps)
    (auto simp: list_all_iff intro: tables_ok_updates)

lemma op_delete_keeps: "name_ok c \<Longrightarrow> keeps tables_ok (op_delete env c keys)"
proof -
  assume c: "name_ok c"
  have "keeps tables_ok (delete_key env c k)" for k
    unfolding delete_key_def using c
    by (intro keeps_bind keeps_upd tables_ok_leaves) (auto intro: tables_ok_updates)
  then have "keeps tables_ok (op_iter (delete_key env c) keys)" by (intro keeps_iter)
  then show ?thesis
    unfolding op_delete_def
    by (intro keeps_bind tables_ok_leaves) (simp add: keeps_def)
qed

lemma delete_counted_keeps: "name_ok c \<Longrightarrow> keeps tables_ok (delete_counted env c keys)"
  using keeps_bind [OF op_delete_keeps [of c env keys] keeps_return [of tables_ok "length keys"]]
  by (auto simp: keeps_def delete_counted_def)

lemma op_delete_filtered_keeps: "name_ok c \<Longrightarrow> keeps tables_ok (op_delete_filtered env c p l asc)"
  using delete_counted_keeps [of c env]
  by (auto simp: keeps_def op_delete_filtered_def Let_def split: option.split outcome.split)

lemma op_delete_n_keeps: "name_ok c \<Longrightarrow> keeps tables_ok (op_delete_n env c n asc)"
  using delete_counted_keeps [of c env]
  by (auto simp: keeps_def op_delete_n_def split: option.split outcome.split)

lemma op_delete_collection_keeps: "keeps tables_ok (op_delete_collection env c)"
  unfolding op_delete_collection_def
  by (intro keeps_bind keeps_upd tables_ok_leaves) (auto simp: tables_ok_def intro: state_ok_remove)

lemma op_set_schema_keeps:
  "name_ok c \<Longrightarrow> doc_small (2 ^ 29) schema \<Longrightarrow> keeps tables_ok (op_set_schema env c schema)"
  unfolding op_set_schema_def
  by (auto intro!: keeps_bind keeps_upd tables_ok_leaves split: sum.split
      simp: tables_ok_def schemas_ok_insert)

lemma op_update_keeps:
  assumes "name_ok c" and "name_ok k" and "tables_ok db" and "patch_small db c k updates"
    and "op_update env c k updates db = (r, db')"
  shows "tables_ok db'"
proof -
  let ?x = "uuid env (db_uuids db)"
  let ?db0 = "db\<lparr>db_uuids := Suc (db_uuids db)\<rparr>"
  obtain r1 db1 where b: "log_write env IKEY_TX_BEGIN c ?x Null ?db0 = (r1, db1)" by fastforce
  have db1: "tables_ok db1" "t_state db1 = t_state db"
    using assms(3) b keepsD [OF tables_ok_leaves(5) _ b]
    by (auto simp: tables_ok_def log_write_def op_bind_def now_unix_ms_def split: prod.splits)
  have com: "keeps tables_ok (op_bind (log_write env IKEY_TX_COMMIT c ?x Null) (\<lambda>_. op_return found))" for found
    by (intro keeps_bind tables_ok_leaves keeps_return)
  show ?thesis
  proof (cases "isl r1")
    case True
    then show ?thesis
      using assms(5) b db1(1) by (cases r1) (auto simp: op_update_def op_bind_def new_uuid_def)
  next
    case False
    then have r1: "r1 = Inr ()" by (cases r1) auto
    show ?thesis
    proof (cases "docs_of (t_state db) c k")
      case None
      then show ?thesis
        using assms(5) b db1 r1 keepsD [OF com db1(1)]
        by (simp add: op_update_def op_bind_def new_uuid_def stored_doc_docs)
    next
      case (Some doc)
      have sm: "doc_small (2 ^ 25) updates" "doc_small (2 ^ 27) doc"
        using assms(4) Some by (simp_all add: patch_small_def)
      have pd: "keeps tables_ok (patch_doc env updates doc)"
        by (auto simp: patch_doc_def Let_def intro!: keeps_bind tables_ok_leaves split: json.split)
      have tail: "keeps tables_ok (op_bind (validate_document c w) (\<lambda>_.
           op_bind (op_upd (put_doc c k (value_to_msgpack w))) (\<lambda>_.
           op_bind (log_write env IKEY_INSERT c k w) (\<lambda>_.
           op_bind (log_write env IKEY_TX_COMMIT c ?x Null) (\<lambda>_.
           op_bind (send (change_event c k (json_u64 (u64_or 0 w VERSION)))) (\<lambda>_. op_return True))))))"
        if "doc_small (2 ^ 29) w" for w
        using assms(1,2) bytes_okI [OF that]
        by (intro keeps_bind keeps_upd tables_ok_leaves keeps_return) (simp add: tables_ok_updates)
      note all = keepsD [OF keeps_bind_post [OF pd patch_doc_Inr(2) [OF _ sm] tail] db1(1)]
      show ?thesis
        by (rule all) (use assms(5) b r1 Some db1(2) in
            \<open>simp_all add: op_update_def op_bind_def new_uuid_def stored_doc_docs\<close>)
    qed
  qed
qed

section \<open>Compaction\<close>

lemma write_map_header_mono: "m \<le> n \<Longrightarrow> length (write_map_header m) \<le> length (write_map_header n)"
  by (simp add: write_map_header_def)

lemma length_key_ikey: "length (write_map_key (ikey_of k)) \<le> length (write_map_key k)"
  by (simp add: write_map_key_def key_token_def ikey_of_def)

definition entries_size :: "(string \<times> json) list \<Rightarrow> nat" where
  "entries_size m = length (concat (map (\<lambda>(k, v). write_map_key k @ write_value v) m))"

lemma entries_size_of: "entries_size (of_entries kvs) \<le> entries_size kvs"
proof -
  have "entries_size (fold (\<lambda>(k, v). bt_insert k v) kvs m) \<le> entries_size m + entries_size kvs" for m
  proof (induction kvs arbitrary: m)
    case (Cons kv kvs)
    obtain k v where kv: "kv = (k, v)" by (cases kv)
    show ?case
      using Cons [of "bt_insert k v m"] length_entries_insert [of k v m] by (simp add: kv entries_size_def)
  qed (simp add: entries_size_def)
  from this [of "[]"] show ?thesis by (simp add: of_entries_def entries_size_def)
qed

lemma length_tokenize: "length (write_value (tokenize v)) \<le> length (write_value v)"
proof (induction v rule: json_induct)
  case (Array vs)
  have "length (concat (map write_value (map tokenize vs))) \<le> length (concat (map write_value vs))"
    using Array.IH by (induction vs) (auto simp: add_mono)
  then show ?case by simp
next
  case (Object m)
  let ?kvs = "map (\<lambda>(k, v). (ikey_of k, tokenize v)) m"
  have "entries_size ?kvs \<le> entries_size m"
    using Object.IH
  proof (induction m)
    case (Cons kv m)
    obtain k v where kv: "kv = (k, v)" by (cases kv)
    have "length (write_value (tokenize v)) \<le> length (write_value v)"
      by (rule Cons.prems [of k]) (simp add: kv)
    moreover have "entries_size (map (\<lambda>(k, v). (ikey_of k, tokenize v)) m) \<le> entries_size m"
      by (rule Cons.IH) (use Cons.prems in force)
    ultimately show ?case using length_key_ikey [of k] by (simp add: kv entries_size_def)
  qed (simp add: entries_size_def)
  with entries_size_of [of ?kvs] have "entries_size (of_entries ?kvs) \<le> entries_size m" by simp
  moreover have "length (write_map_header (length (of_entries ?kvs))) \<le> length (write_map_header (length m))"
    using length_of_entries [of ?kvs] by (intro write_map_header_mono) simp
  ultimately show ?case by (simp add: entries_size_def)
qed simp_all

lemma doc_small_tokenize: "doc_small n v \<Longrightarrow> doc_small n (tokenize v)"
  using length_tokenize [of v] by (simp add: doc_small_def value_to_msgpack_def nested_tokenize)

lemma bytes_ok_decode: "bytes_ok b \<Longrightarrow> \<exists>v. msgpack_to_value b = Some v \<and> doc_small (2 ^ 29) v \<and> tokenize v = v"
  using doc_small_ok doc_small_tokenize by (fastforce simp: bytes_ok_def)

text \<open>The records of a compaction are storable and describe the documents.\<close>

lemma new_entry_record:
  "name_ok cmd \<Longrightarrow> name_ok c \<Longrightarrow> name_ok k \<Longrightarrow> doc_small (2 ^ 29) v \<Longrightarrow> record_ok (new_entry t cmd c k v)"
  using accepts_new [OF roomy_disk(1)] by fastforce

text \<open>The record can be framed whenever it is made.\<close>

definition any_time_ok :: "log_entry \<Rightarrow> bool" where
  "any_time_ok e \<longleftrightarrow> (\<forall>t. record_ok (e\<lparr>e_t := t\<rparr>))"

lemma any_time_record: "any_time_ok e \<Longrightarrow> record_ok e"
  unfolding any_time_ok_def by (metis log_entry.surjective log_entry.update_convs(5))

lemma new_entry_any_time:
  assumes "name_ok cmd" and "name_ok c" and "name_ok k" and "doc_small (2 ^ 29) v"
  shows "any_time_ok (new_entry t cmd c k v)"
  using new_entry_record [OF assms] by (simp add: any_time_ok_def new_entry_def)

definition col_entries :: "string \<Rightarrow> collection \<Rightarrow> log_entry list" where
  "col_entries c col =
     List.map_filter (\<lambda>(k, b). map_option (new_entry 0 IKEY_INSERT c k) (msgpack_to_value b)) col"

lemma doc_entries_simps:
  "doc_entries [] = []" "doc_entries ((c, col) # st) = col_entries c col @ doc_entries st"
  by (simp_all add: doc_entries_def col_entries_def)

lemma col_entries_records:
  assumes "name_ok c" and "\<forall>(k, b)\<in>set col. name_ok k \<and> bytes_ok b"
  shows "list_all any_time_ok (col_entries c col)" and "list_all doc_record (col_entries c col)"
    and "list_all (\<lambda>(k, b). msgpack_to_value b \<noteq> None) col"
proof -
  have "list_all any_time_ok (col_entries c col) \<and> list_all doc_record (col_entries c col) \<and>
      list_all (\<lambda>(k, b). msgpack_to_value b \<noteq> None) col"
    using assms(2)
  proof (induction col)
    case (Cons kb col)
    obtain k b where kb: "kb = (k, b)" by (cases kb)
    obtain v where v: "msgpack_to_value b = Some v" "doc_small (2 ^ 29) v"
      using Cons.prems bytes_ok_decode [of b] by (auto simp: kb)
    have "any_time_ok (new_entry 0 IKEY_INSERT c k v)"
      using assms(1) Cons.prems v(2) by (intro new_entry_any_time) (auto simp: kb)
    moreover have "doc_record (new_entry 0 IKEY_INSERT c k v)"
      using doc_small_ok [OF v(2)] by (simp add: doc_record_def plain_def)
    ultimately show ?case
      using Cons by (simp add: kb v(1) col_entries_def map_filter_simps)
  qed (simp add: col_entries_def map_filter_simps)
  then show "list_all any_time_ok (col_entries c col)" and "list_all doc_record (col_entries c col)"
    and "list_all (\<lambda>(k, b). msgpack_to_value b \<noteq> None) col" by simp_all
qed

lemma col_entries_docs:
  assumes "\<forall>(k, b)\<in>set col. bytes_ok b" and "dm_ok col"
  shows "fold docs_apply (col_entries c col) D =
    D(c := (\<lambda>k. case Option.bind (dm_get col k) msgpack_to_value of Some v \<Rightarrow> Some v | None \<Rightarrow> D c k))"
  using assms
proof (induction col arbitrary: D)
  case Nil
  show ?case by (intro ext) (simp add: col_entries_def map_filter_simps)
next
  case (Cons kb col)
  obtain k b where kb: "kb = (k, b)" by (cases kb)
  obtain v where v: "msgpack_to_value b = Some v" "tokenize v = v"
    using Cons.prems(1) bytes_ok_decode [of b] by (auto simp: kb)
  have k: "dm_get col k = None"
    using Cons.prems(2) by (simp add: dm_ok_def kb map_of_eq_None_iff)
  have ok: "dm_ok col" using Cons.prems(2) by (simp add: dm_ok_def kb)
  have "fold docs_apply (col_entries c (kb # col)) D =
      fold docs_apply (col_entries c col) (D(c := (D c)(k \<mapsto> v)))"
    using v by (simp add: col_entries_def map_filter_simps kb docs_apply_def)
  also have "\<dots> = D(c := (\<lambda>k'. case Option.bind (dm_get (kb # col) k') msgpack_to_value of
      Some v \<Rightarrow> Some v | None \<Rightarrow> D c k'))"
  proof -
    have "\<forall>(k, b)\<in>set col. bytes_ok b" using Cons.prems(1) by simp
    from Cons.IH [OF this ok, of "D(c := (D c)(k \<mapsto> v))"] show ?thesis
      using k v(1) by (simp only:) (auto simp: kb fun_eq_iff split: option.split)
  qed
  finally show ?case .
qed

lemma doc_entries_ok:
  assumes "state_ok st"
  shows "list_all any_time_ok (doc_entries st)" and "list_all doc_record (doc_entries st)" and "all_decode st"
proof -
  have "list_all any_time_ok (doc_entries st) \<and> list_all doc_record (doc_entries st) \<and> all_decode st"
    using assms
  proof (induction st)
    case (Cons ccol st)
    obtain c col where ccol: "ccol = (c, col)" by (cases ccol)
    have "name_ok c" "\<forall>(k, b)\<in>set col. name_ok k \<and> bytes_ok b" "state_ok st"
      using Cons.prems by (auto simp: state_ok_def col_ok_def ccol dm_ok_def)
    then show ?case
      using col_entries_records Cons.IH by (simp add: ccol doc_entries_simps all_decode_def)
  qed (simp add: doc_entries_def all_decode_def)
  then show "list_all any_time_ok (doc_entries st)" and "list_all doc_record (doc_entries st)" and "all_decode st"
    by simp_all
qed

lemma doc_entries_docs:
  assumes "state_ok st" and "\<And>c. c \<in> fst ` set st \<Longrightarrow> D c = (\<lambda>_. None)"
  shows "fold docs_apply (doc_entries st) D =
    (\<lambda>c. if c \<in> fst ` set st then docs_of st c else D c)"
  using assms
proof (induction st arbitrary: D)
  case Nil
  show ?case by (simp add: doc_entries_def)
next
  case (Cons ccol st)
  obtain c col where ccol: "ccol = (c, col)" by (cases ccol)
  have st: "state_ok st" "c \<notin> fst ` set st" "dm_ok col" "\<forall>(k, b)\<in>set col. bytes_ok b"
    using Cons.prems(1) by (auto simp: state_ok_def col_ok_def ccol dm_ok_def)
  let ?D = "D(c := (\<lambda>k. Option.bind (dm_get col k) msgpack_to_value))"
  have "fold docs_apply (col_entries c col) D = ?D"
    using col_entries_docs [OF st(4,3), of c D] Cons.prems(2) [of c]
    by (auto simp: ccol fun_eq_iff split: option.split)
  then have "fold docs_apply (doc_entries (ccol # st)) D = fold docs_apply (doc_entries st) ?D"
    by (simp add: ccol doc_entries_simps)
  also have "\<dots> = (\<lambda>c'. if c' \<in> fst ` set st then docs_of st c' else ?D c')"
    using Cons.prems(2) st(2) by (intro Cons.IH [OF st(1)]) (auto simp: ccol)
  also have "\<dots> = (\<lambda>c'. if c' \<in> fst ` set (ccol # st) then docs_of (ccol # st) c' else D c')"
    using st(2) by (auto simp: ccol fun_eq_iff docs_of_def)
  finally show ?case .
qed

lemma docs_outside: "c \<notin> fst ` set st \<Longrightarrow> docs_of st c = (\<lambda>_. None)"
  by (simp add: docs_of_def fun_eq_iff map_of_eq_None_iff [THEN iffD2])

text \<open>The snapshot and the browser's file name the command of a schema differently.\<close>

definition schema_records :: "string \<Rightarrow> (string, json \<times> (json \<Rightarrow> bool)) dashmap \<Rightarrow> log_entry list" where
  "schema_records cmd schemas = map (\<lambda>(c, schema, _). new_entry 0 cmd c [] schema) schemas"

lemma schema_records_ok:
  assumes "schemas_ok sc" and "cmd \<in> {''SCHEMA'', IKEY_SCHEMA}"
  shows "list_all any_time_ok (schema_records cmd sc)" and "list_all doc_record (schema_records cmd sc)"
    and "fold docs_apply (schema_records cmd sc) D = D"
proof -
  have cmd: "name_ok cmd" "plain (new_entry 0 cmd c [] s)" "cmd \<notin> {TTL_EXPIRY, ''INSERT'', ''DELETE'', ''DROP'', IKEY_INSERT, IKEY_DELETE, IKEY_DROP}" for c s
    using assms(2) by (auto simp: plain_def name_ok_def str_ok_def bytes_of_def)
  have "list_all any_time_ok (schema_records cmd sc) \<and> list_all doc_record (schema_records cmd sc) \<and>
      (\<forall>D. fold docs_apply (schema_records cmd sc) D = D)"
    using assms(1)
  proof (induction sc)
    case (Cons x sc)
    obtain c s f where x: "x = (c, s, f)" by (cases x)
    have ok: "name_ok c" "doc_small (2 ^ 29) s" "schemas_ok sc"
      using Cons.prems by (auto simp: schemas_ok_def x)
    moreover have "doc_ok s" using doc_small_ok [OF ok(2)] by simp
    ultimately show ?case
      using Cons.IH cmd
      by (simp add: schema_records_def x new_entry_any_time doc_record_def docs_apply_def)
  qed (simp add: schema_records_def)
  then show "list_all any_time_ok (schema_records cmd sc)" and "list_all doc_record (schema_records cmd sc)"
    and "fold docs_apply (schema_records cmd sc) D = D" by blast+
qed

lemma doc_entries_state: "state_ok st \<Longrightarrow> fold docs_apply (doc_entries st) (\<lambda>_ _. None) = docs_of st"
  using doc_entries_docs [of st "\<lambda>_ _. None"] docs_outside by (auto simp: fun_eq_iff)

text \<open>The time of a record does not matter to the documents.\<close>

lemma stamped_ok:
  assumes "list_all any_time_ok es" and "list_all doc_record es"
  shows "list_all record_ok (map (\<lambda>(i, e). e\<lparr>e_t := clk i\<rparr>) (enumerate n es))"
    and "list_all doc_record (map (\<lambda>(i, e). e\<lparr>e_t := clk i\<rparr>) (enumerate n es))"
    and "fold docs_apply (map (\<lambda>(i, e). e\<lparr>e_t := clk i\<rparr>) (enumerate n es)) D = fold docs_apply es D"
proof -
  have t: "doc_record (e\<lparr>e_t := t\<rparr>) = doc_record e" "docs_apply (e\<lparr>e_t := t\<rparr>) = docs_apply e" for e t
    by (simp_all add: doc_record_def plain_def docs_apply_def fun_eq_iff)
  have "list_all record_ok (map (\<lambda>(i, e). e\<lparr>e_t := clk i\<rparr>) (enumerate n es)) \<and>
    list_all doc_record (map (\<lambda>(i, e). e\<lparr>e_t := clk i\<rparr>) (enumerate n es)) \<and>
    (\<forall>D. fold docs_apply (map (\<lambda>(i, e). e\<lparr>e_t := clk i\<rparr>) (enumerate n es)) D = fold docs_apply es D)"
    using assms by (induction es arbitrary: n) (auto simp: t any_time_ok_def)
  then show "list_all record_ok (map (\<lambda>(i, e). e\<lparr>e_t := clk i\<rparr>) (enumerate n es))"
    and "list_all doc_record (map (\<lambda>(i, e). e\<lparr>e_t := clk i\<rparr>) (enumerate n es))"
    and "fold docs_apply (map (\<lambda>(i, e). e\<lparr>e_t := clk i\<rparr>) (enumerate n es)) D = fold docs_apply es D" by blast+
qed

text \<open>The records a compaction leaves behind.\<close>

fun compacted_by :: "storage \<Rightarrow> (string, collection) dashmap \<Rightarrow>
    (string, json \<times> (json \<Rightarrow> bool)) dashmap \<Rightarrow> log_entry list" where
  "compacted_by (OpfsStorage h) st sc = opfs_entries (of_clock h) (of_ticks h) st sc"
| "compacted_by (EncryptedStorage c n inner) st sc = compacted_by inner st sc"
| "compacted_by _ st sc = compacted st sc"

lemma compacted_ok:
  assumes "state_ok st" and "schemas_ok sc"
  shows "list_all record_ok (compacted_by s st sc)" and "list_all doc_record (compacted_by s st sc)"
    and "fold docs_apply (compacted_by s st sc) (\<lambda>_ _. None) = docs_of st"
proof -
  note docs = doc_entries_ok [OF assms(1)] and schemas = schema_records_ok [OF assms(2)]
  have plain: "compacted st sc = doc_entries st @ schema_records ''SCHEMA'' sc"
    by (simp add: compacted_def schema_entries_def schema_records_def)
  have stamped: "opfs_entries clk n st sc =
      map (\<lambda>(i, e). e\<lparr>e_t := clk i\<rparr>) (enumerate n (doc_entries st @ schema_records IKEY_SCHEMA sc))" for clk n
    by (simp add: opfs_entries_def schema_records_def)
  have both: "list_all any_time_ok (doc_entries st @ schema_records cmd sc)"
    "list_all doc_record (doc_entries st @ schema_records cmd sc)"
    "fold docs_apply (doc_entries st @ schema_records cmd sc) (\<lambda>_ _. None) = docs_of st"
    if "cmd \<in> {''SCHEMA'', IKEY_SCHEMA}" for cmd
    using docs schemas [OF that] doc_entries_state [OF assms(1)] by simp_all
  have snapshot: "list_all record_ok (compacted st sc) \<and> list_all doc_record (compacted st sc) \<and>
      fold docs_apply (compacted st sc) (\<lambda>_ _. None) = docs_of st"
    using both [of "''SCHEMA''"] unfolding plain list_all_iff by (blast intro: any_time_record)
  have browser: "list_all record_ok (opfs_entries clk n st sc) \<and> list_all doc_record (opfs_entries clk n st sc) \<and>
      fold docs_apply (opfs_entries clk n st sc) (\<lambda>_ _. None) = docs_of st" for clk n
    using both [of IKEY_SCHEMA] stamped_ok [of "doc_entries st @ schema_records IKEY_SCHEMA sc"]
    unfolding stamped by simp
  have "list_all record_ok (compacted_by s st sc) \<and> list_all doc_record (compacted_by s st sc) \<and>
      fold docs_apply (compacted_by s st sc) (\<lambda>_ _. None) = docs_of st"
    by (induction s) (use snapshot browser in simp_all)
  then show "list_all record_ok (compacted_by s st sc)" and "list_all doc_record (compacted_by s st sc)"
    and "fold docs_apply (compacted_by s st sc) (\<lambda>_ _. None) = docs_of st" by blast+
qed

text \<open>No system call of the backend fails.\<close>

fun storage_fine :: "storage \<Rightarrow> bool" where
  "storage_fine InMemoryStorage = True"
| "storage_fine (SyncDiskStorage d) = io_fine d"
| "storage_fine (OpfsStorage h) = opfs_fine h"
| "storage_fine (EncryptedStorage c n inner) = storage_fine inner"

lemma map_filter_id: "(\<And>x. x \<in> set xs \<Longrightarrow> f x = Some x) \<Longrightarrow> List.map_filter f xs = xs"
  by (induction xs) (simp_all add: map_filter_simps)

lemma compacted_cmds:
  assumes "e \<in> set (compacted_by s st sc)"
  shows "e_cmd e \<in> {IKEY_INSERT, ''SCHEMA'', IKEY_SCHEMA}"
proof -
  have docs: "e_cmd x = IKEY_INSERT" if "x \<in> set (doc_entries st)" for x
    using that by (auto simp: doc_entries_def List.map_filter_def split: option.splits)
  have stamped: "\<exists>y\<in>set ys. e_cmd x = e_cmd y" if "x \<in> set (map (\<lambda>(i, e). e\<lparr>e_t := clk i\<rparr>) (enumerate n ys))"
    for x :: log_entry and clk n ys
    using that by (auto simp: enumerate_eq_zip dest: set_zip_rightD)
  show ?thesis
    using assms
  proof (induction s)
    case (OpfsStorage h)
    then obtain y where "y \<in> set (doc_entries st @ map (\<lambda>(c, schema, _). new_entry 0 IKEY_SCHEMA c [] schema) sc)"
      "e_cmd e = e_cmd y"
      using stamped unfolding compacted_by.simps opfs_entries_def by blast
    then show ?case using docs by auto
  qed (use docs in \<open>auto simp: compacted_def schema_entries_def\<close>)
qed

lemma compact_storage_logs:
  assumes "logs env s es" and "storage_fine s" and "state_ok st" and "schemas_ok sc"
    and "length (compacted st sc) < 2 ^ 64"
  shows "\<exists>s'. compact_from_maps env st sc s = (Inr (), s') \<and>
    logs env s' (map stored_entry (compacted_by s st sc)) \<and> (\<forall>e. accepts e s' = accepts e s)"
  using assms(1,2)
proof (induction s arbitrary: es)
  case (SyncDiskStorage d)
  then obtain ss ls where "disk_logs env d ss ls" by auto
  then obtain d' where "sync_compact_from_maps env st sc d = (Inr (), d')"
    "disk_logs env d' (compacted st sc) []"
    using compact_logs [of env d ss ls st sc] SyncDiskStorage.prems(2) doc_entries_ok(3) [OF assms(3)]
      compacted_ok(1) [OF assms(3,4), of InMemoryStorage] assms(5) by auto
  then show ?case by fastforce
next
  case (OpfsStorage h)
  then obtain ls where "opfs_logs h ls" by auto
  then obtain h' where "do_compact st sc h = (Inr (), h')" "opfs_logs h' (opfs_entries (of_clock h) (of_ticks h) st sc)"
    using do_compact_logs [of h ls st sc] OpfsStorage.prems(2) compacted_ok(1) [OF assms(3,4), of "OpfsStorage h"] by auto
  then show ?case by auto
next
  case (EncryptedStorage c n inner)
  then obtain raw where raw: "logs env inner raw" and c: "cipher_ok c" by auto
  let ?es = "compacted_by inner st sc"
  obtain s' where s': "compact_from_maps env st sc inner = (Inr (), s')"
    "logs env s' (map stored_entry ?es)" "\<forall>e. accepts e s' = accepts e inner"
    using EncryptedStorage.IH [OF raw] EncryptedStorage.prems(2) by auto
  have "e_cmd (stored_entry e) \<noteq> IKEY_ENC" if "e \<in> set ?es" for e
    using compacted_cmds [OF that] by auto
  then have "List.map_filter (decrypted env c) (map stored_entry ?es) = map stored_entry ?es"
    by (intro map_filter_id) (auto simp: decrypted_def)
  then have "logs env (EncryptedStorage c n s') (map stored_entry ?es)"
    using c s'(2) by force
  then show ?case using s'(1,3) by auto
qed simp

text \<open>The sequence index holds names only.\<close>

definition names_indexed :: "db \<Rightarrow> bool" where
  "names_indexed db \<longleftrightarrow> (\<forall>(c, idx)\<in>set (db_seq_index db). \<forall>(n, k)\<in>set idx. name_ok k)"

text \<open>The whole invariant of a running database.\<close>

definition db_ok :: "env \<Rightarrow> db \<Rightarrow> bool" where
  "db_ok env db \<longleftrightarrow> consistent env db \<and> tables_ok db \<and> names_indexed db"

lemma replay_plain:
  assumes "list_all doc_record ws"
  shows "docs_of (t_state (replay_tables env (map stored_entry ws) t)) = fold docs_apply ws (docs_of (t_state t))"
proof -
  have "fold (replay_entry env) (map stored_entry ws) rp =
      rp\<lparr>rp_tables := fold (apply_entry env) (map stored_entry ws) (rp_tables rp)\<rparr>"
    if "rp_active rp = None" for rp
    using assms that
  proof (induction ws arbitrary: rp)
    case (Cons w ws)
    have "plain (stored_entry w)" using Cons.prems(1) by (auto simp: doc_record_def intro: plain_stored)
    then have "replay_entry env (stored_entry w) rp =
        rp\<lparr>rp_tables := apply_entry env (stored_entry w) (rp_tables rp)\<rparr>"
      using Cons.prems(2) by (auto simp: replay_entry_def plain_def)
    then show ?case using Cons by simp
  qed simp
  then show ?thesis
    using fold_docs_apply [OF assms] by (simp add: replay_tables_def replay_start_def)
qed

lemma db_compact_consistent:
  assumes "db_ok env db" and "storage_fine (db_storage db)"
    and "length (compacted (t_state db) (t_schemas db)) < 2 ^ 64"
  shows "\<exists>db'. db_compact env db = (Inr (), db') \<and> db_ok env db' \<and> t_state db' = t_state db"
proof -
  have st: "state_ok (t_state db)" "schemas_ok (t_schemas db)" "roomy (db_storage db)"
    using assms(1) by (simp_all add: db_ok_def tables_ok_def consistent_def)
  obtain es where "logs env (db_storage db) es" using assms(1) by (auto simp: db_ok_def consistent_def)
  then obtain s' where s': "compact_from_maps env (t_state db) (t_schemas db) (db_storage db) = (Inr (), s')"
    "logs env s' (map stored_entry (compacted_by (db_storage db) (t_state db) (t_schemas db)))"
    "\<forall>e. accepts e s' = accepts e (db_storage db)"
    using compact_storage_logs [OF _ assms(2) st(1,2) assms(3)] by metis
  note ok = compacted_ok [OF st(1,2)]
  let ?es = "map stored_entry (compacted_by (db_storage db) (t_state db) (t_schemas db))"
  have "docs_of (t_state (empty_tables tick)) = (\<lambda>_ _. None)" for tick
    by (simp add: empty_tables_def docs_of_def fun_eq_iff)
  then have "docs_of (t_state (replay_tables env ?es (empty_tables tick))) = docs_of (t_state db)" for tick
    using replay_plain [OF ok(2)] ok(3) by simp
  moreover have "list_all (\<lambda>e. doc_ok (e_value e)) ?es"
    using ok(2) by (auto simp: list_all_iff doc_record_def)
  moreover have "roomy s'" using st(3) s'(3) by (simp add: roomy_def)
  ultimately have "consistent env (db\<lparr>db_storage := s'\<rparr>)"
    using s'(2) by (auto simp: consistent_def)
  then show ?thesis
    using assms(1) s'(1) by (simp add: db_compact_def db_ok_def tables_ok_def names_indexed_def)
qed

lemma empty_db_ok: "db_ok env (fresh_db (SyncDiskStorage
    \<lparr>d_log = [], d_buf = [], d_snapshot = None, d_backups = [], d_unreadable = None, d_detached = False, d_io = io\<rparr>)
    (empty_tables n))"
  (is "db_ok env (fresh_db (SyncDiskStorage ?d) _)")
proof -
  have "disk_logs env ?d [] []" by (simp add: disk_logs_def)
  then have l: "logs env (SyncDiskStorage ?d) []" by fastforce
  show ?thesis
    unfolding db_ok_def consistent_def
    by (intro conjI exI [of _ "[]"]) (use l in \<open>auto simp: replay_tables_def replay_start_def empty_tables_def
        tables_ok_def state_ok_def schemas_ok_def names_indexed_def fresh_db_def tables.extend_def docs_of_def fun_eq_iff\<close>)
qed

end
