(* ===== verification/Calls.thy ===== *)
theory Calls
  imports History
begin

text \<open>
  The methods of the handle that change the database (\<open>Db\<close> of \<open>engine/mod.rs\<close>) as calls, what every one
  of them keeps whether it succeeds or fails (\<open>called_tables\<close>), and the histories of acknowledged
  operations after which a restart finds what memory held (\<open>acked_history\<close>).
\<close>

section \<open>Calls\<close>

datatype call =
    CallInsert string "(string \<times> json) list"
  | CallUpdate string string json
  | CallDelete string "string list"
  | CallDeleteFiltered string "string \<Rightarrow> bytes \<Rightarrow> bool" "nat option" bool
  | CallDeleteN string nat bool
  | CallDeleteCollection string
  | CallSetSchema string json
  | CallSetMaxSize string nat
  | CallSetTtlDefault string u64
  | CallCompact
  | CallClearAll

text \<open>The database after the call, whatever the call returned.\<close>

primrec perform :: "env \<Rightarrow> call \<Rightarrow> db \<Rightarrow> db" where
  "perform env (CallInsert c items) db = snd (db_insert env c items db)"
| "perform env (CallUpdate c k updates) db = snd (db_update env c k updates db)"
| "perform env (CallDelete c keys) db = snd (db_delete env c keys db)"
| "perform env (CallDeleteFiltered c p limit asc) db = snd (db_delete_filtered env c p limit asc db)"
| "perform env (CallDeleteN c n asc) db = snd (db_delete_n env c n asc db)"
| "perform env (CallDeleteCollection c) db = snd (db_delete_collection env c db)"
| "perform env (CallSetSchema c schema) db = snd (db_set_schema env c schema db)"
| "perform env (CallSetMaxSize c n) db = set_max_size c n db"
| "perform env (CallSetTtlDefault c secs) db = set_ttl_default c secs db"
| "perform env CallCompact db = snd (db_compact env db)"
| "perform env CallClearAll db = clear_all db"

text \<open>One call out of those that a condition allows.\<close>

definition called :: "(db \<Rightarrow> call \<Rightarrow> bool) \<Rightarrow> env \<Rightarrow> db \<Rightarrow> db \<Rightarrow> bool" where
  "called allowed env db db' \<longleftrightarrow> (\<exists>call. allowed db call \<and> db' = perform env call db)"

text \<open>A condition that every allowed call keeps holds after any history of them.\<close>

lemma called_history:
  assumes "(called allowed env)\<^sup>*\<^sup>* db db'" and "P db"
    and "\<And>db call. P db \<Longrightarrow> allowed db call \<Longrightarrow> P (perform env call db)"
  shows "P db'"
  using assms(1,2) by (induction rule: rtranclp_induct) (auto simp: called_def intro: assms(3))

section \<open>What a method keeps\<close>

text \<open>The parts of the methods of the handle that are not operations of their own.\<close>

lemma evict_expired_keeps:
  assumes "keeps P (op_delete_collection env c)"
    and "\<And>db t. P (db\<lparr>t_ticks := t\<rparr>) = P db" and "\<And>db x. P (db\<lparr>t_ttl_expiry := x\<rparr>) = P db"
  shows "keeps P (evict_expired env c)"
proof -
  have "P (snd (case op_delete_collection env c db of
      (_, db2) \<Rightarrow> (Inr () :: db_error + unit, db2\<lparr>t_ttl_expiry := dm_remove c (t_ttl_expiry db2)\<rparr>)))" if "P db" for db
    using keepsD [OF assms(1) that] assms(3) by (cases "op_delete_collection env c db") simp
  then show ?thesis
    using assms(2) by (auto simp: keeps_def evict_expired_def op_bind_def now_unix_ms_def split: option.split)
qed

lemma evict_oldest_keeps:
  assumes "\<And>keys. keeps P (op_delete env c keys)"
  shows "keeps P (evict_oldest env c n)"
  using assms
  by (auto simp: keeps_def evict_oldest_def Let_def split: option.split prod.split sum.split db_error.split)
    (metis snd_conv)+

lemma enforce_max_size_keeps:
  assumes "\<And>keys. keeps P (op_delete env c keys)"
  shows "keeps P (enforce_max_size env c)"
  using evict_oldest_keeps [OF assms] by (auto simp: keeps_def enforce_max_size_def Let_def split: option.split)

lemma renew_ttl_keeps:
  assumes "\<And>k. keeps P (log_write env TTL_EXPIRY c k Null)"
    and "\<And>db t. P (db\<lparr>t_ticks := t\<rparr>) = P db" and "\<And>db x. P (db\<lparr>t_ttl_expiry := x\<rparr>) = P db"
    and "\<And>db evs. P (db\<lparr>db_tx := evs\<rparr>) = P db"
  shows "keeps P (renew_ttl env c)"
proof -
  have "P (snd (log_write env TTL_EXPIRY c k Null db))" if "P db" for k db
    using keepsD [OF assms(1) that] by (metis prod.collapse)
  then show ?thesis
    using assms(2-4)
    by (auto simp: keeps_def renew_ttl_def op_bind_def now_unix_ms_def send_def Let_def split: option.split)
qed

lemma checked_keeps: "keeps P m \<Longrightarrow> keeps P (op_bind check_fault (\<lambda>_. m))"
  by (simp add: keeps_def check_fault_bind)

text \<open>Every method keeps a condition that its operation keeps and that reads none of the settings.\<close>

lemma db_insert_keeps:
  assumes "keeps P (op_delete_collection env c)" and "keeps P (op_insert env c items)"
    and "\<And>keys. keeps P (op_delete env c keys)" and "\<And>k. keeps P (log_write env TTL_EXPIRY c k Null)"
    and "\<And>db t. P (db\<lparr>t_ticks := t\<rparr>) = P db" and "\<And>db x. P (db\<lparr>t_ttl_expiry := x\<rparr>) = P db"
    and "\<And>db evs. P (db\<lparr>db_tx := evs\<rparr>) = P db"
  shows "keeps P (db_insert env c items)"
  unfolding db_insert_def
  by (intro checked_keeps keeps_bind evict_expired_keeps enforce_max_size_keeps renew_ttl_keeps assms)

lemma db_delete_collection_keeps:
  assumes "keeps P (op_delete_collection env c)"
    and "\<And>db x y z. P (db\<lparr>t_ttl_expiry := x, db_ttl_defaults := y, db_seq_counters := z\<rparr>) = P db"
  shows "keeps P (db_delete_collection env c)"
  unfolding db_delete_collection_def by (intro keeps_bind keeps_upd assms(1)) (simp add: assms(2))

section \<open>Memory after any call\<close>

text \<open>
  What the caller of the engine has to respect: names and sizes that a record of the log can hold. The
  documents deleted by a condition or by position are those the engine has.
\<close>

definition storable_call :: "db \<Rightarrow> call \<Rightarrow> bool" where
  "storable_call db call =
     (case call of
        CallInsert c items \<Rightarrow> name_ok c \<and> list_all item_small items
      | CallUpdate c k updates \<Rightarrow> name_ok c \<and> name_ok k \<and> patch_small db c k updates
      | CallDelete c keys \<Rightarrow> name_ok c
      | CallDeleteFiltered c p limit asc \<Rightarrow> name_ok c
      | CallDeleteN c n asc \<Rightarrow> name_ok c
      | CallSetSchema c schema \<Rightarrow> name_ok c \<and> doc_small (2 ^ 29) schema
      | _ \<Rightarrow> True)"

lemma tables_ok_frame [simp]:
  "tables_ok (db\<lparr>t_ticks := t\<rparr>) = tables_ok db" "tables_ok (db\<lparr>t_ttl_expiry := x\<rparr>) = tables_ok db"
  "tables_ok (db\<lparr>db_tx := evs\<rparr>) = tables_ok db" "tables_ok (db\<lparr>db_storage := st\<rparr>) = tables_ok db"
  "tables_ok (db\<lparr>db_max_sizes := ms\<rparr>) = tables_ok db" "tables_ok (db\<lparr>db_ttl_defaults := y\<rparr>) = tables_ok db"
  "tables_ok (db\<lparr>t_ttl_expiry := x, db_ttl_defaults := y, db_seq_counters := z\<rparr>) = tables_ok db"
  by (simp_all add: tables_ok_def)

lemma op_run_kept: "keeps P m \<Longrightarrow> P db \<Longrightarrow> P (snd (m db))"
  by (simp add: keeps_def)

lemma called_tables:
  assumes "tables_ok db" and "storable_call db call"
  shows "tables_ok (perform env call db)"
proof (cases call)
  case (CallInsert c items)
  then have "keeps tables_ok (db_insert env c items)"
    using assms(2)
    by (intro db_insert_keeps op_insert_keeps op_delete_keeps op_delete_collection_keeps tables_ok_leaves)
      (simp_all add: storable_call_def)
  then show ?thesis using assms(1) CallInsert by (simp add: op_run_kept)
next
  case (CallUpdate c k updates)
  have "tables_ok (snd (op_update env c k updates db))"
    using assms op_update_keeps [of c k db updates env] by (simp add: CallUpdate storable_call_def) (metis prod.collapse)
  then show ?thesis using assms(1) by (simp add: CallUpdate db_update_def check_fault_bind)
next
  case (CallCompact)
  then show ?thesis using assms(1) by (simp add: db_compact_def split: prod.split)
next
  case (CallClearAll)
  then show ?thesis by (simp add: clear_all_def tables_ok_def state_ok_def schemas_ok_def dm_ok_def)
next
  case (CallDeleteCollection c)
  have "keeps tables_ok (db_delete_collection env c)"
    by (intro db_delete_collection_keeps op_delete_collection_keeps) simp
  then show ?thesis using assms(1) CallDeleteCollection by (simp add: op_run_kept)
qed (use assms in \<open>simp_all add: storable_call_def db_delete_def db_delete_filtered_def db_delete_n_def db_set_schema_def
    set_max_size_def set_ttl_default_def op_run_kept checked_keeps op_delete_keeps op_delete_filtered_keeps
    op_delete_n_keeps op_set_schema_keeps\<close>)

section \<open>The names in the sequence index\<close>

lemma names_leaves:
  "keeps names_indexed (now_unix_ms env)" "keeps names_indexed (new_uuid env)" "keeps names_indexed (next_seq c)"
  "keeps names_indexed (send ev)" "keeps names_indexed (log_write env cmd c k v)"
  "keeps names_indexed (validate_document c v)" "keeps names_indexed (prepare_item now seq c k v)"
  "keeps names_indexed (patch_doc env updates doc)"
  by (auto simp: keeps_def names_indexed_def now_unix_ms_def new_uuid_def next_seq_def Let_def send_def
      log_write_def op_bind_def validate_document_def prepare_item_def patch_doc_def
      split: prod.splits sum.splits option.splits outcome.splits json.splits)

lemma names_frame [simp]:
  "names_indexed (db\<lparr>t_ticks := t\<rparr>) = names_indexed db" "names_indexed (db\<lparr>t_ttl_expiry := x\<rparr>) = names_indexed db"
  "names_indexed (db\<lparr>db_tx := evs\<rparr>) = names_indexed db" "names_indexed (db\<lparr>db_storage := st\<rparr>) = names_indexed db"
  "names_indexed (db\<lparr>db_max_sizes := ms\<rparr>) = names_indexed db" "names_indexed (db\<lparr>t_schemas := sc\<rparr>) = names_indexed db"
  "names_indexed (db\<lparr>db_ttl_defaults := y\<rparr>) = names_indexed db"
  "names_indexed (db\<lparr>t_ttl_expiry := x, db_ttl_defaults := y, db_seq_counters := z\<rparr>) = names_indexed db"
  "names_indexed (put_doc c k b db) = names_indexed db" "names_indexed (remove_doc c k db) = names_indexed db"
  "names_indexed (create_collection c db) = names_indexed db" "names_indexed (clear_all db) = names_indexed db"
  by (simp_all add: names_indexed_def put_doc_def remove_doc_def create_collection_def clear_all_def)

lemma names_indexed_insert:
  assumes "names_indexed db" and "\<forall>(n, k)\<in>set idx. name_ok k"
  shows "names_indexed (db\<lparr>db_seq_index := dm_insert c idx (db_seq_index db)\<rparr>)"
  using assms set_dm_insert [of c idx "db_seq_index db"] by (fastforce simp: names_indexed_def)

lemma names_indexed_get: "names_indexed db \<Longrightarrow> dm_get (db_seq_index db) c = Some idx \<Longrightarrow> \<forall>(n, k)\<in>set idx. name_ok k"
  by (auto simp: names_indexed_def dest!: map_of_SomeD)

lemma names_index_put:
  assumes "names_indexed db" and "name_ok k"
  shows "names_indexed (index_put c n k db)"
proof -
  have "\<forall>(n', k')\<in>set (bt_insert n k (case dm_get (db_seq_index db) c of Some idx \<Rightarrow> idx | None \<Rightarrow> [])). name_ok k'"
    using set_bt_insert [of n k "case dm_get (db_seq_index db) c of Some idx \<Rightarrow> idx | None \<Rightarrow> []"]
      names_indexed_get [OF assms(1), of c] assms(2) by (cases "dm_get (db_seq_index db) c") fastforce+
  then show ?thesis unfolding index_put_def by (rule names_indexed_insert [OF assms(1)])
qed

lemma names_index_remove: "names_indexed db \<Longrightarrow> names_indexed (index_remove c n db)"
  using names_indexed_get [of db c]
  by (auto simp: index_remove_def bt_remove_def split: option.split intro!: names_indexed_insert)

lemma names_unindex: "keeps names_indexed (unindex_doc env c k)"
  by (auto simp: keeps_def unindex_doc_def names_index_remove split: option.split outcome.split)

lemma names_insert_item: "name_ok (fst kv) \<Longrightarrow> keeps names_indexed (insert_item env c kv)"
  unfolding insert_item_def
  by (cases kv) (auto intro!: keeps_bind keeps_upd names_leaves names_index_put)

lemma names_insert: "list_all item_small items \<Longrightarrow> keeps names_indexed (op_insert env c items)"
  unfolding op_insert_def
  by (intro keeps_bind keeps_upd keeps_iter names_leaves names_insert_item) (auto simp: list_all_iff item_small_def)

lemma keeps_lookup:
  assumes "\<And>doc. keeps P (f doc)" and "keeps P g"
  shows "keeps P (\<lambda>db. case stored_doc db c k of Some doc \<Rightarrow> f doc db | None \<Rightarrow> g db)"
  using assms by (simp add: keeps_def split: option.split)

lemma names_update: "keeps names_indexed (op_update env c k updates)"
  unfolding op_update_def by (intro keeps_bind keeps_lookup keeps_upd keeps_return names_leaves) simp_all

lemma names_delete: "keeps names_indexed (op_delete env c keys)"
proof -
  have "keeps names_indexed (op_iter (delete_key env c) keys)"
    unfolding delete_key_def by (intro keeps_iter keeps_bind keeps_upd names_leaves names_unindex) simp
  then show ?thesis
    unfolding op_delete_def by (intro keeps_bind names_leaves) (simp add: keeps_def)
qed

lemma names_delete_counted: "keeps names_indexed (delete_counted env c keys)"
  using keeps_bind [OF names_delete [of env c keys] keeps_return [of names_indexed "length keys"]]
  by (auto simp: keeps_def delete_counted_def)

lemma names_delete_filtered: "keeps names_indexed (op_delete_filtered env c p l asc)"
  using names_delete_counted [of env c]
  by (auto simp: keeps_def op_delete_filtered_def Let_def split: option.split outcome.split)

lemma names_delete_n: "keeps names_indexed (op_delete_n env c n asc)"
  using names_delete_counted [of env c]
  by (auto simp: keeps_def op_delete_n_def split: option.split outcome.split)

lemma names_delete_collection: "keeps names_indexed (op_delete_collection env c)"
proof -
  have "names_indexed (db\<lparr>t_state := st, db_seq_index := dm_remove c (db_seq_index db)\<rparr>)" if "names_indexed db" for db st
    using that set_dm_remove [of c "db_seq_index db"] by (fastforce simp: names_indexed_def)
  then show ?thesis
    unfolding op_delete_collection_def by (intro keeps_bind keeps_upd names_leaves)
qed

lemma names_set_schema: "keeps names_indexed (op_set_schema env c schema)"
  unfolding op_set_schema_def by (auto intro!: keeps_bind keeps_upd names_leaves split: sum.split)

lemma called_names:
  assumes "names_indexed db" and "storable_call db call"
  shows "names_indexed (perform env call db)"
proof (cases call)
  case (CallInsert c items)
  then have "keeps names_indexed (db_insert env c items)"
    using assms(2)
    by (intro db_insert_keeps names_insert names_delete names_delete_collection names_leaves)
      (simp_all add: storable_call_def)
  then show ?thesis using assms(1) CallInsert by (simp add: op_run_kept)
next
  case (CallDeleteCollection c)
  have "keeps names_indexed (db_delete_collection env c)"
    by (intro db_delete_collection_keeps names_delete_collection) simp
  then show ?thesis using assms(1) CallDeleteCollection by (simp add: op_run_kept)
next
  case (CallCompact)
  then show ?thesis using assms(1) by (simp add: db_compact_def split: prod.split)
qed (use assms(1) in \<open>simp_all add: db_update_def db_delete_def db_delete_filtered_def db_delete_n_def db_set_schema_def
    set_max_size_def set_ttl_default_def op_run_kept checked_keeps names_update names_delete
    names_delete_filtered names_delete_n names_set_schema\<close>)

section \<open>Errors on a healthy backend\<close>

text \<open>The backend stays healthy, and an error is an abort of the process.\<close>

definition aborts_only :: "'a db_op \<Rightarrow> bool" where
  "aborts_only m \<longleftrightarrow> (\<forall>db r db'. healthy (db_storage db) \<longrightarrow> m db = (r, db') \<longrightarrow>
     healthy (db_storage db') \<and> (\<forall>err. r = Inl err \<longrightarrow> err = Aborted))"

lemma abortsD:
  "aborts_only m \<Longrightarrow> healthy (db_storage db) \<Longrightarrow> m db = (r, db') \<Longrightarrow>
     healthy (db_storage db') \<and> (\<forall>err. r = Inl err \<longrightarrow> err = Aborted)"
  by (simp add: aborts_only_def)

lemma aborts_bind:
  assumes "aborts_only m" and "\<And>a. aborts_only (f a)"
  shows "aborts_only (op_bind m f)"
  unfolding aborts_only_def
proof (intro allI impI)
  fix db r db' assume h: "healthy (db_storage db)" and run: "op_bind m f db = (r, db')"
  obtain p db1 where p: "m db = (p, db1)" by (cases "m db")
  note one = abortsD [OF assms(1) h p]
  show "healthy (db_storage db') \<and> (\<forall>err. r = Inl err \<longrightarrow> err = Aborted)"
  proof (cases p)
    case (Inl e)
    then show ?thesis using one run p by (auto simp: op_bind_def)
  next
    case (Inr a)
    then have "f a db1 = (r, db')" using run p by (simp add: op_bind_def)
    then show ?thesis using abortsD [OF assms(2)] one by blast
  qed
qed

lemma aborts_iter: "(\<And>x. aborts_only (f x)) \<Longrightarrow> aborts_only (op_iter f xs)"
  by (induction xs) (simp_all add: aborts_bind, simp add: aborts_only_def op_return_def)

lemma aborts_write: "aborts_only (log_write env cmd c k v)"
proof -
  have "healthy (db_storage db') \<and> (\<forall>err. r = Inl err \<longrightarrow> err = Aborted)"
    if h: "healthy (db_storage db)" and w: "log_write env cmd c k v db = (r, db')" for db r db'
  proof -
    obtain st where "write_entry (new_entry (clock env (t_ticks db)) cmd c k v) (db_storage db) = (Inr (), st)" "healthy st"
      using healthy_write [OF h] by blast
    then show ?thesis using w by (auto simp: log_write_def op_bind_def now_unix_ms_def)
  qed
  then show ?thesis by (simp add: aborts_only_def)
qed

lemma aborts_leaves:
  "aborts_only (new_uuid env)" "aborts_only (now_unix_ms env)" "aborts_only (send ev)" "aborts_only (unindex_doc env c k)"
  "aborts_only (op_upd (remove_doc c k))" "aborts_only (log_write env cmd c k v)"
  using aborts_write
  by (auto simp: aborts_only_def new_uuid_def now_unix_ms_def send_def unindex_doc_def index_remove_def op_upd_def
      remove_doc_def split: option.splits outcome.splits)

lemma op_delete_aborts: "aborts_only (op_delete env c keys)"
proof -
  have "aborts_only (op_iter (delete_key env c) keys)"
    unfolding delete_key_def by (intro aborts_iter aborts_bind aborts_leaves)
  then have "aborts_only (\<lambda>db. if dm_get (t_state db) c = None then (Inr (), db) else op_iter (delete_key env c) keys db)"
    by (simp add: aborts_only_def)
  then show ?thesis unfolding op_delete_def by (intro aborts_bind aborts_leaves)
qed

lemma insert_keeps_healthy: "keeps (\<lambda>db. healthy (db_storage db)) (op_insert env c items)"
proof -
  let ?P = "\<lambda>db. healthy (db_storage db)"
  have wr: "keeps ?P (log_write env cmd c k v)" for cmd k v
    using aborts_write [of env cmd c k v] unfolding aborts_only_def keeps_def by (metis prod.collapse)
  have leaves: "keeps ?P (new_uuid env)" "keeps ?P (now_unix_ms env)" "keeps ?P (next_seq c)" "keeps ?P (send ev)"
    "keeps ?P (prepare_item now seq c k v)" for ev now seq k v
    by (auto simp: keeps_def new_uuid_def now_unix_ms_def next_seq_def Let_def send_def prepare_item_def op_bind_def
        validate_document_def split: prod.splits sum.splits option.splits json.splits)
  have "keeps ?P (insert_item env c kv)" for kv
    unfolding insert_item_def
    by (cases kv) (auto intro!: keeps_bind keeps_upd leaves wr simp: put_doc_def index_put_def)
  then show ?thesis
    unfolding op_insert_def
    by (intro keeps_bind keeps_upd keeps_iter leaves wr) (simp_all add: create_collection_def)
qed

section \<open>Histories of acknowledged operations\<close>

text \<open>
  One acknowledged operation: the call returned \<open>Ok\<close>. Arguments are storable. The collection of an insert
  has no expiry; if it has a size cap, the backend takes every write, because the insert is acknowledged
  even when the eviction of the oldest documents could not be logged. A compaction meets no fault of the
  disk. Clearing is left out: it empties memory and writes nothing.
\<close>

inductive acked :: "env \<Rightarrow> db \<Rightarrow> db \<Rightarrow> bool" for env where
  acked_insert: "name_ok c \<Longrightarrow> list_all item_small items \<Longrightarrow>
    dm_get (t_ttl_expiry db) c = None \<Longrightarrow> dm_get (db_ttl_defaults db) c = None \<Longrightarrow>
    dm_get (db_max_sizes db) c = None \<or> healthy (db_storage db) \<Longrightarrow>
    db_insert env c items db = (Inr u, db') \<Longrightarrow> acked env db db'"
| acked_update: "name_ok c \<Longrightarrow> name_ok k \<Longrightarrow> patch_small db c k updates \<Longrightarrow>
    db_update env c k updates db = (Inr found, db') \<Longrightarrow> acked env db db'"
| acked_delete: "name_ok c \<Longrightarrow> list_all name_ok keys \<Longrightarrow>
    db_delete env c keys db = (Inr u, db') \<Longrightarrow> acked env db db'"
| acked_delete_filtered: "name_ok c \<Longrightarrow>
    db_delete_filtered env c predicate limit asc db = (Inr n, db') \<Longrightarrow> acked env db db'"
| acked_delete_n: "name_ok c \<Longrightarrow>
    db_delete_n env c n asc db = (Inr m, db') \<Longrightarrow> acked env db db'"
| acked_delete_collection: "name_ok c \<Longrightarrow>
    db_delete_collection env c db = (Inr u, db') \<Longrightarrow> acked env db db'"
| acked_set_schema: "name_ok c \<Longrightarrow> doc_small (2 ^ 29) schema \<Longrightarrow>
    db_set_schema env c schema db = (Inr u, db') \<Longrightarrow> acked env db db'"
| acked_set_max_size: "acked env db (set_max_size c n db)"
| acked_set_ttl_default: "acked env db (set_ttl_default c secs db)"
| acked_compact: "storage_fine (db_storage db) \<Longrightarrow>
    length (compacted (t_state db) (t_schemas db)) < 2 ^ 64 \<Longrightarrow>
    db_compact env db = (Inr u, db') \<Longrightarrow> acked env db db'"

lemma state_ok_names: "state_ok st \<Longrightarrow> \<forall>(k, b)\<in>set (col_of st c). name_ok k"
  using state_ok_col [of st c] by (auto simp: col_ok_def)

text \<open>The size cap: on a healthy backend the eviction is logged like any delete.\<close>

lemma oldest_keys_names: "\<forall>(k, b)\<in>set col. name_ok k \<Longrightarrow> list_all name_ok (oldest_keys col n)"
  by (fastforce simp: oldest_keys_def list_all_iff List.map_filter_def dest!: in_set_takeD)

lemma enforce_max_size_consistent:
  assumes "env_ok env" and "consistent env db" and "tables_ok db" and "name_ok c"
    and "dm_get (db_max_sizes db) c = None \<or> healthy (db_storage db)"
    and "enforce_max_size env c db = (Inr u, db')"
  shows "consistent env db'"
proof (cases "db' = db")
  case False
  then obtain n where ev: "evict_oldest env c n db = (Inr u, db')" and h: "healthy (db_storage db)"
    using assms(5,6) by (auto simp: enforce_max_size_def Let_def split: option.splits if_splits)
  obtain col where col: "dm_get (t_state db) c = Some col" and ne: "oldest_keys col n \<noteq> []"
    using ev False by (auto simp: evict_oldest_def Let_def split: option.splits if_splits)
  obtain r db1 where d: "op_delete env c (oldest_keys col n) db = (r, db1)"
    by (cases "op_delete env c (oldest_keys col n) db")
  have "\<forall>err. r = Inl err \<longrightarrow> err = Aborted" using op_delete_aborts h d unfolding aborts_only_def by blast
  then have r: "r = Inr ()" "db' = db1"
    using ev col ne d by (auto simp: evict_oldest_def split: sum.splits)
  have "\<forall>(k, b)\<in>set col. name_ok k"
    using state_ok_names [of "t_state db" c] assms(3) col by (simp add: tables_ok_def col_of_def)
  then show ?thesis
    using op_delete_consistent [OF assms(1,2,4) oldest_keys_names] d r by simp
qed (use assms(2) in simp)

lemma db_insert_acked:
  assumes "env_ok env" and "consistent env db" and "tables_ok db" and "name_ok c" and "list_all item_small items"
    and "dm_get (t_ttl_expiry db) c = None" and "dm_get (db_ttl_defaults db) c = None"
    and "dm_get (db_max_sizes db) c = None \<or> healthy (db_storage db)"
    and "db_insert env c items db = (Inr u, db')"
  shows "consistent env db'"
proof -
  obtain db1 db2 where ins: "op_insert env c items db = (Inr (), db1)"
    and enf: "enforce_max_size env c db1 = (Inr (), db2)" and ren: "renew_ttl env c db2 = (Inr u, db')"
    using assms(6,9)
    by (auto simp: db_insert_def check_fault_bind op_bind_eq_Inr evict_expired_def split: if_splits)
  have s: "settings db1 = settings db" using keepsD [OF settings_insert _ ins] by blast
  have "keeps (\<lambda>d. db_ttl_defaults d = x) (op_delete env c keys)" for x keys
  proof -
    have "keeps (\<lambda>d. db_ttl_defaults d = x) (delete_key env c k)" for k
      unfolding delete_key_def
      by (intro keeps_bind keeps_upd)
        (auto simp: keeps_def unindex_doc_def index_remove_def remove_doc_def log_write_def op_bind_def now_unix_ms_def
          send_def split: prod.splits sum.splits option.splits outcome.splits)
    then have it: "keeps (\<lambda>d. db_ttl_defaults d = x) (op_iter (delete_key env c) keys)" by (rule keeps_iter)
    show ?thesis
      unfolding op_delete_def using it
      by (intro keeps_bind)
        (auto simp: keeps_def new_uuid_def log_write_def op_bind_def now_unix_ms_def split: prod.splits)
  qed
  from keepsD [OF enforce_max_size_keeps [OF this] refl enf]
  have "db_ttl_defaults db2 = db_ttl_defaults db" using s by (simp add: settings_def)
  then have "db' = db2" using ren assms(7) by (simp add: renew_ttl_def)
  moreover have "dm_get (db_max_sizes db1) c = None \<or> healthy (db_storage db1)"
    using assms(8) s keepsD [OF insert_keeps_healthy _ ins] by (auto simp: settings_def)
  moreover have "consistent env db1" using op_insert_consistent [OF assms(1,2,4,5) ins] .
  moreover have "tables_ok db1" using keepsD [OF op_insert_keeps [OF assms(4,5)] assms(3) ins] .
  ultimately show ?thesis using enforce_max_size_consistent [OF assms(1)] assms(4) enf by blast
qed

lemma acked_called:
  assumes "acked env db db'"
  shows "called storable_call env db db'"
  using assms
proof cases
  case (acked_insert c items u)
  then show ?thesis unfolding called_def by (intro exI [of _ "CallInsert c items"]) (simp add: storable_call_def)
next
  case (acked_update c k updates found)
  then show ?thesis unfolding called_def by (intro exI [of _ "CallUpdate c k updates"]) (simp add: storable_call_def)
next
  case (acked_delete c keys u)
  then show ?thesis unfolding called_def by (intro exI [of _ "CallDelete c keys"]) (simp add: storable_call_def)
next
  case (acked_delete_filtered c predicate limit asc n)
  then show ?thesis
    unfolding called_def by (intro exI [of _ "CallDeleteFiltered c predicate limit asc"]) (simp add: storable_call_def)
next
  case (acked_delete_n c n asc m)
  then show ?thesis unfolding called_def by (intro exI [of _ "CallDeleteN c n asc"]) (simp add: storable_call_def)
next
  case (acked_delete_collection c u)
  then show ?thesis unfolding called_def by (intro exI [of _ "CallDeleteCollection c"]) (simp add: storable_call_def)
next
  case (acked_set_schema c schema u)
  then show ?thesis unfolding called_def by (intro exI [of _ "CallSetSchema c schema"]) (simp add: storable_call_def)
next
  case (acked_set_max_size c n)
  then show ?thesis unfolding called_def by (intro exI [of _ "CallSetMaxSize c n"]) (simp add: storable_call_def)
next
  case (acked_set_ttl_default c secs)
  then show ?thesis unfolding called_def by (intro exI [of _ "CallSetTtlDefault c secs"]) (simp add: storable_call_def)
next
  case (acked_compact u)
  then show ?thesis unfolding called_def by (intro exI [of _ CallCompact]) (simp add: storable_call_def)
qed

lemma acked_consistent:
  assumes "env_ok env" and "acked env db db'" and "db_ok env db"
  shows "consistent env db'"
proof -
  have c: "consistent env db" and t: "tables_ok db" and n: "names_indexed db" using assms(3) by (simp_all add: db_ok_def)
  have names: "\<forall>(k, b)\<in>set (col_of (t_state db) c). name_ok k" for c
    using t by (intro state_ok_names) (simp add: tables_ok_def)
  from assms(2) show ?thesis
  proof cases
    case (acked_insert c items u)
    from db_insert_acked [OF assms(1) \<open>consistent env db\<close> t acked_insert] show ?thesis .
  next
    case (acked_update c k updates found)
    then show ?thesis
      using op_update_consistent [OF assms(1) \<open>consistent env db\<close> acked_update(1-3)]
      by (simp add: db_update_def check_fault_bind split: if_splits)
  next
    case (acked_delete c keys u)
    then show ?thesis
      using op_delete_consistent [OF assms(1) \<open>consistent env db\<close> acked_delete(1,2)]
      by (simp add: db_delete_def check_fault_bind split: if_splits)
  next
    case (acked_delete_filtered c predicate limit asc n)
    then show ?thesis
      using op_delete_filtered_consistent [OF assms(1) \<open>consistent env db\<close> acked_delete_filtered(1) names]
      by (simp add: db_delete_filtered_def check_fault_bind split: if_splits)
  next
    case (acked_delete_n c n asc m)
    then show ?thesis
      using op_delete_n_consistent [OF assms(1) \<open>consistent env db\<close> acked_delete_n(1) names] names_indexed_get [OF n]
      by (simp add: db_delete_n_def check_fault_bind split: if_splits)
  next
    case (acked_delete_collection c u)
    then obtain db1 where d: "op_delete_collection env c db = (Inr (), db1)"
      and db': "db_storage db' = db_storage db1" "t_state db' = t_state db1"
      by (auto simp: db_delete_collection_def op_bind_eq_Inr)
    show ?thesis
      using op_delete_collection_consistent [OF assms(1) \<open>consistent env db\<close> acked_delete_collection(1) d]
        consistent_cong [of db' db1 env] db' by simp
  next
    case (acked_set_schema c schema u)
    then show ?thesis
      using op_set_schema_consistent [OF assms(1) \<open>consistent env db\<close> acked_set_schema(1,2)]
      by (simp add: db_set_schema_def)
  next
    case (acked_compact u)
    then show ?thesis using db_compact_consistent [OF assms(3)] by (auto simp: db_ok_def)
  next
    case (acked_set_max_size c n)
    then show ?thesis using c consistent_cong [of db' db env] by (simp add: set_max_size_def)
  next
    case (acked_set_ttl_default c secs)
    then show ?thesis using c consistent_cong [of db' db env] by (simp add: set_ttl_default_def)
  qed
qed

lemma acked_ok: "env_ok env \<Longrightarrow> acked env db db' \<Longrightarrow> db_ok env db \<Longrightarrow> db_ok env db'"
  using acked_consistent [of env db db'] acked_called [of env db db'] called_tables [of db] called_names [of db]
  by (auto simp: db_ok_def called_def)

lemma acked_history:
  assumes "env_ok env" and "(acked env)\<^sup>*\<^sup>* db db'" and "db_ok env db"
  shows "db_ok env db'"
  using assms(2,3) by (induction rule: rtranclp_induct) (auto intro: acked_ok [OF assms(1)])

end
