(* ===== verification/Operations.thy ===== *)
theory Operations
  imports Calls
begin

text \<open>
  What the operations do to documents: the system fields an insert and an update stamp, optimistic
  concurrency, the merge of a patch, deletion, and what the raw byte scan sees after an update.
\<close>

section \<open>Fields of a stored document\<close>

lemma of_entries_snoc:
  "bt_get (of_entries (map (\<lambda>(k, v). (ikey_of k, tokenize v)) (m @ [(k, v)]))) a =
     (if ikey_of k = a then Some (tokenize v)
      else bt_get (of_entries (map (\<lambda>(k, v). (ikey_of k, tokenize v)) m)) a)"
  by (simp add: map_of_of_entries)

lemma map_of_snoc:
  "map_of m k = None \<Longrightarrow> map_of (m @ [(k, v)]) a = (if a = k then Some v else map_of m a)"
  by (auto simp: map_add_def split: option.split)

lemma tokenize_get_pair:
  assumes "bt_ok m" and "a < b" and "\<And>k. ikey_of k = a \<longleftrightarrow> k = a \<or> k = b"
  shows "bt_get (of_entries (map (\<lambda>(k, v). (ikey_of k, tokenize v)) m)) a =
    (case bt_get m b of Some v \<Rightarrow> Some (tokenize v) | None \<Rightarrow> map_option tokenize (bt_get m a))"
  using assms(1)
proof (induction m rule: rev_induct)
  case Nil
  show ?case by (simp add: of_entries_def)
next
  case (snoc kv m)
  obtain k v where kv: "kv = (k, v)" by (cases kv)
  have ok: "bt_ok m" and lt: "\<And>q. q \<in> set m \<Longrightarrow> fst q < k"
    using snoc.prems by (auto simp: bt_ok_def sorted_wrt_append kv)
  have fresh: "bt_get m k = None"
    using lt by (force simp: map_of_eq_None_iff)
  have "bt_get m b = None" if "k = a"
    using lt that assms(2) by (force simp: map_of_eq_None_iff)
  then show ?case
    unfolding kv of_entries_snoc assms(3) map_of_snoc [OF fresh] snoc.IH [OF ok]
    using assms(2) by (auto split: option.split)
qed

lemma tokenize_get_plain:
  assumes "bt_ok m" and "\<And>k'. ikey_of k' = k \<longleftrightarrow> k' = k"
  shows "bt_get (of_entries (map (\<lambda>(k, v). (ikey_of k, tokenize v)) m)) k = map_option tokenize (bt_get m k)"
  using assms(1)
proof (induction m rule: rev_induct)
  case Nil
  show ?case by (simp add: of_entries_def)
next
  case (snoc kv m)
  obtain k' v where kv: "kv = (k', v)" by (cases kv)
  have ok: "bt_ok m" and lt: "\<And>q. q \<in> set m \<Longrightarrow> fst q < k'"
    using snoc.prems by (auto simp: bt_ok_def sorted_wrt_append kv)
  have fresh: "bt_get m k' = None" using lt by (force simp: map_of_eq_None_iff)
  show ?case
    unfolding kv of_entries_snoc assms(2) map_of_snoc [OF fresh] snoc.IH [OF ok] by auto
qed

lemma stored_fields:
  assumes "bt_ok m"
  shows "vget (tokenize (Object m)) IKEY_VERSION =
      (case bt_get m VERSION of Some v \<Rightarrow> Some (tokenize v) | None \<Rightarrow> map_option tokenize (bt_get m IKEY_VERSION))"
    and "vget (tokenize (Object m)) IKEY_SEQ =
      (case bt_get m SEQ of Some v \<Rightarrow> Some (tokenize v) | None \<Rightarrow> map_option tokenize (bt_get m IKEY_SEQ))"
    and "vget (tokenize (Object m)) IKEY_CREATED_AT =
      (case bt_get m CREATED_AT of Some v \<Rightarrow> Some (tokenize v) | None \<Rightarrow> map_option tokenize (bt_get m IKEY_CREATED_AT))"
    and "vget (tokenize (Object m)) IKEY_MODIFIED_AT =
      (case bt_get m MODIFIED_AT of Some v \<Rightarrow> Some (tokenize v) | None \<Rightarrow> map_option tokenize (bt_get m IKEY_MODIFIED_AT))"
  using tokenize_get_pair [OF assms, of IKEY_VERSION VERSION]
    tokenize_get_pair [OF assms, of IKEY_SEQ SEQ]
    tokenize_get_pair [OF assms, of IKEY_CREATED_AT CREATED_AT]
    tokenize_get_pair [OF assms, of IKEY_MODIFIED_AT MODIFIED_AT]
  by (auto simp: ikey_of_def split: if_splits)

definition system_name :: "string \<Rightarrow> bool" where
  "system_name k \<longleftrightarrow> ikey_of k \<noteq> k \<or> expand_key k \<noteq> k"

lemma stored_field:
  assumes "bt_ok m" and "\<not> system_name k"
  shows "vget (tokenize (Object m)) k = map_option tokenize (bt_get m k)"
proof -
  have "ikey_of k' = k \<longleftrightarrow> k' = k" for k'
    using assms(2) by (auto simp: system_name_def ikey_of_def expand_key_def split: if_splits)
  then show ?thesis using tokenize_get_plain [OF assms(1)] by simp
qed

lemma tokenize_u64 [simp]: "tokenize (json_u64 n) = json_u64 n"
  by (simp add: json_u64_def)

section \<open>Insert\<close>

lemma log_write_tables: "log_write env cmd c k v db = (r, db') \<Longrightarrow> t_state db' = t_state db"
  by (auto simp: log_write_def op_bind_def now_unix_ms_def split: prod.splits)

lemma log_write_frame:
  "log_write env cmd c k v db = (r, db') \<Longrightarrow> db' = db\<lparr>t_ticks := t_ticks db', db_storage := db_storage db'\<rparr>"
  by (auto simp: log_write_def op_bind_def now_unix_ms_def split: prod.splits)

lemma log_write_ticks: "log_write env cmd c k v db = (r, db') \<Longrightarrow> t_ticks db' = Suc (t_ticks db)"
  by (auto simp: log_write_def op_bind_def now_unix_ms_def split: prod.splits)

text \<open>The number the collection's counter gives out next.\<close>

definition counter_of :: "db \<Rightarrow> string \<Rightarrow> u64" where
  "counter_of db c = (case dm_get (db_seq_counters db) c of Some n \<Rightarrow> n | None \<Rightarrow> 0)"

lemma log_write_counter: "log_write env cmd c' k v db = (r, db') \<Longrightarrow> counter_of db' c = counter_of db c"
  by (auto simp: log_write_def op_bind_def now_unix_ms_def counter_of_def split: prod.splits)

lemma insert_item_docs:
  assumes "insert_item env c (k, v0) db = (Inr u, db')" and "item_small (k, v0)"
  shows "docs_of (t_state db') = (docs_of (t_state db))
      (c := (docs_of (t_state db) c)
        (k \<mapsto> tokenize (item_doc (clock env (t_ticks db)) (counter_of db c) (docs_of (t_state db) c k) v0)))"
    and "counter_of db' c = counter_of db c + 1"
proof -
  obtain now seq v db1 db2 db3 where ns: "next_seq c (db\<lparr>t_ticks := Suc (t_ticks db)\<rparr>) = (Inr seq, db1)"
    and now: "now = clock env (t_ticks db)"
    and v: "v = item_doc now seq (docs_of (t_state db) c k) v0"
    and db2: "db2 = index_put c (u64_or seq v IKEY_SEQ) k (put_doc c k (value_to_msgpack v) db1)"
    and lw: "log_write env IKEY_INSERT c k v db2 = (Inr (), db3)"
    and db': "db' = db3\<lparr>db_tx := db_tx db3 @ [insert_event c k v]\<rparr>"
    using insert_item_steps [OF assms(1)] by metis
  have seq: "seq = counter_of db c" and step: "counter_of db1 c = counter_of db c + 1"
    using ns by (auto simp: next_seq_def counter_of_def Let_def)
  have "doc_small (2 ^ 29) v"
    unfolding v using assms(2) by (intro item_doc_small) (simp add: item_small_def)
  then have "doc_ok v" by (rule doc_small_ok) simp
  moreover have "t_state db1 = t_state db" using ns by (auto simp: next_seq_def Let_def)
  ultimately have "docs_of (t_state db') = (docs_of (t_state db))
      (c := (docs_of (t_state db) c)(k \<mapsto> tokenize v))"
    using log_write_tables [OF lw] by (simp add: db' db2 index_put_def put_doc_def docs_insert)
  then show "docs_of (t_state db') = (docs_of (t_state db))
      (c := (docs_of (t_state db) c)
        (k \<mapsto> tokenize (item_doc (clock env (t_ticks db)) (counter_of db c) (docs_of (t_state db) c k) v0)))"
    unfolding v now seq .
  show "counter_of db' c = counter_of db c + 1"
    using step log_write_counter [OF lw, of c] by (simp add: db' db2 index_put_def put_doc_def counter_of_def)
qed

text \<open>The record that opens the transaction takes a reading of the clock, the document takes the next one.\<close>

lemma op_insert_one:
  assumes "op_insert env c [(k, v0)] db = (Inr u, db')" and "item_small (k, v0)"
  shows "docs_of (t_state db') = (docs_of (t_state db))
      (c := (docs_of (t_state db) c)
        (k \<mapsto> tokenize (item_doc (clock env (Suc (t_ticks db))) (counter_of db c) (docs_of (t_state db) c k) v0)))"
    and "counter_of db' c = counter_of db c + 1"
proof -
  let ?db0 = "(create_collection c db)\<lparr>db_uuids := Suc (db_uuids db)\<rparr>"
  obtain db1 db2 where b: "log_write env IKEY_TX_BEGIN c (uuid env (db_uuids db)) Null ?db0 = (Inr (), db1)"
    and it: "insert_item env c (k, v0) db1 = (Inr (), db2)"
    and e: "log_write env IKEY_TX_COMMIT c (uuid env (db_uuids db)) Null db2 = (Inr u, db')"
    using assms(1) by (auto simp: op_insert_def op_bind_eq_Inr new_uuid_def create_collection_def)
  have start: "docs_of (t_state db1) = docs_of (t_state db)" "t_ticks db1 = Suc (t_ticks db)" "counter_of db1 c = counter_of db c"
    using log_write_tables [OF b] log_write_ticks [OF b] log_write_counter [OF b, of c]
    by (simp_all add: create_collection_def docs_create counter_of_def)
  show "docs_of (t_state db') = (docs_of (t_state db))
      (c := (docs_of (t_state db) c)
        (k \<mapsto> tokenize (item_doc (clock env (Suc (t_ticks db))) (counter_of db c) (docs_of (t_state db) c k) v0)))"
    using insert_item_docs(1) [OF it assms(2)] log_write_tables [OF e] start by simp
  show "counter_of db' c = counter_of db c + 1"
    using insert_item_docs(2) [OF it assms(2)] log_write_counter [OF e, of c] start by simp
qed

text \<open>The public names of the fields the engine manages are not fields of the client's document.\<close>

definition no_managed :: "object \<Rightarrow> bool" where
  "no_managed obj \<longleftrightarrow> bt_get obj VERSION = None \<and> bt_get obj SEQ = None \<and>
     bt_get obj CREATED_AT = None \<and> bt_get obj MODIFIED_AT = None"

lemma item_doc_fields:
  fixes now seq :: u64 and old :: "json option"
  assumes "bt_ok obj" and "no_managed obj"
  defines "doc \<equiv> tokenize (item_doc now seq old (Object obj))"
  shows "get_u64 doc IKEY_VERSION = Some (case old of Some o' \<Rightarrow> u64_or 0 o' IKEY_VERSION + 1 | None \<Rightarrow> 1)"
    and "get_u64 doc IKEY_CREATED_AT = Some (case old of Some o' \<Rightarrow> u64_or now o' IKEY_CREATED_AT | None \<Rightarrow> now)"
    and "get_u64 doc IKEY_MODIFIED_AT = Some now"
    and "get_u64 doc IKEY_SEQ = Some (case old of Some o' \<Rightarrow> u64_or seq o' IKEY_SEQ | None \<Rightarrow> seq)"
    and "\<not> system_name f \<Longrightarrow> vget doc f = map_option tokenize (bt_get obj f)"
proof -
  let ?m = "case old of Some ex \<Rightarrow> stamp_overwrite now seq ex obj | None \<Rightarrow> stamp_new now seq obj"
  have doc: "doc = tokenize (Object ?m)" by (simp add: doc_def item_doc_def)
  have ok: "bt_ok ?m"
    using assms(1) by (auto simp: stamp_overwrite_def stamp_new_def intro!: bt_ok_insert split: option.split)
  note f = stored_fields [OF ok] and nm = assms(2) [unfolded no_managed_def]
  show "get_u64 doc IKEY_VERSION = Some (case old of Some o' \<Rightarrow> u64_or 0 o' IKEY_VERSION + 1 | None \<Rightarrow> 1)"
    and "get_u64 doc IKEY_CREATED_AT = Some (case old of Some o' \<Rightarrow> u64_or now o' IKEY_CREATED_AT | None \<Rightarrow> now)"
    and "get_u64 doc IKEY_MODIFIED_AT = Some now"
    and "get_u64 doc IKEY_SEQ = Some (case old of Some o' \<Rightarrow> u64_or seq o' IKEY_SEQ | None \<Rightarrow> seq)"
    unfolding get_u64_def doc f
    using nm by (simp_all add: stamp_overwrite_def stamp_new_def split: option.split)
  show "\<not> system_name f \<Longrightarrow> vget doc f = map_option tokenize (bt_get obj f)"
    using stored_field [OF ok, of f]
    by (auto simp: doc stamp_overwrite_def stamp_new_def system_name_def expand_key_def split: option.split)
qed

section \<open>Update\<close>

lemma merge_fields_get:
  "bt_get (merge_fields upd doc) k =
     (if k = VERSION \<or> k = CREATED_AT then bt_get doc k
      else case map_of (rev upd) k of Some v \<Rightarrow> Some v | None \<Rightarrow> bt_get doc k)"
proof -
  define P where "P = (\<lambda>k. k = VERSION \<or> k = CREATED_AT)"
  have "bt_get (fold (\<lambda>(k, v) d. if P k then d else bt_insert k v d) upd doc) k =
     (if P k then bt_get doc k else case map_of (rev upd) k of Some v \<Rightarrow> Some v | None \<Rightarrow> bt_get doc k)"
  proof (induction upd arbitrary: doc)
    case (Cons kv upd)
    obtain k' v where kv: "kv = (k', v)" by (cases kv)
    have "map_of (rev (kv # upd)) k =
        (case map_of (rev upd) k of Some w \<Rightarrow> Some w | None \<Rightarrow> if k = k' then Some v else None)"
      by (simp add: kv map_add_def split: option.split)
    then show ?case using Cons by (simp add: kv split: option.split)
  qed simp
  then show ?thesis unfolding merge_fields_def P_def .
qed

lemma merge_fields_ok: "bt_ok doc \<Longrightarrow> bt_ok (merge_fields upd doc)"
  unfolding merge_fields_def
proof (induction upd arbitrary: doc)
  case (Cons kv upd)
  obtain k v where kv: "kv = (k, v)" by (cases kv)
  have "bt_ok (if k = VERSION \<or> k = CREATED_AT then doc else bt_insert k v doc)"
    by (split if_split) (intro conjI impI Cons.prems bt_ok_insert)
  from Cons.IH [OF this] show ?case by (simp only: kv fold.simps comp_apply prod.case)
qed simp

lemma map_of_rev_sorted: "bt_ok m \<Longrightarrow> map_of (rev m) = map_of m"
  by (simp add: bt_distinct map_of_inject_set rev_map [symmetric])

text \<open>
  The fields a patch may have without touching what the engine keeps: the client's own, and the two
  that the merge skips, among them the version as a guard.
\<close>

definition client_field :: "string \<Rightarrow> bool" where
  "client_field f \<longleftrightarrow> \<not> system_name f \<or> f = VERSION \<or> f = CREATED_AT"

text \<open>The patched document, field by field.\<close>

lemma merge_update_fields:
  fixes ver now :: u64
  assumes "bt_ok doc" and "bt_ok upd" and "\<And>k. bt_get upd k \<noteq> None \<Longrightarrow> client_field k"
    and "\<And>k. bt_get doc k \<noteq> None \<Longrightarrow> ikey_of k = k"
  defines "new \<equiv> tokenize (Object (merge_update ver now upd doc))"
  shows "get_u64 new IKEY_VERSION = Some (ver + 1)"
    and "get_u64 new IKEY_MODIFIED_AT = Some now"
    and "vget new IKEY_CREATED_AT = map_option tokenize (bt_get doc IKEY_CREATED_AT)"
    and "vget new IKEY_SEQ = map_option tokenize (bt_get doc IKEY_SEQ)"
    and "\<not> system_name f \<Longrightarrow> vget new f =
      (case bt_get upd f of Some v \<Rightarrow> Some (tokenize v) | None \<Rightarrow> map_option tokenize (bt_get doc f))"
proof -
  let ?m = "merge_update ver now upd doc"
  have ok: "bt_ok ?m"
    using merge_fields_ok [OF assms(1)] by (auto simp: merge_update_def intro!: bt_ok_insert)
  have nosys: "bt_get upd k = None" if "system_name k" "k \<noteq> VERSION" "k \<noteq> CREATED_AT" for k
    using assms(3) [of k] that unfolding client_field_def by blast
  have nopub: "bt_get doc k = None" if "ikey_of k \<noteq> k" for k using assms(4) [of k] that by blast
  have sys: "bt_get ?m k = (if k = MODIFIED_AT then Some (json_u64 now)
      else if k = VERSION then Some (json_u64 (ver + 1)) else bt_get doc k)" if "system_name k" for k
    using nosys [OF that] by (auto simp: merge_update_def merge_fields_get map_of_rev_sorted [OF assms(2)])
  have n: "system_name VERSION" "system_name MODIFIED_AT" "system_name CREATED_AT" "system_name SEQ"
    "system_name IKEY_VERSION" "system_name IKEY_MODIFIED_AT" "system_name IKEY_CREATED_AT" "system_name IKEY_SEQ"
    by (simp_all add: system_name_def ikey_of_def expand_key_def)
  have pub: "bt_get doc CREATED_AT = None" "bt_get doc SEQ = None"
    by (rule nopub; simp add: ikey_of_def)+
  note f = stored_fields [OF ok]
  show "get_u64 new IKEY_VERSION = Some (ver + 1)" "get_u64 new IKEY_MODIFIED_AT = Some now"
    "vget new IKEY_CREATED_AT = map_option tokenize (bt_get doc IKEY_CREATED_AT)"
    "vget new IKEY_SEQ = map_option tokenize (bt_get doc IKEY_SEQ)"
    unfolding new_def get_u64_def f by (simp_all add: sys n pub)
  show "vget new f = (case bt_get upd f of Some v \<Rightarrow> Some (tokenize v) | None \<Rightarrow> map_option tokenize (bt_get doc f))"
    if "\<not> system_name f"
  proof -
    have "f \<noteq> VERSION" "f \<noteq> MODIFIED_AT" "f \<noteq> CREATED_AT" using that n by auto
    then show ?thesis
      using stored_field [OF ok that]
      by (simp add: new_def merge_update_def merge_fields_get map_of_rev_sorted [OF assms(2)] split: option.split)
  qed
qed

section \<open>Progress on a healthy backend\<close>

text \<open>The operation returns \<open>Ok\<close> from every state with the property, and keeps it.\<close>

definition succeeds :: "('s \<Rightarrow> bool) \<Rightarrow> ('s, 'e, 'a) op \<Rightarrow> bool" where
  "succeeds P m \<longleftrightarrow> (\<forall>s. P s \<longrightarrow> (\<exists>a s'. m s = (Inr a, s') \<and> P s'))"

lemma succeeds_bind: "succeeds P m \<Longrightarrow> (\<And>a. succeeds P (f a)) \<Longrightarrow> succeeds P (op_bind m f)"
  unfolding succeeds_def op_bind_def by fastforce

lemma succeeds_iter: "(\<And>x. x \<in> set xs \<Longrightarrow> succeeds P (f x)) \<Longrightarrow> succeeds P (op_iter f xs)"
proof (induction xs)
  case (Cons x xs)
  have "succeeds P (f x)" by (rule Cons.prems) simp
  moreover have "succeeds P (op_iter f xs)" by (rule Cons.IH, rule Cons.prems) simp
  ultimately show ?case by (auto intro: succeeds_bind)
qed (simp add: succeeds_def)

lemma succeeds_upd: "(\<And>s. P s \<Longrightarrow> P (g s)) \<Longrightarrow> succeeds P (op_upd g)"
  by (simp add: succeeds_def)

definition schemaless :: "string \<Rightarrow> db \<Rightarrow> bool" where
  "schemaless c db \<longleftrightarrow> healthy (db_storage db) \<and> dm_get (t_schemas db) c = None"

lemma schemaless_leaves:
  "succeeds (schemaless c) (now_unix_ms env)" "succeeds (schemaless c) (new_uuid env)"
  "succeeds (schemaless c) (next_seq c')" "succeeds (schemaless c) (send ev)"
  "succeeds (schemaless c) (prepare_item now seq c k v)"
  by (auto simp: succeeds_def schemaless_def now_unix_ms_def new_uuid_def next_seq_def Let_def send_def
      prepare_item_def validate_document_def op_bind_def split: option.splits json.splits)

lemma schemaless_log_write: "succeeds (schemaless c) (log_write env cmd c' k v)"
  unfolding succeeds_def
proof (intro allI impI)
  fix db assume db: "schemaless c db"
  let ?e = "new_entry (clock env (t_ticks db)) cmd c' k v"
  obtain st where "write_entry ?e (db_storage db) = (Inr (), st)" "healthy st"
    using healthy_write db unfolding schemaless_def by blast
  then show "\<exists>a db'. log_write env cmd c' k v db = (Inr a, db') \<and> schemaless c db'"
    using db by (simp add: log_write_def op_bind_def now_unix_ms_def schemaless_def)
qed

lemma op_insert_succeeds: "succeeds (schemaless c) (op_insert env c items)"
proof -
  have "succeeds (schemaless c) (insert_item env c kv)" for kv
    unfolding insert_item_def
    by (cases kv, simp only: prod.case)
      (intro succeeds_bind succeeds_upd schemaless_leaves schemaless_log_write;
        simp add: schemaless_def put_doc_def index_put_def)
  then show ?thesis
    unfolding op_insert_def
    by (intro succeeds_bind succeeds_upd succeeds_iter schemaless_leaves schemaless_log_write)
      (auto simp: schemaless_def create_collection_def)
qed

lemma db_insert_succeeds:
  assumes "schemaless c db" and "\<not> db_io_fault db"
    and "dm_get (t_ttl_expiry db) c = None" and "dm_get (db_ttl_defaults db) c = None"
    and "dm_get (db_max_sizes db) c = None"
  shows "\<exists>db'. db_insert env c items db = (Inr (), db')"
proof -
  obtain db1 where ins: "op_insert env c items db = (Inr (), db1)"
    using op_insert_succeeds [of c env items] assms(1) by (auto simp: succeeds_def)
  have "settings db1 = settings db" using keepsD [OF settings_insert _ ins] by blast
  then show ?thesis
    using ins assms(2-5)
    by (simp add: db_insert_def check_fault_def evict_expired_def enforce_max_size_def
        renew_ttl_def settings_def)
qed

section \<open>A small instance\<close>

text \<open>A concrete world and an empty database on a disk, for the examples.\<close>

definition demo_env :: env where
  "demo_env = \<lparr>clock = (\<lambda>n. word_of_nat n), uuid = (\<lambda>n. ''tx''), skip_value = skip_by_reading,
     validator_for = (\<lambda>_. Inr (\<lambda>v. vget v ''bad'' = None)), gzip = id, gunzip = id\<rparr>"

definition demo_disk :: "bytes \<Rightarrow> disk" where
  "demo_disk log = \<lparr>d_log = log, d_buf = [], d_snapshot = None, d_backups = [], d_unreadable = None,
     d_detached = False, d_io = []\<rparr>"

definition demo_db :: db where
  "demo_db = fresh_db (SyncDiskStorage (demo_disk [])) (empty_tables 0)"

abbreviation demo_items :: "(string \<times> json) list" where
  "demo_items \<equiv> [(''k'', Object [(''a'', Null)])]"

definition demo_db1 :: db where
  "demo_db1 = snd (db_insert demo_env ''c'' demo_items demo_db)"

lemma demo_env_ok: "env_ok demo_env"
  by (simp add: env_ok_def demo_env_def gzip_ok_def name_ok_def str_ok_def bytes_of_def)

lemma demo_db_ok: "db_ok env demo_db"
  using empty_db_ok [of env "[]" 0] by (simp add: demo_db_def demo_disk_def)

lemma demo_db_sel:
  "t_ttl_expiry demo_db = []" "db_ttl_defaults demo_db = []" "db_max_sizes demo_db = []"
  "\<not> db_io_fault demo_db" "schemaless c demo_db" "docs_of (t_state demo_db) c k = None"
  by (simp_all add: demo_db_def fresh_db_def tables.extend_def empty_tables_def schemaless_def io_fine_def
      demo_disk_def docs_of_def)

lemma demo_names: "name_ok ''c''" "name_ok ''k''" "list_all item_small demo_items"
  by (simp_all add: name_ok_def str_ok_def bytes_of_def item_small_def doc_small_def value_to_msgpack_def
      write_map_header_def write_map_key_def key_token_def write_str_def)

lemma demo_insert: "db_insert demo_env ''c'' demo_items demo_db = (Inr (), demo_db1)"
  using db_insert_succeeds [of "''c''" demo_db demo_env demo_items] demo_db_sel
  by (auto simp: demo_db1_def)

lemma demo_acked: "acked demo_env demo_db demo_db1"
  using demo_names demo_insert demo_db_sel by (intro acked_insert [of "''c''" demo_items]) simp_all

section \<open>Properties\<close>

text \<open>
  C12. What a successful insert of one object stores (an object without fields named \<open>_v\<close>, \<open>_seq\<close>, \<open>_createdAt\<close> or
  \<open>_modifiedAt\<close>, which the request handler does not let through): every field of the client unchanged that is not named like a system field in its stored form
  (such as \<open>-3\<close>); version 1 for a new
  document and one more than before for an overwrite; as modification time the reading of the clock that follows the
  one in the record that opens the transaction; for a new document the same reading as creation time and the number
  that the collection's counter gives out next, while an overwrite keeps both of the old document; and the
  counter goes up by one. No other document changes.
\<close>

theorem insert_stamps:
  assumes "op_insert env c [(k, Object obj)] db = (Inr u, db')" and "item_small (k, Object obj)"
    and "no_managed obj"
  defines "now \<equiv> clock env (Suc (t_ticks db))" and "seq \<equiv> counter_of db c"
  shows "\<exists>doc. stored_doc db' c k = Some doc \<and>
    get_u64 doc IKEY_VERSION =
      Some (case stored_doc db c k of Some old \<Rightarrow> u64_or 0 old IKEY_VERSION + 1 | None \<Rightarrow> 1) \<and>
    get_u64 doc IKEY_CREATED_AT =
      Some (case stored_doc db c k of Some old \<Rightarrow> u64_or now old IKEY_CREATED_AT | None \<Rightarrow> now) \<and>
    get_u64 doc IKEY_MODIFIED_AT = Some now \<and>
    get_u64 doc IKEY_SEQ =
      Some (case stored_doc db c k of Some old \<Rightarrow> u64_or seq old IKEY_SEQ | None \<Rightarrow> seq) \<and>
    counter_of db' c = seq + 1 \<and>
    (\<forall>f. \<not> system_name f \<longrightarrow> vget doc f = map_option tokenize (bt_get obj f)) \<and>
    (\<forall>c' k'. (c', k') \<noteq> (c, k) \<longrightarrow> stored_doc db' c' k' = stored_doc db c' k')"
proof -
  note d = op_insert_one [OF assms(1,2), folded now_def seq_def]
  have "bt_ok obj" using assms(2) by (simp add: item_small_def doc_small_def)
  note f = item_doc_fields [OF this assms(3), where now = now and seq = seq and old = "docs_of (t_state db) c k"]
  show ?thesis
    unfolding stored_doc_docs
    by (intro exI [of _ "tokenize (item_doc now seq (docs_of (t_state db) c k) (Object obj))"])
      (use f in \<open>auto simp: d\<close>)
qed

theorem insert_stamps_witness:
  "\<exists>db'. stored_doc db' ''c'' ''k'' \<noteq> None \<and>
    Option.bind (stored_doc db' ''c'' ''k'') (\<lambda>doc. get_u64 doc IKEY_VERSION) = Some 1 \<and>
    Option.bind (stored_doc db' ''c'' ''k'') (\<lambda>doc. get_u64 doc IKEY_MODIFIED_AT) = Some 1 \<and>
    Option.bind (stored_doc db' ''c'' ''k'') (\<lambda>doc. get_u64 doc IKEY_SEQ) = Some 0"
proof -
  have zero: "t_ticks demo_db = 0" "counter_of demo_db ''c'' = 0"
    by (simp_all add: demo_db_def fresh_db_def tables.extend_def empty_tables_def counter_of_def)
  obtain db' where i: "op_insert demo_env ''c'' demo_items demo_db = (Inr (), db')"
    using op_insert_succeeds [of "''c''" demo_env demo_items] demo_db_sel(5) by (auto simp: succeeds_def)
  have "item_small (''k'', Object [(''a'', Null)])" "no_managed [(''a'', Null)]"
    using demo_names(3) by (simp_all add: no_managed_def)
  from insert_stamps [OF i this] show ?thesis
    by (auto simp: stored_doc_docs demo_db_sel zero demo_env_def)
qed

text \<open>
  C14. Optimistic concurrency: an update whose version guard differs from the stored version never
  succeeds and changes no document; on a healthy backend the error is \<open>Conflict\<close>.
\<close>

theorem update_conflict:
  assumes "stored_doc db c k = Some doc" and "get_u64 updates VERSION = Some guard_v"
    and "guard_v \<noteq> u64_or 0 doc IKEY_VERSION"
  shows "\<exists>err db'. op_update env c k updates db = (Inl err, db') \<and> t_state db' = t_state db \<and>
    (healthy (db_storage db) \<longrightarrow> err = Conflict)"
proof -
  let ?x = "uuid env (db_uuids db)"
  let ?db0 = "db\<lparr>db_uuids := Suc (db_uuids db)\<rparr>"
  obtain r db1 where b: "log_write env IKEY_TX_BEGIN c ?x Null ?db0 = (r, db1)" by fastforce
  have t: "t_state db1 = t_state db" using log_write_tables [OF b] by simp
  have p: "patch_doc env updates doc db1 = (Inl Conflict, db1)"
    using assms(2,3) by (cases updates) (auto simp: get_u64_def patch_doc_def Let_def)
  have h: "r = Inr ()" if hl: "healthy (db_storage db)"
  proof -
    obtain st where "write_entry (new_entry (clock env (t_ticks db)) IKEY_TX_BEGIN c ?x Null) (db_storage db) = (Inr (), st)"
      using healthy_write [OF hl] by blast
    then show ?thesis using b by (auto simp: log_write_def op_bind_def now_unix_ms_def)
  qed
  show ?thesis
  proof (cases r)
    case (Inl err)
    then show ?thesis
      using b t h by (auto simp: op_update_def op_bind_def new_uuid_def)
  next
    case (Inr a)
    then show ?thesis
      using b t p assms(1) by (simp add: op_update_def op_bind_def new_uuid_def stored_doc_docs)
  qed
qed

lemma demo_op_insert: "op_insert demo_env ''c'' demo_items demo_db = (Inr (), demo_db1)" "schemaless ''c'' demo_db1"
proof -
  obtain db' where i: "op_insert demo_env ''c'' demo_items demo_db = (Inr (), db')" and s: "schemaless ''c'' db'"
    using op_insert_succeeds [of "''c''" demo_env demo_items] demo_db_sel(5) by (auto simp: succeeds_def)
  have "settings db' = settings demo_db" using keepsD [OF settings_insert _ i] by blast
  then have "demo_db1 = db'"
    using i demo_db_sel
    by (simp add: demo_db1_def db_insert_def check_fault_def evict_expired_def enforce_max_size_def
        renew_ttl_def settings_def)
  with i s show "op_insert demo_env ''c'' demo_items demo_db = (Inr (), demo_db1)" "schemaless ''c'' demo_db1"
    by simp_all
qed

lemma demo_doc:
  "\<exists>now seq. stored_doc demo_db1 ''c'' ''k'' = Some (tokenize (Object (stamp_new now seq [(''a'', Null)])))"
proof -
  have sm: "item_small (''k'', Object [(''a'', Null)])" using demo_names(3) by simp
  show ?thesis
    using op_insert_one(1) [OF demo_op_insert(1) sm] by (auto simp: stored_doc_docs demo_db_sel item_doc_def)
qed

lemma demo_version: "\<exists>doc. stored_doc demo_db1 ''c'' ''k'' = Some doc \<and> get_u64 doc IKEY_VERSION = Some 1"
proof -
  obtain now seq where d: "stored_doc demo_db1 ''c'' ''k'' = Some (tokenize (Object (stamp_new now seq [(''a'', Null)])))"
    using demo_doc by blast
  have "no_managed [(''a'', Null)]" "bt_ok [(''a'', Null)]" by (simp_all add: no_managed_def)
  then show ?thesis
    using item_doc_fields(1) [where now = now and seq = seq and old = None and obj = "[(''a'', Null)]"]
    by (simp only: d item_doc_def json.case option.case) simp
qed

theorem update_conflict_witness:
  "\<exists>err db'. op_update demo_env ''c'' ''k'' (Object [(VERSION, json_u64 5)]) demo_db1 = (Inl err, db') \<and>
    t_state db' = t_state demo_db1"
proof -
  obtain doc where d: "stored_doc demo_db1 ''c'' ''k'' = Some doc" "get_u64 doc IKEY_VERSION = Some 1"
    using demo_version by blast
  have "get_u64 (Object [(VERSION, json_u64 5)]) VERSION = Some 5" by (simp add: get_u64_def)
  moreover have "5 \<noteq> u64_or 0 doc IKEY_VERSION" using d(2) by (simp add: u64_or_def)
  ultimately show ?thesis using update_conflict [OF d(1)] by blast
qed

lemma as_u64_tokenize [simp]: "as_u64 (tokenize v) = as_u64 v"
  by (cases v) simp_all

lemma patch_doc_tables: "patch_doc env updates doc db = (r, db') \<Longrightarrow> t_state db' = t_state db"
  by (auto simp: patch_doc_def Let_def op_bind_def now_unix_ms_def split: json.splits if_splits)

lemma tables_ok_doc:
  assumes "tables_ok db" and "stored_doc db c k = Some doc"
  shows "doc_ok doc" and "tokenize doc = doc"
proof -
  obtain b where "dm_get (col_of (t_state db) c) k = Some b" "msgpack_to_value b = Some doc"
    using assms(2) by (auto simp: stored_doc_def col_of_def bind_eq_Some_conv)
  moreover have "bytes_ok b"
    using calculation(1) state_ok_col [of "t_state db" c] assms(1)
    by (auto simp: tables_ok_def col_ok_def dest!: map_of_SomeD)
  ultimately obtain v where "doc = tokenize v" "doc_small (2 ^ 29) v"
    using doc_small_ok by (fastforce simp: bytes_ok_def)
  moreover from this have "doc_ok v" by (auto intro: doc_small_ok)
  ultimately show "doc_ok doc" and "tokenize doc = doc" by simp_all
qed

lemma tokenized_keys:
  assumes "tokenize (Object m) = Object m" and "bt_get m k \<noteq> None"
  shows "ikey_of k = k"
proof -
  let ?kvs = "map (\<lambda>(k, v). (ikey_of k, tokenize v)) m"
  have "k \<in> fst ` set (of_entries ?kvs)"
    using assms by (simp add: map_of_eq_None_iff)
  then show ?thesis using set_of_entries [of ?kvs] by auto
qed

lemma op_update_object:
  assumes "stored_doc db c k = Some (Object m)" and "patch_small db c k (Object upd)"
    and "op_update env c k (Object upd) db = (Inr found, db')"
  obtains v where "found"
    and "v = Object (merge_update (u64_or 0 (Object m) IKEY_VERSION) (clock env (Suc (t_ticks db))) upd m)"
    and "\<forall>g. get_u64 (Object upd) VERSION = Some g \<longrightarrow> g = u64_or 0 (Object m) IKEY_VERSION"
    and "doc_ok v" and "t_state db' = t_state (put_doc c k (value_to_msgpack v) db)"
proof -
  let ?x = "uuid env (db_uuids db)" and ?u = "Object upd"
  let ?db0 = "db\<lparr>db_uuids := Suc (db_uuids db)\<rparr>"
  obtain db1 where b: "log_write env IKEY_TX_BEGIN c ?x Null ?db0 = (Inr (), db1)"
    using assms(3) by (auto simp: op_update_def op_bind_eq_Inr new_uuid_def)
  have t1: "t_state db1 = t_state db" using log_write_tables [OF b] by simp
  have doc1: "stored_doc db1 c k = Some (Object m)" using assms(1) t1 by (simp add: stored_doc_docs)
  obtain v db2 db3 db4 db5 where pd: "patch_doc env ?u (Object m) db1 = (Inr v, db2)"
    and vd: "validate_document c v db2 = (Inr (), db3)"
    and lw: "log_write env IKEY_INSERT c k v (put_doc c k (value_to_msgpack v) db3) = (Inr (), db4)"
    and e: "log_write env IKEY_TX_COMMIT c ?x Null db4 = (Inr (), db5)"
    and db': "t_state db' = t_state db5" and found: "found"
    using assms(3) b doc1 by (auto simp: op_update_def op_bind_eq_Inr new_uuid_def send_def)
  have sm: "doc_small (2 ^ 25) ?u" "doc_small (2 ^ 27) (Object m)"
    using assms(1,2) by (simp_all add: patch_small_def stored_doc_docs)
  have v: "v = Object (merge_update (u64_or 0 (Object m) IKEY_VERSION) (clock env (Suc (t_ticks db))) upd m)"
    using pd log_write_ticks [OF b] by (auto simp: patch_doc_def Let_def op_bind_def now_unix_ms_def split: if_splits)
  have guard: "\<forall>g. get_u64 ?u VERSION = Some g \<longrightarrow> g = u64_or 0 (Object m) IKEY_VERSION"
    using pd by (auto simp: patch_doc_def Let_def split: if_splits)
  have t3: "t_state db3 = t_state db"
    using patch_doc_tables [OF pd] validate_Inr [OF vd] t1 by simp
  have "doc_ok v" using patch_doc_Inr(2) [OF pd sm] by (rule doc_small_ok) simp
  moreover have "t_state db' = t_state (put_doc c k (value_to_msgpack v) db)"
    using log_write_tables [OF lw] log_write_tables [OF e] t3 by (simp add: db' put_doc_def)
  ultimately show ?thesis using that found v guard by blast
qed

text \<open>
  C13. What a successful update of a stored object does, for a patch whose fields are the client's own (none named like a system field in stored form), and perhaps
  \<open>_v\<close> (as a guard) or \<open>_createdAt\<close>: every field of the client's in the patch has its new value, every other one its old; the
  version is one higher than before, and if the patch has a guard that is a number it was the old version; the
  modification time is the reading of the clock that follows the one in the record that opens the transaction; creation
  time and sequence number are unchanged, and so are all other documents.
\<close>

theorem update_merges:
  assumes "tables_ok db" and "stored_doc db c k = Some (Object m)"
    and "bt_ok upd" and "\<forall>f. bt_get upd f \<noteq> None \<longrightarrow> client_field f"
    and "patch_small db c k (Object upd)"
    and "op_update env c k (Object upd) db = (Inr found, db')"
  shows "found \<and> (\<exists>doc. stored_doc db' c k = Some doc \<and>
    get_u64 doc IKEY_VERSION = Some (u64_or 0 (Object m) IKEY_VERSION + 1) \<and>
    (\<forall>g. get_u64 (Object upd) VERSION = Some g \<longrightarrow> g = u64_or 0 (Object m) IKEY_VERSION) \<and>
    get_u64 doc IKEY_MODIFIED_AT = Some (clock env (Suc (t_ticks db))) \<and>
    get_u64 doc IKEY_CREATED_AT = get_u64 (Object m) IKEY_CREATED_AT \<and>
    get_u64 doc IKEY_SEQ = get_u64 (Object m) IKEY_SEQ \<and>
    (\<forall>f. \<not> system_name f \<longrightarrow> vget doc f =
       (case bt_get upd f of Some v \<Rightarrow> Some (tokenize v) | None \<Rightarrow> map_option tokenize (bt_get m f)))) \<and>
    (\<forall>c' k'. (c', k') \<noteq> (c, k) \<longrightarrow> stored_doc db' c' k' = stored_doc db c' k')"
proof -
  let ?now = "clock env (Suc (t_ticks db))"
  obtain v where found: "found" and v: "v = Object (merge_update (u64_or 0 (Object m) IKEY_VERSION) ?now upd m)"
    and guard: "\<forall>g. get_u64 (Object upd) VERSION = Some g \<longrightarrow> g = u64_or 0 (Object m) IKEY_VERSION"
    and ok: "doc_ok v" and st: "t_state db' = t_state (put_doc c k (value_to_msgpack v) db)"
    using op_update_object [OF assms(2,5,6)] .
  have docs: "docs_of (t_state db') = (docs_of (t_state db))(c := (docs_of (t_state db) c)(k \<mapsto> tokenize v))"
    using ok by (simp add: st put_doc_def docs_insert)
  have m: "bt_ok m" using tables_ok_doc(1) [OF assms(1,2)] by (simp only: doc_ok_Object)
  note ik = tokenized_keys [OF tables_ok_doc(2) [OF assms(1,2)]]
  note f = merge_update_fields [OF m assms(3) _ ik, where now = ?now
      and ver = "u64_or 0 (Object m) IKEY_VERSION", folded v]
  have own: "\<And>f. bt_get upd f \<noteq> None \<Longrightarrow> client_field f" using assms(4) by blast
  have u64: "Option.bind (map_option tokenize x) as_u64 = Option.bind x as_u64" for x
    by (cases x) simp_all
  have "get_u64 (tokenize v) IKEY_CREATED_AT = get_u64 (Object m) IKEY_CREATED_AT"
    "get_u64 (tokenize v) IKEY_SEQ = get_u64 (Object m) IKEY_SEQ"
    using f(3,4) [OF own] by (simp_all add: get_u64_def u64)
  then show ?thesis
    unfolding stored_doc_docs docs using found guard f(1,2,5) [OF own] by auto
qed

lemma succeeds_option:
  "(\<And>d. succeeds P (g d)) \<Longrightarrow> succeeds P h \<Longrightarrow> succeeds P (\<lambda>db. case f db of Some d \<Rightarrow> g d db | None \<Rightarrow> h db)"
  by (auto simp: succeeds_def split: option.split)

lemma op_update_succeeds:
  assumes "get_u64 updates VERSION = None"
  shows "succeeds (schemaless c) (op_update env c k updates)"
proof -
  have now: "succeeds (schemaless c) (op_bind (now_unix_ms env) (\<lambda>now. op_return (f now)))" for f :: "u64 \<Rightarrow> json"
    by (intro succeeds_bind schemaless_leaves) (simp add: succeeds_def)
  have ret': "succeeds (schemaless c) (op_return x)" for x :: json
    by (simp add: succeeds_def)
  have p: "succeeds (schemaless c) (patch_doc env updates doc)" for doc
    unfolding patch_doc_def Let_def assms option.case if_False
    by (cases updates; cases doc) (simp_all only: json.case now ret')
  have v: "succeeds (schemaless c) (validate_document c v)" for v
    by (auto simp: succeeds_def validate_document_def schemaless_def)
  have u: "succeeds (schemaless c) (op_upd (put_doc c k x))" for x
    by (rule succeeds_upd) (simp add: schemaless_def put_doc_def)
  have r: "succeeds (schemaless c) (op_return x)" for x :: bool by (simp add: succeeds_def)
  show ?thesis
    unfolding op_update_def
    by (intro succeeds_bind succeeds_option p v u r schemaless_log_write schemaless_leaves)
qed


lemma demo_update: "\<exists>m. stored_doc demo_db1 ''c'' ''k'' = Some (Object m) \<and> u64_or 0 (Object m) IKEY_VERSION = 1"
  "patch_small demo_db1 ''c'' ''k'' (Object [(''a'', Bool True)])"
  "\<exists>found db'. op_update demo_env ''c'' ''k'' (Object [(''a'', Bool True)]) demo_db1 = (Inr found, db')"
proof -
  obtain now seq where d: "stored_doc demo_db1 ''c'' ''k'' = Some (tokenize (Object (stamp_new now seq [(''a'', Null)])))"
    using demo_doc by blast
  then show "\<exists>m. stored_doc demo_db1 ''c'' ''k'' = Some (Object m) \<and> u64_or 0 (Object m) IKEY_VERSION = 1"
    using demo_version by (auto simp: u64_or_def)
  show "patch_small demo_db1 ''c'' ''k'' (Object [(''a'', Bool True)])"
  proof -
    have "doc_small (8 + 14 + 14 + 14 + 14) (Object (stamp_new now seq [(''a'', Null)]))"
      unfolding stamp_new_def
      by (intro doc_small_stamp) (simp_all add: doc_small_def value_to_msgpack_def write_map_header_def
          write_map_key_def key_token_def write_str_def str_ok_def bytes_of_def)
    then have "doc_small (2 ^ 27) (tokenize (Object (stamp_new now seq [(''a'', Null)])))"
      by (intro doc_small_tokenize) (erule doc_small_mono, simp)
    moreover have "doc_small (2 ^ 25) (Object [(''a'', Bool True)])"
      by (simp add: doc_small_def value_to_msgpack_def write_map_header_def write_map_key_def key_token_def
          write_str_def str_ok_def bytes_of_def)
    ultimately show ?thesis using d by (simp only: patch_small_def stored_doc_docs option.case)
  qed
  have "get_u64 (Object [(''a'', Bool True)]) VERSION = None" by (simp add: get_u64_def)
  then show "\<exists>found db'. op_update demo_env ''c'' ''k'' (Object [(''a'', Bool True)]) demo_db1 = (Inr found, db')"
    using op_update_succeeds demo_op_insert(2) unfolding succeeds_def by blast
qed


theorem update_merges_witness:
  "\<exists>found db'. op_update demo_env ''c'' ''k'' (Object [(''a'', Bool True)]) demo_db1 = (Inr found, db') \<and> found \<and>
    Option.bind (stored_doc db' ''c'' ''k'') (\<lambda>doc. get_u64 doc IKEY_VERSION) = Some 2"
proof -
  obtain m where m: "stored_doc demo_db1 ''c'' ''k'' = Some (Object m)" "u64_or 0 (Object m) IKEY_VERSION = 1"
    using demo_update(1) by blast
  obtain found db' where u: "op_update demo_env ''c'' ''k'' (Object [(''a'', Bool True)]) demo_db1 = (Inr found, db')"
    using demo_update(3) by blast
  have t: "tables_ok demo_db1"
    using acked_ok [OF demo_env_ok demo_acked demo_db_ok] by (simp add: db_ok_def)
  have s: "\<forall>f. bt_get [(''a'', Bool True)] f \<noteq> None \<longrightarrow> client_field f"
    by (simp add: client_field_def system_name_def ikey_of_def expand_key_def)
  show ?thesis
    using update_merges [OF t m(1) _ s demo_update(2) u] u m(2) by auto
qed

text \<open>
  An update leaves the old version and modification time in the stored bytes beside the new
  ones: the raw scan that WHERE clauses on system fields use returns the old value, a decoding
  reader the new one.
\<close>

lemma update_leaves_stale_fields:
  assumes "env_ok env" and "tables_ok db" and "stored_doc db c k = Some (Object m)"
    and "bt_get m IKEY_VERSION = Some (json_u64 ver)" and "bt_get m IKEY_MODIFIED_AT = Some (json_u64 t)"
    and "bt_ok upd" and "\<forall>f. bt_get upd f \<noteq> None \<longrightarrow> \<not> system_name f"
    and "patch_small db c k (Object upd)"
    and "op_update env c k (Object upd) db = (Inr found, db')"
  shows "\<exists>b doc. dm_get (col_of (t_state db') c) k = Some b \<and> msgpack_to_value b = Some doc \<and>
    get_u64 doc IKEY_VERSION = Some (ver + 1) \<and>
    read_token_u64 (skip_value env) b TOK_VERSION = Returns (Some ver) \<and>
    read_token_u64 (skip_value env) b TOK_MODIFIED_AT = Returns (Some t)"
proof -
  have ver: "u64_or 0 (Object m) IKEY_VERSION = ver"
    using assms(4) by (simp add: u64_or_def get_u64_def)
  obtain now v where v: "v = Object (merge_update ver now upd m)"
    and ok: "doc_ok v" and st: "t_state db' = t_state (put_doc c k (value_to_msgpack v) db)"
    using op_update_object [OF assms(3,8,9)] unfolding ver by blast
  have m: "bt_ok m" using tables_ok_doc(1) [OF assms(2,3)] by (simp only: doc_ok_Object)
  note ik = tokenized_keys [OF tables_ok_doc(2) [OF assms(2,3)]]
  have nosys: "\<And>f. bt_get upd f \<noteq> None \<Longrightarrow> \<not> system_name f" using assms(7) by blast
  have g: "get_u64 (tokenize v) IKEY_VERSION = Some (ver + 1)"
    unfolding v using nosys by (intro merge_update_fields(1) [OF m assms(6) _ ik]) (auto simp: client_field_def)
  have s: "system_name IKEY_VERSION" "system_name IKEY_MODIFIED_AT"
    by (simp_all add: system_name_def expand_key_def)
  then have "bt_get upd IKEY_VERSION = None" "bt_get upd IKEY_MODIFIED_AT = None" using nosys by blast+
  then have f: "bt_get (merge_update ver now upd m) IKEY_VERSION = Some (json_u64 ver)"
    "bt_get (merge_update ver now upd m) IKEY_MODIFIED_AT = Some (json_u64 t)"
    using assms(4,5) by (simp_all add: merge_update_def merge_fields_get map_of_rev_sorted [OF assms(6)])
  have "bt_ok (merge_update ver now upd m)"
    using ok unfolding v by (simp only: doc_ok_Object)
  note r = raw_field_ikey(1,4) [OF this]
  have sk: "skips_values (skip_value env)" using assms(1) by (simp add: env_ok_def)
  have "read_token_u64 (skip_value env) (value_to_msgpack v) TOK_VERSION = Returns (Some ver)"
    "read_token_u64 (skip_value env) (value_to_msgpack v) TOK_MODIFIED_AT = Returns (Some t)"
    using f r by (simp_all add: v read_token_written [OF sk _ ok [unfolded v]] is_token_def)
  moreover have "dm_get (col_of (t_state db') c) k = Some (value_to_msgpack v)"
    by (simp add: st put_doc_def col_of_def)
  ultimately show ?thesis using g ok by auto
qed

lemma demo_fields:
  "\<exists>m. stored_doc demo_db1 ''c'' ''k'' = Some (Object m) \<and> bt_get m IKEY_VERSION = Some (json_u64 1) \<and>
     (\<exists>t. bt_get m IKEY_MODIFIED_AT = Some (json_u64 t))"
proof -
  obtain now seq where d: "stored_doc demo_db1 ''c'' ''k'' = Some (tokenize (Object (stamp_new now seq [(''a'', Null)])))"
    using demo_doc by blast
  have t: "tokenize (Object (stamp_new now seq [(''a'', Null)])) = Object (stamp_new now seq [(''a'', Null)])"
    by (simp add: stamp_new_def ikey_of_def)
  show ?thesis unfolding d t by (auto simp: stamp_new_def)
qed

end
