(* ===== verification/Recovery.thy ===== *)
theory Recovery
  imports Operations
begin

text \<open>
  What a restart recovers: replay of an arbitrary log file, crashes in the middle of a record,
  interleaved writers, and compaction that fails or runs under encryption.
\<close>


section \<open>Replay of any log file\<close>

lemma stream_list_counting:
  "stream_list (counting (replay_step env)) els (n, rp) =
     (Continue, (n + length els,
       (fold (replay_entry env) (map fst els) rp)\<lparr>rp_count := rp_count rp + length els\<rparr>))"
proof -
  have "stream_list (counting (replay_step env)) els (n, rp) =
      (fst (stream_list (replay_step env) els rp),
       (n + length els, snd (stream_list (replay_step env) els rp)))"
    by (induction els arbitrary: n rp) (auto simp: counting_def replay_step_def)
  then show ?thesis by (simp add: stream_list_replay)
qed

text \<open>The records a reader finds in the bytes of a log.\<close>

definition log_records :: "env \<Rightarrow> bytes \<Rightarrow> log_entry list" where
  "log_records env b = map fst (decode_frames (skip_value env) (frames b))"

lemma replay_disk:
  assumes "d_snapshot d = None" and "d_unreadable d = None"
  shows "stream_into_state env (SyncDiskStorage d) t =
    (Inr (length (log_records env (d_log d))), replay_tables env (log_records env (d_log d)) t)"
proof -
  have "frames [] = []" by (simp add: frames.simps)
  then show ?thesis
    using assms stream_list_counting [of env "decode_frames (skip_value env) (frames (d_log d))" 0 "replay_start t"]
    by (simp add: stream_into_state_def stream_log_into_def sync_stream_def load_snapshot_def
        log_path_def stream_log_entries_def stream_frames_eq replay_tables_def log_records_def replay_start_def)
qed

lemma log_records_written: "list_all record_ok es \<Longrightarrow> log_records env (log_bytes es) = map stored_entry es"
  by (simp add: log_records_def frames_log_bytes decode_written)

section \<open>Crashes\<close>

text \<open>
  C2. Atomicity and prefix durability across a crash: whatever prefix of a log of transactions
  reached the disk, replay applies exactly the first \<open>j\<close> transactions, each of them whole, and
  every transaction whose last byte reached the disk is among them.
\<close>

theorem crash_recovers_prefix:
  assumes "list_all item_ok is" and "list_all record_ok (concat (map item_entries is))"
    and "d_snapshot d = None" and "d_unreadable d = None"
    and "d_log d = take n (log_bytes (concat (map item_entries is)))"
  shows "\<exists>j\<le>length is. \<exists>m.
    stream_into_state env (SyncDiskStorage d) t =
      (Inr m, fold (apply_entry env) (map stored_entry (concat (map item_body (take j is)))) t) \<and>
    (\<forall>i\<le>length is. length (log_bytes (concat (map item_entries (take i is)))) \<le> n \<longrightarrow> i \<le> j)"
  using crash_prefix [OF assms(1,2), of env "skip_value env" n t]
  by (simp add: replay_disk [OF assms(3,4)] assms(5) log_records_def)

definition demo_tx :: "string \<Rightarrow> string \<Rightarrow> log_item" where
  "demo_tx x k = Tx (new_entry 0 IKEY_TX_BEGIN ''c'' x Null) [new_entry 0 IKEY_INSERT ''c'' k (Object [])]
     (new_entry 0 IKEY_TX_COMMIT ''c'' x Null)"

lemma demo_record_ok:
  assumes "name_ok cmd" and "name_ok k" and "v \<in> {Null, Object []}"
  shows "record_ok (new_entry 0 cmd ''c'' k v)"
proof -
  have "doc_small (2 ^ 29) v" using assms(3) 
    by (auto simp: doc_small_def value_to_msgpack_def write_map_header_def)
  then show ?thesis using assms(1,2) demo_names(1) by (intro new_entry_record)
qed

lemma demo_tx_ok:
  assumes "name_ok x" and "name_ok k"
  shows "item_ok (demo_tx x k)" and "list_all record_ok (item_entries (demo_tx x k))"
  using assms by (auto simp: demo_tx_def new_entry_def plain_def intro!: demo_record_ok [unfolded new_entry_def])

theorem crash_recovers_prefix_witness:
  "\<exists>j\<le>1. \<exists>m. stream_into_state demo_env (SyncDiskStorage (demo_disk (take 7 (log_bytes (item_entries (demo_tx ''x'' ''k'')))))) (empty_tables 0) =
      (Inr m, fold (apply_entry demo_env) (map stored_entry (concat (map item_body (take j [demo_tx ''x'' ''k''])))) (empty_tables 0))"
proof -
  have "name_ok ''x''" by (simp add: name_ok_def str_ok_def bytes_of_def)
  note ok = demo_tx_ok [OF this demo_names(2)]
  show ?thesis
    using crash_recovers_prefix [of "[demo_tx ''x'' ''k'']" "demo_disk (take 7 (log_bytes (item_entries (demo_tx ''x'' ''k''))))" 7
        demo_env "empty_tables 0"] ok by (auto simp: demo_disk_def)
qed

lemma frames_append: "list_all record_ok es \<Longrightarrow> frames (log_bytes es @ r) = map log_entry_to_msgpack es @ frames r"
  by (induction es) (simp_all add: frames_written record_ok_def)

lemma torn_frames:
  assumes "record_ok torn" and "4 \<le> n" and "n + length r < length (write_msgpack_entry torn)"
  shows "frames (take n (write_msgpack_entry torn) @ r) = []"
proof -
  let ?tail = "take n (write_msgpack_entry torn) @ r"
  have "take 4 ?tail = le_bytes 4 (length (log_entry_to_msgpack torn))"
    using assms(2,3) by (simp add: write_msgpack_entry_def Let_def min_def)
  then show ?thesis
    using assms by (subst frames.simps) (simp add: from_le_le_bytes record_ok_def write_msgpack_entry_def Let_def)
qed

text \<open>
  C20. A torn tail swallows later writes. When a crash left a proper prefix of a record at the end
  of the log, reopening keeps the torn bytes and appends behind them. While the appended bytes fit
  into the rest of the torn record, the reader takes them for its payload: a write that was
  acknowledged after the restart is not there after the next one.
\<close>

theorem torn_tail_swallows:
  assumes "list_all record_ok es" and "record_ok torn" and "4 \<le> n"
    and "n + length (write_msgpack_entry e) < length (write_msgpack_entry torn)"
    and "d_snapshot d = None" and "d_unreadable d = None" and "d_buf d = []" and "\<not> d_detached d"
    and "d_log d = log_bytes es @ take n (write_msgpack_entry torn)"
    and "write_entry e (SyncDiskStorage d) = (Inr (), st')"
  shows "stream_into_state env st' t = stream_into_state env (SyncDiskStorage d) t"
proof -
  obtain d' where d': "st' = SyncDiskStorage d'" "d_log d' = d_log d @ write_msgpack_entry e"
    "d_snapshot d' = None" "d_unreadable d' = None"
    using assms(5,6,10) sync_write_ok [OF _ assms(7,8)] by (auto split: prod.splits)
  have "log_records env (d_log d') = log_records env (d_log d)"
    using frames_append [OF assms(1)] torn_frames [OF assms(2-4)] torn_frames [OF assms(2,3), of "[]"] assms(4)
    by (simp add: log_records_def d' assms(9))
  then show ?thesis
    by (simp add: d' replay_disk [OF assms(5,6)] replay_disk)
qed

theorem torn_tail_swallows_witness:
  "\<exists>st'. write_entry (new_entry 0 IKEY_DROP [] [] Null)
      (SyncDiskStorage (demo_disk (take 4 (write_msgpack_entry (new_entry 0 IKEY_DROP ''c'' ''abcdefgh'' Null))))) = (Inr (), st') \<and>
    stream_into_state demo_env st' (empty_tables 0) = (Inr 0, empty_tables 0)"
proof -
  let ?torn = "new_entry 0 IKEY_DROP ''c'' ''abcdefgh'' Null" and ?e = "new_entry 0 IKEY_DROP [] [] Null"
  let ?d = "demo_disk (take 4 (write_msgpack_entry ?torn))"
  have "name_ok ''abcdefgh''" by (simp add: name_ok_def str_ok_def bytes_of_def)
  then have ok: "record_ok ?torn" by (intro demo_record_ok) simp_all
  have len: "4 + length (write_msgpack_entry ?e) < length (write_msgpack_entry ?torn)"
    by (simp add: write_msgpack_entry_def Let_def log_entry_to_msgpack_def new_entry_def write_str_def cmd_token_def)
  obtain st' where w: "write_entry ?e (SyncDiskStorage ?d) = (Inr (), st')"
    using healthy_write [of "SyncDiskStorage ?d" ?e] by (auto simp: io_fine_def demo_disk_def)
  have "log_records demo_env (take 4 (write_msgpack_entry ?torn)) = []"
    using torn_frames [OF ok, of 4 "[]"] len by (simp add: log_records_def)
  then have "stream_into_state demo_env (SyncDiskStorage ?d) (empty_tables 0) = (Inr 0, empty_tables 0)"
    using replay_disk [of ?d demo_env "empty_tables 0"]
    by (simp add: demo_disk_def replay_tables_def replay_start_def)
  then show ?thesis
    using torn_tail_swallows [of "[]" ?torn 4 ?e ?d st' demo_env "empty_tables 0"] ok len w
    by (simp add: demo_disk_def)
qed

section \<open>Interleaved writers\<close>

text \<open>
  Two transactions whose records interleave in the log: the begin record of the second discards
  what the first has buffered and its commit record no longer matches, so replay applies only the
  second, although both were committed.
\<close>

lemma interleaved_commit_lost:
  assumes "list_all plain es1" and "list_all plain es2" and "x1 \<noteq> x2"
  shows "replay_tables env
      (new_entry t1 IKEY_TX_BEGIN c x1 Null # es1 @ new_entry t2 IKEY_TX_BEGIN c x2 Null #
       new_entry t3 IKEY_TX_COMMIT c x1 Null # es2 @ [new_entry t4 IKEY_TX_COMMIT c x2 Null]) t
    = fold (apply_entry env) es2 t"
proof -
  let ?b = "\<lambda>t x. new_entry t IKEY_TX_BEGIN c x Null" and ?c = "\<lambda>t x. new_entry t IKEY_TX_COMMIT c x Null"
  have b: "replay_entry env (?b t x) rp = rp\<lparr>rp_active := Some x, rp_buffer := []\<rparr>" for t x rp
    by (simp add: replay_entry_def new_entry_def)
  have c: "replay_entry env (?c t x) rp = (if rp_active rp = Some x then
      rp\<lparr>rp_tables := fold (apply_entry env) (rp_buffer rp) (rp_tables rp), rp_buffer := [], rp_active := None\<rparr> else rp)" for t x rp
    by (simp add: replay_entry_def new_entry_def)
  show ?thesis
    using assms by (simp add: replay_tables_def b c replay_body replay_start_def)
qed

section \<open>Compaction\<close>

text \<open>
  C21. Compaction whose snapshot cannot be written still empties the log and reports success: with
  no earlier snapshot, nothing is recovered afterwards.
\<close>

theorem failed_snapshot_loses_log:
  assumes "d_io d = [IoErr n keep]" and "d_snapshot d = None" and "d_unreadable d = None"
  shows "\<exists>st'. compact_from_maps env tabs schemas (SyncDiskStorage d) = (Inr (), st') \<and>
    stream_into_state env st' t = (Inr 0, t)"
proof -
  obtain d' where d': "compact_from_maps env tabs schemas (SyncDiskStorage d) = (Inr (), SyncDiskStorage d')"
    "d_log d' = []" "d_snapshot d' = None" "d_unreadable d' = None"
    using assms by (simp add: sync_compact_from_maps_def write_snapshot_from_maps_def op_bind_def io_call_def
        next_io_def swap_log_def write_compacted_log_no_tx_def)
  have "log_records env [] = []" by (simp add: log_records_def frames.simps)
  then show ?thesis
    using d' replay_disk [OF d'(3,4), of env t]
    by (intro exI [of _ "SyncDiskStorage d'"]) (simp add: replay_tables_def replay_start_def)
qed

theorem failed_snapshot_loses_log_witness:
  "\<exists>st'. compact_from_maps demo_env [(''c'', [(''k'', value_to_msgpack Null)])] []
      (SyncDiskStorage ((demo_disk (log_bytes (item_entries (demo_tx ''x'' ''k''))))\<lparr>d_io := [IoErr 0 False]\<rparr>)) = (Inr (), st') \<and>
    stream_into_state demo_env st' (empty_tables 0) = (Inr 0, empty_tables 0)"
  by (rule failed_snapshot_loses_log [where n = 0 and keep = False]) (simp_all add: demo_disk_def)

text \<open>
  The same with every call of the snapshot's encoder successful: the last flush happens in the drop of the buffered
  writer, which ignores its outcome. A file cut within the header is moved into place, and the log is emptied.
\<close>

lemma cut_snapshot_loses_log:
  assumes "d_io d = [IoOk, IoErr n keep]" and "n < 8" and "d_snapshot d = None" and "d_unreadable d = None"
  shows "\<exists>d'. compact_from_maps env tabs schemas (SyncDiskStorage d) = (Inr (), SyncDiskStorage d') \<and>
    d_snapshot d' \<noteq> None \<and> stream_into_state env (SyncDiskStorage d') t = (Inr 0, t)"
proof -
  let ?tmp = "snapshot_header (snapshot_count tabs schemas) 0 @ gzip env (snapshot_body tabs schemas)"
  obtain d' where d': "compact_from_maps env tabs schemas (SyncDiskStorage d) = (Inr (), SyncDiskStorage d')"
    "d_log d' = []" "d_snapshot d' = Some (take n ?tmp)" "d_unreadable d' = None"
    using assms by (simp add: sync_compact_from_maps_def write_snapshot_from_maps_def finish_snapshot_gz_def
        drop_snapshot_writer_def op_bind_def io_call_def next_io_def swap_log_def write_compacted_log_no_tx_def)
  have "load_snapshot env (d_snapshot d') f s = load_snapshot env None f s" for f :: "(nat \<times> replay) callback" and s
    using assms(2) unfolding d'(3) by (simp add: load_snapshot_def read_exact_def)
  moreover have "load_snapshot env None f s = (None, s)" for f :: "(nat \<times> replay) callback" and s
    by (simp add: load_snapshot_def)
  moreover have "log_path (d'\<lparr>d_snapshot := None\<rparr>) = log_path d'" by (simp add: log_path_def split: option.split)
  ultimately have "stream_into_state env (SyncDiskStorage d') t = stream_into_state env (SyncDiskStorage (d'\<lparr>d_snapshot := None\<rparr>)) t"
    by (simp add: stream_into_state_def stream_log_into_def sync_stream_def)
  moreover have "log_records env [] = []" by (simp add: log_records_def frames.simps)
  ultimately have "stream_into_state env (SyncDiskStorage d') t = (Inr 0, t)"
    using replay_disk [of "d'\<lparr>d_snapshot := None\<rparr>" env t] d'(2,4) by (simp add: replay_tables_def replay_start_def)
  then show ?thesis using d'(1,3) by auto
qed

text \<open>
  C22. Compaction of an encrypted database writes the snapshot in the clear: the files left by a
  successful compaction open without the key and hold every document.
\<close>

theorem encrypted_snapshot_in_clear:
  assumes "env_ok env" and "db_ok env db" and "db_storage db = EncryptedStorage c n inner"
    and "storage_fine inner" and "length (compacted (t_state db) (t_schemas db)) < 2 ^ 64"
  shows "\<exists>db' inner' db''. db_compact env db = (Inr (), db') \<and> db_storage db' = EncryptedStorage c n inner' \<and>
    db_open env tick inner' = Inr db'' \<and> (\<forall>col k. stored_doc db'' col k = stored_doc db col k)"
proof -
  have st: "state_ok (t_state db)" "schemas_ok (t_schemas db)"
    using assms(2) by (simp_all add: db_ok_def tables_ok_def)
  obtain es where "logs env inner es" using assms(2,3) by (auto simp: db_ok_def consistent_def)
  then obtain s' where s': "compact_from_maps env (t_state db) (t_schemas db) inner = (Inr (), s')"
    "logs env s' (map stored_entry (compacted_by inner (t_state db) (t_schemas db)))"
    using compact_storage_logs [OF _ assms(4) st assms(5)] by metis
  note ok = compacted_ok [OF st]
  let ?es = "map stored_entry (compacted_by inner (t_state db) (t_schemas db))"
  have "list_all (\<lambda>e. doc_ok (e_value e)) ?es"
    using ok(2) by (auto simp: list_all_iff doc_record_def)
  then obtain db'' where db'': "db_open env tick s' = Inr db''"
    "t_state db'' = t_state (replay_tables env ?es (empty_tables tick))"
    using open_logs [OF assms(1) s'(2)] by metis
  have "docs_of (t_state (empty_tables tick)) = (\<lambda>_ _. None)"
    by (simp add: empty_tables_def docs_of_def fun_eq_iff)
  then have "docs_of (t_state db'') = docs_of (t_state db)"
    using replay_plain [OF ok(2)] ok(3) by (simp add: db''(2))
  then show ?thesis
    using s'(1) db''(1) assms(3) by (simp add: db_compact_def stored_doc_docs)
qed


text \<open>An authenticated cipher that fits the contract: the identity, with hexadecimal digits for base64.\<close>

primrec hex :: "bytes \<Rightarrow> string" where
  "hex [] = []"
| "hex (b # bs) = char_of (48 + unat b div 16) # char_of (48 + unat b mod 16) # hex bs"

fun unhex :: "string \<Rightarrow> bytes option" where
  "unhex [] = Some []"
| "unhex [x] = None"
| "unhex (x # y # s) = map_option (Cons (word_of_nat ((of_char x - 48) * 16 + (of_char y - 48)))) (unhex s)"

definition demo_cipher :: cipher where
  "demo_cipher = \<lparr>c_encrypt = (\<lambda>n p. Some p), c_decrypt = (\<lambda>n x. Some x), c_b64_encode = hex, c_b64_decode = unhex,
     c_nonce = (\<lambda>n. replicate 24 0), c_time = (\<lambda>n. 0)\<rparr>"

definition demo_enc_db :: db where
  "demo_enc_db = fresh_db (EncryptedStorage demo_cipher 0 (SyncDiskStorage (demo_disk []))) (empty_tables 0)"

lemma unat_byte: "unat (b :: 8 word) < 256"
  using unsigned_less [of b] by simp

lemma hex_digits:
  assumes "n < 16"
  shows "of_char (char_of (48 + n :: nat) :: char) = (48 + n :: nat)"
  using assms by (simp add: of_char_of)

lemma unhex_hex [simp]: "unhex (hex bs) = Some bs"
proof (induction bs)
  case (Cons b bs)
  have "unat b div 16 < 16" "unat b mod 16 < 16" using unat_byte [of b] by auto
  moreover have "word_of_nat (unat b div 16 * 16 + unat b mod 16) = b" by simp
  ultimately show ?case using Cons by (simp add: hex_digits del: of_nat_add of_nat_mult)
qed simp

lemma str_ok_hex: "str_ok (hex bs)"
proof -
  have "(word_of_nat (48 + n) :: u8) < 0x80" if "n < 16" for n
    using that by (simp add: word_less_nat_alt unat_of_nat del: of_nat_add)
  then have d: "(word_of_nat (of_char (char_of (48 + n :: nat) :: char)) :: u8) < 0x80" if "n < 16" for n
    using that by (simp only: hex_digits)
  have "unat b div 16 < 16" "unat b mod 16 < 16" for b :: u8 using unat_byte [of b] by auto
  then show ?thesis
    by (induction bs) (simp_all add: str_ok_def bytes_of_def d del: of_char_of)
qed

lemma length_hex: "length (hex bs) = 2 * length bs"
  by (induction bs) simp_all

lemma demo_cipher_ok: "cipher_ok demo_cipher"
  by (simp add: cipher_ok_def demo_cipher_def str_ok_hex)

lemma demo_cipher_roomy: "roomy (EncryptedStorage demo_cipher n (SyncDiskStorage d))"
  unfolding roomy_def
proof (intro allI impI)
  fix e assume e: "entry_ok e \<and> length (log_entry_to_msgpack e) < 2 ^ 30"
  let ?h = "hex (replicate 24 0 @ log_entry_to_msgpack e)"
  let ?e = "new_entry 0 IKEY_ENC ''_'' ''_'' (String ?h)"
  have len: "length ?h < 2 ^ 31 + 49" using e by (simp add: length_hex)
  then have "entry_ok ?e"
    by (simp add: entry_ok_def doc_ok_def str_ok_hex len_ok_def name_ok_def str_ok_def [of "''_''"]
        str_ok_def [of IKEY_ENC] bytes_of_def)
  moreover have "length (log_entry_to_msgpack ?e) < 2 ^ 32"
    using length_log_entry [of ?e] length_write_str [of ?h] len by simp
  ultimately have "record_ok ?e" by (simp add: record_ok_def)
  then show "accepts e (EncryptedStorage demo_cipher n (SyncDiskStorage d))"
    using e by (simp add: encrypt_entry_def demo_cipher_def)
qed

lemma demo_enc_ok: "db_ok env demo_enc_db"
proof -
  have "logs env (SyncDiskStorage (demo_disk [])) []" by (auto simp: disk_logs_def demo_disk_def)
  then have "logs env (EncryptedStorage demo_cipher 0 (SyncDiskStorage (demo_disk []))) []"
    using demo_cipher_ok by (auto simp: map_filter_simps intro!: exI [of _ "[]"])
  then show ?thesis
    unfolding db_ok_def consistent_def
    by (intro conjI exI [of _ "[]"])
      (auto simp: demo_enc_db_def demo_cipher_roomy replay_tables_def replay_start_def empty_tables_def
        fresh_db_def tables.extend_def tables_ok_def state_ok_def schemas_ok_def names_indexed_def)
qed

theorem encrypted_snapshot_in_clear_witness:
  "\<exists>db' inner' db''. db_compact demo_env demo_enc_db = (Inr (), db') \<and>
    db_storage db' = EncryptedStorage demo_cipher 0 inner' \<and>
    db_open demo_env 0 inner' = Inr db'' \<and> (\<forall>col k. stored_doc db'' col k = stored_doc demo_enc_db col k)"
proof (rule encrypted_snapshot_in_clear [OF demo_env_ok demo_enc_ok])
  show "db_storage demo_enc_db = EncryptedStorage demo_cipher 0 (SyncDiskStorage (demo_disk []))"
    by (simp add: demo_enc_db_def fresh_db_def tables.extend_def)
  show "storage_fine (SyncDiskStorage (demo_disk []))" by (simp add: io_fine_def demo_disk_def)
  show "length (compacted (t_state demo_enc_db) (t_schemas demo_enc_db)) < 2 ^ 64"
    by (simp add: demo_enc_db_def fresh_db_def tables.extend_def empty_tables_def compacted_def
        doc_entries_def schema_entries_def)
qed

end
