(* ===== verification/Async.thy ===== *)
theory Async
  imports Recovery "HOL-Library.Sublist"
begin

text \<open>
  \<open>AsyncDiskStorage\<close> (\<open>storage/disk/async_storage.rs\<close>): callers put records into a channel, a
  writer task appends them to the log through a buffer, and compaction asks that task to exchange
  the file. The task's turns and the callers' calls are the steps of a machine; a crash keeps
  \<open>d_log\<close> and loses the buffer and the channel.
\<close>

section \<open>The state\<close>

text \<open>\<open>Compact c\<close> carries the flag of the call \<open>c\<close> that waits for the exchange.\<close>

datatype writer_msg = Write bytes | Compact nat

datatype writer_state = Opening | Looping | Stopped

text \<open>
  The file and the buffer of the writer, the temporary file beside the log, the channel, whether
  its sender exists, the writer task, the circuit breaker, and the calls that have been signalled.
\<close>

record async_storage =
  as_disk :: disk
  as_temp :: "bytes option"
  as_queue :: "writer_msg list"
  as_open :: bool
  as_task :: writer_state
  as_fault :: bool
  as_done :: "nat list"

definition on_disk :: "(disk, 'e, 'a) op \<Rightarrow> (async_storage, 'e, 'a) op" where
  "on_disk f s = (case f (as_disk s) of (r, d) \<Rightarrow> (r, s\<lparr>as_disk := d\<rparr>))"

text \<open>A failure to remove a stale temporary file is ignored; a failure to open the log is reported.\<close>

definition async_new :: "disk \<Rightarrow> bytes option \<Rightarrow> db_error + async_storage" where
  "async_new d temp =
     (case (case temp of None \<Rightarrow> (Inr (), d) | Some _ \<Rightarrow> io_call d) of (removed, d1) \<Rightarrow>
      case io_call d1 of
        (Inl _, d2) \<Rightarrow> Inl WriteError
      | (Inr _, d2) \<Rightarrow>
          Inr \<lparr>as_disk = d2, as_temp = (if removed = Inr () then None else temp), as_queue = [],
            as_open = True, as_task = Opening, as_fault = False, as_done = []\<rparr>)"

section \<open>The end of the writer\<close>

text \<open>Dropping the writer flushes once more and ignores the outcome.\<close>

definition drop_writer :: "disk \<Rightarrow> disk" where
  "drop_writer d = (snd (flush_writer d))\<lparr>d_buf := []\<rparr>"

section \<open>The writer task\<close>

text \<open>When the task ends, the receiver goes and with it what the channel held.\<close>

definition writer_stop :: "async_storage \<Rightarrow> async_storage" where
  "writer_stop s = s\<lparr>as_task := Stopped, as_queue := []\<rparr>"

definition writer_open :: "async_storage \<Rightarrow> async_storage" where
  "writer_open s =
     (case on_disk io_call s of
        (Inr _, s') \<Rightarrow> s'\<lparr>as_task := Looping\<rparr>
      | (Inl _, s') \<Rightarrow> writer_stop s')"

definition writer_exit :: "async_storage \<Rightarrow> async_storage" where
  "writer_exit s = writer_stop (s\<lparr>as_disk := drop_writer (snd (flush_writer (as_disk s)))\<rparr>)"

text \<open>The rename over the log; when it fails the temporary file is removed.\<close>

definition swap_temp :: "async_storage \<Rightarrow> async_storage" where
  "swap_temp s =
     (case as_temp s of None \<Rightarrow> s
      | Some temp \<Rightarrow>
        (case on_disk io_call s of
           (Inr _, s1) \<Rightarrow> s1\<lparr>as_disk := (as_disk s1)\<lparr>d_log := temp\<rparr>, as_temp := None\<rparr>
         | (Inl _, s1) \<Rightarrow>
           (case on_disk io_call s1 of
              (Inr _, s2) \<Rightarrow> s2\<lparr>as_temp := None\<rparr>
            | (Inl _, s2) \<Rightarrow> s2)))"

text \<open>One message: an arm of the task's loop, with the breaks and the return.\<close>

fun writer_handle :: "writer_msg \<Rightarrow> async_storage \<Rightarrow> async_storage" where
  "writer_handle (Compact c) s =
     (let s1 = s\<lparr>as_disk := drop_writer (snd (flush_writer (as_disk s)))\<rparr> in
      case on_disk io_call (swap_temp s1) of
        (Inl _, s2) \<Rightarrow> writer_stop s2
      | (Inr _, s2) \<Rightarrow> s2\<lparr>as_done := c # as_done s2\<rparr>)"
| "writer_handle (Write bs) s =
     (case on_disk (buf_writer_write bs) s of
        (Inl _, s1) \<Rightarrow> writer_exit (s1\<lparr>as_fault := True\<rparr>)
      | (Inr _, s1) \<Rightarrow> s1)"

definition writer_timeout :: "async_storage \<Rightarrow> async_storage" where
  "writer_timeout s =
     (case on_disk flush_writer s of
        (Inl _, s1) \<Rightarrow> writer_exit (s1\<lparr>as_fault := True\<rparr>)
      | (Inr _, s1) \<Rightarrow> s1)"

section \<open>The callers\<close>

text \<open>\<open>send\<close> fails exactly when the receiver is gone.\<close>

definition channel_send :: "writer_msg \<Rightarrow> (async_storage, db_error, unit) op" where
  "channel_send m s =
     (if as_task s = Stopped then (Inl WriteError, s)
      else (Inr (), s\<lparr>as_queue := as_queue s @ [m]\<rparr>))"

definition async_write_entry :: "log_entry \<Rightarrow> (async_storage, db_error, unit) op" where
  "async_write_entry e s =
     (let encoded = log_entry_to_msgpack e;
          bytes = le_bytes 4 (length encoded) @ encoded in
      if as_open s then channel_send (Write bytes) s else (Inr (), s))"

text \<open>
  The part of \<open>swap_log\<close> before its caller blocks; the call returns once \<open>swap_finished\<close>.
\<close>

definition async_swap_log :: "nat \<Rightarrow> (async_storage, db_error, unit) op" where
  "async_swap_log c =
     op_bind (on_disk io_call) (\<lambda>_.
     op_bind (op_upd (\<lambda>s. s\<lparr>as_temp := Some (write_compacted_log_no_tx [])\<rparr>)) (\<lambda>_ s.
       if as_open s then channel_send (Compact c) s
       else (case on_disk io_call s of
               (Inl _, s1) \<Rightarrow> (Inl WriteError, s1)
             | (Inr _, s1) \<Rightarrow>
                 (Inr (), s1\<lparr>as_disk := (as_disk s1)\<lparr>d_log := write_compacted_log_no_tx []\<rparr>, as_temp := None\<rparr>))))"

definition swap_finished :: "nat \<Rightarrow> async_storage \<Rightarrow> bool" where
  "swap_finished c s \<longleftrightarrow> \<not> as_open s \<or> c \<in> set (as_done s)"

text \<open>A failure to write the snapshot is only logged.\<close>

definition async_snapshot :: "env \<Rightarrow> (string, collection) dashmap \<Rightarrow>
    (string, json \<times> (json \<Rightarrow> bool)) dashmap \<Rightarrow> async_storage \<Rightarrow> async_storage" where
  "async_snapshot env st schemas s = snd (on_disk (write_snapshot_from_maps env st schemas 0) s)"

definition async_compact_from_maps :: "env \<Rightarrow> (string, collection) dashmap \<Rightarrow>
    (string, json \<times> (json \<Rightarrow> bool)) dashmap \<Rightarrow> nat \<Rightarrow> (async_storage, db_error, unit) op" where
  "async_compact_from_maps env st schemas c s = async_swap_log c (async_snapshot env st schemas s)"

definition async_read_log :: "env \<Rightarrow> async_storage \<Rightarrow> db_error + log_entry list" where
  "async_read_log env s = read_log_from_disk (skip_value env) (log_path (as_disk s))"

definition async_stream :: "env \<Rightarrow> async_storage \<Rightarrow> 's callback \<Rightarrow> ('s, db_error, control_flow) op" where
  "async_stream env s = sync_stream env (as_disk s)"

definition async_storage_mode :: "async_storage \<Rightarrow> string" where
  "async_storage_mode s = ''async''"

text \<open>\<open>drop\<close> closes the channel and waits for the task, which empties the channel first.\<close>

primrec writer_drain :: "writer_msg list \<Rightarrow> async_storage \<Rightarrow> async_storage" where
  "writer_drain [] s = writer_exit s"
| "writer_drain (m # q) s =
     (let s' = writer_handle m (s\<lparr>as_queue := q\<rparr>) in
      if as_task s' = Stopped then s' else writer_drain q s')"

definition async_drop :: "async_storage \<Rightarrow> async_storage" where
  "async_drop s =
     (let s1 = s\<lparr>as_open := False\<rparr>;
          s2 = (if as_task s1 = Opening then writer_open s1 else s1) in
      if as_task s2 = Stopped then s2 else writer_drain (as_queue s2) s2)"

section \<open>Interleavings\<close>

datatype async_event =
    Opened
  | Sent log_entry "db_error + unit"
  | Handled writer_msg
  | TimedOut
  | ChannelClosed
  | Snapshotted
  | SwapRequested nat "db_error + unit"
  | HandleDropped

text \<open>
  The timer is only asked when the channel is empty and its sender alive: a message, or the end of
  the channel, is answered first. The callers hold a reference, so their calls come before the drop.
\<close>

inductive async_step :: "env \<Rightarrow> async_storage \<Rightarrow> async_event \<Rightarrow> async_storage \<Rightarrow> bool" for env where
  opened: "as_task s = Opening \<Longrightarrow> async_step env s Opened (writer_open s)"
| handled: "as_task s = Looping \<Longrightarrow> as_queue s = m # q \<Longrightarrow>
    async_step env s (Handled m) (writer_handle m (s\<lparr>as_queue := q\<rparr>))"
| timed_out: "as_task s = Looping \<Longrightarrow> as_queue s = [] \<Longrightarrow> as_open s \<Longrightarrow>
    async_step env s TimedOut (writer_timeout s)"
| channel_closed: "as_task s = Looping \<Longrightarrow> as_queue s = [] \<Longrightarrow> \<not> as_open s \<Longrightarrow>
    async_step env s ChannelClosed (writer_exit s)"
| sent: "as_open s \<Longrightarrow> async_write_entry e s = (r, s') \<Longrightarrow> async_step env s (Sent e r) s'"
| snapshotted: "as_open s \<Longrightarrow> async_step env s Snapshotted (async_snapshot env st schemas s)"
| swap_requested: "as_open s \<Longrightarrow> async_swap_log c s = (r, s') \<Longrightarrow> async_step env s (SwapRequested c r) s'"
| handle_dropped: "as_open s \<Longrightarrow> async_step env s HandleDropped (s\<lparr>as_open := False\<rparr>)"

inductive async_run :: "env \<Rightarrow> async_storage \<Rightarrow> async_event list \<Rightarrow> async_storage \<Rightarrow> bool" for env where
  run_refl: "async_run env s [] s"
| run_step: "async_run env s vs s' \<Longrightarrow> async_step env s' v s'' \<Longrightarrow> async_run env s (vs @ [v]) s''"

text \<open>The records whose writes were acknowledged, in order.\<close>

fun acked_by :: "async_event \<Rightarrow> log_entry list" where
  "acked_by (Sent e (Inr _)) = [e]"
| "acked_by _ = []"

definition acked_records :: "async_event list \<Rightarrow> log_entry list" where
  "acked_records vs = concat (map acked_by vs)"

lemma acked_records_append [simp]: "acked_records (vs @ ws) = acked_records vs @ acked_records ws"
  by (simp add: acked_records_def)

fun compacts :: "async_event \<Rightarrow> bool" where
  "compacts Snapshotted = True"
| "compacts (SwapRequested c r) = True"
| "compacts _ = False"


inductive_cases handled_E: "async_step env s (Handled m) s'"

section \<open>The buffered writer, whatever the disk answers\<close>

text \<open>The bytes the writer has taken: those in the file and those in its buffer.\<close>

definition taken :: "disk \<Rightarrow> bytes" where
  "taken d = d_log d @ d_buf d"

lemma flush_writer_outcome:
  assumes "flush_writer d = (r, d')" and "\<not> d_detached d"
  shows "prefix (d_log d') (taken d)" and "r = Inr () \<Longrightarrow> taken d' = taken d \<and> d_buf d' = []"
    and "prefix (taken d') (taken d)" and "prefix (d_log d) (d_log d')" and "\<not> d_detached d'"
    and "d_snapshot d' = d_snapshot d" and "d_unreadable d' = d_unreadable d"
  using assms
  by (auto simp: flush_writer_def buf_flush_def next_io_def append_log_def taken_def take_is_prefix
      split: if_splits prod.splits list.splits io.splits)

lemma drop_writer_outcome:
  assumes "\<not> d_detached d"
  shows "prefix (d_log (drop_writer d)) (taken d)" and "prefix (d_log d) (d_log (drop_writer d))"
    and "\<not> d_detached (drop_writer d)"
    and "d_snapshot (drop_writer d) = d_snapshot d" and "d_unreadable (drop_writer d) = d_unreadable d"
  using flush_writer_outcome [of d "fst (flush_writer d)" "snd (flush_writer d)"] assms
  by (simp_all add: drop_writer_def)

lemma file_write_outcome:
  assumes "file_write bs d = (r, d')" and "\<not> d_detached d" and "d_buf d = []"
  shows "r = Inr () \<Longrightarrow> taken d' = taken d @ bs"
    and "prefix (taken d') (taken d @ bs)" and "prefix (d_log d) (d_log d')" and "\<not> d_detached d'"
    and "d_snapshot d' = d_snapshot d" and "d_unreadable d' = d_unreadable d"
  using assms
  by (auto simp: file_write_def next_io_def append_log_def taken_def take_is_prefix
      split: prod.splits list.splits io.splits)

lemma buf_writer_write_outcome:
  assumes "buf_writer_write bs d = (r, d')" and "\<not> d_detached d"
  shows "r = Inr () \<Longrightarrow> taken d' = taken d @ bs"
    and "prefix (taken d') (taken d @ bs)" and "prefix (d_log d) (d_log d')" and "\<not> d_detached d'"
    and "d_snapshot d' = d_snapshot d" and "d_unreadable d' = d_unreadable d"
proof -
  let ?room = "\<lambda>d. if buf_capacity - length (d_buf d) < length bs then flush_writer d else (Inr (), d)"
  obtain r1 d1 where d1: "?room d = (r1, d1)" by (cases "?room d")
  then have room: "flush_writer d = (r1, d1) \<or> r1 = Inr () \<and> d1 = d" by (simp split: if_splits)
  have kept: "\<not> d_detached d1" "prefix (d_log d) (d_log d1)" "prefix (taken d1) (taken d)" "r1 = Inr () \<Longrightarrow> taken d1 = taken d"
    "d_snapshot d1 = d_snapshot d" "d_unreadable d1 = d_unreadable d"
    using room flush_writer_outcome [of d r1 d1] assms(2) by blast+
  have full: "d_buf d1 = []" if "r1 = Inr ()" "buf_capacity \<le> length bs"
  proof (cases "d_buf d = []")
    case False
    then have "buf_capacity - length (d_buf d) < length bs"
      using that(2) by (cases "d_buf d") (auto simp: buf_capacity_def)
    then show ?thesis using d1 that(1) flush_writer_outcome(2) [of d r1 d1] assms(2) by simp
  qed (use d1 in \<open>auto simp: flush_writer_def split: if_splits\<close>)
  have "(r = Inr () \<longrightarrow> taken d' = taken d @ bs) \<and> prefix (taken d') (taken d @ bs) \<and>
      prefix (d_log d) (d_log d') \<and> \<not> d_detached d' \<and>
      d_snapshot d' = d_snapshot d \<and> d_unreadable d' = d_unreadable d"
  proof (cases r1)
    case (Inl err)
    then have "r = Inl err" "d' = d1"
      using assms(1) d1 by (auto simp: buf_writer_write_def op_bind_def)
    then show ?thesis using kept by (simp add: prefix_prefix)
  next
    case (Inr u)
    then have out: "(if buf_capacity \<le> length bs then file_write bs d1
        else (Inr (), d1\<lparr>d_buf := d_buf d1 @ bs\<rparr>)) = (r, d')"
      using assms(1) d1 by (simp add: buf_writer_write_def op_bind_def)
    show ?thesis
    proof (cases "buf_capacity \<le> length bs")
      case True
      then show ?thesis
        using out file_write_outcome [of bs d1 r d'] kept full Inr by (auto intro: prefix_order.trans)
    next
      case False
      then have "taken d' = taken d1 @ bs" using out by (auto simp: taken_def)
      then show ?thesis using False out kept Inr by auto
    qed
  qed
  then show "r = Inr () \<Longrightarrow> taken d' = taken d @ bs"
    and "prefix (taken d') (taken d @ bs)" and "prefix (d_log d) (d_log d')" and "\<not> d_detached d'"
    and "d_snapshot d' = d_snapshot d" and "d_unreadable d' = d_unreadable d" by auto
qed

section \<open>Runs without compaction\<close>

text \<open>
  \<open>L\<close> is what the log held when the storage was opened and \<open>es\<close> the records acknowledged since:
  while the task runs, file, buffer and channel hold exactly their bytes, in order; once it has
  stopped the file holds a part of them from the front.
\<close>

fun msg_bytes :: "writer_msg \<Rightarrow> bytes" where
  "msg_bytes (Write bs) = bs"
| "msg_bytes (Compact c) = []"

fun is_write :: "writer_msg \<Rightarrow> bool" where
  "is_write (Write bs) = True"
| "is_write (Compact c) = False"

definition in_flight :: "async_storage \<Rightarrow> bytes" where
  "in_flight s = taken (as_disk s) @ concat (map msg_bytes (as_queue s))"

definition pipe_inv :: "disk \<Rightarrow> log_entry list \<Rightarrow> async_storage \<Rightarrow> bool" where
  "pipe_inv d0 es s \<longleftrightarrow>
     \<not> d_detached (as_disk s) \<and> d_snapshot (as_disk s) = d_snapshot d0 \<and>
     d_unreadable (as_disk s) = d_unreadable d0 \<and> list_all is_write (as_queue s) \<and>
     prefix (d_log d0) (d_log (as_disk s)) \<and>
     (if as_task s = Stopped then prefix (d_log (as_disk s)) (d_log d0 @ log_bytes es)
      else in_flight s = d_log d0 @ log_bytes es)"

lemma on_disk_eq: "on_disk f s = (r, s') \<longleftrightarrow> (\<exists>d. f (as_disk s) = (r, d) \<and> s' = s\<lparr>as_disk := d\<rparr>)"
  by (auto simp: on_disk_def split: prod.splits)

lemma pipe_log_prefix: "pipe_inv d0 es s \<Longrightarrow> prefix (d_log (as_disk s)) (d_log d0 @ log_bytes es)"
  by (cases "as_task s = Stopped") (simp_all add: pipe_inv_def in_flight_def taken_def, metis prefixI)

text \<open>The task ends with a part of what was in flight.\<close>

lemma pipe_exit:
  assumes "\<not> d_detached (as_disk s)" and "d_snapshot (as_disk s) = d_snapshot d0"
    and "d_unreadable (as_disk s) = d_unreadable d0"
    and "prefix (taken (as_disk s)) (d_log d0 @ log_bytes es)" and "prefix (d_log d0) (d_log (as_disk s))"
  shows "pipe_inv d0 es (writer_exit s)"
proof -
  let ?d = "snd (flush_writer (as_disk s))"
  note f = flush_writer_outcome [of "as_disk s" "fst (flush_writer (as_disk s))" ?d]
  have "prefix (d_log (drop_writer ?d)) (taken ?d)" "prefix (taken ?d) (taken (as_disk s))"
    using f drop_writer_outcome(1) [of ?d] assms(1) by simp_all
  then have "prefix (d_log (drop_writer ?d)) (d_log d0 @ log_bytes es)"
    using assms(4) by (meson prefix_order.trans)
  moreover have "prefix (d_log d0) (d_log (drop_writer ?d))"
    using f drop_writer_outcome(2) [of ?d] assms(1,5) by (auto intro: prefix_order.trans)
  ultimately show ?thesis
    using f drop_writer_outcome [of ?d] assms(1-3) by (simp add: pipe_inv_def writer_exit_def writer_stop_def)
qed

lemma pipe_flushed:
  assumes "pipe_inv d0 es s" and "as_task s \<noteq> Stopped"
  shows "\<not> d_detached (as_disk s)" "d_snapshot (as_disk s) = d_snapshot d0"
    "d_unreadable (as_disk s) = d_unreadable d0" "in_flight s = d_log d0 @ log_bytes es"
    "prefix (taken (as_disk s)) (d_log d0 @ log_bytes es)" "prefix (d_log d0) (d_log (as_disk s))"
  using assms by (simp_all add: pipe_inv_def in_flight_def, metis prefixI)

lemma io_call_keeps:
  assumes "io_call d = (r, d')"
  shows "d_log d' = d_log d" "d_buf d' = d_buf d" "d_snapshot d' = d_snapshot d"
    "d_unreadable d' = d_unreadable d" "d_detached d' = d_detached d"
  using assms by (auto simp: io_call_def next_io_def split: list.splits io.splits)

lemma pipe_open:
  assumes "pipe_inv d0 es s" and "as_task s = Opening"
  shows "pipe_inv d0 es (writer_open s)"
proof -
  obtain r d where d: "io_call (as_disk s) = (r, d)" by (cases "io_call (as_disk s)")
  note keep = io_call_keeps [OF d]
  have "prefix (d_log (as_disk s)) (d_log d0 @ log_bytes es)" using pipe_log_prefix [OF assms(1)] .
  then show ?thesis
    using assms d keep
    by (cases r) (simp_all add: writer_open_def on_disk_def writer_stop_def pipe_inv_def in_flight_def taken_def)
qed

lemma pipe_handle:
  assumes "pipe_inv d0 es s" and "as_task s = Looping" and "as_queue s = m # q"
  shows "pipe_inv d0 es (writer_handle m (s\<lparr>as_queue := q\<rparr>))"
proof -
  have task: "as_task s \<noteq> Stopped" using assms(2) by simp
  note p = pipe_flushed [OF assms(1) task]
  obtain bs where m: "m = Write bs" "list_all is_write q"
    using assms(1,3) by (cases m) (auto simp: pipe_inv_def)
  obtain r d where d: "buf_writer_write bs (as_disk s) = (r, d)" by (cases "buf_writer_write bs (as_disk s)")
  note w = buf_writer_write_outcome [OF d p(1)]
  have grown: "prefix (d_log d0) (d_log d)" using p(6) w(3) by (meson prefix_order.trans)
  have flight: "taken (as_disk s) @ bs @ concat (map msg_bytes q) = d_log d0 @ log_bytes es"
    using p(4) assms(3) m(1) by (simp add: in_flight_def)
  show ?thesis
  proof (cases r)
    case (Inl err)
    have "prefix (taken (as_disk s) @ bs) (d_log d0 @ log_bytes es)"
      using flight by (metis append.assoc prefixI)
    then have "prefix (taken d) (d_log d0 @ log_bytes es)" using w(2) by (meson prefix_order.trans)
    then show ?thesis
      using Inl m(1) d w(4-6) p(2,3) grown by (simp add: on_disk_def pipe_exit)
  next
    case (Inr u)
    then show ?thesis
      using m d w(1,4-6) p(2,3) flight task grown
      by (simp add: on_disk_def pipe_inv_def in_flight_def)
  qed
qed

lemma pipe_timeout:
  assumes "pipe_inv d0 es s" and "as_task s = Looping" and "as_queue s = []"
  shows "pipe_inv d0 es (writer_timeout s)"
proof -
  have task: "as_task s \<noteq> Stopped" using assms(2) by simp
  note p = pipe_flushed [OF assms(1) task]
  obtain r d where d: "flush_writer (as_disk s) = (r, d)" by (cases "flush_writer (as_disk s)")
  note w = flush_writer_outcome [OF d p(1)]
  have grown: "prefix (d_log d0) (d_log d)" using p(6) w(4) by (meson prefix_order.trans)
  show ?thesis
  proof (cases r)
    case (Inl err)
    have "prefix (taken d) (d_log d0 @ log_bytes es)" using w(3) p(5) by (meson prefix_order.trans)
    then show ?thesis
      using Inl d w(5-7) p(2,3) grown by (simp add: writer_timeout_def on_disk_def pipe_exit)
  next
    case (Inr u)
    then show ?thesis
      using d w(2,5-7) p(2-4) task assms(3) grown
      by (simp add: writer_timeout_def on_disk_def pipe_inv_def in_flight_def)
  qed
qed

lemma pipe_send:
  assumes "pipe_inv d0 es s" and "as_open s" and "async_write_entry e s = (r, s')"
  shows "pipe_inv d0 (es @ acked_by (Sent e r)) s'"
  using assms
  by (auto simp: async_write_entry_def channel_send_def pipe_inv_def in_flight_def Let_def
      write_msgpack_entry_def split: if_splits)

text \<open>The channel as a log backend: an acknowledged record is behind all earlier ones.\<close>

interpretation pipe: wal_backend async_write_entry "\<lambda>s es. as_open s \<and> pipe_inv d0 es s" "\<lambda>e s. True" "\<lambda>e. e"
  for d0
proof unfold_locales
  fix s es e s'
  assume "as_open s \<and> pipe_inv d0 es s" and "async_write_entry e s = (Inr (), s')"
  then show "as_open s' \<and> pipe_inv d0 (es @ [e]) s'"
    using pipe_send [of d0 es s e "Inr ()" s']
    by (auto simp: async_write_entry_def channel_send_def Let_def split: if_splits)
qed

lemma pipe_step:
  assumes "async_step env s v s'" and "pipe_inv d0 es s" and "\<not> compacts v"
  shows "pipe_inv d0 (es @ acked_by v) s'"
  using assms
proof cases
  case channel_closed
  then have "as_task s \<noteq> Stopped" by simp
  note p = pipe_flushed [OF assms(2) this]
  show ?thesis using channel_closed pipe_exit [OF p(1-3,5,6)] by simp
next
  case handle_dropped
  then show ?thesis using assms(2) by (simp add: pipe_inv_def in_flight_def split: if_splits)
qed (use assms(2,3) pipe_open pipe_handle pipe_timeout pipe_send in auto)

lemma pipe_run:
  assumes "async_run env s vs s'" and "pipe_inv d0 [] s" and "list_all (\<lambda>v. \<not> compacts v) vs"
  shows "pipe_inv d0 (acked_records vs) s'"
  using assms
proof induction
  case run_refl
  then show ?case by (simp add: acked_records_def)
next
  case (run_step s vs s' v s'')
  then show ?case using pipe_step [of env s' v s'' d0 "acked_records vs"] by (simp add: acked_records_def)
qed

lemma pipe_new:
  assumes "async_new d temp = Inr s" and "d_buf d = []" and "\<not> d_detached d"
  shows "pipe_inv d [] s" and "as_open s" and "as_task s = Opening"
  using assms io_call_keeps
  by (auto simp: async_new_def pipe_inv_def in_flight_def taken_def split: prod.splits sum.splits option.splits)

section \<open>A disk that does not fail\<close>

lemma io_call_stays_fine: "io_fine d \<Longrightarrow> io_fine (snd (io_call d))"
  by (auto simp: io_call_def next_io_def io_fine_def split: list.splits io.splits)

text \<open>Until it stops the task goes on, and it stops with everything written.\<close>

definition clean_inv :: "disk \<Rightarrow> log_entry list \<Rightarrow> async_storage \<Rightarrow> bool" where
  "clean_inv d0 es s \<longleftrightarrow> pipe_inv d0 es s \<and> io_fine (as_disk s) \<and>
     (as_task s = Stopped \<longrightarrow> d_log (as_disk s) = d_log d0 @ log_bytes es)"

lemma clean_exit:
  assumes "clean_inv d0 es s" and "as_task s = Looping" and "as_queue s = []"
  shows "clean_inv d0 es (writer_exit s)"
proof -
  have inv: "pipe_inv d0 es s" "io_fine (as_disk s)" and "as_task s \<noteq> Stopped"
    using assms(1,2) by (simp_all add: clean_inv_def)
  note p = pipe_flushed [OF inv(1) this(3)]
  obtain d where d: "flush_writer (as_disk s) = (Inr (), d)" "io_fine d"
    using buf_flush_fine [OF inv(2)] by (cases "flush_writer (as_disk s)") auto
  note w = flush_writer_outcome [OF d(1) p(1)]
  have "drop_writer d = d" using w(2) by (simp add: drop_writer_def flush_writer_def)
  moreover have "d_log d = d_log d0 @ log_bytes es"
    using w(2) p(4) assms(3) by (auto simp: in_flight_def taken_def)
  ultimately show ?thesis
    using pipe_exit [OF p(1-3,5,6)] d by (simp add: clean_inv_def writer_exit_def writer_stop_def)
qed

lemma clean_step:
  assumes "async_step env s v s'" and "clean_inv d0 es s" and "\<not> compacts v"
  shows "clean_inv d0 (es @ acked_by v) s'"
proof -
  have inv: "pipe_inv d0 es s" "io_fine (as_disk s)" using assms(2) by (simp_all add: clean_inv_def)
  note pipe = pipe_step [OF assms(1) inv(1) assms(3)]
  show ?thesis
    using assms(1)
  proof cases
    case opened
    obtain d where "io_call (as_disk s) = (Inr (), d)" "io_fine d" using io_call_fine [OF inv(2)] .
    then show ?thesis using opened pipe by (simp add: clean_inv_def writer_open_def on_disk_def)
  next
    case (handled m q)
    obtain bs where "m = Write bs" using inv(1) handled(4) by (cases m) (auto simp: pipe_inv_def)
    then show ?thesis
      using buf_writer_write_fine [OF inv(2), of bs] handled pipe
      by (cases "buf_writer_write bs (as_disk s)") (simp add: clean_inv_def on_disk_def)
  next
    case timed_out
    then show ?thesis
      using buf_flush_fine [OF inv(2)] pipe
      by (cases "flush_writer (as_disk s)") (simp add: clean_inv_def writer_timeout_def on_disk_def)
  next
    case channel_closed
    then show ?thesis using clean_exit [OF assms(2)] by simp
  next
    case (sent e r)
    then show ?thesis
      using assms(2) pipe
      by (auto simp: clean_inv_def async_write_entry_def channel_send_def Let_def split: if_splits)
  next
    case handle_dropped
    then show ?thesis using assms(2) pipe by (simp add: clean_inv_def)
  qed (use assms(3) in auto)
qed

lemma clean_run:
  assumes "async_run env s vs s'" and "clean_inv d0 [] s" and "list_all (\<lambda>v. \<not> compacts v) vs"
  shows "clean_inv d0 (acked_records vs) s'"
  using assms
proof induction
  case run_refl
  then show ?case by (simp add: acked_records_def)
next
  case (run_step s vs s' v s'')
  then show ?case using clean_step [of env s' v s'' d0 "acked_records vs"] by (simp add: acked_records_def)
qed

section \<open>Shutting down\<close>

lemma run_trans: "async_run env s' ws s'' \<Longrightarrow> async_run env s vs s' \<Longrightarrow> async_run env s (vs @ ws) s''"
proof (induction rule: async_run.induct)
  case (run_step s' ws u v u')
  then show ?case using async_run.run_step [of env s "vs @ ws" u v u'] by simp
qed simp

lemma run_one: "async_step env s v s' \<Longrightarrow> async_run env s [v] s'"
  using run_step [OF run_refl] by fastforce

lemma writer_stop_sel [simp]:
  "as_task (writer_stop s) = Stopped" "as_queue (writer_stop s) = []" "as_open (writer_stop s) = as_open s"
  "as_done (writer_stop s) = as_done s" "as_disk (writer_stop s) = as_disk s"
  by (simp_all add: writer_stop_def)

lemma writer_exit_sel [simp]:
  "as_task (writer_exit s) = Stopped" "as_queue (writer_exit s) = []" "as_open (writer_exit s) = as_open s"
  "as_done (writer_exit s) = as_done s"
  by (simp_all add: writer_exit_def)

lemma on_disk_sel:
  assumes "on_disk f s = (r, s')"
  shows "as_task s' = as_task s" "as_queue s' = as_queue s" "as_open s' = as_open s" "as_done s' = as_done s"
  using assms by (auto simp: on_disk_eq)

lemma swap_temp_sel:
  "as_task (swap_temp s) = as_task s" "as_queue (swap_temp s) = as_queue s" "as_open (swap_temp s) = as_open s"
  "as_done (swap_temp s) = as_done s"
  by (auto simp: swap_temp_def on_disk_def split: option.splits prod.splits sum.splits)

lemma writer_handle_sel:
  "as_open (writer_handle m s) = as_open s"
  "as_task (writer_handle m s) = as_task s \<and> as_queue (writer_handle m s) = as_queue s \<or>
   as_task (writer_handle m s) = Stopped"
proof -
  have "as_open (writer_handle m s) = as_open s \<and>
    (as_task (writer_handle m s) = as_task s \<and> as_queue (writer_handle m s) = as_queue s \<or>
     as_task (writer_handle m s) = Stopped)"
  proof (cases m)
    case (Write bs)
    then show ?thesis by (auto simp: on_disk_def split: prod.splits sum.splits)
  next
    case (Compact c)
    let ?s = "swap_temp (s\<lparr>as_disk := drop_writer (snd (flush_writer (as_disk s)))\<rparr>)"
    show ?thesis
      using Compact on_disk_sel [of io_call ?s "fst (on_disk io_call ?s)" "snd (on_disk io_call ?s)"]
      by (auto simp: Let_def swap_temp_sel split: prod.splits sum.splits)
  qed
  then show "as_open (writer_handle m s) = as_open s"
    "as_task (writer_handle m s) = as_task s \<and> as_queue (writer_handle m s) = as_queue s \<or>
     as_task (writer_handle m s) = Stopped" by auto
qed

text \<open>What \<open>drop\<close> does is a run of the machine, without a write and without a compaction call.\<close>

definition quiet :: "async_event list \<Rightarrow> bool" where
  "quiet vs \<longleftrightarrow> list_all (\<lambda>v. \<not> compacts v \<and> acked_by v = []) vs"

lemma quiet_acked: "quiet vs \<Longrightarrow> acked_records vs = [] \<and> list_all (\<lambda>v. \<not> compacts v) vs"
  by (auto simp: quiet_def acked_records_def list_all_iff)

lemma drain_run:
  assumes "as_task s = Looping" and "\<not> as_open s" and "as_queue s = q"
  shows "\<exists>vs. async_run env s vs (writer_drain q s) \<and> quiet vs"
  using assms
proof (induction q arbitrary: s)
  case Nil
  then show ?case
    using run_one [OF channel_closed] by (intro exI [of _ "[ChannelClosed]"]) (simp add: quiet_def)
next
  case (Cons m q)
  let ?s = "writer_handle m (s\<lparr>as_queue := q\<rparr>)"
  have first: "async_run env s [Handled m] ?s" using Cons.prems by (intro run_one handled)
  show ?case
  proof (cases "as_task ?s = Stopped")
    case True
    then show ?thesis
      using first by (intro exI [of _ "[Handled m]"]) (simp add: quiet_def)
  next
    case False
    then have "as_task ?s = Looping" "\<not> as_open ?s" "as_queue ?s = q"
      using writer_handle_sel [of m "s\<lparr>as_queue := q\<rparr>"] Cons.prems by auto
    from Cons.IH [OF this] obtain vs where "async_run env ?s vs (writer_drain q ?s)" "quiet vs" by blast
    then show ?thesis
      using run_trans [OF _ first] False
      by (intro exI [of _ "[Handled m] @ vs"]) (auto simp: quiet_def Let_def)
  qed
qed

lemma drain_stops: "as_task (writer_drain q s) = Stopped"
  by (induction q arbitrary: s) (auto simp: Let_def)

lemma writer_open_sel:
  "as_open (writer_open s) = as_open s" "as_task (writer_open s) \<noteq> Opening" "as_done (writer_open s) = as_done s"
  by (auto simp: writer_open_def on_disk_def split: prod.splits sum.splits)

lemma drop_run:
  assumes "as_open s"
  shows "\<exists>vs. async_run env s vs (async_drop s) \<and> quiet vs"
proof -
  let ?s1 = "s\<lparr>as_open := False\<rparr>"
  let ?s2 = "if as_task ?s1 = Opening then writer_open ?s1 else ?s1"
  have "async_run env s [HandleDropped] ?s1" using handle_dropped [OF assms] by (rule run_one)
  moreover have "\<exists>ws. async_run env ?s1 ws ?s2 \<and> quiet ws"
  proof (cases "as_task ?s1 = Opening")
    case True
    then show ?thesis
      using run_one [OF opened] by (intro exI [of _ "[Opened]"]) (simp add: quiet_def)
  qed (auto simp: quiet_def intro: run_refl exI [of _ "[]"])
  ultimately obtain us where us: "async_run env s us ?s2" "quiet us"
    using run_trans by (fastforce simp: quiet_def)
  show ?thesis
  proof (cases "as_task ?s2 = Stopped")
    case True
    then show ?thesis using us by (auto simp: async_drop_def Let_def)
  next
    case False
    then have "as_task ?s2 = Looping" "\<not> as_open ?s2"
      using writer_open_sel [of ?s1] by (cases "as_task s"; cases "as_task (writer_open ?s1)"; simp)+
    then obtain vs where "async_run env ?s2 vs (writer_drain (as_queue ?s2) ?s2)" "quiet vs"
      using drain_run by blast
    moreover have "async_drop s = writer_drain (as_queue ?s2) ?s2"
      using False unfolding async_drop_def Let_def by simp
    ultimately show ?thesis
      using run_trans [OF _ us(1)] us(2) by (intro exI [of _ "us @ vs"]) (simp add: quiet_def)
  qed
qed

lemma drop_stops: "as_task (async_drop s) = Stopped"
  by (simp add: async_drop_def Let_def drain_stops)

lemma send_writes:
  assumes "as_open s" and "as_task s \<noteq> Stopped"
  shows "async_write_entry e s = (Inr (), s\<lparr>as_queue := as_queue s @ [Write (write_msgpack_entry e)]\<rparr>)"
  using assms by (simp add: async_write_entry_def channel_send_def Let_def write_msgpack_entry_def)

lemma send_all:
  assumes "as_open s" and "as_task s \<noteq> Stopped"
  shows "op_iter async_write_entry es s =
    (Inr (), s\<lparr>as_queue := as_queue s @ map (Write \<circ> write_msgpack_entry) es\<rparr>)"
  using assms by (induction es arbitrary: s) (simp_all add: op_return_def op_bind_def send_writes)

lemma send_run:
  assumes "as_open s" and "as_task s \<noteq> Stopped"
  shows "async_run env s (map (\<lambda>e. Sent e (Inr ())) es)
    (s\<lparr>as_queue := as_queue s @ map (Write \<circ> write_msgpack_entry) es\<rparr>)"
proof (induction es rule: rev_induct)
  case Nil
  then show ?case by (simp add: run_refl)
next
  case (snoc e es)
  then show ?case using run_step [OF snoc sent [OF _ send_writes]] assms by simp
qed

lemma acked_sent [simp]: "acked_records (map (\<lambda>e. Sent e (Inr ())) es) = es"
  by (induction es) (simp_all add: acked_records_def)

section \<open>Crash and shutdown\<close>

text \<open>A storage that has just been opened on a log, for the examples.\<close>

definition demo_async :: "bytes \<Rightarrow> async_storage" where
  "demo_async log = \<lparr>as_disk = demo_disk log, as_temp = None, as_queue = [], as_open = True,
     as_task = Opening, as_fault = False, as_done = []\<rparr>"

lemma demo_async_new: "async_new (demo_disk log) None = Inr (demo_async log)"
  by (simp add: async_new_def io_call_def next_io_def demo_disk_def demo_async_def)

abbreviation demo_records :: "log_entry list" where
  "demo_records \<equiv> item_entries (demo_tx ''x'' ''k'')"

lemma demo_records_ok: "item_ok (demo_tx ''x'' ''k'')" "list_all record_ok demo_records"
proof -
  have "name_ok ''x''" by (simp add: name_ok_def str_ok_def bytes_of_def)
  then show "item_ok (demo_tx ''x'' ''k'')" "list_all record_ok demo_records"
    using demo_tx_ok demo_names(2) by blast+
qed

definition demo_sent :: async_storage where
  "demo_sent = (demo_async [])\<lparr>as_queue := map (Write \<circ> write_msgpack_entry) demo_records\<rparr>"

lemma demo_sent_run: "async_run env (demo_async []) (map (\<lambda>e. Sent e (Inr ())) demo_records) demo_sent"
  using send_run [of "demo_async []" env demo_records] by (simp add: demo_sent_def demo_async_def)

lemma no_compaction_sent: "list_all (\<lambda>v. \<not> compacts v) (map (\<lambda>e. Sent e (Inr ())) es)"
  by (simp add: list_all_iff)

text \<open>
  C17. Crashes of the asynchronous backend. It starts on a log of whole transactions without a snapshot, its callers
  write whole transactions one after another, and it is not compacted meanwhile (for a compaction see
  \<open>compaction_loses_writes_beside_it\<close>). Callers' records are acknowledged when they are in the channel. Whenever the process dies, and whatever the disk answered until then, the next start
  finds everything the log held at the previous start, followed by whole transactions in the order
  of their acknowledgement and nothing else: the ones that are missing are the latest ones.
\<close>

theorem async_crash_recovers_prefix:
  assumes "async_new d temp = Inr s" and "d_buf d = []" and "\<not> d_detached d"
    and "d_snapshot d = None" and "d_unreadable d = None"
    and "d_log d = log_bytes (concat (map item_entries old))"
    and "async_run env s vs s'" and "list_all (\<lambda>v. \<not> compacts v) vs"
    and "prefix (acked_records vs) (concat (map item_entries new))"
    and "list_all item_ok (old @ new)" and "list_all record_ok (concat (map item_entries (old @ new)))"
  shows "\<exists>j m. length old \<le> j \<and> j \<le> length (old @ new) \<and>
    stream_into_state env (SyncDiskStorage (as_disk s')) t =
      (Inr m, fold (apply_entry env) (map stored_entry (concat (map item_body (take j (old @ new))))) t)"
proof -
  let ?log = "d_log (as_disk s')" and ?all = "log_bytes (concat (map item_entries (old @ new)))"
  have inv: "pipe_inv d (acked_records vs) s'"
    using pipe_run [OF assms(7) pipe_new(1) [OF assms(1-3)] assms(8)] .
  obtain rest where rest: "concat (map item_entries new) = acked_records vs @ rest"
    using assms(9) by (auto simp: prefix_def)
  have "prefix ?log (d_log d @ log_bytes (acked_records vs))" using pipe_log_prefix [OF inv] .
  also have "prefix (d_log d @ log_bytes (acked_records vs)) ?all" by (simp add: assms(6) rest)
  finally have "prefix ?log ?all" .
  then have log: "?log = take (length ?log) ?all" by (metis append_eq_conv_conj prefixE)
  obtain j where j: "j \<le> length (old @ new)"
    "replay_tables env (log_records env ?log) t =
       fold (apply_entry env) (map stored_entry (concat (map item_body (take j (old @ new))))) t"
    "\<And>i. i \<le> length (old @ new) \<Longrightarrow>
       length (log_bytes (concat (map item_entries (take i (old @ new))))) \<le> length ?log \<Longrightarrow> i \<le> j"
    using crash_prefix [OF assms(10,11), of env "skip_value env" "length ?log" t]
    unfolding log_records_def log [symmetric] by blast
  have "prefix (d_log d) ?log" using inv by (simp add: pipe_inv_def)
  then have "length old \<le> j"
    using j(3) [of "length old"] by (simp add: assms(6) prefix_length_le)
  moreover have "d_snapshot (as_disk s') = None" "d_unreadable (as_disk s') = None"
    using inv assms(4,5) by (simp_all add: pipe_inv_def)
  moreover from this have "stream_into_state env (SyncDiskStorage (as_disk s')) t =
      (Inr (length (log_records env ?log)), replay_tables env (log_records env ?log) t)"
    by (rule replay_disk)
  ultimately show ?thesis
    using j(1,2) by (intro exI [of _ j] exI [of _ "length (log_records env ?log)"]) simp
qed

theorem async_crash_recovers_prefix_witness:
  "\<exists>j m. j \<le> 1 \<and> stream_into_state demo_env (SyncDiskStorage (as_disk demo_sent)) (empty_tables 0) =
    (Inr m, fold (apply_entry demo_env) (map stored_entry (concat (map item_body (take j [demo_tx ''x'' ''k''])))) (empty_tables 0))"
  using async_crash_recovers_prefix [OF demo_async_new _ _ _ _ _ demo_sent_run no_compaction_sent,
      of "[]" "[demo_tx ''x'' ''k'']" demo_env "empty_tables 0"] demo_records_ok
  by (simp add: demo_disk_def)

text \<open>
  C18. Shutdown of the asynchronous backend. On a disk without faults and without a snapshot the drop of a storage
  that was not compacted (see \<open>compaction_loses_writes_beside_it\<close>), whenever it comes, returns with every acknowledged record in the log: the next start replays the
  old records and then all the acknowledged ones, in order.
\<close>

theorem async_drop_keeps_all:
  assumes "async_new d temp = Inr s" and "disk_logs env d [] old" and "d_snapshot d = None" and "io_fine d"
    and "async_run env s vs s'" and "list_all (\<lambda>v. \<not> compacts v) vs" and "as_open s'"
    and "list_all record_ok (acked_records vs)"
  shows "stream_into_state env (SyncDiskStorage (as_disk (async_drop s'))) t =
    (Inr (length (old @ acked_records vs)), replay_tables env (map stored_entry (old @ acked_records vs)) t)"
proof -
  have d: "d_buf d = []" "\<not> d_detached d" "d_unreadable d = None" "list_all record_ok old" "d_log d = log_bytes old"
    using assms(2) by (simp_all add: disk_logs_def)
  note new = pipe_new [OF assms(1) d(1,2)]
  have "io_fine (as_disk s)"
    using assms(1,4) io_call_stays_fine [of d] io_call_stays_fine [of "snd (io_call d)"]
    by (auto simp: async_new_def split: prod.splits sum.splits option.splits)
  then have "clean_inv d [] s" using new by (simp add: clean_inv_def)
  moreover obtain ws where ws: "async_run env s' ws (async_drop s')" "quiet ws"
    using drop_run [OF assms(7)] by blast
  ultimately have "clean_inv d (acked_records (vs @ ws)) (async_drop s')"
    using clean_run [OF run_trans [OF ws(1) assms(5)]] quiet_acked [OF ws(2)] assms(6) by simp
  then have "d_log (as_disk (async_drop s')) = log_bytes (old @ acked_records vs)"
    "d_snapshot (as_disk (async_drop s')) = None" "d_unreadable (as_disk (async_drop s')) = None"
    using quiet_acked [OF ws(2)] drop_stops [of s'] assms(3) d(3,5)
    by (simp_all add: clean_inv_def pipe_inv_def)
  then show ?thesis
    using replay_disk [of "as_disk (async_drop s')" env t]
      log_records_written [of "old @ acked_records vs" env] assms(8) d(4) by simp
qed

theorem async_drop_keeps_all_witness:
  "stream_into_state demo_env (SyncDiskStorage (as_disk (async_drop demo_sent))) (empty_tables 0) =
    (Inr 3, replay_tables demo_env (map stored_entry demo_records) (empty_tables 0))"
proof -
  have "length demo_records = 3" by (simp add: demo_tx_def)
  then show ?thesis
    using async_drop_keeps_all [OF demo_async_new _ _ _ demo_sent_run no_compaction_sent,
        of demo_env "[]" "empty_tables 0"] demo_records_ok(2)
    by (simp add: demo_disk_def disk_logs_def io_fine_def demo_sent_def demo_async_def)
qed

section \<open>Compaction beside other callers\<close>

text \<open>On a fine disk the task works through the records before the exchange and performs it.\<close>

definition swaps_to :: "disk \<Rightarrow> bytes \<Rightarrow> disk \<Rightarrow> bool" where
  "swaps_to d log d' \<longleftrightarrow> io_fine d' \<and> \<not> d_detached d' \<and> d_snapshot d' = d_snapshot d \<and>
     d_unreadable d' = d_unreadable d \<and> d_log d' = log \<and> d_buf d' = []"

lemma handle_compact_fine:
  assumes "io_fine (as_disk s)" and "\<not> d_detached (as_disk s)" and "as_temp s = Some temp"
  shows "\<exists>d'. swaps_to (as_disk s) temp d' \<and>
    writer_handle (Compact c) s = s\<lparr>as_disk := d', as_temp := None, as_done := c # as_done s\<rparr>"
proof -
  let ?d = "drop_writer (snd (flush_writer (as_disk s)))"
  obtain d0 where d0: "flush_writer (as_disk s) = (Inr (), d0)" "io_fine d0"
    using buf_flush_fine [OF assms(1)] by (cases "flush_writer (as_disk s)") auto
  note f = flush_writer_outcome [OF d0(1) assms(2)]
  have "drop_writer d0 = d0" using f(2) by (simp add: drop_writer_def flush_writer_def)
  then have d: "io_fine ?d" "\<not> d_detached ?d" "d_snapshot ?d = d_snapshot (as_disk s)"
    "d_unreadable ?d = d_unreadable (as_disk s)" "d_buf ?d = []"
    using d0 f by simp_all
  obtain d1 where d1: "io_call ?d = (Inr (), d1)" "same_disk ?d d1" "io_fine d1"
    using io_call_fine [OF d(1)] .
  have "io_fine (d1\<lparr>d_log := temp\<rparr>)" using d1(3) by (simp add: io_fine_def)
  then obtain d2 where d2: "io_call (d1\<lparr>d_log := temp\<rparr>) = (Inr (), d2)" "same_disk (d1\<lparr>d_log := temp\<rparr>) d2" "io_fine d2"
    using io_call_fine by blast
  have "swaps_to (as_disk s) temp d2" using d d1(2) d2(2,3) by (simp add: swaps_to_def same_disk_def)
  then show ?thesis
    using d1(1) d2(1) assms(3)
    by (intro exI [of _ d2]) (simp add: Let_def on_disk_def swap_temp_def)
qed

lemma drain_to_compact:
  assumes "as_task s = Looping" and "io_fine (as_disk s)" and "\<not> d_detached (as_disk s)"
    and "as_temp s = Some temp" and "list_all is_write ws"
  shows "swaps_to (as_disk s) temp (as_disk (writer_drain (ws @ [Compact c]) s))"
  using assms
proof (induction ws arbitrary: s)
  case Nil
  then obtain d' where d': "swaps_to (as_disk s) temp d'"
    "writer_handle (Compact c) (s\<lparr>as_queue := []\<rparr>) =
       s\<lparr>as_queue := [], as_disk := d', as_temp := None, as_done := c # as_done s\<rparr>"
    using handle_compact_fine [of "s\<lparr>as_queue := []\<rparr>" temp c] by auto
  then have "flush_writer d' = (Inr (), d')" "d'\<lparr>d_buf := []\<rparr> = d'" by (simp_all add: swaps_to_def flush_writer_def)
  then show ?case using d' Nil.prems(1) by (simp add: writer_exit_def drop_writer_def)
next
  case (Cons w ws)
  then obtain bs where w: "w = Write bs" by (cases w) auto
  obtain d where d: "buf_writer_write bs (as_disk s) = (Inr (), d)" "io_fine d"
    using buf_writer_write_fine [OF Cons.prems(2), of bs] by (cases "buf_writer_write bs (as_disk s)") auto
  note o = buf_writer_write_outcome [OF d(1) Cons.prems(3)]
  let ?s = "s\<lparr>as_queue := ws @ [Compact c], as_disk := d\<rparr>"
  have "swaps_to d temp (as_disk (writer_drain (ws @ [Compact c]) ?s))"
    using Cons.IH [of ?s] Cons.prems d(2) o(4) by simp
  then show ?case
    using w d(1) o(5,6) Cons.prems(1) by (simp add: on_disk_def swaps_to_def)
qed

text \<open>
  C19. Writes beside a compaction. A compaction writes the snapshot first and asks for the exchange
  of the log afterwards, and nothing keeps other callers from writing in between. Every record
  acknowledged there is before the exchange in the channel, so it goes into the old log: after a
  clean shutdown on a disk without faults the next start finds the snapshot and nothing else.
\<close>

theorem compaction_loses_writes_beside_it:
  assumes "as_task s = Looping" and "as_open s" and "list_all is_write (as_queue s)"
    and "io_fine (as_disk s)" and "\<not> d_detached (as_disk s)" and "d_unreadable (as_disk s) = None"
    and "gzip_ok env" and "all_decode st"
    and "list_all record_ok (compacted st schemas)" and "length (compacted st schemas) < 2 ^ 64"
    and "op_iter async_write_entry es (async_snapshot env st schemas s) = (Inr (), s1)"
    and "async_swap_log c s1 = (Inr (), s2)"
  shows "stream_into_state env (SyncDiskStorage (as_disk (async_drop s2))) t =
    (Inr (length (compacted st schemas)), replay_tables env (map stored_entry (compacted st schemas)) t)"
proof -
  let ?s = "async_snapshot env st schemas s" and ?tmp = "snapshot_of env (compacted st schemas)"
  obtain d1 where d1: "io_call (as_disk s) = (Inr (), d1)" "same_disk (as_disk s) d1" "io_fine d1"
    using io_call_fine [OF assms(4)] .
  obtain d2 where d2: "finish_snapshot_gz ?tmp d1 = (Inr (), d2)" "d_snapshot d2 = Some ?tmp"
    "d_unreadable d2 = d_unreadable d1" "d_detached d2 = d_detached d1" "io_fine d2"
    using finish_snapshot_fine [OF d1(3), of ?tmp] by metis
  have s: "?s = s\<lparr>as_disk := d2\<rparr>"
    using d1(1) d2(1)
    by (simp add: async_snapshot_def on_disk_def write_snapshot_from_maps_def snapshot_body_eq
        snapshot_count_eq [OF assms(8)] snapshot_of_def)
  obtain d3 where d3: "io_call d2 = (Inr (), d3)" "same_disk d2 d3" "io_fine d3"
    using io_call_fine [OF d2(5)] .
  let ?ws = "as_queue s @ map (Write \<circ> write_msgpack_entry) es"
  have s1: "s1 = s\<lparr>as_disk := d2, as_queue := ?ws\<rparr>"
    using assms(1,2,11) send_all [of ?s es] unfolding s by simp
  have s2: "s2 = s\<lparr>as_disk := d3, as_temp := Some [], as_queue := ?ws @ [Compact c]\<rparr>"
    using assms(1,2,12) d3(1)
    by (auto simp: s1 async_swap_log_def op_bind_def on_disk_def channel_send_def write_compacted_log_no_tx_def)
  let ?s2 = "s2\<lparr>as_open := False\<rparr>"
  have "list_all is_write ?ws" using assms(3) by (auto simp: list_all_iff)
  then have "swaps_to (as_disk ?s2) [] (as_disk (writer_drain (?ws @ [Compact c]) ?s2))"
    using assms(1,5) d1(2) d2(4) d3(2,3)
    by (intro drain_to_compact) (simp_all add: s2 same_disk_def)
  then have "swaps_to d3 [] (as_disk (writer_drain (?ws @ [Compact c]) ?s2))" by (simp add: s2)
  moreover have "async_drop s2 = writer_drain (?ws @ [Compact c]) ?s2"
    using assms(1) by (simp add: s2 async_drop_def)
  ultimately have "disk_logs env (as_disk (async_drop s2)) (compacted st schemas) []"
    using assms(6,9,10) d1(2) d2(2,3) d3(2) by (simp add: disk_logs_def swaps_to_def same_disk_def)
  then have "logs env (SyncDiskStorage (as_disk (async_drop s2))) (map stored_entry (compacted st schemas))"
    by auto
  then show ?thesis using stream_into_state_logs [OF _ assms(7), of _ _ t] by simp
qed

theorem compaction_loses_writes_beside_it_witness:
  "\<exists>s1 s2. op_iter async_write_entry demo_records
      (async_snapshot demo_env [] [] ((demo_async [])\<lparr>as_task := Looping\<rparr>)) = (Inr (), s1) \<and>
    async_swap_log 0 s1 = (Inr (), s2) \<and>
    stream_into_state demo_env (SyncDiskStorage (as_disk (async_drop s2))) (empty_tables 0) =
      (Inr 0, empty_tables 0)"
proof -
  let ?s = "(demo_async [])\<lparr>as_task := Looping\<rparr>"
  let ?d = "snd (write_snapshot_from_maps demo_env [] [] 0 (demo_disk []))"
  have snap: "async_snapshot demo_env [] [] ?s = ?s\<lparr>as_disk := ?d\<rparr>"
    by (simp add: async_snapshot_def on_disk_def demo_async_def split: prod.splits)
  let ?s1 = "?s\<lparr>as_disk := ?d, as_queue := map (Write \<circ> write_msgpack_entry) demo_records\<rparr>"
  have s1: "op_iter async_write_entry demo_records (async_snapshot demo_env [] [] ?s) = (Inr (), ?s1)"
    unfolding snap by (subst send_all) (simp_all add: demo_async_def)
  have "d_io ?d = []"
    by (simp add: write_snapshot_from_maps_def finish_snapshot_gz_def drop_snapshot_writer_def op_bind_def io_call_def next_io_def demo_disk_def)
  then obtain s2 where s2: "async_swap_log 0 ?s1 = (Inr (), s2)"
    by (simp add: async_swap_log_def op_bind_def on_disk_def io_call_def next_io_def channel_send_def demo_async_def)
  have "gzip_ok demo_env" by (simp add: gzip_ok_def demo_env_def)
  then have "stream_into_state demo_env (SyncDiskStorage (as_disk (async_drop s2))) (empty_tables 0) =
      (Inr 0, empty_tables 0)"
    using compaction_loses_writes_beside_it [OF _ _ _ _ _ _ _ _ _ _ s1 s2, of "empty_tables 0"]
    by (simp add: demo_async_def demo_disk_def io_fine_def all_decode_def compacted_def doc_entries_def
        schema_entries_def replay_tables_def replay_start_def)
  then show ?thesis using s1 s2 by blast
qed

section \<open>Waiting for the exchange\<close>

text \<open>
  A task that has stopped signals nobody. When a write in front of it fails, or the log cannot be
  reopened, a caller that waits for its compaction waits forever.
\<close>

lemma stopped_step:
  assumes "async_step env s v s'" and "as_task s = Stopped"
  shows "as_task s' = Stopped \<and> as_done s' = as_done s"
  using assms(1)
proof cases
  case (sent e r)
  then show ?thesis using assms(2) by (simp add: async_write_entry_def channel_send_def Let_def)
next
  case (swap_requested c r)
  then show ?thesis
    using assms(2)
    by (auto simp: async_swap_log_def op_bind_def channel_send_def on_disk_def split: prod.splits sum.splits)
qed (use assms(2) in \<open>auto simp: async_snapshot_def on_disk_def split: prod.splits\<close>)

lemma stopped_run:
  assumes "async_run env s vs s'" and "as_task s = Stopped"
  shows "as_task s' = Stopped \<and> as_done s' = as_done s"
  using assms by induction (use stopped_step in auto)

lemma compaction_waits_forever:
  assumes "buf_writer_write bs (as_disk s) = (Inl err, d)" and "as_task s = Looping"
    and "as_queue s = Write bs # q" and "Compact c \<in> set q" and "c \<notin> set (as_done s)"
    and "async_step env s (Handled (Write bs)) s1" and "async_run env s1 vs s2" and "as_open s2"
  shows "\<not> swap_finished c s2"
proof -
  have s1: "s1 = writer_exit (s\<lparr>as_queue := q, as_disk := d, as_fault := True\<rparr>)"
    using assms(6) by (rule handled_E) (use assms(1,3) in \<open>simp add: on_disk_def\<close>)
  then have "as_done s2 = as_done s" using stopped_run [OF assms(7)] by simp
  then show ?thesis using assms(5,8) by (simp add: swap_finished_def)
qed

end
