(* ===== verification/F64.thy ===== *)
theory F64
  imports MsgPack
begin

text \<open>
  The double arithmetic that queries use: the value of a bit pattern, conversion of integers,
  comparison, subtraction and truncation to an unsigned integer, as IEEE 754 and the language
  define them. Every finite double is an integral multiple of two to the power of
  -1074; \<open>Fin k\<close> stands for \<open>k\<close> of these units. The sign of a zero does not matter to any of the operations here.
\<close>

datatype fval = NaN | PInf | NInf | Fin int

definition f64_unit :: int where
  "f64_unit = 2 ^ 1074"

section \<open>The value of a bit pattern\<close>

definition f64_value :: "f64 \<Rightarrow> fval" where
  "f64_value f =
     (let ex = unat (take_bit 11 (drop_bit 52 f)); man = uint (take_bit 52 f); neg = bit f 63
      in if ex = 2047 then (if man \<noteq> 0 then NaN else if neg then NInf else PInf)
         else let k = (if ex = 0 then man else (man + 2 ^ 52) * 2 ^ (ex - 1))
              in Fin (if neg then - k else k))"

section \<open>Rounding to 53 bits, ties to even\<close>

fun bitlen :: "nat \<Rightarrow> nat" where
  "bitlen n = (if n = 0 then 0 else Suc (bitlen (n div 2)))"

declare bitlen.simps [simp del]

definition round53 :: "nat \<Rightarrow> nat" where
  "round53 m =
     (if bitlen m \<le> 53 then m
      else let e = bitlen m - 53; q = m div 2 ^ e; r = m mod 2 ^ e; half = 2 ^ (e - 1)
           in (if r > half \<or> (r = half \<and> odd q) then q + 1 else q) * 2 ^ e)"

text \<open>A number of units as a double; beyond the largest double it is infinite.\<close>

definition f64_round :: "int \<Rightarrow> fval" where
  "f64_round k =
     (let m = round53 (nat \<bar>k\<bar>)
      in if m \<ge> 2 ^ 2098 then (if k < 0 then NInf else PInf)
         else Fin (if k < 0 then - int m else int m))"

text \<open>The bit pattern of a value that a double can hold.\<close>

definition f64_pack :: "fval \<Rightarrow> f64" where
  "f64_pack a =
     (case a of NaN \<Rightarrow> 0x7ff8000000000000 | PInf \<Rightarrow> 0x7ff0000000000000 | NInf \<Rightarrow> 0xfff0000000000000
      | Fin k \<Rightarrow>
        (let m = nat \<bar>k\<bar>; e = bitlen m - 53;
             bits = (if m < 2 ^ 52 then m else (e + 1) * 2 ^ 52 + (m div 2 ^ e - 2 ^ 52))
         in word_of_nat bits OR (if k < 0 then 0x8000000000000000 else 0)))"

text \<open>\<open>as f64\<close> of an integer.\<close>

definition f64_of_int :: "int \<Rightarrow> f64" where
  "f64_of_int i = f64_pack (f64_round (i * f64_unit))"

section \<open>Operations\<close>

fun f64_neg :: "fval \<Rightarrow> fval" where
  "f64_neg NaN = NaN"
| "f64_neg PInf = NInf"
| "f64_neg NInf = PInf"
| "f64_neg (Fin k) = Fin (- k)"

fun f64_add :: "fval \<Rightarrow> fval \<Rightarrow> fval" where
  "f64_add (Fin a) (Fin b) = f64_round (a + b)"
| "f64_add (Fin a) b = b"
| "f64_add a (Fin b) = a"
| "f64_add a b = (if a = b then a else NaN)"

definition f64_sub :: "fval \<Rightarrow> fval \<Rightarrow> fval" where
  "f64_sub a b = f64_add a (f64_neg b)"

definition f64_abs :: "fval \<Rightarrow> fval" where
  "f64_abs a = (case a of NInf \<Rightarrow> PInf | Fin k \<Rightarrow> Fin \<bar>k\<bar> | _ \<Rightarrow> a)"

fun f64_less :: "fval \<Rightarrow> fval \<Rightarrow> bool" where
  "f64_less NaN b = False"
| "f64_less a NaN = False"
| "f64_less (Fin a) (Fin b) = (a < b)"
| "f64_less NInf b = (b \<noteq> NInf)"
| "f64_less (Fin a) b = (b = PInf)"
| "f64_less PInf b = False"

definition f64_eq :: "fval \<Rightarrow> fval \<Rightarrow> bool" where
  "f64_eq a b \<longleftrightarrow> a = b \<and> a \<noteq> NaN"

definition f64_leq :: "fval \<Rightarrow> fval \<Rightarrow> bool" where
  "f64_leq a b \<longleftrightarrow> f64_less a b \<or> f64_eq a b"

definition f64_epsilon :: fval where
  "f64_epsilon = Fin (2 ^ 1022)"

text \<open>\<open>as u64\<close>: truncation, saturating at both ends, zero for a NaN.\<close>

definition f64_as_u64 :: "fval \<Rightarrow> u64" where
  "f64_as_u64 a =
     (case a of NaN \<Rightarrow> 0 | NInf \<Rightarrow> 0 | PInf \<Rightarrow> - 1
      | Fin k \<Rightarrow> if k < 0 then 0
                 else if k div f64_unit \<ge> 2 ^ 64 then - 1 else word_of_int (k div f64_unit))"

text \<open>
  \<open>-x\<close> flips the sign bit; \<open>total_cmp\<close> orders bit patterns as signed integers after flipping the
  other bits of the negative ones.
\<close>

definition f64_negate :: "f64 \<Rightarrow> f64" where
  "f64_negate f = f XOR 0x8000000000000000"

definition total_key :: "f64 \<Rightarrow> int" where
  "total_key f = (if bit f 63 then sint (f XOR 0x7fffffffffffffff) else sint f)"

section \<open>Numbers of JSON values\<close>

fun number_as_f64 :: "number \<Rightarrow> f64" where
  "number_as_f64 (PosInt n) = f64_of_int (uint n)"
| "number_as_f64 (NegInt i) = f64_of_int (sint i)"
| "number_as_f64 (Float f) = f"

fun as_f64 :: "json \<Rightarrow> f64 option" where
  "as_f64 (Number n) = Some (number_as_f64 n)"
| "as_f64 v = None"

lemma size_zip_left [termination_simp]:
  "(a, b) \<in> set (zip xs ys) \<Longrightarrow> size a < Suc (size_list size xs)"
  by (meson less_Suc_eq_le order_refl set_zip_leftD size_list_estimation')

lemma size_zip_left_snd [termination_simp]:
  "((k, v), q) \<in> set (zip m n) \<Longrightarrow> size v < Suc (size_list (\<lambda>x. Suc (size (snd x))) m)"
  using size_list_estimation [of "(k, v)" m "size v" "\<lambda>x. Suc (size (snd x))"]
  by (auto dest: set_zip_leftD)

text \<open>
  \<open>==\<close> on values: numbers of different representation differ, doubles compare as doubles.
\<close>

fun number_eq :: "number \<Rightarrow> number \<Rightarrow> bool" where
  "number_eq (PosInt a) (PosInt b) = (a = b)"
| "number_eq (NegInt a) (NegInt b) = (a = b)"
| "number_eq (Float a) (Float b) = f64_eq (f64_value a) (f64_value b)"
| "number_eq a b = False"

fun value_eq :: "json \<Rightarrow> json \<Rightarrow> bool" where
  "value_eq Null Null = True"
| "value_eq (Bool a) (Bool b) = (a = b)"
| "value_eq (Number a) (Number b) = number_eq a b"
| "value_eq (String a) (String b) = (a = b)"
| "value_eq (Array as) (Array bs) =
     (length as = length bs \<and> list_all (\<lambda>(a, b). value_eq a b) (zip as bs))"
| "value_eq (Object m) (Object n) =
     (length m = length n \<and>
      list_all (\<lambda>(p, q). fst p = fst q \<and> value_eq (snd p) (snd q)) (zip m n))"
| "value_eq a b = False"

section \<open>Small integers are exact\<close>

lemma bitlen_0 [simp]: "bitlen 0 = 0"
  by (simp add: bitlen.simps)

lemma bitlen_le: "m < 2 ^ n \<Longrightarrow> bitlen m \<le> n"
proof (induction n arbitrary: m)
  case (Suc n)
  then have "m div 2 < 2 ^ n" by (simp add: less_mult_imp_div_less)
  then have "bitlen (m div 2) \<le> n" by (rule Suc.IH)
  then show ?case by (simp add: bitlen.simps [of m])
qed (simp add: bitlen.simps)

lemma bitlen_pow: "0 < m \<Longrightarrow> bitlen (m * 2 ^ n) = bitlen m + n"
proof (induction n)
  case (Suc n)
  have "bitlen (m * 2 ^ Suc n) = Suc (bitlen ((m * 2 ^ Suc n) div 2))"
    using Suc.prems by (subst bitlen.simps) simp
  then show ?case using Suc by simp
qed simp

lemma round53_exact: "m < 2 ^ 53 \<Longrightarrow> round53 (m * 2 ^ n) = m * 2 ^ n"
proof (cases "m = 0")
  case False
  assume m: "m < 2 ^ 53"
  let ?e = "bitlen (m * 2 ^ n) - 53"
  have e: "?e \<le> n" using bitlen_le [OF m] bitlen_pow [of m n] False by simp
  then obtain d where "n = ?e + d" using le_Suc_ex by blast
  then have eq: "m * 2 ^ n = (m * 2 ^ d) * 2 ^ ?e"
    by (metis mult.assoc power_add mult.commute)
  then have "(m * 2 ^ n) div 2 ^ ?e = m * 2 ^ d" "(m * 2 ^ n) mod 2 ^ ?e = 0"
    by (metis nonzero_mult_div_cancel_right power_not_zero zero_neq_numeral,
        metis mod_mult_self2_is_0)
  then show ?thesis
    unfolding round53_def Let_def by (simp flip: eq)
qed (simp add: round53_def)

section \<open>The total order tells bit patterns apart\<close>

lemma sint_neg_bit: "sint (f :: f64) < 0 \<longleftrightarrow> bit f 63"
  using bit_last_iff [of f] by simp

lemma total_key_neg: "total_key f < 0 \<longleftrightarrow> bit f 63"
proof -
  have "\<not> bit (0x7fffffffffffffff :: f64) 63" by simp
  then have "bit (f XOR 0x7fffffffffffffff) 63 \<longleftrightarrow> bit f 63" by (simp only: bit_xor_iff) simp
  then show ?thesis by (simp only: total_key_def sint_neg_bit split: if_split) (metis sint_neg_bit)
qed

lemma xor_inj: "f XOR c = g XOR c \<Longrightarrow> f = (g :: f64)"
proof -
  assume "f XOR c = g XOR c"
  then have "(f XOR c) XOR c = (g XOR c) XOR c" by (rule arg_cong)
  then show ?thesis by (simp only: xor.assoc xor_self_eq xor.right_neutral)
qed

lemma total_key_inj:
  assumes "total_key f = total_key g"
  shows "f = g"
proof (cases "bit f 63")
  case True
  then have "bit g 63" using assms total_key_neg by metis
  with True assms have "sint (f XOR 0x7fffffffffffffff) = sint (g XOR 0x7fffffffffffffff)"
    unfolding total_key_def by (simp only: if_True)
  then have "f XOR 0x7fffffffffffffff = g XOR 0x7fffffffffffffff" by (rule signed_word_eqI)
  then show ?thesis by (rule xor_inj)
next
  case False
  then have "\<not> bit g 63" using assms total_key_neg by metis
  with False assms have "sint f = sint g" unfolding total_key_def by (simp only: if_False)
  then show ?thesis by (rule signed_word_eqI)
qed

end
