(* ===== verification/Query.thy ===== *)
theory Query
  imports Wal F64 "HOL-Library.Sublist"
begin

text \<open>
  Queries of \<open>query.rs\<close>: navigation in the MessagePack bytes of a document, predicates and WHERE
  clauses on these bytes and on decoded values, projection and exclusion of fields. \<open>skip\<close> is the
  third-party deserialiser that skips a value, \<open>lc\<close> the Unicode lower-casing of the standard
  library.
\<close>

section \<open>Cursors\<close>

text \<open>
  The reader of strings consumes the marker and the length also when it then fails, and one caller
  goes on with the cursor, so it returns the cursor with either result.
\<close>

definition str_rest :: "nat \<Rightarrow> bytes \<Rightarrow> string option \<times> bytes" where
  "str_rest len bs =
     (if length bs < len then (None, bs)
      else case from_utf8 (take len bs) of None \<Rightarrow> (None, bs) | Some s \<Rightarrow> (Some s, drop len bs))"

definition read_msgpack_str :: "bytes \<Rightarrow> string option \<times> bytes" where
  "read_msgpack_str bs =
     (case bs of [] \<Rightarrow> (None, [])
      | b # r \<Rightarrow>
        (if 0xa0 \<le> b \<and> b \<le> 0xbf then str_rest (unat (b AND 0x1f)) r
         else if b = 0xd9 then
           (case r of [] \<Rightarrow> (None, []) | n # r' \<Rightarrow> str_rest (unat n) r')
         else if b = 0xda then
           (case read_be 2 r of None \<Rightarrow> (None, r) | Some (n, r') \<Rightarrow> str_rest n r')
         else if b = 0xdb then
           (case read_be 4 r of None \<Rightarrow> (None, r) | Some (n, r') \<Rightarrow> str_rest n r')
         else (None, r)))"

definition read_msgpack_map_len :: "bytes \<Rightarrow> (nat \<times> bytes) option" where
  "read_msgpack_map_len bs =
     (case bs of [] \<Rightarrow> None
      | b # r \<Rightarrow>
        (if 0x80 \<le> b \<and> b \<le> 0x8f then Some (unat (b AND 0x0f), r)
         else if b = 0xde then read_be 2 r
         else if b = 0xdf then read_be 4 r
         else None))"

definition read_msgpack_array_len :: "bytes \<Rightarrow> (nat \<times> bytes) option" where
  "read_msgpack_array_len bs =
     (case bs of [] \<Rightarrow> None
      | b # r \<Rightarrow>
        (if 0x90 \<le> b \<and> b \<le> 0x9f then Some (unat (b AND 0x0f), r)
         else if b = 0xdc then read_be 2 r
         else if b = 0xdd then read_be 4 r
         else None))"

text \<open>\<open>skip_value\<close>: an undecodable rest is dropped.\<close>

definition skip_cursor :: "(bytes \<Rightarrow> bytes option) \<Rightarrow> bytes \<Rightarrow> bytes" where
  "skip_cursor skip bs = (case skip bs of Some r \<Rightarrow> r | None \<Rightarrow> [])"

section \<open>Navigation\<close>

text \<open>The loop over the \<open>n\<close> entries of a map: the cursor at the value of \<open>segment\<close>.\<close>

primrec find_segment :: "(bytes \<Rightarrow> bytes option) \<Rightarrow> string \<Rightarrow> nat \<Rightarrow> bytes \<Rightarrow> bytes option" where
  "find_segment skip segment 0 bs = None"
| "find_segment skip segment (Suc n) bs =
     (case bs of [] \<Rightarrow> None
      | b # r \<Rightarrow>
        (if 0xe0 \<le> b then find_segment skip segment n (skip_cursor skip r)
         else case read_msgpack_str bs of (None, _) \<Rightarrow> None
         | (Some key, r') \<Rightarrow>
           (if key = segment then Some r'
            else find_segment skip segment n (skip_cursor skip r'))))"

fun find_msgpack_value :: "(bytes \<Rightarrow> bytes option) \<Rightarrow> bytes \<Rightarrow> string list \<Rightarrow> bytes option" where
  "find_msgpack_value skip bs [] = None"
| "find_msgpack_value skip bs (segment # parts) =
     (case read_msgpack_map_len bs of None \<Rightarrow> None
      | Some (n, r) \<Rightarrow>
        (case find_segment skip segment n r of None \<Rightarrow> None
         | Some r' \<Rightarrow> if parts = [] then Some r' else find_msgpack_value skip r' parts))"

section \<open>Leaf readers\<close>

definition read_lower_str :: "(string \<Rightarrow> string) \<Rightarrow> bytes \<Rightarrow> string option" where
  "read_lower_str lc bs = map_option lc (fst (read_msgpack_str bs))"

definition read_msgpack_number :: "bytes \<Rightarrow> f64 option" where
  "read_msgpack_number bs =
     (case bs of [] \<Rightarrow> None
      | b # r \<Rightarrow>
        (if b \<le> 0x7f then Some (f64_of_int (uint b))
         else if 0xe0 \<le> b then Some (f64_of_int (sint b))
         else if b = 0xcc then (case r of [] \<Rightarrow> None | v # r' \<Rightarrow> Some (f64_of_int (uint v)))
         else if b = 0xcd then map_option (\<lambda>(n, r'). f64_of_int (int n)) (read_be 2 r)
         else if b = 0xce then map_option (\<lambda>(n, r'). f64_of_int (int n)) (read_be 4 r)
         else if b = 0xcf then map_option (\<lambda>(n, r'). f64_of_int (int n)) (read_be 8 r)
         else if b = 0xd0 then (case r of [] \<Rightarrow> None | v # r' \<Rightarrow> Some (f64_of_int (sint v)))
         else if b = 0xd1 then
           map_option (\<lambda>(n, r'). f64_of_int (sint (word_of_nat n :: 16 word))) (read_be 2 r)
         else if b = 0xd2 then
           map_option (\<lambda>(n, r'). f64_of_int (sint (word_of_nat n :: 32 word))) (read_be 4 r)
         else if b = 0xd3 then
           map_option (\<lambda>(n, r'). f64_of_int (sint (word_of_nat n :: 64 word))) (read_be 8 r)
         else if b = 0xca then
           map_option (\<lambda>(n, r'). f64_of_f32 (word_of_nat n)) (read_be 4 r)
         else if b = 0xcb then map_option (\<lambda>(n, r'). word_of_nat n) (read_be 8 r)
         else None))"

definition read_msgpack_bool :: "bytes \<Rightarrow> bool option" where
  "read_msgpack_bool bs =
     (case bs of [] \<Rightarrow> None
      | b # r \<Rightarrow> if b = 0xc3 then Some True else if b = 0xc2 then Some False else None)"

definition read_msgpack_system_field_u64 ::
    "(bytes \<Rightarrow> bytes option) \<Rightarrow> bytes \<Rightarrow> string \<Rightarrow> u64 option outcome" where
  "read_msgpack_system_field_u64 skip bs field =
     (if field = SEQ then read_token_u64 skip bs TOK_SEQ
      else if field = CREATED_AT then read_token_u64 skip bs TOK_CREATED_AT
      else if field = MODIFIED_AT then read_token_u64 skip bs TOK_MODIFIED_AT
      else if field = EXPIRES_AT then read_token_u64 skip bs TOK_EXPIRES_AT
      else if field = VERSION then read_token_u64 skip bs TOK_VERSION
      else Returns None)"

section \<open>Predicates on bytes\<close>

text \<open>The first part of \<open>evaluate_predicate_msgpack\<close>: a system field.\<close>

definition system_predicate :: "u64 \<Rightarrow> string \<Rightarrow> json \<Rightarrow> bool option" where
  "system_predicate sys_val operator op_value =
     (case as_f64 op_value of None \<Rightarrow> None
      | Some t \<Rightarrow>
        (let threshold = f64_as_u64 (f64_value t)
         in case op_from_str operator of
              Some Gt \<Rightarrow> Some (sys_val > threshold)
            | Some Gte \<Rightarrow> Some (sys_val \<ge> threshold)
            | Some Lt \<Rightarrow> Some (sys_val < threshold)
            | Some Lte \<Rightarrow> Some (sys_val \<le> threshold)
            | Some Eq \<Rightarrow> Some (sys_val = threshold)
            | Some NotEq \<Rightarrow> Some (sys_val \<noteq> threshold)
            | _ \<Rightarrow> None))"

text \<open>Membership of a string in a list of values, ignoring case.\<close>

definition str_in :: "(string \<Rightarrow> string) \<Rightarrow> string option \<Rightarrow> json list \<Rightarrow> bool" where
  "str_in lc actual vs =
     list_ex (\<lambda>v. case (actual, v) of (Some a, String b) \<Rightarrow> a = lc b | _ \<Rightarrow> False) vs"

text \<open>The loop of \<open>$contains\<close> over an array; a failed read has consumed a byte.\<close>

primrec array_contains ::
    "(bytes \<Rightarrow> bytes option) \<Rightarrow> (string \<Rightarrow> string) \<Rightarrow> string \<Rightarrow> nat \<Rightarrow> bytes \<Rightarrow> bool" where
  "array_contains skip lc needle 0 bs = False"
| "array_contains skip lc needle (Suc n) bs =
     (case read_msgpack_str bs of
        (Some elem, r) \<Rightarrow> sublist needle (lc elem) \<or> array_contains skip lc needle n r
      | (None, r) \<Rightarrow> array_contains skip lc needle n (skip_cursor skip r))"

text \<open>The second part: a comparison of the value at the cursor.\<close>

definition leaf_compare :: "(fval \<Rightarrow> fval \<Rightarrow> bool) \<Rightarrow> bytes \<Rightarrow> json \<Rightarrow> bool option" where
  "leaf_compare rel val_at op_value =
     (case as_f64 op_value of None \<Rightarrow> None
      | Some threshold \<Rightarrow> map_option (\<lambda>actual. rel (f64_value actual) (f64_value threshold))
                            (read_msgpack_number val_at))"

definition leaf_eq :: "(string \<Rightarrow> string) \<Rightarrow> bytes \<Rightarrow> json \<Rightarrow> bool option" where
  "leaf_eq lc val_at op_value =
     (case op_value of
        String expected \<Rightarrow> map_option (\<lambda>actual. actual = lc expected) (read_lower_str lc val_at)
      | Number n \<Rightarrow>
          map_option (\<lambda>actual. f64_less (f64_abs (f64_sub (f64_value actual) (f64_value (number_as_f64 n)))) f64_epsilon)
            (read_msgpack_number val_at)
      | Bool b \<Rightarrow> map_option (\<lambda>actual. actual = b) (read_msgpack_bool val_at)
      | _ \<Rightarrow> None)"

definition leaf_ne :: "(string \<Rightarrow> string) \<Rightarrow> bytes \<Rightarrow> json \<Rightarrow> bool option" where
  "leaf_ne lc val_at op_value =
     (case op_value of
        String expected \<Rightarrow> map_option (\<lambda>actual. actual \<noteq> lc expected) (read_lower_str lc val_at)
      | Number n \<Rightarrow>
          map_option (\<lambda>actual. f64_leq f64_epsilon (f64_abs (f64_sub (f64_value actual) (f64_value (number_as_f64 n)))))
            (read_msgpack_number val_at)
      | Bool b \<Rightarrow> map_option (\<lambda>actual. actual \<noteq> b) (read_msgpack_bool val_at)
      | _ \<Rightarrow> None)"

definition leaf_contains ::
    "(bytes \<Rightarrow> bytes option) \<Rightarrow> (string \<Rightarrow> string) \<Rightarrow> bytes \<Rightarrow> json \<Rightarrow> bool option" where
  "leaf_contains skip lc val_at op_value =
     (case as_str op_value of None \<Rightarrow> None
      | Some s \<Rightarrow>
        (let needle = lc s
         in case read_lower_str lc val_at of
              Some haystack \<Rightarrow> Some (sublist needle haystack)
            | None \<Rightarrow> map_option (\<lambda>(n, r). array_contains skip lc needle n r)
                        (read_msgpack_array_len val_at)))"

definition leaf_predicate :: "(bytes \<Rightarrow> bytes option) \<Rightarrow> (string \<Rightarrow> string) \<Rightarrow> bytes \<Rightarrow> string \<Rightarrow>
    json \<Rightarrow> bool option" where
  "leaf_predicate skip lc val_at operator op_value =
     (case op_from_str operator of
        Some Eq \<Rightarrow> leaf_eq lc val_at op_value
      | Some NotEq \<Rightarrow> leaf_ne lc val_at op_value
      | Some In \<Rightarrow> map_option (str_in lc (read_lower_str lc val_at)) (as_array op_value)
      | Some NotIn \<Rightarrow>
          map_option (\<lambda>vs. \<not> str_in lc (read_lower_str lc val_at) vs) (as_array op_value)
      | Some Gt \<Rightarrow> leaf_compare (\<lambda>a t. f64_less t a) val_at op_value
      | Some Gte \<Rightarrow> leaf_compare (\<lambda>a t. f64_leq t a) val_at op_value
      | Some Lt \<Rightarrow> leaf_compare f64_less val_at op_value
      | Some Lte \<Rightarrow> leaf_compare f64_leq val_at op_value
      | Some Contains \<Rightarrow> leaf_contains skip lc val_at op_value
      | _ \<Rightarrow> None)"

definition evaluate_predicate_msgpack :: "(bytes \<Rightarrow> bytes option) \<Rightarrow> (string \<Rightarrow> string) \<Rightarrow> bytes \<Rightarrow>
    string \<Rightarrow> string \<Rightarrow> json \<Rightarrow> bool option outcome" where
  "evaluate_predicate_msgpack skip lc bs field_path operator op_value =
     (case read_msgpack_system_field_u64 skip bs field_path of
        Aborts \<Rightarrow> Aborts
      | Returns (Some sys_val) \<Rightarrow> Returns (system_predicate sys_val operator op_value)
      | Returns None \<Rightarrow>
          Returns (case find_msgpack_value skip bs (split_on CHR ''.'' field_path) of
              None \<Rightarrow> None
            | Some val_at \<Rightarrow> leaf_predicate skip lc val_at operator op_value))"

text \<open>\<open>unwrap_or(false)\<close>.\<close>

fun or_false :: "bool option outcome \<Rightarrow> bool option outcome" where
  "or_false (Returns None) = Returns (Some False)"
| "or_false r = r"

definition evaluate_binary_predicate :: "(bytes \<Rightarrow> bytes option) \<Rightarrow> (string \<Rightarrow> string) \<Rightarrow> bytes \<Rightarrow>
    string \<Rightarrow> string \<Rightarrow> bool option outcome" where
  "evaluate_binary_predicate skip lc bs key val =
     or_false (evaluate_predicate_msgpack skip lc bs key (op_as_str Eq) (String val))"

section \<open>WHERE clauses on bytes\<close>

text \<open>
  The loops of the evaluators share a shape: they go on while an item gives \<open>r\<close> and return the
  first other result, or \<open>r\<close> at the end.
\<close>

fun while_result :: "'r \<Rightarrow> ('a \<Rightarrow> 'r) \<Rightarrow> 'a list \<Rightarrow> 'r" where
  "while_result r f [] = r"
| "while_result r f (x # xs) = (let y = f x in if y = r then while_result r f xs else y)"

lemma while_result_cong [fundef_cong]:
  "xs = ys \<Longrightarrow> r = r' \<Longrightarrow> (\<And>x. x \<in> set ys \<Longrightarrow> f x = g x) \<Longrightarrow> while_result r f xs = while_result r' g ys"
  by (induction xs arbitrary: ys) (auto simp: Let_def)

abbreviation passes :: "bool option outcome" where "passes \<equiv> Returns (Some True)"
abbreviation fails :: "bool option outcome" where "fails \<equiv> Returns (Some False)"

fun evaluate_where_msgpack :: "(bytes \<Rightarrow> bytes option) \<Rightarrow> (string \<Rightarrow> string) \<Rightarrow> bytes \<Rightarrow> json \<Rightarrow>
    bool option outcome" where
  "evaluate_where_msgpack skip lc bs (Array qs) =
     while_result passes (\<lambda>q. or_false (evaluate_where_msgpack skip lc bs q)) qs"
| "evaluate_where_msgpack skip lc bs (Object m) =
     while_result passes
       (\<lambda>(key, condition).
          if key = op_as_str Or then
            (case condition of
               Array subs \<Rightarrow> while_result fails (\<lambda>q. or_false (evaluate_where_msgpack skip lc bs q)) subs
             | _ \<Rightarrow> Returns None)
          else if key = op_as_str And then
            (case condition of
               Array subs \<Rightarrow> while_result passes (\<lambda>q. or_false (evaluate_where_msgpack skip lc bs q)) subs
             | _ \<Rightarrow> Returns None)
          else
            (case condition of
               Object conds \<Rightarrow>
                 while_result passes
                   (\<lambda>(operator, op_value). or_false (evaluate_predicate_msgpack skip lc bs key operator op_value))
                   conds
             | _ \<Rightarrow> or_false (evaluate_predicate_msgpack skip lc bs key (op_as_str Eq) condition)))
       m"
| "evaluate_where_msgpack skip lc bs q = Returns None"

section \<open>Projection and exclusion\<close>

fun get_nested_value :: "json \<Rightarrow> string list \<Rightarrow> json option" where
  "get_nested_value doc [] = Some doc"
| "get_nested_value doc (part # parts) =
     (case vget doc part of None \<Rightarrow> None | Some v \<Rightarrow> get_nested_value v parts)"

fun insert_nested_value :: "object \<Rightarrow> string list \<Rightarrow> json \<Rightarrow> object" where
  "insert_nested_value target [] v = target"
| "insert_nested_value target [key] v = bt_insert key v target"
| "insert_nested_value target (key # parts) v =
     (case bt_get target key of
        None \<Rightarrow> bt_insert key (Object (insert_nested_value [] parts v)) target
      | Some (Object next_map) \<Rightarrow>
          bt_insert key (Object (insert_nested_value next_map parts v)) target
      | Some _ \<Rightarrow> target)"

definition project_field :: "json \<Rightarrow> json \<Rightarrow> object \<Rightarrow> object" where
  "project_field doc field filtered_doc =
     (case as_str field of None \<Rightarrow> filtered_doc
      | Some field_path \<Rightarrow>
        (let parts = split_on CHR ''.'' field_path
         in case get_nested_value doc parts of None \<Rightarrow> filtered_doc
            | Some v \<Rightarrow> insert_nested_value filtered_doc parts v))"

definition project :: "json \<Rightarrow> json list \<Rightarrow> json" where
  "project doc fs = Object (fold (project_field doc) fs [])"

fun remove_nested_value :: "object \<Rightarrow> string list \<Rightarrow> object" where
  "remove_nested_value target [] = target"
| "remove_nested_value target [key] = bt_remove key target"
| "remove_nested_value target (key # parts) =
     (case bt_get target key of
        Some (Object child_map) \<Rightarrow>
          (let child_map' = remove_nested_value child_map parts
           in if child_map' = [] then bt_remove key target
              else bt_insert key (Object child_map') target)
      | _ \<Rightarrow> target)"

definition exclude :: "json \<Rightarrow> json list \<Rightarrow> json" where
  "exclude doc fs =
     (case doc of
        Object m \<Rightarrow>
          Object (fold (\<lambda>field result. case as_str field of None \<Rightarrow> result
            | Some field_path \<Rightarrow> remove_nested_value result (split_on CHR ''.'' field_path)) fs m)
      | _ \<Rightarrow> doc)"

section \<open>WHERE clauses on decoded values\<close>

definition same_value :: "(string \<Rightarrow> string) \<Rightarrow> json \<Rightarrow> json \<Rightarrow> bool" where
  "same_value lc a b =
     (case (a, b) of (String s, String t) \<Rightarrow> lc s = lc t | _ \<Rightarrow> value_eq a b)"

definition compare_f64 :: "(fval \<Rightarrow> fval \<Rightarrow> bool) \<Rightarrow> json \<Rightarrow> json \<Rightarrow> bool" where
  "compare_f64 rel a b =
     (case (as_f64 a, as_f64 b) of (Some x, Some y) \<Rightarrow> rel (f64_value x) (f64_value y) | _ \<Rightarrow> False)"

definition evaluate_operator :: "(string \<Rightarrow> string) \<Rightarrow> json \<Rightarrow> string \<Rightarrow> json \<Rightarrow> db_error + bool" where
  "evaluate_operator lc v operator op_value =
     (case op_from_str operator of
        Some Eq \<Rightarrow> Inr (same_value lc v op_value)
      | Some NotEq \<Rightarrow> Inr (\<not> same_value lc v op_value)
      | Some Gt \<Rightarrow> Inr (compare_f64 (\<lambda>a t. f64_less t a) v op_value)
      | Some Gte \<Rightarrow> Inr (compare_f64 (\<lambda>a t. f64_leq t a) v op_value)
      | Some Lt \<Rightarrow> Inr (compare_f64 f64_less v op_value)
      | Some Lte \<Rightarrow> Inr (compare_f64 f64_leq v op_value)
      | Some Contains \<Rightarrow>
          Inr (case v of
              String d \<Rightarrow> (case as_str op_value of Some t \<Rightarrow> sublist (lc t) (lc d) | None \<Rightarrow> False)
            | Array vs \<Rightarrow> list_ex (\<lambda>x. value_eq x op_value) vs
            | _ \<Rightarrow> False)
      | Some In \<Rightarrow>
          (case as_array op_value of
             Some allowed \<Rightarrow> Inr (list_ex (same_value lc v) allowed)
           | None \<Rightarrow> Inl (InvalidQuery (operator @ '' expects an array'')))
      | Some NotIn \<Rightarrow>
          (case as_array op_value of
             Some excluded \<Rightarrow> Inr (\<not> list_ex (same_value lc v) excluded)
           | None \<Rightarrow> Inl (InvalidQuery (operator @ '' expects an array'')))
      | _ \<Rightarrow> Inl (InvalidQuery (''Unknown operator: '' @ operator)))"

fun evaluate_where :: "(string \<Rightarrow> string) \<Rightarrow> json \<Rightarrow> json \<Rightarrow> db_error + bool" where
  "evaluate_where lc doc (Array qs) = while_result (Inr True) (evaluate_where lc doc) qs"
| "evaluate_where lc doc (Object m) =
     while_result (Inr True)
       (\<lambda>(key, condition).
          if key = op_as_str Or then
            (case condition of
               Array subs \<Rightarrow> while_result (Inr False) (evaluate_where lc doc) subs
             | _ \<Rightarrow> Inl (InvalidQuery (op_as_str Or @ '' expects an array'')))
          else if key = op_as_str And then
            (case condition of
               Array subs \<Rightarrow> while_result (Inr True) (evaluate_where lc doc) subs
             | _ \<Rightarrow> Inl (InvalidQuery (op_as_str And @ '' expects an array'')))
          else
            (let doc_val = get_nested_value doc (split_on CHR ''.'' key)
             in case condition of
                  Object conds \<Rightarrow>
                    while_result (Inr True)
                      (\<lambda>(operator, op_value). evaluate_operator lc
                         (case doc_val of Some v \<Rightarrow> v | None \<Rightarrow> Null) operator op_value)
                      conds
                | _ \<Rightarrow> Inr (case doc_val of Some v \<Rightarrow> same_value lc v condition | None \<Rightarrow> False)))
       m"
| "evaluate_where lc doc q = Inr True"

section \<open>The first byte of a written value\<close>

definition number_head :: "u8 \<Rightarrow> bool" where
  "number_head b \<longleftrightarrow> b \<le> 0x7f \<or> 0xe0 \<le> b \<or>
     b = 0xcc \<or> b = 0xcd \<or> b = 0xce \<or> b = 0xcf \<or> b = 0xd0 \<or> b = 0xd1 \<or> b = 0xd2 \<or> b = 0xd3 \<or> b = 0xcb"

definition string_head :: "u8 \<Rightarrow> bool" where
  "string_head b \<longleftrightarrow> 0xa0 \<le> b \<and> b \<le> 0xbf \<or> b = 0xd9 \<or> b = 0xda \<or> b = 0xdb"

definition array_head :: "u8 \<Rightarrow> bool" where
  "array_head b \<longleftrightarrow> 0x90 \<le> b \<and> b \<le> 0x9f \<or> b = 0xdc \<or> b = 0xdd"

definition map_head :: "u8 \<Rightarrow> bool" where
  "map_head b \<longleftrightarrow> 0x80 \<le> b \<and> b \<le> 0x8f \<or> b = 0xde \<or> b = 0xdf"

lemmas head_defs = number_head_def string_head_def array_head_def map_head_def

fun head_of :: "json \<Rightarrow> u8 \<Rightarrow> bool" where
  "head_of Null b = (b = 0xc0)"
| "head_of (Bool x) b = (b = (if x then 0xc3 else 0xc2))"
| "head_of (Number n) b = number_head b"
| "head_of (String s) b = string_head b"
| "head_of (Array vs) b = array_head b"
| "head_of (Object m) b = map_head b"

lemma write_number_head:
  assumes "wf_number n"
  shows "\<exists>b t. write_number n = b # t \<and> number_head b"
proof (cases n)
  case (PosInt u)
  have "(ucast u :: u8) \<le> 0x7f" if "u \<le> 0x7f"
    using that by (simp add: word_le_nat_alt unat_ucast_mod)
  then show ?thesis by (auto simp: PosInt write_number_def number_head_def)
next
  case (NegInt i)
  then have "(0xe0 :: u8) \<le> ucast i" if "sint i \<ge> - 32"
    using that assms by (auto intro: negfix_bound)
  then show ?thesis using assms by (auto simp: NegInt write_number_def number_head_def)
qed (simp add: write_number_def number_head_def)

lemma write_value_head:
  assumes "wf_value v"
  shows "\<exists>b t. write_value v = b # t \<and> head_of v b"
proof (cases v)
  case (Number n)
  then show ?thesis using assms write_number_head by simp
next
  case (String s)
  then show ?thesis using fix_headers(1) [of "length s"]
    by (auto simp: write_str_def Let_def string_head_def)
next
  case (Array vs)
  then show ?thesis using fix_headers(2) [of "length vs"]
    by (auto simp: write_array_header_def array_head_def)
next
  case (Object m)
  then show ?thesis using fix_headers(3) [of "length m"]
    by (auto simp: write_map_header_def map_head_def)
qed auto

lemma read_msgpack_str_other: "\<not> string_head b \<Longrightarrow> read_msgpack_str (b # r) = (None, r)"
  by (auto simp: read_msgpack_str_def string_head_def)

lemma read_number_other: "\<not> number_head b \<Longrightarrow> b \<noteq> 0xca \<Longrightarrow> read_msgpack_number (b # r) = None"
  by (simp add: read_msgpack_number_def number_head_def)

lemma read_map_header_other: "\<not> map_head b \<Longrightarrow> read_map_header (b # r) = None"
  by (auto simp: read_map_header_def map_head_def)

lemma read_array_len_other: "\<not> array_head b \<Longrightarrow> read_msgpack_array_len (b # r) = None"
  by (auto simp: read_msgpack_array_len_def array_head_def)

text \<open>The kinds of first bytes are disjoint.\<close>

lemma heads_disjoint:
  "head_of v b \<Longrightarrow> string_head b \<longleftrightarrow> (\<exists>s. v = String s)"
  "head_of v b \<Longrightarrow> number_head b \<longleftrightarrow> (\<exists>n. v = Number n)"
  "head_of v b \<Longrightarrow> array_head b \<longleftrightarrow> (\<exists>vs. v = Array vs)"
  "head_of v b \<Longrightarrow> map_head b \<longleftrightarrow> (\<exists>m. v = Object m)"
  "head_of v b \<Longrightarrow> b = 0xc3 \<longleftrightarrow> v = Bool True"
  "head_of v b \<Longrightarrow> b = 0xc2 \<longleftrightarrow> v = Bool False"
  "head_of v b \<Longrightarrow> b \<noteq> 0xca"
  by (cases v; auto simp: head_defs byte_nat split: if_splits)+

section \<open>Leaf readers on written values\<close>

lemma read_msgpack_map_len_eq [simp]: "read_msgpack_map_len = read_map_header"
  by (simp add: fun_eq_iff read_msgpack_map_len_def read_map_header_def)

lemma str_rest_Some: "read_str_body n r = Some (s, r') \<Longrightarrow> str_rest n r = (Some s, r')"
  by (simp add: str_rest_def read_str_body_def split: option.splits if_splits)

lemma read_msgpack_str_Some:
  assumes "read_string bs = Some (s, r)"
  shows "read_msgpack_str bs = (Some s, r)"
proof (cases bs)
  case (Cons b t)
  consider "0xa0 \<le> b \<and> b \<le> 0xbf" | "b = 0xd9" | "b = 0xda" | "b = 0xdb" | "\<not> string_head b"
    unfolding string_head_def by blast
  then show ?thesis
  proof cases
    case 1
    then have "read_str_body (unat (b AND 0x1f)) t = Some (s, r)"
      using assms by (simp add: Cons read_string_def)
    then show ?thesis using 1 by (simp add: Cons read_msgpack_str_def str_rest_Some)
  next
    case 2
    then obtain n t' where "t = n # t'" "read_str_body (unat n) t' = Some (s, r)"
      using assms by (cases t) (simp_all add: Cons read_string_def)
    then show ?thesis using 2 by (simp add: Cons read_msgpack_str_def str_rest_Some)
  next
    case 3
    then obtain n t' where "read_be 2 t = Some (n, t')" "read_str_body n t' = Some (s, r)"
      using assms by (cases "read_be 2 t") (auto simp add: Cons read_string_def)
    then show ?thesis using 3 by (simp add: Cons read_msgpack_str_def str_rest_Some)
  next
    case 4
    then obtain n t' where "read_be 4 t = Some (n, t')" "read_str_body n t' = Some (s, r)"
      using assms by (cases "read_be 4 t") (auto simp add: Cons read_string_def)
    then show ?thesis using 4 by (simp add: Cons read_msgpack_str_def str_rest_Some)
  next
    case 5
    then have "read_string bs = None" by (auto simp: Cons read_string_def string_head_def)
    with assms show ?thesis by simp
  qed
qed (use assms in \<open>simp add: read_string_def\<close>)

lemma number_from_i64_f64 [simp]: "number_as_f64 (number_from_i64 i) = f64_of_int (sint i)"
proof (cases "sint i < 0")
  case False
  have "uint i = sint i mod 2 ^ 64" by (simp only: uint_sint take_bit_eq_mod) simp
  also have "\<dots> = sint i"
    using False sint_range_size [of i] by (intro mod_pos_pos_trivial) (simp_all add: word_size)
  finally have "uint i = sint i" .
  then show ?thesis using False by (simp only: number_from_i64_def if_False number_as_f64.simps)
next
  case True
  then show ?thesis by (simp only: number_from_i64_def if_True number_as_f64.simps)
qed

lemma read_be_less:
  assumes "read_be n bs = Some (a, r)"
  shows "a < 256 ^ n"
proof -
  have "length (take n bs) = n" "a = from_be (take n bs)"
    using assms by (simp_all add: read_be_def split: if_splits)
  then show ?thesis using from_be_bound [of "take n bs"] by simp
qed
lemma uint_read_be: 
  assumes "read_be n bs = Some (a, r)" and "n \<le> 8"
  shows "uint (word_of_nat a :: u64) = int a"
proof -
  have "a < 256 ^ n" by (rule read_be_less [OF assms(1)])
  also have "\<dots> \<le> 256 ^ 8" using assms(2) by (intro power_increasing) simp_all
  finally have "a < 2 ^ LENGTH(64)" by simp
  then have "unat (word_of_nat a :: u64) = a" by (intro of_nat_inverse [OF refl])
  then have "int (unat (word_of_nat a :: u64)) = int a" by (rule arg_cong)
  then show ?thesis by (simp only: of_nat_unat)
qed

lemma sint_scast_wide:
  assumes "LENGTH('a::len) \<le> 64"
  shows "sint (scast (w :: 'a word) :: u64) = sint w"
proof -
  have "(2::int) ^ (LENGTH('a) - 1) \<le> 2 ^ 63" using assms by (intro power_increasing) simp_all
  then have "- (2 ^ 63) \<le> sint w \<and> sint w < 2 ^ 63"
    using sint_range_size [of w] by (simp add: word_size)
  then show ?thesis by (simp add: signed_scast_eq signed_take_bit_int_eq_self_iff)
qed

lemma uint_ucast8: "uint (ucast (b :: u8) :: u64) = uint b"
  by (simp add: uint_up_ucast is_up)

lemma read_number_value:
  assumes "read_value (Suc f) (b # t) = Some (Number n, r)" and "number_head b"
  shows "read_msgpack_number (b # t) = Some (number_as_f64 n)"
proof -
  consider "b \<le> 0x7f" | "0xe0 \<le> b" | "b = 0xcc" | "b = 0xcd" | "b = 0xce" | "b = 0xcf"
    | "b = 0xd0" | "b = 0xd1" | "b = 0xd2" | "b = 0xd3" | "b = 0xcb"
    using assms(2) unfolding number_head_def by blast
  then show ?thesis
  proof cases
    case 1
    then show ?thesis using assms(1)
      by (auto simp: read_posfix read_msgpack_number_def uint_ucast8)
  next
    case 2
    then have "\<not> b \<le> 0x7f" by (simp add: byte_nat)
    with 2 show ?thesis using assms(1)
      by (auto simp: read_negfix read_msgpack_number_def sint_scast_wide)
  next
    case 3
    with assms(1) show ?thesis by (cases t) (auto simp: read_value.simps(2) read_msgpack_number_def uint_ucast8)
  next
    case 7
    with assms(1) show ?thesis by (cases t) (auto simp: read_value.simps(2) read_msgpack_number_def sint_scast_wide)
  next
    case 11
    with assms(1) show ?thesis
      by (auto simp: read_msgpack_number_def number_value_def number_from_f64_def split: option.splits if_splits)
  qed (use assms(1) in \<open>auto simp: read_msgpack_number_def uint_read_be sint_scast_wide\<close>)
qed

lemma read_number_written [simp, codec]:
  assumes "wf_value v"
  shows "read_msgpack_number (write_value v @ r) = as_f64 v"
proof -
  obtain b t where bt: "write_value v = b # t" "head_of v b"
    using write_value_head [OF assms] by blast
  show ?thesis
  proof (cases "number_head b")
    case True
    then obtain n where v: "v = Number n" using heads_disjoint(2) [OF bt(2)] by blast
    then have "read_value (Suc 0) (b # (t @ r)) = Some (Number n, r)"
      using read_write_number [of n 0 r] assms bt(1) by simp
    from read_number_value [OF this True] bt(1) v show ?thesis by simp
  next
    case False
    then have "as_f64 v = None" using heads_disjoint(2) [OF bt(2)] by (cases v) auto
    with False show ?thesis
      using bt heads_disjoint(7) [OF bt(2)] by (simp add: read_number_other)
  qed
qed

lemma read_str_written [simp, codec]:
  assumes "wf_value v" and "fits v"
  shows "fst (read_msgpack_str (write_value v @ r)) = as_str v"
proof -
  obtain b t where bt: "write_value v = b # t" "head_of v b"
    using write_value_head [OF assms(1)] by blast
  show ?thesis
  proof (cases v)
    case (String s)
    then have "read_string (write_value v @ r) = Some (s, r)" using assms by simp
    then show ?thesis by (simp add: read_msgpack_str_Some String)
  qed (use bt heads_disjoint(1) [OF bt(2)] in \<open>simp_all add: read_msgpack_str_other\<close>)
qed

lemma read_lower_written [simp, codec]:
  "wf_value v \<Longrightarrow> fits v \<Longrightarrow> read_lower_str lc (write_value v @ r) = map_option lc (as_str v)"
  by (simp add: read_lower_str_def)

lemma read_bool_written [simp, codec]:
  assumes "wf_value v"
  shows "read_msgpack_bool (write_value v @ r) = as_bool v"
proof -
  obtain b t where bt: "write_value v = b # t" "head_of v b"
    using write_value_head [OF assms] by blast
  show ?thesis
    using bt(1) heads_disjoint(5,6) [OF bt(2)]
    by (cases v) (auto simp: read_msgpack_bool_def split: if_splits)
qed

lemma read_map_header_not_object:
  assumes "wf_value v" and "\<not> is_object v"
  shows "read_map_header (write_value v @ r) = None"
proof -
  obtain b t where bt: "write_value v = b # t" "head_of v b"
    using write_value_head [OF assms(1)] by blast
  then show ?thesis using assms(2) heads_disjoint(4) [OF bt(2)] by (simp add: read_map_header_other)
qed

end
