(* ===== verification/WhereAgree.thy ===== *)
theory WhereAgree
  imports Query
begin

text \<open>
  Filters on stored bytes against filters on decoded documents: navigation in the bytes of a
  document finds the value that the path has in the document; on queries that both evaluators
  define alike their answers agree; and the places where they differ.
\<close>

section \<open>Navigation in a written document\<close>

lemma write_map_key_plain: "key_token k = None \<Longrightarrow> write_map_key k = write_str k"
  by (simp add: write_map_key_def)

lemma key_token_head: "key_token k = Some t \<Longrightarrow> 0xe0 \<le> t"
  by (auto simp: key_token_def byte_nat split: if_splits)

lemma skip_cursor_written: "skips_values skip \<Longrightarrow> doc_ok v \<Longrightarrow> skip_cursor skip (write_value v @ r) = r"
  by (simp add: skip_cursor_def skips_values_def)

definition write_entries :: "object \<Rightarrow> bytes" where
  "write_entries m = concat (map (\<lambda>(k, v). write_map_key k @ write_value v) m)"

lemma write_entries_simps [simp]:
  "write_entries [] = []"
  "write_entries ((k, v) # m) = write_map_key k @ write_value v @ write_entries m"
  by (simp_all add: write_entries_def)

lemma write_object: "write_value (Object m) = write_map_header (length m) @ write_entries m"
  by (simp add: write_entries_def)

text \<open>One step of a scan over the entries of a map.\<close>

lemma find_segment_step:
  assumes "skips_values skip" and "field_ok k v" and "key_token segment = None"
  shows "find_segment skip segment (Suc n) (write_map_key k @ write_value v @ r) =
    (if k = segment then Some (write_value v @ r) else find_segment skip segment n r)"
proof -
  have ok: "str_ok k" "len_ok k" "doc_ok v"
    using assms(2) field_doc_ok [OF assms(2)] by (simp_all add: field_ok_def)
  note skip = skip_cursor_written [OF assms(1) ok(3), of r]
  show ?thesis
  proof (cases "key_token k")
    case (Some t)
    then have "k \<noteq> segment" "0xe0 \<le> t" using assms(3) key_token_head by auto
    with Some skip show ?thesis by (simp add: write_map_key_def)
  next
    case None
    obtain b t where b: "write_str k = b # t" "\<not> 0xe0 \<le> b" using write_str_head by blast
    have "read_msgpack_str (write_str k @ write_value v @ r) = (Some k, write_value v @ r)"
      using ok by (intro read_msgpack_str_Some) simp
    with b skip None show ?thesis by (simp add: write_map_key_plain)
  qed
qed

lemma find_segment_written:
  assumes "skips_values skip" and "\<forall>(k, v)\<in>set m. field_ok k v" and "key_token segment = None"
  shows "case map_of m segment of
      None \<Rightarrow> find_segment skip segment (length m) (write_entries m @ r) = None
    | Some v \<Rightarrow> \<exists>r'. find_segment skip segment (length m) (write_entries m @ r) = Some (write_value v @ r')"
  using assms(2)
proof (induction m)
  case (Cons p m)
  obtain k v where p: "p = (k, v)" by (cases p)
  have "field_ok k v" using Cons.prems p by simp
  note step = find_segment_step [OF assms(1) this assms(3), of "length m" "write_entries m @ r"]
  have "case map_of m segment of
      None \<Rightarrow> find_segment skip segment (length m) (write_entries m @ r) = None
    | Some v \<Rightarrow> \<exists>r'. find_segment skip segment (length m) (write_entries m @ r) = Some (write_value v @ r')"
    using Cons by simp
  then show ?case unfolding p using step by (auto split: option.splits)
qed simp

lemma find_value_written:
  assumes "skips_values skip" and "doc_ok v" and "parts \<noteq> []" and "list_all (\<lambda>k. key_token k = None) parts"
  shows "case get_nested_value v parts of
      None \<Rightarrow> find_msgpack_value skip (write_value v @ r) parts = None
    | Some x \<Rightarrow> doc_ok x \<and> (\<exists>r'. find_msgpack_value skip (write_value v @ r) parts = Some (write_value x @ r'))"
  using assms(2-)
proof (induction parts arbitrary: v r)
  case (Cons segment parts)
  show ?case
  proof (cases v)
    case (Object m)
    have m: "\<forall>(k, v)\<in>set m. field_ok k v" "length m < 2 ^ 32"
      using Cons.prems(1) by (auto simp: Object doc_ok_Object len_ok_def)
    have seg: "key_token segment = None" "list_all (\<lambda>k. key_token k = None) parts"
      using Cons.prems(3) by simp_all
    note found = find_segment_written [OF assms(1) m(1) seg(1), of r]
    have enter: "find_msgpack_value skip (write_value v @ r) (segment # parts) =
      (case find_segment skip segment (length m) (write_entries m @ r) of None \<Rightarrow> None
       | Some r' \<Rightarrow> if parts = [] then Some r' else find_msgpack_value skip r' parts)"
      using m(2) by (simp add: Object write_object del: write_value.simps)
    show ?thesis
    proof (cases "map_of m segment")
      case None
      with found enter show ?thesis by (simp add: Object)
    next
      case (Some x)
      then obtain r' where r': "find_segment skip segment (length m) (write_entries m @ r) = Some (write_value x @ r')"
        using found by auto
      have x: "doc_ok x" using Some m(1) field_doc_ok by (fastforce dest: map_of_SomeD)
      show ?thesis
      proof (cases "parts = []")
        case True
        then show ?thesis using Some r' enter x by (simp add: Object)
      next
        case False
        have "find_msgpack_value skip (write_value v @ r) (segment # parts) =
            find_msgpack_value skip (write_value x @ r') parts"
          unfolding enter r' using False by simp
        moreover have "get_nested_value v (segment # parts) = get_nested_value x parts"
          using Some by (simp add: Object)
        ultimately show ?thesis using Cons.IH [OF x False seg(2), of r'] by (simp only:)
      qed
    qed
  qed (use Cons.prems read_map_header_not_object [of v r] in \<open>simp_all add: doc_ok_def\<close>)
qed simp

section \<open>Paths in the decoded document\<close>

lemma ikey_of_not_token: "key_token k = None \<Longrightarrow> ikey_of k = k"
  unfolding key_token_def ikey_of_def by (simp split: if_split_asm)

lemma key_token_ikey_of: "key_token (ikey_of k) = key_token k"
  unfolding ikey_of_def by (simp add: key_token_def)

lemma ikey_of_plain: "key_token segment = None \<Longrightarrow> ikey_of k = segment \<longleftrightarrow> k = segment"
  by (metis key_token_ikey_of ikey_of_not_token)

definition plain_path :: "string \<Rightarrow> bool" where
  "plain_path key \<longleftrightarrow> list_all (\<lambda>k. key_token k = None) (split_on CHR ''.'' key)"

lemma plain_path_not_system:
  "\<not> plain_path SEQ" "\<not> plain_path CREATED_AT" "\<not> plain_path MODIFIED_AT" "\<not> plain_path EXPIRES_AT" "\<not> plain_path VERSION"
  by (simp_all add: plain_path_def key_token_def)

lemma system_field_plain: 
  assumes "plain_path key" shows "read_msgpack_system_field_u64 skip bs key = Returns None"
proof -
  have "key \<noteq> SEQ" "key \<noteq> CREATED_AT" "key \<noteq> MODIFIED_AT" "key \<noteq> EXPIRES_AT" "key \<noteq> VERSION"
    using assms plain_path_not_system by metis+
  then show ?thesis by (simp only: read_msgpack_system_field_u64_def if_False)
qed

lemma map_of_tokenized:
  assumes "distinct (map fst m)" and "key_token segment = None"
  shows "map_of (rev (map (\<lambda>(k, v). (ikey_of k, tokenize v)) m)) segment =
    map_option tokenize (map_of m segment)"
  using assms(1)
proof (induction m)
  case (Cons p m)
  obtain k v where p: "p = (k, v)" by (cases p)
  have "map_of m segment = None" if "k = segment"
    using Cons.prems that by (auto simp: p map_of_eq_None_iff)
  moreover have "map_of (rev (map (\<lambda>(k, v). (ikey_of k, tokenize v)) (p # m))) segment =
    (case map_of (rev (map (\<lambda>(k, v). (ikey_of k, tokenize v)) m)) segment of
       Some x \<Rightarrow> Some x | None \<Rightarrow> if k = segment then Some (tokenize v) else None)"
    using ikey_of_plain [OF assms(2), of k] ikey_of_not_token [OF assms(2)]
    by (cases "k = segment") (auto simp: p map_add_def split: option.split)
  ultimately show ?case using Cons by (simp add: p split: option.split)
qed simp

lemma get_nested_tokenize:
  assumes "wf_value v" and "list_all (\<lambda>k. key_token k = None) parts"
  shows "get_nested_value (tokenize v) parts = map_option tokenize (get_nested_value v parts)"
  using assms
proof (induction parts arbitrary: v)
  case (Cons segment parts)
  show ?case
  proof (cases v)
    case (Object m)
    have m: "bt_ok m" "list_all (\<lambda>(k, v). str_ok k \<and> wf_value v) m"
      using Cons.prems(1) by (simp_all add: Object)
    have "vget (tokenize v) segment = map_option tokenize (map_of m segment)"
      using map_of_tokenized [of m segment] m(1) Cons.prems(2)
      by (simp add: Object map_of_of_entries bt_distinct)
    moreover have "wf_value x" if "map_of m segment = Some x" for x
      using m(2) map_of_SomeD [OF that] by (auto simp: list_all_iff)
    ultimately show ?thesis
      using Cons by (cases "map_of m segment") (simp_all add: Object)
  qed simp_all
qed simp

lemma tokenize_leaves [simp]:
  "as_f64 (tokenize v) = as_f64 v" "as_str (tokenize v) = as_str v" "as_bool (tokenize v) = as_bool v"
  by (cases v; simp)+

section \<open>Queries that both evaluators define alike\<close>

definition is_string :: "json \<Rightarrow> bool" where
  "is_string v \<longleftrightarrow> (case v of String _ \<Rightarrow> True | _ \<Rightarrow> False)"

definition safe_value :: "json \<Rightarrow> bool" where
  "safe_value v \<longleftrightarrow> (case v of String _ \<Rightarrow> True | Bool _ \<Rightarrow> True | _ \<Rightarrow> False)"

definition safe_cond :: "string \<Rightarrow> json \<Rightarrow> bool" where
  "safe_cond operator op_value \<longleftrightarrow>
     (case op_from_str operator of
        Some Eq \<Rightarrow> safe_value op_value
      | Some In \<Rightarrow> (case op_value of Array vs \<Rightarrow> list_all is_string vs | _ \<Rightarrow> False)
      | Some Gt \<Rightarrow> True | Some Gte \<Rightarrow> True | Some Lt \<Rightarrow> True | Some Lte \<Rightarrow> True
      | _ \<Rightarrow> False)"

fun safe_query :: "json \<Rightarrow> bool" where
  "safe_query (Array qs) = list_all safe_query qs"
| "safe_query (Object m) =
     list_all (\<lambda>(key, condition).
        if key = op_as_str Or \<or> key = op_as_str And
        then (case condition of Array subs \<Rightarrow> list_all safe_query subs | _ \<Rightarrow> False)
        else plain_path key \<and>
          (case condition of
             Object conds \<Rightarrow> list_all (\<lambda>(operator, op_value). safe_cond operator op_value) conds
           | _ \<Rightarrow> safe_value condition)) m"
| "safe_query q = False"

text \<open>The answer of the byte evaluator for the value at a path.\<close>

lemma predicate_written:
  assumes "skips_values skip" and "doc_ok v" and "plain_path key"
  obtains r where "evaluate_predicate_msgpack skip lc (value_to_msgpack v) key operator op_value =
    Returns (case get_nested_value v (split_on CHR ''.'' key) of None \<Rightarrow> None
      | Some x \<Rightarrow> leaf_predicate skip lc (write_value x @ r) operator op_value)"
    and "\<And>x. get_nested_value v (split_on CHR ''.'' key) = Some x \<Longrightarrow> doc_ok x"
proof -
  have found: "case get_nested_value v (split_on CHR ''.'' key) of
      None \<Rightarrow> find_msgpack_value skip (write_value v) (split_on CHR ''.'' key) = None
    | Some x \<Rightarrow> doc_ok x \<and>
        (\<exists>r'. find_msgpack_value skip (write_value v) (split_on CHR ''.'' key) = Some (write_value x @ r'))"
    using find_value_written [OF assms(1,2) split_on_not_Nil assms(3) [unfolded plain_path_def], of "[]"]
    by (simp only: append_Nil2)
  show ?thesis
  proof (cases "get_nested_value v (split_on CHR ''.'' key)")
    case None
    show ?thesis
      by (rule that [of "[]"])
        (use found None assms(3) in \<open>simp_all add: evaluate_predicate_msgpack_def system_field_plain value_to_msgpack_def\<close>)
  next
    case (Some x)
    then obtain r where "find_msgpack_value skip (write_value v) (split_on CHR ''.'' key) = Some (write_value x @ r)"
      and x: "doc_ok x" using found by auto
    then show ?thesis
      by (intro that [of r])
        (use Some assms(3) in \<open>simp_all add: evaluate_predicate_msgpack_def system_field_plain value_to_msgpack_def\<close>)
  qed
qed

lemma same_value_String [simp]:
  "same_value lc y (String e) = (case as_str y of Some a \<Rightarrow> lc a = lc e | None \<Rightarrow> False)"
  by (cases y) (simp_all add: same_value_def)

lemma same_value_Bool [simp]:
  "same_value lc y (Bool e) = (case as_bool y of Some a \<Rightarrow> a = e | None \<Rightarrow> False)"
  by (cases y) (simp_all add: same_value_def)

lemma str_in_strings:
  "list_all is_string vs \<Longrightarrow> str_in lc (map_option lc (as_str y)) vs = list_ex (same_value lc y) vs"
proof (induction vs)
  case (Cons v vs)
  obtain e where "v = String e" using Cons.prems by (cases v) (simp_all add: is_string_def)
  with Cons show ?case by (simp add: str_in_def split: option.split)
qed (simp add: str_in_def)

abbreviation answers :: "bool option outcome \<Rightarrow> db_error + bool \<Rightarrow> bool" where
  "answers raw res \<equiv> (\<exists>b. raw = Returns (Some b) \<and> res = Inr b)"

lemma compare_agrees:
  "wf_value x \<Longrightarrow> answers (or_false (Returns (leaf_compare rel (write_value x @ r) op_value)))
     (Inr (compare_f64 rel (tokenize x) op_value))"
  by (auto simp: leaf_compare_def compare_f64_def split: option.split)

lemma eq_agrees:
  assumes "wf_value x" "fits x" "safe_value op_value"
  shows "answers (or_false (Returns (leaf_eq lc (write_value x @ r) op_value)))
     (Inr (same_value lc (tokenize x) op_value))"
  using assms
  by (cases op_value) (auto simp: safe_value_def leaf_eq_def split: option.split)

lemma leaf_agrees:
  assumes "wf_value x" "fits x" "safe_cond operator op_value"
  shows "answers (or_false (Returns (leaf_predicate skip lc (write_value x @ r) operator op_value)))
     (evaluate_operator lc (tokenize x) operator op_value)"
proof (cases "op_from_str operator")
  case (Some op)
  show ?thesis
  proof (cases op)
    case Eq
    then show ?thesis using assms Some eq_agrees [OF assms(1,2), of op_value]
      by (simp add: leaf_predicate_def evaluate_operator_def safe_cond_def)
  next
    case In
    then obtain vs where "op_value = Array vs" "list_all is_string vs"
      using assms(3) Some by (cases op_value) (simp_all add: safe_cond_def)
    then show ?thesis using assms(1,2) Some In str_in_strings [of vs lc "tokenize x"]
      by (simp add: leaf_predicate_def evaluate_operator_def)
  qed (use assms Some compare_agrees [OF assms(1)] in
      \<open>simp_all add: leaf_predicate_def evaluate_operator_def safe_cond_def\<close>)
qed (use assms(3) in \<open>simp add: safe_cond_def\<close>)

lemma absent_agrees:
  assumes "safe_cond operator op_value"
  shows "evaluate_operator lc Null operator op_value = Inr False"
proof (cases "op_from_str operator")
  case (Some op)
  show ?thesis
  proof (cases op)
    case Eq
    then show ?thesis using assms Some
      by (cases op_value) (simp_all add: evaluate_operator_def safe_cond_def safe_value_def)
  next
    case In
    then obtain vs where vs: "op_value = Array vs" "list_all is_string vs"
      using assms Some by (cases op_value) (simp_all add: safe_cond_def)
    have "\<not> list_ex (same_value lc Null) vs"
      using vs(2) by (induction vs) (auto simp: is_string_def split: json.splits)
    then show ?thesis using vs Some In by (simp add: evaluate_operator_def)
  qed (use assms Some in \<open>simp_all add: evaluate_operator_def safe_cond_def compare_f64_def\<close>)
qed (use assms in \<open>simp add: safe_cond_def\<close>)

lemma condition_agrees:
  assumes "skips_values skip" and "doc_ok v" and "plain_path key" and "safe_cond operator op_value"
  shows "answers (or_false (evaluate_predicate_msgpack skip lc (value_to_msgpack v) key operator op_value))
    (evaluate_operator lc (case get_nested_value (tokenize v) (split_on CHR ''.'' key) of
       Some x \<Rightarrow> x | None \<Rightarrow> Null) operator op_value)"
proof -
  let ?parts = "split_on CHR ''.'' key"
  obtain r where raw: "evaluate_predicate_msgpack skip lc (value_to_msgpack v) key operator op_value =
      Returns (case get_nested_value v ?parts of None \<Rightarrow> None
        | Some x \<Rightarrow> leaf_predicate skip lc (write_value x @ r) operator op_value)"
    and ok: "\<And>x. get_nested_value v ?parts = Some x \<Longrightarrow> doc_ok x"
    using predicate_written [OF assms(1-3), of lc operator op_value] by blast
  have dec: "get_nested_value (tokenize v) ?parts = map_option tokenize (get_nested_value v ?parts)"
    using get_nested_tokenize [OF doc_okD(1) [OF assms(2)]] assms(3) unfolding plain_path_def by blast
  show ?thesis
  proof (cases "get_nested_value v ?parts")
    case None
    then show ?thesis unfolding raw dec using absent_agrees [OF assms(4)] by auto
  next
    case (Some x)
    then show ?thesis
      unfolding raw dec using leaf_agrees [OF doc_okD(1,2) [OF ok [OF Some]] assms(4)] by simp
  qed
qed

text \<open>The shorthand of equality: a field with a plain value.\<close>

lemma shorthand_agrees:
  assumes "skips_values skip" and "doc_ok v" and "plain_path key" and "safe_value condition"
  shows "answers (or_false (evaluate_predicate_msgpack skip lc (value_to_msgpack v) key (op_as_str Eq) condition))
    (Inr (case get_nested_value (tokenize v) (split_on CHR ''.'' key) of
       Some x \<Rightarrow> same_value lc x condition | None \<Rightarrow> False))"
proof -
  have op: "op_from_str (op_as_str Eq) = Some Eq" by (simp flip: op_from_str_alias)
  then have "safe_cond (op_as_str Eq) condition" using assms(4) by (simp add: safe_cond_def)
  from condition_agrees [OF assms(1-3) this, of lc] absent_agrees [OF this, of lc] op
  show ?thesis by (auto simp: evaluate_operator_def split: option.splits)
qed

lemma while_answers:
  assumes "\<And>x. x \<in> set xs \<Longrightarrow> answers (f x) (g x)"
  shows "answers (while_result (Returns (Some b)) f xs) (while_result (Inr b) g xs)"
  using assms
proof (induction xs)
  case (Cons x xs)
  obtain c where "f x = Returns (Some c)" "g x = Inr c" using Cons.prems by force
  with Cons show ?case by (simp add: Let_def)
qed simp

lemma answers_or_false: "answers raw res \<Longrightarrow> answers (or_false raw) res"
  by auto

lemma where_agrees:
  assumes "skips_values skip" and "doc_ok v" and "safe_query q"
  shows "answers (evaluate_where_msgpack skip lc (value_to_msgpack v) q) (evaluate_where lc (tokenize v) q)"
  using assms(3)
proof (induction q rule: safe_query.induct)
  case (1 qs)
  then have "answers (or_false (evaluate_where_msgpack skip lc (value_to_msgpack v) q))
      (evaluate_where lc (tokenize v) q)" if "q \<in> set qs" for q
    using that by (intro answers_or_false) (auto simp: list_all_iff)
  then show ?case by (simp only: evaluate_where_msgpack.simps evaluate_where.simps while_answers)
next
  case (2 m)
  show ?case
    unfolding evaluate_where_msgpack.simps evaluate_where.simps
  proof (rule while_answers, clarify, goal_cases)
    case (1 key condition)
    let ?logical = "key = op_as_str Or \<or> key = op_as_str And"
    have safe: "if ?logical
        then (case condition of Array subs \<Rightarrow> list_all safe_query subs | _ \<Rightarrow> False)
        else plain_path key \<and>
          (case condition of
             Object conds \<Rightarrow> list_all (\<lambda>(operator, op_value). safe_cond operator op_value) conds
           | _ \<Rightarrow> safe_value condition)"
      using "2.prems" 1 unfolding safe_query.simps list_all_iff by blast
    show ?case
    proof (cases ?logical)
      case True
      then obtain subs where subs: "condition = Array subs" "list_all safe_query subs"
        using safe by (cases condition) simp_all
      have "answers (or_false (evaluate_where_msgpack skip lc (value_to_msgpack v) q))
          (evaluate_where lc (tokenize v) q)" if "q \<in> set subs" for q
        using that subs 2 1 True by (intro answers_or_false) (auto simp: list_all_iff)
      then have loop: "answers (while_result (Returns (Some b))
            (\<lambda>q. or_false (evaluate_where_msgpack skip lc (value_to_msgpack v) q)) subs)
          (while_result (Inr b) (evaluate_where lc (tokenize v)) subs)" for b
        by (rule while_answers)
      have ne: "op_as_str And \<noteq> op_as_str Or" by simp
      from True show ?thesis
      proof
        assume "key = op_as_str Or"
        then show ?thesis unfolding subs(1) using loop [where b = False] by (simp only: json.case if_True simp_thms)
      next
        assume "key = op_as_str And"
        then show ?thesis unfolding subs(1) using loop [where b = True] ne by (simp only: json.case if_True if_False simp_thms)
      qed
    next
      case False
      then have path: "plain_path key" using safe by simp
      show ?thesis
      proof (cases "\<exists>conds. condition = Object conds")
        case True
        then obtain conds where conds: "condition = Object conds"
          "\<forall>(operator, op_value)\<in>set conds. safe_cond operator op_value"
          using safe False by (auto simp: list_all_iff)
        show ?thesis
          using False unfolding conds(1) by (simp only: json.case if_False Let_def de_Morgan_disj)
            (rule while_answers, use conds(2) condition_agrees [OF assms(1,2) path] in auto)
      next
        case other: False
        then have "safe_value condition" using safe False by (cases condition) simp_all
        from shorthand_agrees [OF assms(1,2) path this, of lc] other False show ?thesis
          by (cases condition) (simp_all only: json.case if_False Let_def de_Morgan_disj, blast)
      qed
    qed
  qed
qed simp_all

section \<open>Agreement and its limits\<close>

text \<open>
  C24. On every document as stored, a WHERE clause of comparisons, of equality with strings and
  booleans and of membership in lists of strings, combined by AND and OR over user fields, has the
  same answer evaluated on the bytes as evaluated on the decoded document.
\<close>
theorem raw_where_agrees:
  assumes "skips_values skip" and "doc_ok v" and "safe_query q"
  shows "\<exists>d b. msgpack_to_value (value_to_msgpack v) = Some d \<and>
    evaluate_where lc d q = Inr b \<and>
    evaluate_where_msgpack skip lc (value_to_msgpack v) q = Returns (Some b)"
  using where_agrees [OF assms, of lc] msgpack_to_value_doc [OF assms(2)] by auto

definition demo_laptop :: json where
  "demo_laptop = Object [(''brand'', String ''Acme''), (''specs'', Object [(''ram'', Number (PosInt 16))])]"

definition demo_filter :: json where
  "demo_filter = Object
     [(''$or'', Array [Object [(''brand'', String ''Acme'')], Object [(''brand'', Object [(''$in'', Array [String ''X''])])]]),
      (''specs.ram'', Object [(''$gte'', Number (PosInt 8))])]"

lemma demo_laptop_ok: "doc_ok demo_laptop"
  by (simp add: demo_laptop_def doc_ok_def str_ok_def bytes_of_def len_ok_def)

lemma demo_filter_safe: "safe_query demo_filter"
  by (simp add: demo_filter_def plain_path_def key_token_def safe_value_def safe_cond_def
      op_from_str_def op_all_def is_string_def)

theorem raw_where_agrees_witness:
  "doc_ok demo_laptop \<and> safe_query demo_filter \<and> (\<exists>d b. msgpack_to_value (value_to_msgpack demo_laptop) = Some d \<and>
    evaluate_where (\<lambda>s. s) d demo_filter = Inr b \<and>
    evaluate_where_msgpack skip_by_reading (\<lambda>s. s) (value_to_msgpack demo_laptop) demo_filter = Returns (Some b))"
  using raw_where_agrees [OF skips_by_reading demo_laptop_ok demo_filter_safe] demo_laptop_ok demo_filter_safe
  by blast

text \<open>
  A filter for inequality: the byte evaluator refuses a document without the field, the evaluator
  on values accepts it.
\<close>

lemma ne_missing_field:
  assumes "skips_values skip" and "doc_ok v" and "plain_path key" and "key \<noteq> op_as_str Or" "key \<noteq> op_as_str And"
    and "get_nested_value v (split_on CHR ''.'' key) = None" and "op_value \<noteq> Null"
  shows "evaluate_where_msgpack skip lc (value_to_msgpack v) (Object [(key, Object [(op_as_str NotEq, op_value)])]) = fails"
    and "evaluate_where lc (tokenize v) (Object [(key, Object [(op_as_str NotEq, op_value)])]) = Inr True"
proof -
  have raw: "evaluate_predicate_msgpack skip lc (value_to_msgpack v) key (op_as_str NotEq) op_value = Returns None"
    using predicate_written [OF assms(1-3), of lc "op_as_str NotEq" op_value] assms(6) by (metis option.case(1))
  have dec: "get_nested_value (tokenize v) (split_on CHR ''.'' key) = None"
    using get_nested_tokenize [OF doc_okD(1) [OF assms(2)]] assms(3,6) unfolding plain_path_def by auto
  have ne: "\<not> same_value lc Null op_value" using assms(7) by (cases op_value) (simp_all add: same_value_def)
  have op: "op_from_str (op_as_str NotEq) = Some NotEq" by (simp flip: op_from_str_alias)
  show "evaluate_where_msgpack skip lc (value_to_msgpack v) (Object [(key, Object [(op_as_str NotEq, op_value)])]) = fails"
    using assms(4,5) raw by (simp add: Let_def del: op_as_str.simps)
  show "evaluate_where lc (tokenize v) (Object [(key, Object [(op_as_str NotEq, op_value)])]) = Inr True"
    using assms(4,5) dec ne op by (simp add: Let_def evaluate_operator_def del: op_as_str.simps)
qed

lemma read_array_len_written:
  assumes "n < 2 ^ 32"
  shows "read_msgpack_array_len (write_array_header n @ r) = Some (n, r)"
  using assms fix_headers(2) [of n]
  by (auto simp: read_msgpack_array_len_def write_array_header_def)

lemma find_only_field:
  assumes "skips_values skip" and "field_ok k x" and "key_token k = None"
  shows "find_msgpack_value skip (value_to_msgpack (Object [(k, x)])) [k] = Some (write_value x)"
proof -
  have "find_segment skip k (Suc 0) (write_map_key k @ write_value x @ []) = Some (write_value x @ [])"
    using find_segment_step [OF assms(1,2,3), of 0 "[]"] by (simp only: if_True simp_thms)
  then show ?thesis
    using read_map_header_written [of 1 "write_map_key k @ write_value x"]
    by (simp add: value_to_msgpack_def del: find_segment.simps)
qed

lemma read_msgpack_str_Nil: "read_msgpack_str [] = (None, [])"
  by (simp add: read_msgpack_str_def)

text \<open>After a byte that starts no string, the loop skips the element that follows it.\<close>

lemma array_contains_skips:
  assumes "skips_values skip" and "u \<le> 0x7f" and "doc_ok v"
  shows "\<not> array_contains skip lc needle (Suc (Suc 0)) (write_value (Number (PosInt u)) @ write_value v)"
proof -
  have "(ucast u :: u8) \<le> 0x7f" using assms(2) by (simp add: word_le_nat_alt unat_ucast_mod)
  then have "\<not> string_head (ucast u)" by (auto simp: string_head_def byte_nat)
  moreover have "write_value (Number (PosInt u)) = [ucast u]" using assms(2) by (simp add: write_number_def)
  moreover have "skip_cursor skip (write_value v @ []) = []" by (rule skip_cursor_written [OF assms(1,3)])
  ultimately show ?thesis
    by (simp add: read_msgpack_str_other read_msgpack_str_Nil)
qed

text \<open>
  The \<open>$contains\<close> filter on an array loses its place after an element that is not a string: of
  an array of a small number and a string, the byte evaluator does not find the string, although
  the array contains it.
\<close>
lemma contains_loses_place:
  assumes "skips_values skip" and "str_ok s" and "len_ok s" and "u \<le> 0x7f"
    and "v = Object [(''tags'', Array [Number (PosInt u), String s])]"
    and "q = Object [(''tags'', Object [(''$contains'', String s)])]"
  shows "evaluate_where_msgpack skip lc (value_to_msgpack v) q = Returns (Some False) \<and>
    evaluate_where lc (tokenize v) q = Inr True"
proof -
  let ?arr = "Array [Number (PosInt u), String s]"
  have op: "op_from_str ''$contains'' = Some Contains" by (simp add: op_from_str_def op_all_def)
  have tags: "key_token ''tags'' = None" "str_ok ''tags''" "len_ok ''tags''"
    by (simp_all add: key_token_def str_ok_def bytes_of_def len_ok_def)
  have s: "doc_ok (String s)" using assms(2,3) by (simp add: doc_ok_def)
  have arr: "field_ok ''tags'' ?arr" using assms(2,3) tags by (simp add: field_ok_def len_ok_def)
  have plain: "plain_path ''tags''" using tags(1) by (simp add: plain_path_def)
  have split: "split_on CHR ''.'' ''tags'' = [''tags'']" by simp
  have "read_lower_str lc (write_value ?arr) = None"
    using read_lower_written [of ?arr lc "[]"] arr by (simp add: field_ok_def del: write_value.simps)
  moreover have "read_msgpack_array_len (write_value ?arr) =
      Some (Suc (Suc 0), write_value (Number (PosInt u)) @ write_value (String s))"
    using read_array_len_written [of "Suc (Suc 0)" "write_value (Number (PosInt u)) @ write_value (String s)"]
    by simp
  ultimately have "leaf_contains skip lc (write_value ?arr) (String s) = Some False"
    using array_contains_skips [OF assms(1,4) s, of lc "lc s"]
    by (simp add: leaf_contains_def del: write_value.simps)
  then have "evaluate_predicate_msgpack skip lc (value_to_msgpack v) ''tags'' ''$contains'' (String s) = fails"
    unfolding assms(5) evaluate_predicate_msgpack_def system_field_plain [OF plain] split
      find_only_field [OF assms(1) arr tags(1)] leaf_predicate_def op by simp
  then have "evaluate_where_msgpack skip lc (value_to_msgpack v) q = fails"
    by (simp add: assms(6) Let_def)
  moreover have "evaluate_where lc (tokenize v) q = Inr True"
    by (simp add: assms(5,6) Let_def evaluate_operator_def op ikey_of_def of_entries_def)
  ultimately show ?thesis by blast
qed

lemma contains_loses_place_example:
  "let v = Object [(''tags'', Array [Number (PosInt 5), String ''abc''])];
       q = Object [(''tags'', Object [(''$contains'', String ''abc'')])]
   in evaluate_where_msgpack skip_by_reading (\<lambda>s. s) (value_to_msgpack v) q = Returns (Some False) \<and>
      evaluate_where (\<lambda>s. s) (tokenize v) q = Inr True"
  unfolding Let_def
  by (rule contains_loses_place [OF skips_by_reading _ _ _ refl refl])
    (simp_all add: str_ok_def bytes_of_def len_ok_def)

end
