(* ===== verification/Extractor.thy ===== *)
theory Extractor
  imports WhereAgree
begin

text \<open>
  The single-pass extractor \<open>find_msgpack_values_multi\<close> of \<open>query.rs\<close> and its equivalence with one
  search per path.
\<close>

section \<open>Definitions\<close>

text \<open>\<open>out[i] = x\<close> for a list of positions.\<close>

definition assign :: "(nat \<times> 'a) list \<Rightarrow> 'a list \<Rightarrow> 'a list" where
  "assign ixs out = fold (\<lambda>(i, x) out. out[i := x]) ixs out"

definition unresolved :: "string list list \<Rightarrow> bytes option list \<Rightarrow> nat \<Rightarrow> nat list" where
  "unresolved paths out depth =
     filter (\<lambda>i. out ! i = None \<and> depth < length (paths ! i)) [0..<length paths]"

definition leaf_indices :: "string list list \<Rightarrow> bytes option list \<Rightarrow> nat \<Rightarrow> string \<Rightarrow> nat list" where
  "leaf_indices paths out depth key =
     filter (\<lambda>i. paths ! i ! depth = key \<and> depth = length (paths ! i) - 1) (unresolved paths out depth)"

definition nested_indices :: "string list list \<Rightarrow> bytes option list \<Rightarrow> nat \<Rightarrow> string \<Rightarrow> nat list" where
  "nested_indices paths out depth key =
     filter (\<lambda>i. paths ! i ! depth = key \<and> depth \<noteq> length (paths ! i) - 1) (unresolved paths out depth)"

text \<open>The longest path decides how deep the extractor can go.\<close>

definition longest :: "string list list \<Rightarrow> nat" where
  "longest paths = fold (\<lambda>p n. max (length p) n) paths 0"

lemma longest_le: "longest paths \<le> n \<longleftrightarrow> (\<forall>p\<in>set paths. length p \<le> n)"
proof -
  have "fold (\<lambda>p n. max (length p) n) paths a \<le> n \<longleftrightarrow> a \<le> n \<and> (\<forall>p\<in>set paths. length p \<le> n)" for a
    by (induction paths arbitrary: a) auto
  then show ?thesis by (simp add: longest_def)
qed

lemma longest_nested:
  assumes "nested_indices paths out depth key \<noteq> []"
  shows "longest (map ((!) paths) (nested_indices paths out depth key)) - Suc depth < longest paths - depth"
proof -
  let ?nested = "nested_indices paths out depth key"
  have sub: "i < length paths \<and> Suc depth < length (paths ! i)" if "i \<in> set ?nested" for i
    using that by (auto simp: nested_indices_def unresolved_def)
  have "longest (map ((!) paths) ?nested) \<le> longest paths"
    using sub longest_le [of paths "longest paths"] by (auto simp: longest_le)
  moreover obtain i where "i \<in> set ?nested" using assms by (meson list.set_sel(1))
  then have "Suc depth < longest paths"
    using sub [of i] longest_le [of paths "longest paths"] by (meson le_trans not_less nth_mem order_refl)
  ultimately show ?thesis by linarith
qed

function multi_inner :: "(bytes \<Rightarrow> bytes option) \<Rightarrow> bytes \<Rightarrow> string list list \<Rightarrow> bytes option list \<Rightarrow> nat \<Rightarrow>
      bytes option list"
  and multi_loop :: "(bytes \<Rightarrow> bytes option) \<Rightarrow> nat \<Rightarrow> bytes \<Rightarrow> string list list \<Rightarrow> bytes option list \<Rightarrow> nat \<Rightarrow>
      nat \<Rightarrow> bytes option list" where
  "multi_inner skip doc paths out depth =
     (case read_msgpack_map_len doc of None \<Rightarrow> out
      | Some (n, r) \<Rightarrow> multi_loop skip n r paths out depth (length (unresolved paths out depth)))"
| "multi_loop skip 0 bs paths out depth remaining = out"
| "multi_loop skip (Suc n) bs paths out depth remaining =
     (if remaining = 0 then out
      else case bs of [] \<Rightarrow> out
      | b # r \<Rightarrow>
        (if 0xe0 \<le> b then multi_loop skip n (skip_cursor skip r) paths out depth remaining
         else case read_msgpack_str bs of (None, _) \<Rightarrow> out
         | (Some key, value_start) \<Rightarrow>
           (let leaf = leaf_indices paths out depth key;
                nested = nested_indices paths out depth key;
                bytes = skip_cursor skip value_start;
                out' = assign (map (\<lambda>i. (i, Some value_start)) leaf) out;
                remaining' = remaining - length leaf
            in if nested = [] then multi_loop skip n bytes paths out' depth remaining'
               else
                 (let sub_out = multi_inner skip value_start (map ((!) paths) nested)
                        (replicate (length nested) None) (Suc depth);
                      found = filter (\<lambda>(i, s). s \<noteq> None) (zip nested sub_out)
                  in multi_loop skip n bytes paths (assign found out') depth (remaining' - length found)))))"
  by pat_completeness auto

termination
proof (relation "measures
    [\<lambda>x. case x of Inl (skip, doc, paths, out, depth) \<Rightarrow> longest paths - depth
       | Inr (skip, n, bs, paths, out, depth, remaining) \<Rightarrow> longest paths - depth,
     \<lambda>x. case x of Inl _ \<Rightarrow> 1 | Inr _ \<Rightarrow> 0,
     \<lambda>x. case x of Inl _ \<Rightarrow> 0 | Inr (skip, n, bs, paths, out, depth, remaining) \<Rightarrow> n]", goal_cases)
qed (auto simp: longest_nested)

definition find_msgpack_values_multi :: "(bytes \<Rightarrow> bytes option) \<Rightarrow> bytes \<Rightarrow> string list list \<Rightarrow>
    bytes option list \<Rightarrow> bytes option list" where
  "find_msgpack_values_multi skip doc paths out = multi_inner skip doc paths out 0"

section \<open>Positions\<close>

lemma length_assign [simp]: "length (assign ixs out) = length out"
  unfolding assign_def by (induction ixs arbitrary: out) auto

lemma nth_assign:
  assumes "distinct (map fst ixs)" and "j < length out"
  shows "assign ixs out ! j = (case map_of ixs j of Some x \<Rightarrow> x | None \<Rightarrow> out ! j)"
  using assms
proof (induction ixs arbitrary: out)
  case (Cons ix ixs)
  obtain i x where ix: "ix = (i, x)" by (cases ix)
  have "map_of ixs i = None" using Cons.prems(1) by (simp add: ix map_of_eq_None_iff)
  with Cons show ?case by (simp add: ix assign_def nth_list_update split: option.split)
qed (simp add: assign_def)

lemma unresolved_props [simp]: "distinct (unresolved paths out depth)"
  "i \<in> set (unresolved paths out depth) \<longleftrightarrow> i < length paths \<and> out ! i = None \<and> depth < length (paths ! i)"
  by (auto simp: unresolved_def)

lemma unresolved_assign:
  assumes "length out = length paths" and "\<And>i. i < length paths \<Longrightarrow> out' ! i = (if i \<in> set hit then Some (f i) else out ! i)"
    and "set hit \<subseteq> set (unresolved paths out depth)" and "distinct hit"
  shows "length (unresolved paths out' depth) = length (unresolved paths out depth) - length hit"
proof -
  have "set (unresolved paths out' depth) = set (unresolved paths out depth) - set hit"
    using assms(2,3) by (auto split: if_splits)
  then have "card (set (unresolved paths out' depth)) = card (set (unresolved paths out depth)) - card (set hit)"
    using assms(3) by (simp add: card_Diff_subset)
  then show ?thesis using assms(4) by (simp add: distinct_card)
qed

section \<open>One entry of a map\<close>

text \<open>The search for one path among the \<open>n\<close> entries at the cursor.\<close>

definition find_from :: "(bytes \<Rightarrow> bytes option) \<Rightarrow> nat \<Rightarrow> bytes \<Rightarrow> string list \<Rightarrow> bytes option" where
  "find_from skip n bs parts =
     (case parts of [] \<Rightarrow> None
      | segment # ps \<Rightarrow>
        (case find_segment skip segment n bs of None \<Rightarrow> None
         | Some r \<Rightarrow> if ps = [] then Some r else find_msgpack_value skip r ps))"

lemma find_value_from:
  "find_msgpack_value skip bs parts =
     (case read_map_header bs of None \<Rightarrow> None | Some (n, r) \<Rightarrow> find_from skip n r parts)"
  by (cases parts) (simp_all add: find_from_def split: option.splits)

lemma find_from_0 [simp]: "find_from skip 0 bs parts = None" "find_from skip n bs [] = None"
  by (simp_all add: find_from_def split: list.split)

text \<open>The cursor in front of an entry: a token, or a key and the start of its value.\<close>

lemma entry_cursor:
  assumes "skips_values skip" and "field_ok k v"
  obtains t where "write_map_key k @ write_value v @ r = t # write_value v @ r" "0xe0 \<le> t"
      "key_token k = Some t" "skip_cursor skip (write_value v @ r) = r"
  | b t where "write_map_key k @ write_value v @ r = b # t" "\<not> 0xe0 \<le> b" "key_token k = None"
      "read_msgpack_str (b # t) = (Some k, write_value v @ r)" "skip_cursor skip (write_value v @ r) = r"
proof -
  have ok: "str_ok k" "len_ok k" "doc_ok v"
    using assms(2) field_doc_ok [OF assms(2)] by (simp_all add: field_ok_def)
  note skip = skip_cursor_written [OF assms(1) ok(3), of r]
  show ?thesis
  proof (cases "key_token k")
    case (Some t)
    then show ?thesis using that(1) [of t] skip key_token_head [OF Some] by (simp add: write_map_key_def)
  next
    case None
    obtain b t where b: "write_str k = b # t" "\<not> 0xe0 \<le> b" using write_str_head by blast
    have "read_msgpack_str (write_str k @ write_value v @ r) = (Some k, write_value v @ r)"
      using ok by (intro read_msgpack_str_Some) simp
    then show ?thesis using that(2) [of b "t @ write_value v @ r"] b skip None
      by (simp add: write_map_key_plain)
  qed
qed

lemma find_from_step:
  assumes "skips_values skip" and "field_ok k v"
  shows "find_from skip (Suc n) (write_map_key k @ write_value v @ r) parts =
    (if key_token k = None \<and> parts \<noteq> [] \<and> hd parts = k
     then (if tl parts = [] then Some (write_value v @ r) else find_msgpack_value skip (write_value v @ r) (tl parts))
     else find_from skip n r parts)"
  by (rule entry_cursor [OF assms, of r]; cases parts; auto simp: find_from_def)

text \<open>A key that does not occur is not found.\<close>

lemma find_from_absent:
  assumes "skips_values skip" and "\<forall>(k, v)\<in>set m. field_ok k v" and "parts \<noteq> [] \<Longrightarrow> hd parts \<notin> fst ` set m"
  shows "find_from skip (length m) (write_entries m @ r) parts = None"
  using assms(2,3)
proof (induction m)
  case (Cons p m)
  obtain k v where p: "p = (k, v)" by (cases p)
  show ?case
    using Cons find_from_step [OF assms(1), of k v "length m" "write_entries m @ r" parts] by (auto simp: p)
qed simp

section \<open>The loop\<close>

text \<open>What a position holds after the entries at the cursor.\<close>

definition slot :: "(bytes \<Rightarrow> bytes option) \<Rightarrow> nat \<Rightarrow> bytes \<Rightarrow> string list list \<Rightarrow> bytes option list \<Rightarrow> nat \<Rightarrow> nat \<Rightarrow>
    bytes option" where
  "slot skip n bs paths out depth i =
     (if out ! i \<noteq> None then out ! i else find_from skip n bs (drop depth (paths ! i)))"

definition slots :: "(bytes \<Rightarrow> bytes option) \<Rightarrow> nat \<Rightarrow> bytes \<Rightarrow> string list list \<Rightarrow> bytes option list \<Rightarrow> nat \<Rightarrow>
    bytes option list" where
  "slots skip n bs paths out depth = map (slot skip n bs paths out depth) [0..<length paths]"

lemma slots_resolved:
  assumes "length out = length paths" and "unresolved paths out depth = []"
  shows "slots skip n bs paths out depth = out"
proof (rule nth_equalityI)
  fix i assume "i < length (slots skip n bs paths out depth)"
  then have i: "i < length paths" by (simp add: slots_def)
  have "i \<notin> set (unresolved paths out depth)" using assms(2) by simp
  then show "slots skip n bs paths out depth ! i = out ! i"
    using i by (auto simp: slots_def slot_def)
qed (use assms(1) in \<open>simp add: slots_def\<close>)

lemma slots_cong:
  assumes "\<And>i. i < length paths \<Longrightarrow> slot skip n bs paths out depth i = slot skip n' bs' paths out' depth i"
  shows "slots skip n bs paths out depth = slots skip n' bs' paths out' depth"
  using assms by (simp add: slots_def)

lemma hd_drop_path: "depth < length p \<Longrightarrow> hd (drop depth p) = p ! depth \<and> tl (drop depth p) = drop (Suc depth) p"
  by (simp add: hd_drop_conv_nth drop_Suc tl_drop)

lemma leaf_nested_mem:
  "i \<in> set (leaf_indices paths out depth key) \<longleftrightarrow> i < length paths \<and> out ! i = None \<and>
     depth < length (paths ! i) \<and> paths ! i ! depth = key \<and> drop (Suc depth) (paths ! i) = []"
  "i \<in> set (nested_indices paths out depth key) \<longleftrightarrow> i < length paths \<and> out ! i = None \<and>
     depth < length (paths ! i) \<and> paths ! i ! depth = key \<and> drop (Suc depth) (paths ! i) \<noteq> []"
  by (auto simp: leaf_indices_def nested_indices_def)

lemma leaf_nested_distinct [simp]:
  "distinct (leaf_indices paths out depth key)" "distinct (nested_indices paths out depth key)"
  by (simp_all add: leaf_indices_def nested_indices_def)

text \<open>The result of the leaf and nested assignments at one entry.\<close>

definition hits :: "(bytes \<Rightarrow> bytes option) \<Rightarrow> bytes \<Rightarrow> string list list \<Rightarrow> bytes option list \<Rightarrow> nat \<Rightarrow> string \<Rightarrow>
    (nat \<times> bytes option) list" where
  "hits skip value_start paths out depth key =
     map (\<lambda>i. (i, Some value_start)) (leaf_indices paths out depth key) @
     filter (\<lambda>(i, s). s \<noteq> None)
       (map (\<lambda>i. (i, find_msgpack_value skip value_start (drop (Suc depth) (paths ! i))))
         (nested_indices paths out depth key))"

lemma assign_append: "assign (xs @ ys) out = assign ys (assign xs out)"
  by (simp add: assign_def)

lemma hits_distinct: "distinct (map fst (hits skip value_start paths out depth key))"
proof -
  have "set (leaf_indices paths out depth key) \<inter> set (nested_indices paths out depth key) = {}"
    by (auto simp: leaf_nested_mem)
  then show ?thesis
    by (auto simp: hits_def o_def filter_map distinct_map inj_on_def)
qed

lemma hits_mem:
  "(i, s) \<in> set (hits skip value_start paths out depth key) \<longleftrightarrow>
     i \<in> set (unresolved paths out depth) \<and> paths ! i ! depth = key \<and> s \<noteq> None \<and>
     s = (if drop (Suc depth) (paths ! i) = [] then Some value_start
          else find_msgpack_value skip value_start (drop (Suc depth) (paths ! i)))"
  by (auto simp: hits_def leaf_nested_mem)

lemma nth_hits:
  assumes "length out = length paths" and "i < length paths"
  shows "assign (hits skip value_start paths out depth key) out ! i =
    (if i \<in> set (unresolved paths out depth) \<and> paths ! i ! depth = key
     then (if drop (Suc depth) (paths ! i) = [] then Some value_start
           else find_msgpack_value skip value_start (drop (Suc depth) (paths ! i)))
     else out ! i)" (is "_ = (if ?hit then ?s else _)")
proof -
  let ?hits = "hits skip value_start paths out depth key"
  note nth = nth_assign [OF hits_distinct, of i out, of skip value_start paths out depth key]
  show ?thesis
  proof (cases "?hit \<and> ?s \<noteq> None")
    case True
    then have "(i, ?s) \<in> set ?hits" unfolding hits_mem by simp
    then have "map_of ?hits i = Some ?s" using hits_distinct by (simp only: map_of_eq_Some_iff)
    then show ?thesis using nth assms True by simp
  next
    case False
    have "(i, s) \<notin> set ?hits" for s using False unfolding hits_mem by metis
    then have "i \<notin> fst ` set ?hits" by force
    then have "map_of ?hits i = None" by (simp add: map_of_eq_None_iff)
    then show ?thesis using nth assms False by auto
  qed
qed

lemma length_hits_unresolved:
  assumes "length out = length paths"
  shows "length (unresolved paths (assign (hits skip value_start paths out depth key) out) depth) =
    length (unresolved paths out depth) - length (hits skip value_start paths out depth key)"
proof -
  let ?hits = "hits skip value_start paths out depth key"
  have "length (unresolved paths (assign ?hits out) depth) = length (unresolved paths out depth) - length (map fst ?hits)"
  proof (rule unresolved_assign [OF assms _ _ hits_distinct])
    show "set (map fst ?hits) \<subseteq> set (unresolved paths out depth)"
      by (auto simp: hits_mem)
    fix i assume i: "i < length paths"
    show "assign ?hits out ! i = (if i \<in> set (map fst ?hits) then Some (the (assign ?hits out ! i)) else out ! i)"
    proof (cases "i \<in> set (map fst ?hits)")
      case True
      then obtain s where "(i, s) \<in> set ?hits" by auto
      then show ?thesis using True nth_hits [OF assms i] by (auto simp: hits_mem)
    next
      case False
      then have "map_of ?hits i = None" by (simp add: map_of_eq_None_iff)
      then show ?thesis using False nth_assign [OF hits_distinct] i assms by simp
    qed
  qed
  then show ?thesis by simp
qed

text \<open>One round of the loop, given what the inner call returns.\<close>

lemma multi_loop_hit:
  assumes inner: "\<And>paths'. longest paths' - Suc depth < longest paths - depth \<Longrightarrow>
      multi_inner skip value_start paths' (replicate (length paths') None) (Suc depth) =
      map (\<lambda>p. find_msgpack_value skip value_start (drop (Suc depth) p)) paths'"
    and "remaining \<noteq> 0" and "\<not> 0xe0 \<le> b" and "read_msgpack_str (b # t) = (Some key, value_start)"
  shows "multi_loop skip (Suc n) (b # t) paths out depth remaining =
    multi_loop skip n (skip_cursor skip value_start) paths
      (assign (hits skip value_start paths out depth key) out) depth
      (remaining - length (hits skip value_start paths out depth key))"
proof (cases "nested_indices paths out depth key = []")
  case True
  then show ?thesis using assms(2-4) by (simp add: Let_def hits_def)
next
  case False
  let ?nested = "nested_indices paths out depth key"
  have sub: "multi_inner skip value_start (map ((!) paths) ?nested) (replicate (length ?nested) None) (Suc depth) =
      map (\<lambda>i. find_msgpack_value skip value_start (drop (Suc depth) (paths ! i))) ?nested"
    using inner [OF longest_nested [OF False]] by (simp add: o_def)
  show ?thesis
    using False assms(2-4)
    by (simp add: Let_def hits_def sub zip_map_self assign_append del: multi_inner.simps)
qed

lemma multi_loop_written:
  assumes skips: "skips_values skip"
    and inner: "\<And>v r paths'. doc_ok v \<Longrightarrow> longest paths' - Suc depth < longest paths - depth \<Longrightarrow>
      multi_inner skip (write_value v @ r) paths' (replicate (length paths') None) (Suc depth) =
      map (\<lambda>p. find_msgpack_value skip (write_value v @ r) (drop (Suc depth) p)) paths'"
    and "\<forall>(k, v)\<in>set m. field_ok k v" and "distinct (map fst m)" and "length out = length paths"
  shows "multi_loop skip (length m) (write_entries m @ r) paths out depth (length (unresolved paths out depth)) =
    slots skip (length m) (write_entries m @ r) paths out depth"
  using assms(3-)
proof (induction m arbitrary: out)
  case Nil
  then show ?case by (auto simp: slots_def slot_def intro!: nth_equalityI)
next
  case (Cons kv m)
  obtain k v where kv: "kv = (k, v)" by (cases kv)
  have ok: "field_ok k v" "doc_ok v" using Cons.prems(1) field_doc_ok by (auto simp: kv)
  let ?rest = "write_entries m @ r"
  note step = find_from_step [OF skips ok(1), of "length m" ?rest]
  have IH: "multi_loop skip (length m) ?rest paths out' depth (length (unresolved paths out' depth)) =
      slots skip (length m) ?rest paths out' depth" if "length out' = length paths" for out'
    using Cons.IH [OF _ _ that] Cons.prems(1,2) by (simp add: kv)
  show ?case
  proof (cases "unresolved paths out depth = []")
    case True
    then show ?thesis using slots_resolved [OF Cons.prems(3) True] by (simp del: unresolved_props)
  next
    case False
    show ?thesis
    proof (rule entry_cursor [OF skips ok(1), of ?rest], goal_cases)
      case (1 t)
      have "slots skip (Suc (length m)) (write_map_key k @ write_value v @ ?rest) paths out depth =
          slots skip (length m) ?rest paths out depth"
        using 1 step by (intro slots_cong) (simp add: slot_def)
      then show ?thesis using 1 False IH [OF Cons.prems(3)] by (simp add: kv)
    next
      case (2 b t)
      let ?out = "assign (hits skip (write_value v @ ?rest) paths out depth k) out"
      have "multi_loop skip (Suc (length m)) (b # t) paths out depth (length (unresolved paths out depth)) =
          slots skip (length m) ?rest paths ?out depth"
        using multi_loop_hit [OF inner [OF ok(2)] _ 2(2,4), of paths "length (unresolved paths out depth)" "length m" out]
          False 2(5) IH [of ?out] length_hits_unresolved [OF Cons.prems(3)] Cons.prems(3) by simp
      moreover have "slots skip (Suc (length m)) (b # t) paths out depth = slots skip (length m) ?rest paths ?out depth"
      proof (rule slots_cong)
        fix i assume i: "i < length paths"
        have absent: "find_from skip (length m) ?rest parts = None" if "parts \<noteq> [] \<Longrightarrow> hd parts = k" for parts
          using find_from_absent [OF skips, of m parts r] Cons.prems(1,2) that by (auto simp: kv)
        show "slot skip (Suc (length m)) (b # t) paths out depth i = slot skip (length m) ?rest paths ?out depth i"
        proof (cases "i \<in> set (unresolved paths out depth) \<and> paths ! i ! depth = k")
          case True
          then show ?thesis
            using nth_hits [OF Cons.prems(3) i, of skip "write_value v @ ?rest" depth k]
              absent [of "drop depth (paths ! i)"] 2 step [of "drop depth (paths ! i)"] hd_drop_path [of depth "paths ! i"]
            by (auto simp: slot_def)
        next
          case False
          then have "?out ! i = out ! i"
            using nth_hits [OF Cons.prems(3) i, of skip "write_value v @ ?rest" depth k] by auto
          then show ?thesis
            using False i 2 step [of "drop depth (paths ! i)"] hd_drop_path [of depth "paths ! i"]
            by (auto simp: slot_def)
        qed
      qed
      ultimately show ?thesis using 2(1) by (simp add: kv)
    qed
  qed
qed

lemma multi_inner_written:
  assumes "skips_values skip" and "doc_ok v"
  shows "multi_inner skip (write_value v @ r) paths (replicate (length paths) None) depth =
    map (\<lambda>p. find_msgpack_value skip (write_value v @ r) (drop depth p)) paths"
  using assms(2)
proof (induction "longest paths - depth" arbitrary: v r paths depth rule: less_induct)
  case less
  show ?case
  proof (cases "is_object v")
    case False
    then have "read_map_header (write_value v @ r) = None"
      using read_map_header_not_object less.prems doc_okD by blast
    then show ?thesis by (simp add: find_value_from map_replicate_const)
  next
    case True
    then obtain m where v: "v = Object m" by auto
    have m: "\<forall>(k, v)\<in>set m. field_ok k v" "distinct (map fst m)" "length m < 2 ^ 32"
      using less.prems by (simp_all add: v doc_ok_Object len_ok_def bt_distinct)
    have head: "read_map_header (write_value v @ r) = Some (length m, write_entries m @ r)"
      using m(3) by (simp add: v write_object del: write_value.simps)
    let ?none = "replicate (length paths) (None :: bytes option)"
    have "multi_inner skip (write_value v @ r) paths ?none depth =
        slots skip (length m) (write_entries m @ r) paths ?none depth"
      using multi_loop_written [OF assms(1) less.hyps m(1,2), where out = ?none and r = r] head by simp
    also have "\<dots> = map (\<lambda>p. find_msgpack_value skip (write_value v @ r) (drop depth p)) paths"
      using head by (auto simp: slots_def slot_def find_value_from intro!: nth_equalityI)
    finally show ?thesis .
  qed
qed

section \<open>Equivalence\<close>

text \<open>
  C25. The single pass over a stored document finds for every requested path exactly what a
  separate search finds for it, for any number of paths that may share prefixes.
\<close>
theorem multi_extract_agrees:
  assumes "skips_values skip" and "doc_ok v"
  shows "find_msgpack_values_multi skip (value_to_msgpack v) paths (replicate (length paths) None) =
    map (find_msgpack_value skip (value_to_msgpack v)) paths"
  using multi_inner_written [OF assms, of "[]" paths 0]
  by (simp add: find_msgpack_values_multi_def value_to_msgpack_def del: multi_inner.simps)

theorem multi_extract_agrees_witness:
  "let paths = [[''brand''], [''specs'', ''ram''], [''specs'', ''cpu''], [''specs'']] in
   doc_ok demo_laptop \<and>
   find_msgpack_values_multi skip_by_reading (value_to_msgpack demo_laptop) paths (replicate (length paths) None) =
    map (find_msgpack_value skip_by_reading (value_to_msgpack demo_laptop)) paths"
  unfolding Let_def using multi_extract_agrees [OF skips_by_reading demo_laptop_ok] demo_laptop_ok by blast

end
