(* ===== verification/Projection.thy ===== *)
theory Projection
  imports Query
begin

text \<open>
  What \<open>project\<close> and \<open>exclude\<close> of \<open>query.rs\<close> do to a document, path by path: a projection holds
  exactly the requested fields, an exclusion exactly the others.
\<close>

section \<open>Parts of a document\<close>

text \<open>A document with some of the fields of another one, at any depth.\<close>

inductive part_of :: "json \<Rightarrow> json \<Rightarrow> bool" where
  part_refl: "part_of d d"
| part_object: "(\<And>k v. map_of m k = Some v \<Longrightarrow> \<exists>w. map_of n k = Some w \<and> part_of v w) \<Longrightarrow>
     part_of (Object m) (Object n)"

inductive_cases part_of_objectE: "part_of v (Object n)"

lemma part_ofE:
  assumes "part_of f d"
  obtains "f = d" | m n where "f = Object m" "d = Object n"
    "\<And>k v. map_of m k = Some v \<Longrightarrow> \<exists>w. map_of n k = Some w \<and> part_of v w"
  using assms by (cases rule: part_of.cases) auto

lemma part_of_empty: "part_of (Object []) (Object n)"
  by (rule part_object) simp

lemma part_of_field:
  assumes "part_of (Object m) (Object n)" and "map_of m k = Some v"
  shows "\<exists>w. map_of n k = Some w \<and> part_of v w"
  using assms(1)
proof (cases rule: part_ofE)
  case 1
  then show ?thesis using assms(2) part_refl by auto
qed (use assms(2) in auto)

lemma part_of_get:
  "part_of f d \<Longrightarrow> get_nested_value f q = Some x \<Longrightarrow> \<exists>y. get_nested_value d q = Some y \<and> part_of x y"
proof (induction q arbitrary: f d)
  case (Cons k q)
  from Cons.prems(1) show ?case
  proof (cases rule: part_ofE)
    case (2 m n)
    then obtain v where "map_of m k = Some v" "get_nested_value v q = Some x"
      using Cons.prems(2) by (auto split: option.splits)
    with 2 Cons.IH show ?thesis by fastforce
  qed (use Cons.prems(2) part_refl in blast)
qed auto

lemma part_of_insert:
  assumes "part_of (Object m) (Object n)" and "map_of n k = Some w" and "part_of v w"
  shows "part_of (Object (bt_insert k v m)) (Object n)"
  using assms part_of_field [OF assms(1)] by (intro part_object) (auto simp: split: if_splits)

section \<open>Inserting a field of the document\<close>

lemma get_nested_object:
  assumes "get_nested_value d (k # p) = Some v"
  obtains n w where "d = Object n" "map_of n k = Some w" "get_nested_value w p = Some v"
  using assms by (cases d) (auto split: option.splits)

lemma wf_field: "wf_value (Object n) \<Longrightarrow> map_of n k = Some w \<Longrightarrow> wf_value w"
  by (metis map_of_SomeD wf_ObjectD(3))

lemma insert_nested_step:
  assumes "part_of (Object m) (Object n)" and "map_of n k = Some (Object n')" and "p \<noteq> []"
  obtains m' where "part_of (Object m') (Object n')"
    and "insert_nested_value m (k # p) v = bt_insert k (Object (insert_nested_value m' p v)) m"
    and "map_of m k = Some (Object m') \<or> map_of m k = None \<and> m' = []"
proof (cases "map_of m k")
  case None
  with assms(3) show ?thesis by (intro that [of "[]"]) (cases p; simp add: part_of_empty)+
next
  case (Some x)
  then have "part_of x (Object n')" using part_of_field [OF assms(1) Some] assms(2) by auto
  then obtain m' where "x = Object m'" by (auto elim: part_ofE)
  with \<open>part_of x (Object n')\<close> Some assms(3) show ?thesis by (intro that [of m']) (cases p; simp)+
qed

text \<open>
  Inserting the value that the document has at a path keeps the result a part of the document,
  puts the value there, and keeps every path that has its full value already.
\<close>

lemma insert_nested_part:
  assumes "part_of (Object m) (Object n)" and "get_nested_value (Object n) p = Some v" and "p \<noteq> []"
    and "wf_value (Object n)"
  shows "part_of (Object (insert_nested_value m p v)) (Object n)"
    and "get_nested_value (Object (insert_nested_value m p v)) p = Some v"
    and "\<And>q y. get_nested_value (Object m) q = Some y \<Longrightarrow> get_nested_value (Object n) q = Some y \<Longrightarrow>
      get_nested_value (Object (insert_nested_value m p v)) q = Some y"
proof -
  have "part_of (Object (insert_nested_value m p v)) (Object n) \<and>
    get_nested_value (Object (insert_nested_value m p v)) p = Some v \<and>
    (\<forall>q y. get_nested_value (Object m) q = Some y \<longrightarrow> get_nested_value (Object n) q = Some y \<longrightarrow>
      get_nested_value (Object (insert_nested_value m p v)) q = Some y)"
    using assms
  proof (induction p arbitrary: m n)
    case (Cons k p)
    obtain w where w: "map_of n k = Some w" "get_nested_value w p = Some v"
      using get_nested_object [OF Cons.prems(2)] by blast
    have n: "bt_ok n" using Cons.prems(4) by simp
    show ?case
    proof (cases "p = []")
      case True
      then have ins: "insert_nested_value m (k # p) v = bt_insert k v m" by simp
      have "get_nested_value (Object (bt_insert k v m)) q = Some y"
        if "get_nested_value (Object m) q = Some y" "get_nested_value (Object n) q = Some y" for q y
        using that w True n bt_insert_same [OF n w(1)] by (cases q) auto
      then show ?thesis
        using part_of_insert [OF Cons.prems(1) w(1) part_refl] w True unfolding ins by simp
    next
      case False
      then obtain n' where n': "w = Object n'"
        using w(2) by (cases p; cases w) auto
      obtain m' where m': "part_of (Object m') (Object n')"
        "insert_nested_value m (k # p) v = bt_insert k (Object (insert_nested_value m' p v)) m"
        "map_of m k = Some (Object m') \<or> map_of m k = None \<and> m' = []"
        using insert_nested_step [OF Cons.prems(1) _ False] w(1) n' by metis
      note IH = Cons.IH [OF m'(1) w(2) [unfolded n'] False wf_field [OF Cons.prems(4) w(1), unfolded n']]
      have "get_nested_value (Object (bt_insert k (Object (insert_nested_value m' p v)) m)) q = Some y"
        if "get_nested_value (Object m) q = Some y" "get_nested_value (Object n) q = Some y" for q y
      proof (cases q)
        case Nil
        then have eq: "m = n" using that by auto
        then have "m' = n'" using m'(3) w(1) n' by auto
        then have "insert_nested_value m' p v = n'"
          using IH by (metis get_nested_value.simps(1) json.inject(5) option.inject)
        then show ?thesis using that Nil eq w(1) n' bt_insert_same [OF n] by simp
      next
        case (Cons k' q')
        show ?thesis
        proof (cases "k' = k")
          case True
          then show ?thesis using that Cons m'(3) IH w(1) n' by (auto split: option.splits)
        qed (use that Cons in simp)
      qed
      then show ?thesis
        using IH part_of_insert [OF Cons.prems(1) w(1)] unfolding m'(2) n' by simp
    qed
  qed simp
  then show "part_of (Object (insert_nested_value m p v)) (Object n)"
    "get_nested_value (Object (insert_nested_value m p v)) p = Some v"
    "\<And>q y. get_nested_value (Object m) q = Some y \<Longrightarrow> get_nested_value (Object n) q = Some y \<Longrightarrow>
      get_nested_value (Object (insert_nested_value m p v)) q = Some y"
    by blast+
qed

text \<open>Inserting a value creates no field beside it.\<close>

lemma insert_nested_only:
  assumes "get_nested_value (Object (insert_nested_value m p v)) q = Some x" and "\<not> is_object x"
  shows "get_nested_value (Object m) q = Some x \<or> prefix p q"
  using assms(1)
proof (induction m p v arbitrary: q rule: insert_nested_value.induct)
  case (2 m k v)
  then show ?case using assms(2) by (cases q) (auto split: if_splits)
next
  case (3 m k k' p v)
  show ?case
  proof (cases q)
    case (Cons k'' q')
    show ?thesis
    proof (cases "k'' = k")
      case True
      have in_child: "get_nested_value (Object m') q' = Some x \<or> prefix (k' # p) q'"
        if "map_of m k = Some (Object m') \<or> map_of m k = None \<and> m' = []" for m'
      proof -
        have "get_nested_value (Object (insert_nested_value m' (k' # p) v)) q' = Some x"
          using that "3.prems" Cons True by auto
        then show ?thesis using that 3(1,2) by blast
      qed
      have empty: "get_nested_value (Object []) q' \<noteq> Some x"
        using assms(2) by (cases q') auto
      show ?thesis
      proof (cases "map_of m k")
        case None
        then show ?thesis using in_child [of "[]"] empty Cons True by simp
      next
        case (Some w)
        show ?thesis
        proof (cases "is_object w")
          case True
          then show ?thesis using in_child Some Cons \<open>k'' = k\<close> by auto
        next
          case False
          then have "insert_nested_value m (k # k' # p) v = m" using Some by (cases w) auto
          then show ?thesis using "3.prems" by (simp only: simp_thms)
        qed
      qed
    qed (use 3 Cons in \<open>auto split: option.splits json.splits\<close>)
  qed (use 3 assms(2) in auto)
qed simp

text \<open>The fields of a request, as paths.\<close>

definition requested :: "json list \<Rightarrow> string list list" where
  "requested fs = map (split_on CHR ''.'') (List.map_filter as_str fs)"

lemma requested_Cons: "requested (f # fs) =
    (case as_str f of Some s \<Rightarrow> [split_on CHR ''.'' s] | None \<Rightarrow> []) @ requested fs"
  by (simp add: requested_def List.map_filter_def split: option.split)

lemma requested_not_Nil: "p \<in> set (requested fs) \<Longrightarrow> p \<noteq> []"
  by (auto simp: requested_def)

definition insert_path :: "json \<Rightarrow> string list \<Rightarrow> object \<Rightarrow> object" where
  "insert_path doc p m =
     (case get_nested_value doc p of None \<Rightarrow> m | Some v \<Rightarrow> insert_nested_value m p v)"

lemma project_paths: "project doc fs = Object (fold (insert_path doc) (requested fs) [])"
proof -
  have "fold (project_field doc) fs m = fold (insert_path doc) (requested fs) m" for m
    by (induction fs arbitrary: m)
      (simp_all add: requested_Cons project_field_def insert_path_def Let_def split: option.split,
       simp add: requested_def List.map_filter_def)
  then show ?thesis by (simp add: project_def)
qed

lemma fold_insert_path:
  assumes "part_of (Object m) (Object n)" and "wf_value (Object n)" and "\<forall>p\<in>set ps. p \<noteq> []"
  shows "part_of (Object (fold (insert_path (Object n)) ps m)) (Object n)"
    and "\<And>q y. get_nested_value (Object m) q = Some y \<Longrightarrow> get_nested_value (Object n) q = Some y \<Longrightarrow>
      get_nested_value (Object (fold (insert_path (Object n)) ps m)) q = Some y"
    and "\<And>p v. p \<in> set ps \<Longrightarrow> get_nested_value (Object n) p = Some v \<Longrightarrow>
      get_nested_value (Object (fold (insert_path (Object n)) ps m)) p = Some v"
proof -
  let ?goal = "\<lambda>m ps. part_of (Object (fold (insert_path (Object n)) ps m)) (Object n) \<and>
    (\<forall>q y. get_nested_value (Object m) q = Some y \<longrightarrow> get_nested_value (Object n) q = Some y \<longrightarrow>
      get_nested_value (Object (fold (insert_path (Object n)) ps m)) q = Some y) \<and>
    (\<forall>p\<in>set ps. \<forall>v. get_nested_value (Object n) p = Some v \<longrightarrow>
      get_nested_value (Object (fold (insert_path (Object n)) ps m)) p = Some v)"
  have "?goal m ps" using assms(1,3)
  proof (induction ps arbitrary: m)
    case (Cons p ps)
    show ?case
    proof (cases "get_nested_value (Object n) p")
      case None
      then show ?thesis using Cons by (simp add: insert_path_def)
    next
      case (Some v)
      have p: "p \<noteq> []" using Cons.prems(2) by simp
      note ins = insert_nested_part [OF Cons.prems(1) Some p assms(2)]
      have IH: "?goal (insert_nested_value m p v) ps" using Cons.IH [OF ins(1)] Cons.prems(2) by simp
      have "fold (insert_path (Object n)) (p # ps) m = fold (insert_path (Object n)) ps (insert_nested_value m p v)"
        using Some by (simp add: insert_path_def)
      with IH ins(2,3) Some show ?thesis by (simp del: get_nested_value.simps)
    qed
  qed simp
  then show "part_of (Object (fold (insert_path (Object n)) ps m)) (Object n)"
    "\<And>q y. get_nested_value (Object m) q = Some y \<Longrightarrow> get_nested_value (Object n) q = Some y \<Longrightarrow>
      get_nested_value (Object (fold (insert_path (Object n)) ps m)) q = Some y"
    "\<And>p v. p \<in> set ps \<Longrightarrow> get_nested_value (Object n) p = Some v \<Longrightarrow>
      get_nested_value (Object (fold (insert_path (Object n)) ps m)) p = Some v"
    by blast+
qed

lemma fold_insert_only:
  "get_nested_value (Object (fold (insert_path doc) ps m)) q = Some x \<Longrightarrow> \<not> is_object x \<Longrightarrow>
     get_nested_value (Object m) q = Some x \<or> (\<exists>p\<in>set ps. prefix p q)"
proof (induction ps arbitrary: m)
  case (Cons p ps)
  then have "get_nested_value (Object (insert_path doc p m)) q = Some x \<or> (\<exists>p\<in>set ps. prefix p q)"
    by simp
  then show ?case using insert_nested_only [of m p _ q x] Cons.prems(2)
    by (auto simp: insert_path_def simp del: get_nested_value.simps is_object_iff split: option.splits)
qed simp

text \<open>
  C26. A projection has exactly the requested fields: at every requested path it has what the
  document has there, and every other value in it that is not an object lies below a requested path and is
  the document's value.
\<close>
theorem project_exact:
  assumes "wf_value doc" and "is_object doc"
  shows "(\<forall>p\<in>set (requested fs). get_nested_value (project doc fs) p = get_nested_value doc p) \<and>
    (\<forall>q x. get_nested_value (project doc fs) q = Some x \<longrightarrow> \<not> is_object x \<longrightarrow>
       get_nested_value doc q = Some x \<and> (\<exists>p\<in>set (requested fs). prefix p q))"
proof -
  obtain n where n: "doc = Object n" using assms(2) by auto
  note ins = fold_insert_path [OF part_of_empty, of n "requested fs", folded n, OF assms(1)]
  have part: "part_of (project doc fs) doc"
    using ins(1) requested_not_Nil unfolding project_paths n by blast
  have "get_nested_value (project doc fs) p = get_nested_value doc p" if "p \<in> set (requested fs)" for p
  proof (cases "get_nested_value doc p")
    case None
    then have "get_nested_value (project doc fs) p \<noteq> Some x" for x
      using part_of_get [OF part, of p x] by auto
    then show ?thesis using None by (cases "get_nested_value (project doc fs) p") auto
  next
    case (Some v)
    then have "get_nested_value (project doc fs) p = Some v"
      using ins(3) [OF _ that] requested_not_Nil unfolding project_paths n by blast
    with Some show ?thesis by (simp only:)
  qed
  moreover have "get_nested_value doc q = Some x \<and> (\<exists>p\<in>set (requested fs). prefix p q)"
    if q: "get_nested_value (project doc fs) q = Some x" and x: "\<not> is_object x" for q x
  proof -
    obtain y where y: "get_nested_value doc q = Some y" "part_of x y" using part_of_get [OF part q] by blast
    from y(2) x have "x = y" by (cases rule: part_ofE) auto
    moreover have "get_nested_value (Object []) q \<noteq> Some x" using x by (cases q) auto
    ultimately show ?thesis
      using y(1) fold_insert_only [OF q [unfolded project_paths] x] by blast
  qed
  ultimately show ?thesis by blast
qed

theorem project_exact_witness:
  "let doc = Object [(''a'', Object [(''b'', Bool True), (''c'', Null)]), (''d'', Null)]; fs = [String ''a.b''] in
   (\<forall>p\<in>set (requested fs). get_nested_value (project doc fs) p = get_nested_value doc p) \<and>
    (\<forall>q x. get_nested_value (project doc fs) q = Some x \<longrightarrow> \<not> is_object x \<longrightarrow>
       get_nested_value doc q = Some x \<and> (\<exists>p\<in>set (requested fs). prefix p q))"
  unfolding Let_def
  by (rule project_exact) (simp_all add: str_ok_def bytes_of_def)

section \<open>Removing fields\<close>

lemma remove_nested_get:
  assumes "p \<noteq> []"
  shows "get_nested_value (Object (remove_nested_value m p)) q = Some x \<Longrightarrow>
      \<exists>y. get_nested_value (Object m) q = Some y \<and> (x = y \<or> is_object x \<and> is_object y)"
    and "prefix p q \<Longrightarrow> get_nested_value (Object (remove_nested_value m p)) q = None"
    and "get_nested_value (Object m) q = Some x \<Longrightarrow> \<not> is_object x \<Longrightarrow> \<not> prefix p q \<Longrightarrow>
      get_nested_value (Object (remove_nested_value m p)) q = Some x"
proof -
  have "(get_nested_value (Object (remove_nested_value m p)) q = Some x \<longrightarrow>
      (\<exists>y. get_nested_value (Object m) q = Some y \<and> (x = y \<or> is_object x \<and> is_object y))) \<and>
    (prefix p q \<longrightarrow> get_nested_value (Object (remove_nested_value m p)) q = None) \<and>
    (get_nested_value (Object m) q = Some x \<longrightarrow> \<not> is_object x \<longrightarrow> \<not> prefix p q \<longrightarrow>
      get_nested_value (Object (remove_nested_value m p)) q = Some x)"
    using assms
  proof (induction m p arbitrary: q rule: remove_nested_value.induct)
    case (2 m k)
    show ?case by (cases q) auto
  next
    case (3 m k k' p)
    show ?case
    proof (cases "\<exists>child. map_of m k = Some (Object child)")
      case False
      then have same: "remove_nested_value m (k # k' # p) = m" by (auto split: option.splits json.splits)
      have "get_nested_value (Object m) q = None" if pre: "prefix (k # k' # p) q"
      proof -
        obtain q' where "q = k # k' # p @ q'" using pre by (auto simp: prefix_def)
        then show ?thesis using False by (auto split: option.splits elim: vget.elims)
      qed
      then show ?thesis unfolding same by blast
    next
      case True
      then obtain child where child: "map_of m k = Some (Object child)" by blast
      let ?child = "remove_nested_value child (k' # p)"
      note IH = "3.IH" [OF child refl, simplified]
      show ?thesis
      proof (cases q)
        case Nil
        then show ?thesis by auto
      next
        case (Cons j q')
        show ?thesis
        proof (cases "j = k")
          case False
          then have "get_nested_value (Object (remove_nested_value m (k # k' # p))) q = get_nested_value (Object m) q"
            using child Cons by (simp add: Let_def)
          then show ?thesis using False Cons by auto
        next
          case True
          have rem: "get_nested_value (Object (remove_nested_value m (k # k' # p))) q =
              (if ?child = [] then None else get_nested_value (Object ?child) q')"
            using child Cons True by (simp add: Let_def)
          have old: "get_nested_value (Object m) q = get_nested_value (Object child) q'"
            using child Cons True by simp
          have "get_nested_value (Object []) q' \<noteq> Some x" if "\<not> is_object x" using that by (cases q') auto
          moreover have pre: "prefix (k # k' # p) q = prefix (k' # p) q'" using Cons True by simp
          ultimately show ?thesis using IH [of q'] unfolding rem old pre by (auto simp del: get_nested_value.simps)
        qed
      qed
    qed
  qed simp
  then show "get_nested_value (Object (remove_nested_value m p)) q = Some x \<Longrightarrow>
      \<exists>y. get_nested_value (Object m) q = Some y \<and> (x = y \<or> is_object x \<and> is_object y)"
    "prefix p q \<Longrightarrow> get_nested_value (Object (remove_nested_value m p)) q = None"
    "get_nested_value (Object m) q = Some x \<Longrightarrow> \<not> is_object x \<Longrightarrow> \<not> prefix p q \<Longrightarrow>
      get_nested_value (Object (remove_nested_value m p)) q = Some x"
    by blast+
qed

text \<open>What lies neither at, below nor above the path stays as it is, and no empty object is left above it.\<close>

lemma remove_nested_beside:
  "p \<noteq> [] \<Longrightarrow> \<not> prefix p q \<Longrightarrow> \<not> prefix q p \<Longrightarrow>
     get_nested_value (Object (remove_nested_value m p)) q = get_nested_value (Object m) q"
proof (induction m p arbitrary: q rule: remove_nested_value.induct)
  case (2 m k)
  then show ?case by (cases q) auto
next
  case (3 m k k' p)
  show ?case
  proof (cases "\<exists>child. map_of m k = Some (Object child)")
    case False
    then have "remove_nested_value m (k # k' # p) = m" by (auto split: option.splits json.splits)
    then show ?thesis by (simp only:)
  next
    case True
    then obtain child where child: "map_of m k = Some (Object child)" by blast
    obtain j q' where q: "q = j # q'" using 3(4) by (cases q) auto
    show ?thesis
    proof (cases "j = k")
      case True
      let ?child = "remove_nested_value child (k' # p)"
      have beside: "\<not> prefix (k' # p) q'" "\<not> prefix q' (k' # p)" using 3(3,4) q True by auto
      then have IH: "get_nested_value (Object ?child) q' = get_nested_value (Object child) q'"
        using 3(1) [OF child refl] by simp
      have "get_nested_value (Object []) q' = None" using beside by (cases q') auto
      then have "?child = [] \<Longrightarrow> get_nested_value (Object child) q' = None" using IH by metis
      then show ?thesis using IH child q True by (simp add: Let_def)
    qed (use child q in \<open>simp add: Let_def\<close>)
  qed
qed simp

lemma remove_nested_prunes:
  "strict_prefix q p \<Longrightarrow> q \<noteq> [] \<Longrightarrow>
     get_nested_value (Object (remove_nested_value m p)) q \<noteq> Some (Object [])"
proof (induction m p arbitrary: q rule: remove_nested_value.induct)
  case (3 m k k' p)
  obtain q' where q: "q = k # q'" using 3(2,3) by (cases q) (auto simp: strict_prefix_def)
  show ?case
  proof (cases "\<exists>child. map_of m k = Some (Object child)")
    case False
    then have "remove_nested_value m (k # k' # p) = m" by (auto split: option.splits json.splits)
    moreover have "get_nested_value (Object m) q \<noteq> Some (Object [])"
      using False q by (cases q') (auto split: option.splits elim: vget.elims)
    ultimately show ?thesis by (simp only: not_False_eq_True simp_thms)
  next
    case True
    then obtain child where child: "map_of m k = Some (Object child)" by blast
    have "strict_prefix q' (k' # p)" using 3(2) q by (auto simp: strict_prefix_def)
    then show ?thesis using 3(1) [OF child refl, of q'] child q by (cases "q' = []") (auto simp: Let_def)
  qed
qed (auto simp: strict_prefix_def prefix_Cons)

definition remove_path :: "string list \<Rightarrow> object \<Rightarrow> object" where
  "remove_path p m = remove_nested_value m p"

lemma exclude_paths: "exclude (Object m) fs = Object (fold remove_path (requested fs) m)"
proof -
  have "fold (\<lambda>field result. case as_str field of None \<Rightarrow> result
      | Some field_path \<Rightarrow> remove_nested_value result (split_on CHR ''.'' field_path)) fs m =
    fold remove_path (requested fs) m" for m
    by (induction fs arbitrary: m)
      (simp_all add: requested_Cons remove_path_def split: option.split,
       simp add: requested_def List.map_filter_def)
  then show ?thesis by (simp add: exclude_def)
qed

lemma fold_remove_path:
  assumes "\<forall>p\<in>set ps. p \<noteq> []"
  shows "get_nested_value (Object m) q = None \<Longrightarrow> get_nested_value (Object (fold remove_path ps m)) q = None"
    and "p \<in> set ps \<Longrightarrow> prefix p q \<Longrightarrow> get_nested_value (Object (fold remove_path ps m)) q = None"
    and "\<not> is_object x \<Longrightarrow> get_nested_value (Object (fold remove_path ps m)) q = Some x \<longleftrightarrow>
      get_nested_value (Object m) q = Some x \<and> (\<forall>p\<in>set ps. \<not> prefix p q)"
proof -
  have none: "get_nested_value (Object (remove_path p m)) q = None"
    if "get_nested_value (Object m) q = None" "p \<noteq> []" for p m
    using remove_nested_get(1) [OF that(2), of m q] that(1)
    by (cases "get_nested_value (Object (remove_path p m)) q") (auto simp: remove_path_def)
  have keep: "get_nested_value (Object m) q = None \<longrightarrow> get_nested_value (Object (fold remove_path ps m)) q = None" for m
    using assms none by (induction ps arbitrary: m) (auto simp del: get_nested_value.simps)
  then show "get_nested_value (Object m) q = None \<Longrightarrow> get_nested_value (Object (fold remove_path ps m)) q = None"
    by blast
  show "p \<in> set ps \<Longrightarrow> prefix p q \<Longrightarrow> get_nested_value (Object (fold remove_path ps m)) q = None"
    using assms
  proof (induction ps arbitrary: m)
    case (Cons p' ps)
    have keep: "get_nested_value (Object m) q = None \<longrightarrow> get_nested_value (Object (fold remove_path ps m)) q = None" for m
      using Cons.prems(3) none by (induction ps arbitrary: m) (auto simp del: get_nested_value.simps)
    show ?case
    proof (cases "p = p'")
      case True
      then show ?thesis
        using remove_nested_get(2) [of p' q m, folded remove_path_def] Cons.prems keep [of "remove_path p' m"]
        by (simp del: get_nested_value.simps)
    qed (use Cons in \<open>simp del: get_nested_value.simps\<close>)
  qed simp
  show "\<not> is_object x \<Longrightarrow> get_nested_value (Object (fold remove_path ps m)) q = Some x \<longleftrightarrow>
      get_nested_value (Object m) q = Some x \<and> (\<forall>p\<in>set ps. \<not> prefix p q)"
    using assms
  proof (induction ps arbitrary: m)
    case (Cons p' ps)
    have "get_nested_value (Object (remove_path p' m)) q = Some x \<longleftrightarrow>
        get_nested_value (Object m) q = Some x \<and> \<not> prefix p' q"
      using remove_nested_get(1) [of p' m q x] remove_nested_get(2) [of p' q m]
        remove_nested_get(3) [of p' m q x] Cons.prems unfolding remove_path_def
      by (metis list.set_intros(1) option.distinct(1) option.inject)
    then show ?case using Cons by (auto simp del: get_nested_value.simps is_object_iff)
  qed simp
qed

lemma fold_remove_beside:
  assumes "\<forall>p\<in>set ps. p \<noteq> []" and "\<forall>p\<in>set ps. \<not> prefix p q \<and> \<not> prefix q p"
  shows "get_nested_value (Object (fold remove_path ps m)) q = get_nested_value (Object m) q"
  using assms
proof (induction ps arbitrary: m)
  case (Cons p ps)
  then have "get_nested_value (Object (remove_path p m)) q = get_nested_value (Object m) q"
    using remove_nested_beside [of p q m] by (simp add: remove_path_def)
  then show ?case using Cons by simp
qed simp

lemma fold_remove_prunes:
  assumes "\<forall>p\<in>set ps. p \<noteq> []" and "q \<noteq> []"
    and "(\<exists>p\<in>set ps. strict_prefix q p) \<or> get_nested_value (Object m) q \<noteq> Some (Object [])"
  shows "get_nested_value (Object (fold remove_path ps m)) q \<noteq> Some (Object [])"
  using assms
proof (induction ps arbitrary: m)
  case (Cons p ps)
  let ?m = "remove_path p m"
  have "get_nested_value (Object ?m) q \<noteq> Some (Object [])"
    if "strict_prefix q p \<or> get_nested_value (Object m) q \<noteq> Some (Object [])"
  proof (cases "strict_prefix q p")
    case True
    then show ?thesis using remove_nested_prunes [of q p m] Cons.prems(2) by (simp add: remove_path_def)
  next
    case False
    have "prefix p q \<or> \<not> prefix q p" using False by (auto simp: strict_prefix_def)
    then show ?thesis
      using that False remove_nested_get(2) [of p q m] remove_nested_beside [of p q m] Cons.prems(1)
      by (cases "prefix p q") (auto simp: remove_path_def simp del: get_nested_value.simps)
  qed
  then have "(\<exists>p\<in>set ps. strict_prefix q p) \<or> get_nested_value (Object ?m) q \<noteq> Some (Object [])"
    using Cons.prems(3) by auto
  then show ?case using Cons.IH [of ?m] Cons.prems(1,2) by simp
qed simp

text \<open>
  C27. What an exclusion removes: nothing is left at or below a requested path; what lies beside all requested paths
  stays as it is; a value that is not an object is in the result if and only if the document has it and it
  does not lie at or below a requested path; and of the objects above a requested path exactly the empty
  ones go, those that the document had empty included.
\<close>
theorem exclude_exact:
  assumes "is_object doc"
  shows "(\<forall>p\<in>set (requested fs). \<forall>q. prefix p q \<longrightarrow> get_nested_value (exclude doc fs) q = None) \<and>
    (\<forall>q. (\<forall>p\<in>set (requested fs). \<not> prefix p q \<and> \<not> prefix q p) \<longrightarrow>
       get_nested_value (exclude doc fs) q = get_nested_value doc q) \<and>
    (\<forall>q x. \<not> is_object x \<longrightarrow> (get_nested_value (exclude doc fs) q = Some x \<longleftrightarrow>
       get_nested_value doc q = Some x \<and> (\<forall>p\<in>set (requested fs). \<not> prefix p q))) \<and>
    (\<forall>q. q \<noteq> [] \<longrightarrow> (\<exists>p\<in>set (requested fs). strict_prefix q p) \<longrightarrow>
       get_nested_value (exclude doc fs) q \<noteq> Some (Object []))"
proof -
  obtain m where m: "doc = Object m" using assms by auto
  have paths: "\<forall>p\<in>set (requested fs). p \<noteq> []" using requested_not_Nil by blast
  note rem = fold_remove_path [OF paths]
  show ?thesis
    unfolding m exclude_paths using rem(2,3) fold_remove_beside [OF paths] fold_remove_prunes [OF paths] by blast
qed

theorem exclude_exact_witness:
  "let doc = Object [(''a'', Object []), (''b'', Object [(''c'', Null), (''d'', Null)])]; fs = [String ''a.x'', String ''b.c''] in
   get_nested_value (exclude doc fs) [''a''] \<noteq> Some (Object []) \<and>
   get_nested_value (exclude doc fs) [''b'', ''c''] = None \<and>
   get_nested_value (exclude doc fs) [''b'', ''d''] = Some Null"
proof -
  let ?doc = "Object [(''a'', Object []), (''b'', Object [(''c'', Null), (''d'', Null)])]"
  let ?fs = "[String ''a.x'', String ''b.c'']"
  have r: "requested ?fs = [[''a'', ''x''], [''b'', ''c'']]" by (simp add: requested_def map_filter_simps)
  have "is_object ?doc" by simp
  note e = exclude_exact [OF this, of ?fs, unfolded r]
  have "get_nested_value (exclude ?doc ?fs) [''a''] \<noteq> Some (Object [])"
    using e by (auto simp: strict_prefix_def simp del: get_nested_value.simps)
  moreover have "get_nested_value (exclude ?doc ?fs) [''b'', ''c''] = None"
    using e by (simp del: get_nested_value.simps)
  moreover have "get_nested_value (exclude ?doc ?fs) [''b'', ''d''] = get_nested_value ?doc [''b'', ''d'']"
    using conjunct1 [OF conjunct2 [OF e]] by (simp del: get_nested_value.simps)
  ultimately show ?thesis by simp
qed

end
