(* ===== verification/Validation.thy ===== *)
theory Validation
  imports Wal
begin

text \<open>
  The checks every request passes before it reaches the engine (\<open>validation/validation.rs\<close>, with
  its regular expressions and error texts), the names of the request properties
  (\<open>common/payload_fields.rs\<close>), the text of engine errors (\<open>engine/types.rs\<close>) and the shape of an
  error response (\<open>handlers/common/errors.rs\<close>). The JSON printer, which measures a payload, is a
  parameter. The theorems show what an accepted request satisfies.
\<close>

section \<open>Properties of a payload\<close>

datatype PayloadField =
    AllowedPrefixes | Collection | Count | Data | Drop | ExcludedFields | Exp | Fields | From | Joins
  | Keys | Limit | MaxSize | Offset | On | Order | Schema | Sort | Ttl | Where

fun field_str :: "PayloadField \<Rightarrow> string" where
  "field_str AllowedPrefixes = ''_allowed_prefixes''"
| "field_str Collection = ''collection''"
| "field_str Count = ''count''"
| "field_str Data = ''data''"
| "field_str Drop = ''drop''"
| "field_str ExcludedFields = ''excludedFields''"
| "field_str Exp = ''exp''"
| "field_str Fields = ''fields''"
| "field_str From = ''from''"
| "field_str Joins = ''joins''"
| "field_str Keys = ''keys''"
| "field_str Limit = ''limit''"
| "field_str MaxSize = ''maxSize''"
| "field_str Offset = ''offset''"
| "field_str On = ''on''"
| "field_str Order = ''order''"
| "field_str Schema = ''schema''"
| "field_str Sort = ''sort''"
| "field_str Ttl = ''ttl''"
| "field_str Where = ''where''"

definition pget :: "json \<Rightarrow> PayloadField \<Rightarrow> json option" where
  "pget payload f = vget payload (field_str f)"

section \<open>Errors\<close>

datatype ValidationError =
    InvalidCollectionName string
  | InvalidKeyName string
  | InvalidFieldName string
  | CollectionNameTooLong
  | KeyNameTooLong
  | PayloadTooLarge
  | InvalidJsonDepth
  | TooManyKeys
  | UnknownProperty string

definition quoted :: "string \<Rightarrow> string" where
  "quoted s = CHR 0x27 # s @ [CHR 0x27]"

fun validation_text :: "ValidationError \<Rightarrow> string" where
  "validation_text (InvalidCollectionName n) =
     ''Invalid collection name: '' @ quoted n @ ''. Must be alphanumeric with _, - only (1-64 chars)''"
| "validation_text (InvalidKeyName n) =
     ''Invalid key name: '' @ quoted n @ ''. Must be alphanumeric with _, -, . only (1-256 chars)''"
| "validation_text (InvalidFieldName n) =
     ''Invalid field name: '' @ quoted n @ ''. Must be alphanumeric with _, -, . only (1-128 chars)''"
| "validation_text CollectionNameTooLong = ''Collection name too long (max 64 characters)''"
| "validation_text KeyNameTooLong = ''Key name too long (max 256 characters)''"
| "validation_text PayloadTooLarge = ''Payload too large (max 10MB)''"
| "validation_text InvalidJsonDepth = ''JSON nesting too deep (max 32 levels)''"
| "validation_text TooManyKeys = ''Too many keys in single request (max 1000)''"
| "validation_text (UnknownProperty n) =
     ''Unknown property: '' @ quoted n @ ''. Check the API docs for supported properties''"

text \<open>\<open>Display\<close> of \<open>DbError\<close>. A panic has no text.\<close>

fun db_error_text :: "db_error \<Rightarrow> string" where
  "db_error_text (Io err) = ''Disk I/O Error: '' @ err"
| "db_error_text (Serialization err) = ''Data Serialization Error: '' @ err"
| "db_error_text LockPoisoned = ''Internal thread lock was poisoned''"
| "db_error_text WriteError = ''Failed to send data to storage backend''"
| "db_error_text (InvalidQuery msg) = ''Invalid Query: '' @ msg"
| "db_error_text (TypeMismatch msg) = ''Type Mismatch: '' @ msg"
| "db_error_text CollectionNotFound = ''Collection Not Found''"
| "db_error_text Conflict = ''Conflict: Document version is outdated''"
| "db_error_text (StorageFault msg) =
     ''Storage fault '' @ [CHR 0xE2, CHR 0x80, CHR 0x94] @ '' system is in read-only mode: '' @ msg"
| "db_error_text (SchemaValidationError msg) = ''Schema Validation Error: '' @ msg"
| "db_error_text Aborted = []"

text \<open>Status code and body.\<close>

type_synonym response = "nat \<times> json"

definition error_response :: "nat \<Rightarrow> string \<Rightarrow> response" where
  "error_response code msg =
     (code, Object (of_entries [(''error'', String msg), (''statusCode'', json_u64 (of_nat code))]))"

definition validation_response :: "ValidationError \<Rightarrow> response" where
  "validation_response e = error_response 400 (validation_text e)"

section \<open>Checks\<close>

text \<open>\<open>a?; b\<close> and \<open>for x in xs { f(x)?; }\<close>\<close>

definition check_then :: "'e + unit \<Rightarrow> 'e + unit \<Rightarrow> 'e + unit" where
  "check_then a b = (case a of Inl e \<Rightarrow> Inl e | Inr _ \<Rightarrow> b)"

primrec check_all :: "('a \<Rightarrow> 'e + unit) \<Rightarrow> 'a list \<Rightarrow> 'e + unit" where
  "check_all f [] = Inr ()"
| "check_all f (x # xs) = check_then (f x) (check_all f xs)"

definition check_option :: "('a \<Rightarrow> 'e + unit) \<Rightarrow> 'a option \<Rightarrow> 'e + unit" where
  "check_option f x = (case x of None \<Rightarrow> Inr () | Some a \<Rightarrow> f a)"

lemma check_all_cong [fundef_cong]:
  "xs = ys \<Longrightarrow> (\<And>x. x \<in> set ys \<Longrightarrow> f x = g x) \<Longrightarrow> check_all f xs = check_all g ys"
  by (induction xs arbitrary: ys) auto

lemma check_then_ok [simp]: "check_then a b = Inr () \<longleftrightarrow> a = Inr () \<and> b = Inr ()"
  by (cases a) (auto simp: check_then_def)

lemma check_all_ok [simp]: "check_all f xs = Inr () \<longleftrightarrow> (\<forall>x\<in>set xs. f x = Inr ())"
  by (induction xs) auto

lemma check_option_ok [simp]: "check_option f x = Inr () \<longleftrightarrow> (\<forall>a. x = Some a \<longrightarrow> f a = Inr ())"
  by (auto simp: check_option_def split: option.splits)

section \<open>Names\<close>

text \<open>
  The character classes of the three regular expressions. A character is a byte: a character outside
  ASCII has bytes of 128 and more, which no class has.
\<close>

definition alphanumeric :: "char \<Rightarrow> bool" where
  "alphanumeric c \<longleftrightarrow>
     (let n = of_char c :: nat in 97 \<le> n \<and> n \<le> 122 \<or> 65 \<le> n \<and> n \<le> 90 \<or> 48 \<le> n \<and> n \<le> 57)"

definition COLLECTION_NAME_REGEX :: "string \<Rightarrow> bool" where
  "COLLECTION_NAME_REGEX s \<longleftrightarrow>
     1 \<le> length s \<and> length s \<le> 64 \<and> list_all (\<lambda>c. alphanumeric c \<or> c = CHR ''_'' \<or> c = CHR ''-'') s"

definition KEY_NAME_REGEX :: "string \<Rightarrow> bool" where
  "KEY_NAME_REGEX s \<longleftrightarrow>
     1 \<le> length s \<and> length s \<le> 256 \<and>
     list_all (\<lambda>c. alphanumeric c \<or> c = CHR ''_'' \<or> c = CHR ''.'' \<or> c = CHR ''-'') s"

definition FIELD_NAME_REGEX :: "string \<Rightarrow> bool" where
  "FIELD_NAME_REGEX s \<longleftrightarrow>
     1 \<le> length s \<and> length s \<le> 128 \<and>
     list_all (\<lambda>c. alphanumeric c \<or> c = CHR ''_'' \<or> c = CHR ''.'' \<or> c = CHR ''-'') s"

definition validate_collection_name :: "string \<Rightarrow> ValidationError + unit" where
  "validate_collection_name name =
     (if name = [] \<or> length name > 64 then
        Inl (if length name > 64 then CollectionNameTooLong else InvalidCollectionName name)
      else if \<not> COLLECTION_NAME_REGEX name then Inl (InvalidCollectionName name)
      else if name \<in> {''admin'', ''system'', ''config'', ''internal'', ''__proto__''} then
        Inl (InvalidCollectionName (name @ '' (reserved name)''))
      else Inr ())"

definition validate_key_name :: "string \<Rightarrow> ValidationError + unit" where
  "validate_key_name key =
     (if key = [] then Inl (InvalidKeyName key)
      else if length key > 256 then Inl KeyNameTooLong
      else if \<not> KEY_NAME_REGEX key then Inl (InvalidKeyName key)
      else Inr ())"

definition validate_field_name :: "string \<Rightarrow> ValidationError + unit" where
  "validate_field_name field =
     (if field = [] then Inl (InvalidFieldName field)
      else if length field > 128 then Inl (InvalidFieldName (field @ '' (too long)''))
      else if \<not> FIELD_NAME_REGEX field then Inl (InvalidFieldName field)
      else check_all (\<lambda>part. if part = [] then Inl (InvalidFieldName field) else Inr ())
             (split_on CHR ''.'' field))"

section \<open>Sizes\<close>

fun check_depth :: "json \<Rightarrow> nat \<Rightarrow> nat \<Rightarrow> ValidationError + unit" where
  "check_depth v current max_depth =
     (if current > max_depth then Inl InvalidJsonDepth
      else case v of
        Object m \<Rightarrow> check_all (\<lambda>x. check_depth (snd x) (current + 1) max_depth) m
      | Array vs \<Rightarrow> check_all (\<lambda>x. check_depth x (current + 1) max_depth) vs
      | _ \<Rightarrow> Inr ())"

declare check_depth.simps [simp del]

definition validate_json_depth :: "json \<Rightarrow> nat \<Rightarrow> ValidationError + unit" where
  "validate_json_depth v max_depth = check_depth v 0 max_depth"

definition validate_payload_size :: "(json \<Rightarrow> string) \<Rightarrow> json \<Rightarrow> nat \<Rightarrow> ValidationError + unit" where
  "validate_payload_size print payload max_size_bytes =
     (if length (print payload) > max_size_bytes then Inl PayloadTooLarge else Inr ())"

definition validate_key_count :: "nat \<Rightarrow> nat \<Rightarrow> ValidationError + unit" where
  "validate_key_count n max_keys = (if n > max_keys then Inl TooManyKeys else Inr ())"

definition validate_allowed_properties :: "json \<Rightarrow> string list \<Rightarrow> ValidationError + unit" where
  "validate_allowed_properties payload allowed =
     check_option (check_all (\<lambda>(key, v). if key \<notin> set allowed then Inl (UnknownProperty key) else Inr ()))
       (as_object payload)"

section \<open>The whole request\<close>

definition check_fields :: "json option \<Rightarrow> ValidationError + unit" where
  "check_fields fs =
     check_option (check_all (\<lambda>field. check_option validate_field_name (as_str field)))
       (Option.bind fs as_array)"

definition check_keys :: "nat \<Rightarrow> json \<Rightarrow> ValidationError + unit" where
  "check_keys max_keys ks =
     (case ks of
        String key \<Rightarrow> validate_key_name key
      | Array arr \<Rightarrow>
          check_then (validate_key_count (length arr) max_keys)
            (check_all (\<lambda>key. check_option validate_key_name (as_str key)) arr)
      | _ \<Rightarrow> Inr ())"

definition check_data :: "nat \<Rightarrow> json \<Rightarrow> ValidationError + unit" where
  "check_data max_keys data =
     (case data of
        Object m \<Rightarrow>
          check_then (validate_key_count (length m) max_keys) (check_all (\<lambda>(key, v). validate_key_name key) m)
      | _ \<Rightarrow> Inr ())"

definition check_join :: "string \<times> json \<Rightarrow> ValidationError + unit" where
  "check_join j =
     (case j of (alias, inner) \<Rightarrow>
      check_then (validate_key_name alias)
        (if is_object inner then
           check_then (check_option validate_collection_name (Option.bind (pget inner From) as_str))
             (check_then (check_option validate_field_name (Option.bind (pget inner On) as_str))
               (check_fields (pget inner Fields)))
         else Inr ()))"

definition check_where :: "object \<Rightarrow> ValidationError + unit" where
  "check_where m =
     check_all (\<lambda>(key, v). if take 1 key \<noteq> ''$'' then validate_field_name key else Inr ()) m"

definition validate_request :: "(json \<Rightarrow> string) \<Rightarrow> json \<Rightarrow> nat \<Rightarrow> nat \<Rightarrow> ValidationError + unit" where
  "validate_request print payload max_body_size max_keys_per_request =
     check_then (validate_payload_size print payload max_body_size)
    (check_then (validate_json_depth payload 32)
    (check_then (check_option validate_collection_name (Option.bind (pget payload Collection) as_str))
    (check_then (check_option (check_keys max_keys_per_request) (pget payload Keys))
    (check_then (check_option (check_data max_keys_per_request) (pget payload Data))
    (check_then (check_fields (pget payload Fields))
    (check_then (check_option (check_all (\<lambda>join_spec. check_option (check_all check_join) (as_object join_spec)))
                  (Option.bind (pget payload Joins) as_array))
                (check_option check_where (Option.bind (pget payload Where) as_object))))))))"

section \<open>What an accepted request satisfies\<close>

text \<open>The depth check is the bound on nesting that the storage format relies on.\<close>

lemma check_depth_nested:
  "check_depth v n d = Inr () \<Longrightarrow> n \<le> d \<and> nested (Suc (d - n)) v"
proof (induction v arbitrary: n rule: json_induct)
  case (Array vs)
  have le: "n \<le> d" using Array.prems by (subst (asm) check_depth.simps) (simp split: if_splits)
  have "check_depth v (n + 1) d = Inr ()" if "v \<in> set vs" for v
    using Array.prems that by (subst (asm) check_depth.simps) (auto split: if_splits)
  then have "n + 1 \<le> d \<and> nested (Suc (d - (n + 1))) v" if "v \<in> set vs" for v
    using that Array.IH by blast
  moreover have "Suc (d - (n + 1)) = d - n" if "n + 1 \<le> d" using that by simp
  ultimately have "\<forall>v\<in>set vs. nested (d - n) v" by metis
  with le show ?case by (simp add: list_all_iff)
next
  case (Object m)
  have le: "n \<le> d" using Object.prems by (subst (asm) check_depth.simps) (simp split: if_splits)
  have "check_depth v (n + 1) d = Inr ()" if "(k, v) \<in> set m" for k v
    using Object.prems that by (subst (asm) check_depth.simps) (auto split: if_splits)
  then have "n + 1 \<le> d \<and> nested (Suc (d - (n + 1))) v" if "(k, v) \<in> set m" for k v
    using that Object.IH by blast
  moreover have "Suc (d - (n + 1)) = d - n" if "n + 1 \<le> d" using that by simp
  ultimately have "\<forall>(k, v)\<in>set m. nested (d - n) v" by (metis (mono_tags, lifting) case_prodI2)
  with le show ?case by (simp add: list_all_iff)
qed (subst (asm) check_depth.simps, simp split: if_splits)+

lemma validate_json_depth_nested: "validate_json_depth v d = Inr () \<Longrightarrow> nested (Suc d) v"
  using check_depth_nested [of v 0 d] by (simp add: validate_json_depth_def)

end
