(* ===== verification/TopN.thy ===== *)
theory TopN
  imports Prelude
begin

text \<open>
  Bounded heaps and parallel scans, as the read path uses them (\<open>coalesce.rs\<close>, \<open>get.rs\<close>): each
  worker keeps the \<open>cap\<close> best items it has seen and the heaps are merged pairwise. The locale
  \<open>bounded_scan\<close> states what the order of the items has to satisfy; its lemmas show that the result
  is the sorted list of the \<open>cap\<close> best items, however the work was divided.
\<close>

section \<open>Heaps\<close>

text \<open>A \<open>BinaryHeap\<close> by its items in ascending order: the peek is the last one.\<close>

fun heap_push :: "('a \<Rightarrow> 'a \<Rightarrow> bool) \<Rightarrow> 'a \<Rightarrow> 'a list \<Rightarrow> 'a list" where
  "heap_push lt x [] = [x]"
| "heap_push lt x (y # h) = (if lt x y then x # y # h else y # heap_push lt x h)"

definition heap_peek :: "'a list \<Rightarrow> 'a option" where
  "heap_peek h = (if h = [] then None else Some (last h))"

definition push_bounded :: "('a \<Rightarrow> 'a \<Rightarrow> bool) \<Rightarrow> nat \<Rightarrow> 'a \<Rightarrow> 'a list \<Rightarrow> 'a list" where
  "push_bounded lt cap item heap =
     (if cap = 0 then heap
      else if cap \<le> length heap then
        (case heap_peek heap of None \<Rightarrow> heap
         | Some worst \<Rightarrow> if lt item worst then heap_push lt item (butlast heap) else heap)
      else heap_push lt item heap)"

section \<open>Parallel folds\<close>

text \<open>
  How a parallel iterator divides its items: runs folded by one worker each, and pairwise
  reductions of the results.
\<close>

datatype 'a split = Run "'a list" | Join "'a split" "'a split"

primrec split_items :: "'a split \<Rightarrow> 'a list" where
  "split_items (Run xs) = xs"
| "split_items (Join s t) = split_items s @ split_items t"

primrec par_fold :: "'b \<Rightarrow> ('a \<Rightarrow> 'b \<Rightarrow> 'b) \<Rightarrow> ('b \<Rightarrow> 'b \<Rightarrow> 'b) \<Rightarrow> 'a split \<Rightarrow> 'b" where
  "par_fold z f g (Run xs) = fold f xs z"
| "par_fold z f g (Join s t) = g (par_fold z f g s) (par_fold z f g t)"

section \<open>The best items\<close>

definition best :: "('a \<Rightarrow> 'a \<Rightarrow> bool) \<Rightarrow> nat \<Rightarrow> 'a set \<Rightarrow> 'a set" where
  "best lt c S = {x \<in> S. card {y \<in> S. lt y x} < c}"

locale bounded_scan =
  fixes lt :: "'a \<Rightarrow> 'a \<Rightarrow> bool"
  assumes irrefl: "\<not> lt x x"
    and trans: "lt x y \<Longrightarrow> lt y z \<Longrightarrow> lt x z"
    and total: "x \<noteq> y \<Longrightarrow> lt x y \<or> lt y x"
begin

lemma asym: "lt x y \<Longrightarrow> \<not> lt y x"
  using irrefl trans by blast

lemma set_heap_push [simp]: "set (heap_push lt x h) = insert x (set h)"
  by (induction h) auto

lemma length_heap_push [simp]: "length (heap_push lt x h) = Suc (length h)"
  by (induction h) auto

lemma heap_push_sorted: "sorted_wrt lt h \<Longrightarrow> x \<notin> set h \<Longrightarrow> sorted_wrt lt (heap_push lt x h)"
proof (induction h)
  case (Cons y h)
  then show ?case using total [of x y] trans by (auto split: if_splits)
qed simp

text \<open>A sorted heap of distinct items is determined by its set.\<close>

lemma sorted_unique:
  "sorted_wrt lt xs \<Longrightarrow> sorted_wrt lt ys \<Longrightarrow> set xs = set ys \<Longrightarrow> xs = ys"
proof (induction xs arbitrary: ys)
  case (Cons x xs)
  then obtain y ys' where ys: "ys = y # ys'" by (cases ys) auto
  have "x = y"
    using Cons.prems asym unfolding ys by (metis insert_iff list.set(2) sorted_wrt.simps(2))
  moreover have "x \<notin> set xs" "y \<notin> set ys'"
    using Cons.prems irrefl unfolding ys by auto
  ultimately have "set xs = set ys'" using Cons.prems(3) by (auto simp: ys)
  then show ?case using Cons \<open>x = y\<close> by (simp add: ys)
qed simp

lemma sorted_distinct: "sorted_wrt lt xs \<Longrightarrow> distinct xs"
  using irrefl by (induction xs) auto

lemma best_subset: "best lt c S \<subseteq> S"
  by (auto simp: best_def)

lemma best_empty [simp]: "best lt c {} = {}" and best_0 [simp]: "best lt 0 S = {}"
  by (auto simp: best_def)

text \<open>The items below a given one that are not among the best are preceded by \<open>c\<close> best ones.\<close>

lemma not_best_above:
  assumes "finite S" and "x \<in> S" and "x \<notin> best lt c S"
  shows "c \<le> card {y \<in> best lt c S. lt y x}"
  using assms(2,3)
proof (induction "card {y \<in> S. lt y x}" arbitrary: x rule: less_induct)
  case less
  have big: "c \<le> card {y \<in> S. lt y x}" using less.prems by (simp add: best_def not_less)
  show ?case
  proof (cases "\<exists>y. y \<in> S \<and> lt y x \<and> y \<notin> best lt c S")
    case True
    then obtain y where y: "y \<in> S" "lt y x" "y \<notin> best lt c S" by blast
    have "{z \<in> S. lt z y} \<subset> {z \<in> S. lt z x}"
      using y trans irrefl by blast
    then have "card {z \<in> S. lt z y} < card {z \<in> S. lt z x}"
      using assms(1) by (intro psubset_card_mono) auto
    from less.hyps [OF this y(1,3)] have "c \<le> card {z \<in> best lt c S. lt z y}" .
    also have "\<dots> \<le> card {z \<in> best lt c S. lt z x}"
      using y(2) trans finite_subset [OF best_subset assms(1)] by (intro card_mono) auto
    finally show ?thesis .
  next
    case False
    then have "{y \<in> S. lt y x} = {y \<in> best lt c S. lt y x}"
      using best_subset by blast
    then show ?thesis using big by simp
  qed
qed

text \<open>Dropping items that are not among the best of their part changes nothing.\<close>

lemma best_absorb:
  assumes "finite A" and "finite B"
  shows "best lt c (A \<union> best lt c B) = best lt c (A \<union> B)"
proof -
  let ?S = "A \<union> B" and ?T = "A \<union> best lt c B"
  have sub: "?T \<subseteq> ?S" using best_subset by blast
  have "x \<in> best lt c ?T" if x: "x \<in> best lt c ?S" for x
  proof -
    have c: "card {y \<in> ?S. lt y x} < c" "x \<in> ?S" using x by (auto simp: best_def)
    have "x \<in> ?T"
    proof (rule ccontr)
      assume "x \<notin> ?T"
      then have "x \<in> B" "x \<notin> best lt c B" using c(2) by auto
      then have "c \<le> card {y \<in> best lt c B. lt y x}" by (rule not_best_above [OF assms(2)])
      also have "\<dots> \<le> card {y \<in> ?S. lt y x}"
        using assms best_subset by (intro card_mono) auto
      finally show False using c(1) by simp
    qed
    moreover have "card {y \<in> ?T. lt y x} \<le> card {y \<in> ?S. lt y x}"
      using assms sub by (intro card_mono) auto
    ultimately show ?thesis using c(1) by (simp add: best_def)
  qed
  moreover have "x \<in> best lt c ?S" if x: "x \<in> best lt c ?T" for x
  proof (rule ccontr)
    assume not: "x \<notin> best lt c ?S"
    have xT: "x \<in> ?T" "card {y \<in> ?T. lt y x} < c" using x by (auto simp: best_def)
    have "\<exists>y. y \<in> ?S \<and> lt y x \<and> y \<notin> ?T"
    proof (rule ccontr)
      assume "\<nexists>y. y \<in> ?S \<and> lt y x \<and> y \<notin> ?T"
      then have "{y \<in> ?S. lt y x} = {y \<in> ?T. lt y x}" using sub by blast
      then show False using not xT sub by (auto simp: best_def)
    qed
    then obtain y where y: "y \<in> B" "lt y x" "y \<notin> best lt c B" by auto
    have "c \<le> card {z \<in> best lt c B. lt z y}" using y by (intro not_best_above [OF assms(2)])
    also have "\<dots> \<le> card {z \<in> ?T. lt z x}"
      using y(2) trans assms finite_subset [OF best_subset assms(2)] by (intro card_mono) auto
    finally show False using xT(2) by simp
  qed
  ultimately show ?thesis by blast
qed

end

definition heap_sort :: "('a \<Rightarrow> 'a \<Rightarrow> bool) \<Rightarrow> 'a list \<Rightarrow> 'a list" where
  "heap_sort lt xs = fold (heap_push lt) xs []"

text \<open>The parallel scan: a worker turns an entry into an item, or passes over it.\<close>

definition par_top :: "('a \<Rightarrow> 'a \<Rightarrow> bool) \<Rightarrow> nat \<Rightarrow> ('e \<Rightarrow> 'a option) \<Rightarrow> 'e split \<Rightarrow> 'a list" where
  "par_top lt cap item t =
     par_fold [] (\<lambda>e heap. case item e of None \<Rightarrow> heap | Some x \<Rightarrow> push_bounded lt cap x heap)
       (\<lambda>a b. fold (push_bounded lt cap) b a) t"

lemma fold_map_filter:
  "fold (\<lambda>e h. case g e of None \<Rightarrow> h | Some x \<Rightarrow> f x h) xs z = fold f (List.map_filter g xs) z"
  by (induction xs arbitrary: z) (simp_all add: List.map_filter_def split: option.split)

definition is_best :: "('a \<Rightarrow> 'a \<Rightarrow> bool) \<Rightarrow> nat \<Rightarrow> 'a set \<Rightarrow> 'a list \<Rightarrow> bool" where
  "is_best lt c S h \<longleftrightarrow> sorted_wrt lt h \<and> set h = best lt c S \<and> length h \<le> c"

context bounded_scan
begin

lemma best_all:
  assumes "finite S" and "card S \<le> c"
  shows "best lt c S = S"
proof -
  have "card {y \<in> S. lt y x} < c" if "x \<in> S" for x
  proof -
    have "{y \<in> S. lt y x} \<subset> S" using that irrefl by blast
    then have "card {y \<in> S. lt y x} < card S" using assms(1) by (rule psubset_card_mono [rotated])
    then show ?thesis using assms(2) by simp
  qed
  then show ?thesis by (auto simp: best_def)
qed

lemma best_drop_max:
  assumes "finite S" and "card S = Suc c" and "m \<in> S" and "\<And>y. y \<in> S \<Longrightarrow> y \<noteq> m \<Longrightarrow> lt y m"
  shows "best lt c S = S - {m}"
proof -
  have "{y \<in> S. lt y m} = S - {m}" using assms(3,4) irrefl by blast
  then have "m \<notin> best lt c S" using assms(1-3) by (simp add: best_def)
  moreover have "x \<in> best lt c S" if x: "x \<in> S" "x \<noteq> m" for x
  proof -
    have "{y \<in> S. lt y x} \<subset> S - {m}"
      using x assms(4) [OF x] asym irrefl by blast
    then have "card {y \<in> S. lt y x} < card (S - {m})" using assms(1) by (intro psubset_card_mono) auto
    then show ?thesis using x assms(1-3) by (simp add: best_def)
  qed
  ultimately show ?thesis using best_subset by blast
qed

lemma last_max: "sorted_wrt lt h \<Longrightarrow> y \<in> set h \<Longrightarrow> y \<noteq> last h \<Longrightarrow> lt y (last h)"
  by (induction h rule: rev_induct) (auto simp: sorted_wrt_append)

lemma push_is_best:
  assumes "is_best lt c S h" and "x \<notin> S" and "finite S"
  shows "is_best lt c (insert x S) (push_bounded lt c x h)"
proof -
  have h: "sorted_wrt lt h" "set h = best lt c S" "length h \<le> c" using assms(1) by (auto simp: is_best_def)
  have x: "x \<notin> set h" using h(2) best_subset assms(2) by blast
  have dist: "card (set h) = length h" using sorted_distinct [OF h(1)] by (simp add: distinct_card)
  have S: "best lt c (insert x S) = best lt c (insert x (set h))"
    using best_absorb [of "{x}" S c] assms(3) h(2) by simp
  consider "c = 0" | "length h < c" | "0 < c" "length h = c" using h(3) by linarith
  then show ?thesis
  proof cases
    case 1
    then show ?thesis using h by (simp add: is_best_def push_bounded_def)
  next
    case 2
    then have "best lt c (insert x (set h)) = insert x (set h)" using x dist by (intro best_all) auto
    then show ?thesis using 2 h(1) x by (simp add: is_best_def push_bounded_def S heap_push_sorted)
  next
    case 3
    then have "h \<noteq> []" by auto
    then obtain g m where g: "h = g @ [m]" by (meson rev_exhaust)
    have m: "lt y m" if "y \<in> set g" for y
      using h(1) that by (auto simp: g sorted_wrt_append)
    have mg: "m \<notin> set g" using h(1) irrefl by (auto simp: g sorted_wrt_append)
    have card: "card (insert x (set h)) = Suc c" using x dist 3 by simp
    show ?thesis
    proof (cases "lt x m")
      case True
      have "best lt c (insert x (set h)) = insert x (set h) - {m}"
        using card True m by (intro best_drop_max) (auto simp: g)
      also have "\<dots> = insert x (set g)" using mg True irrefl by (auto simp: g)
      finally show ?thesis
        using True 3 h(1) x by (simp add: is_best_def push_bounded_def heap_peek_def S g heap_push_sorted sorted_wrt_append)
    next
      case False
      then have "lt m x" using x total [of x m] by (auto simp: g)
      then have "best lt c (insert x (set h)) = insert x (set h) - {x}"
        using card m by (intro best_drop_max) (auto simp: g intro: trans [of _ m x])
      also have "\<dots> = set h" using x by simp
      finally show ?thesis
        using False 3 h(1) by (simp add: is_best_def push_bounded_def heap_peek_def S g)
    qed
  qed
qed

lemma fold_is_best:
  "is_best lt c S h \<Longrightarrow> finite S \<Longrightarrow> distinct xs \<Longrightarrow> set xs \<inter> S = {} \<Longrightarrow>
     is_best lt c (S \<union> set xs) (fold (push_bounded lt c) xs h)"
proof (induction xs arbitrary: S h)
  case (Cons x xs)
  then have "is_best lt c (insert x S \<union> set xs) (fold (push_bounded lt c) xs (push_bounded lt c x h))"
    by (intro Cons.IH push_is_best) auto
  then show ?case by simp
qed simp

lemma par_is_best:
  "distinct (List.map_filter item (split_items t)) \<Longrightarrow>
     is_best lt c (set (List.map_filter item (split_items t))) (par_top lt c item t)"
proof (induction t)
  case (Run xs)
  have "is_best lt c {} []" by (simp add: is_best_def)
  from fold_is_best [OF this] Run show ?case
    by (simp add: par_top_def fold_map_filter)
next
  case (Join s t)
  let ?f = "\<lambda>t. List.map_filter item (split_items t)"
  have d: "distinct (?f s)" "distinct (?f t)" "set (?f s) \<inter> set (?f t) = {}"
    using Join.prems by (auto simp: List.map_filter_def)
  have s: "is_best lt c (set (?f s)) (par_top lt c item s)" and t: "is_best lt c (set (?f t)) (par_top lt c item t)"
    using Join.IH d by simp_all
  then have set_t: "set (par_top lt c item t) = best lt c (set (?f t))" "distinct (par_top lt c item t)"
    using sorted_distinct by (auto simp: is_best_def)
  have "best lt c (set (?f t)) \<inter> set (?f s) = {}" using best_subset d(3) by blast
  then have "is_best lt c (set (?f s) \<union> best lt c (set (?f t)))
      (fold (push_bounded lt c) (par_top lt c item t) (par_top lt c item s))"
    using fold_is_best [OF s _ set_t(2)] set_t(1) by simp
  then have "is_best lt c (set (?f s) \<union> set (?f t)) (par_top lt c item (Join s t))"
    using best_absorb [of "set (?f s)" "set (?f t)" c] by (simp add: is_best_def par_top_def)
  then show ?case by (simp add: List.map_filter_def)
qed

lemma take_is_best: "sorted_wrt lt xs \<Longrightarrow> is_best lt c (set xs) (take c xs)"
proof (induction xs rule: rev_induct)
  case (snoc m xs)
  have xs: "sorted_wrt lt xs" "\<And>y. y \<in> set xs \<Longrightarrow> lt y m" using snoc.prems by (auto simp: sorted_wrt_append)
  have dist: "distinct (xs @ [m])" by (rule sorted_distinct [OF snoc.prems])
  show ?case
  proof (cases "length xs < c")
    case True
    then have "card (set (xs @ [m])) \<le> c" using distinct_card [OF dist] by simp
    then show ?thesis using True snoc.prems best_all [of "set (xs @ [m])" c] by (simp add: is_best_def)
  next
    case False
    have IH: "set (take c xs) = best lt c (set xs)" using snoc.IH [OF xs(1)] by (simp add: is_best_def)
    have "m \<notin> set (take c xs)" using dist by (auto dest: in_set_takeD)
    then have "card (insert m (set (take c xs))) = Suc c"
      using False distinct_card [of "take c xs"] dist by (simp add: min_def)
    then have "best lt c (insert m (set (take c xs))) = set (take c xs)"
      using \<open>m \<notin> set (take c xs)\<close> xs(2) best_drop_max [of "insert m (set (take c xs))" c m]
      by (auto dest: in_set_takeD)
    then have "best lt c (insert m (set xs)) = set (take c xs)"
      using best_absorb [of "{m}" "set xs" c] IH by simp
    then show ?thesis using False snoc.IH [OF xs(1)] by (simp add: is_best_def)
  qed
qed (simp add: is_best_def)

lemma is_best_unique: "is_best lt c S h \<Longrightarrow> is_best lt c S h' \<Longrightarrow> h = h'"
  by (auto simp: is_best_def intro: sorted_unique)

lemma heap_sort_sorted:
  "distinct xs \<Longrightarrow> sorted_wrt lt (heap_sort lt xs) \<and> set (heap_sort lt xs) = set xs"
proof -
  have "distinct xs \<Longrightarrow> set xs \<inter> set h = {} \<Longrightarrow> sorted_wrt lt h \<Longrightarrow>
    sorted_wrt lt (fold (heap_push lt) xs h) \<and> set (fold (heap_push lt) xs h) = set xs \<union> set h" for h
    by (induction xs arbitrary: h) (auto simp: heap_push_sorted)
  from this [of "[]"] show "distinct xs \<Longrightarrow> ?thesis" by (simp add: heap_sort_def)
qed

text \<open>The result of a parallel scan: the first \<open>c\<close> of the items in order.\<close>

lemma par_top_sorted:
  assumes "distinct (List.map_filter item (split_items t))"
  shows "par_top lt c item t = take c (heap_sort lt (List.map_filter item (split_items t)))"
  using is_best_unique [OF par_is_best [OF assms]] take_is_best heap_sort_sorted [OF assms] by metis

lemma heap_sort_set:
  "distinct xs \<Longrightarrow> distinct ys \<Longrightarrow> set xs = set ys \<Longrightarrow> heap_sort lt xs = heap_sort lt ys"
  using heap_sort_sorted sorted_unique by metis

end

end
