(* ===== verification/Scan.thy ===== *)
theory Scan
  imports TopN Query Engine
begin

text \<open>
  The scans of a collection: \<open>get_filtered\<close>, \<open>scan_top_n\<close> and \<open>scan_top_n_raw\<close> of
  \<open>operations/get.rs\<close> and the coordinator of \<open>coalesce.rs\<close> that answers many requests in one pass.
  A predicate is any function of a key and the bytes of a document. How the parallel iterator
  divides its work is a parameter (\<open>rayon\<close>) of which only \<open>divides\<close> is assumed. The bytes of a stored
  document never make the search for its sequence number abort (\<open>read_seq_written\<close>).
\<close>

type_synonym predicate = "string \<Rightarrow> bytes \<Rightarrow> bool"
type_synonym results = "(string \<times> json) list"
type_synonym entry = "string \<times> bytes"

definition divides :: "('a list \<Rightarrow> 'a split) \<Rightarrow> bool" where
  "divides rayon \<longleftrightarrow> (\<forall>xs. mset (split_items (rayon xs)) = mset xs)"

definition seq_of :: "(bytes \<Rightarrow> bytes option) \<Rightarrow> bytes \<Rightarrow> u64" where
  "seq_of skip bs = (case read_msgpack_seq_token skip bs of Returns n \<Rightarrow> n | Aborts \<Rightarrow> - 1)"

section \<open>Ordering by sequence number\<close>

definition seq_sort :: "bool \<Rightarrow> (u64 \<times> 'a) list \<Rightarrow> (u64 \<times> 'a) list" where
  "seq_sort asc pairs = (if asc then sort_key fst pairs else rev (sort_key fst pairs))"

text \<open>The winners of a scan are looked up again and decoded.\<close>

definition decode_winners :: "collection \<Rightarrow> string list \<Rightarrow> results" where
  "decode_winners col keys =
     List.map_filter (\<lambda>key. case dm_get col key of None \<Rightarrow> None
       | Some bs \<Rightarrow> map_option (Pair key) (msgpack_to_value bs)) keys"

section \<open>Items of a sorted scan\<close>

text \<open>\<open>KeyedCompactItem\<close> of \<open>get.rs\<close> and \<open>SortItem\<close> of \<open>coalesce.rs\<close>.\<close>

record sort_item =
  si_key :: string
  si_value :: f64

definition sort_item_less :: "sort_item \<Rightarrow> sort_item \<Rightarrow> bool" where
  "sort_item_less a b \<longleftrightarrow>
     total_key (si_value a) < total_key (si_value b) \<or>
     total_key (si_value a) = total_key (si_value b) \<and> si_key a < si_key b"

definition sort_item_of :: "(bytes \<Rightarrow> bytes option) \<Rightarrow> string list \<Rightarrow> bool \<Rightarrow> entry \<Rightarrow> sort_item option" where
  "sort_item_of skip path_parts is_descending e =
     (case find_msgpack_value skip (snd e) path_parts of None \<Rightarrow> None
      | Some sl \<Rightarrow>
        map_option (\<lambda>num. \<lparr>si_key = fst e, si_value = if is_descending then f64_negate num else num\<rparr>)
          (read_msgpack_number sl))"

section \<open>The coordinator of shared scans\<close>

datatype scan_kind =
    Filtered "nat option" bool
  | SortedTopN string bool nat

record scan_request =
  sr_collection :: string
  sr_predicate :: predicate
  sr_kind :: scan_kind

datatype accum = AccFiltered "(u64 \<times> string) list" | AccSorted "sort_item list"

definition new_accumulator :: "scan_request \<Rightarrow> accum" where
  "new_accumulator req = (case sr_kind req of Filtered _ _ \<Rightarrow> AccFiltered [] | SortedTopN _ _ _ \<Rightarrow> AccSorted [])"

text \<open>One document against one request.\<close>

definition task_step :: "(bytes \<Rightarrow> bytes option) \<Rightarrow> entry \<Rightarrow> scan_request \<Rightarrow> accum \<Rightarrow> accum" where
  "task_step skip e req acc =
     (if \<not> sr_predicate req (fst e) (snd e) then acc
      else case (sr_kind req, acc) of
        (Filtered _ _, AccFiltered v) \<Rightarrow> AccFiltered (v @ [(seq_of skip (snd e), fst e)])
      | (SortedTopN sort_field is_descending cap, AccSorted heap) \<Rightarrow>
          (case sort_item_of skip (split_on CHR ''.'' sort_field) is_descending e of
             None \<Rightarrow> acc
           | Some item \<Rightarrow> AccSorted (push_bounded sort_item_less cap item heap))
      | _ \<Rightarrow> acc)"

definition task_merge :: "scan_request \<Rightarrow> accum \<Rightarrow> accum \<Rightarrow> accum" where
  "task_merge req a b =
     (case (a, b) of
        (AccFiltered va, AccFiltered vb) \<Rightarrow> AccFiltered (va @ vb)
      | (AccSorted ha, AccSorted hb) \<Rightarrow>
          (case sr_kind req of
             SortedTopN _ _ cap \<Rightarrow> AccSorted (fold (push_bounded sort_item_less cap) hb ha)
           | _ \<Rightarrow> a)
      | _ \<Rightarrow> a)"

definition shared_pass :: "(bytes \<Rightarrow> bytes option) \<Rightarrow> scan_request list \<Rightarrow> entry split \<Rightarrow> accum list" where
  "shared_pass skip requests t =
     par_fold (map new_accumulator requests)
       (\<lambda>e accs. map2 (task_step skip e) requests accs)
       (\<lambda>as bs. map (\<lambda>(req, a, b). task_merge req a b) (zip requests (zip as bs))) t"

definition scan_output :: "collection \<Rightarrow> scan_request \<Rightarrow> accum \<Rightarrow> results" where
  "scan_output col req acc =
     (case (sr_kind req, acc) of
        (Filtered need asc, AccFiltered pairs) \<Rightarrow>
          (let sorted = seq_sort asc pairs;
               page = (case need of Some n \<Rightarrow> take n sorted | None \<Rightarrow> sorted)
           in decode_winners col (map snd page))
      | (SortedTopN _ _ _, AccSorted heap) \<Rightarrow> decode_winners col (map si_key heap)
      | _ \<Rightarrow> [])"

definition run_batch_for_collection :: "(bytes \<Rightarrow> bytes option) \<Rightarrow> (entry list \<Rightarrow> entry split) \<Rightarrow>
    (string, collection) dashmap \<Rightarrow> string \<Rightarrow> scan_request list \<Rightarrow> results list" where
  "run_batch_for_collection skip rayon state c requests =
     (case dm_get state c of None \<Rightarrow> map (\<lambda>_. []) requests
      | Some col \<Rightarrow> map2 (scan_output col) requests (shared_pass skip requests (rayon col)))"

text \<open>
  One turn of the coordinator: a batch of at most \<open>MAX_BATCH\<close> requests from the front of the queue,
  grouped by collection, every request answered on its channel.
\<close>

definition MAX_BATCH :: nat where
  "MAX_BATCH = 64"

definition answer_batch :: "(bytes \<Rightarrow> bytes option) \<Rightarrow> (entry list \<Rightarrow> entry split) \<Rightarrow>
    (string, collection) dashmap \<Rightarrow> scan_request list \<Rightarrow> (scan_request \<times> results) list" where
  "answer_batch skip rayon state batch =
     concat (map (\<lambda>c. let requests = filter (\<lambda>req. sr_collection req = c) batch
        in zip requests (run_batch_for_collection skip rayon state c requests))
       (remdups (map sr_collection batch)))"

inductive coordinator_step :: "(bytes \<Rightarrow> bytes option) \<Rightarrow> (entry list \<Rightarrow> entry split) \<Rightarrow>
    (string, collection) dashmap \<Rightarrow>
    scan_request list \<times> (scan_request \<times> results) list \<Rightarrow>
    scan_request list \<times> (scan_request \<times> results) list \<Rightarrow> bool"
  for skip :: "bytes \<Rightarrow> bytes option" and rayon :: "entry list \<Rightarrow> entry split"
    and state :: "(string, collection) dashmap" where
  "batch \<noteq> [] \<Longrightarrow> length batch \<le> MAX_BATCH \<Longrightarrow>
     coordinator_step skip rayon state (batch @ queue, answers)
       (queue, answers @ answer_batch skip rayon state batch)"

section \<open>The direct scans\<close>

text \<open>The loop over the sequence index, which stops when enough documents are found.\<close>

fun index_scan :: "predicate \<Rightarrow> collection \<Rightarrow> nat \<Rightarrow> results \<Rightarrow> (u64 \<times> string) list \<Rightarrow> results" where
  "index_scan pred col need found [] = found"
| "index_scan pred col need found ((seq, key) # idx) =
     (case dm_get col key of None \<Rightarrow> index_scan pred col need found idx
      | Some bs \<Rightarrow>
        (if pred key bs then
           (case msgpack_to_value bs of None \<Rightarrow> index_scan pred col need found idx
            | Some v \<Rightarrow>
              (let found' = found @ [(key, v)]
               in if need \<le> length found' then found' else index_scan pred col need found' idx))
         else index_scan pred col need found idx))"

text \<open>\<open>CompactItem\<close>: ordered by the sequence number as a double, then by the number.\<close>

definition compact_less :: "u64 \<Rightarrow> u64 \<Rightarrow> bool" where
  "compact_less a b \<longleftrightarrow>
     total_key (f64_of_int (uint a)) < total_key (f64_of_int (uint b)) \<or>
     total_key (f64_of_int (uint a)) = total_key (f64_of_int (uint b)) \<and> a < b"

definition get_filtered_where :: "(bytes \<Rightarrow> bytes option) \<Rightarrow> collection \<Rightarrow> predicate \<Rightarrow> nat \<Rightarrow> nat \<Rightarrow> bool \<Rightarrow> results" where
  "get_filtered_where skip col pred offset lim asc =
     (let pairs = List.map_filter (\<lambda>(key, bs). if pred key bs then Some (seq_of skip bs, key) else None) col
      in decode_winners col (map snd (take lim (drop offset (seq_sort asc pairs)))))"

definition get_filtered_index :: "(bytes \<Rightarrow> bytes option) \<Rightarrow> collection \<Rightarrow> (u64, string) btreemap option \<Rightarrow>
    predicate \<Rightarrow> nat \<Rightarrow> nat \<Rightarrow> bool \<Rightarrow> results" where
  "get_filtered_index skip col index pred offset lim asc =
     (let found =
        (case index of
           Some idx \<Rightarrow> index_scan pred col (offset + lim) [] (if asc then idx else rev idx)
         | None \<Rightarrow>
             map snd (seq_sort asc (List.map_filter (\<lambda>(key, bs). if pred key bs
                 then map_option (\<lambda>v. (seq_of skip bs, key, v)) (msgpack_to_value bs) else None) col)))
      in take lim (drop offset found))"

definition get_filtered_all :: "(bytes \<Rightarrow> bytes option) \<Rightarrow> collection \<Rightarrow> predicate \<Rightarrow> nat \<Rightarrow> results" where
  "get_filtered_all skip col pred offset =
     (let matching = map (\<lambda>(key, bs). seq_of skip bs) (filter (\<lambda>(key, bs). pred key bs) col);
          page_items = drop offset (heap_sort compact_less matching);
          hydrated = map_of (rev (List.map_filter (\<lambda>(key, bs).
            let seq = seq_of skip bs in if seq \<in> set page_items then Some (seq, key) else None) col))
      in List.map_filter (\<lambda>seq. case hydrated seq of None \<Rightarrow> None
           | Some key \<Rightarrow> (case dm_get col key of None \<Rightarrow> None
             | Some bs \<Rightarrow> map_option (Pair key) (msgpack_to_value bs))) page_items)"

definition op_get_filtered :: "(bytes \<Rightarrow> bytes option) \<Rightarrow> db \<Rightarrow> string \<Rightarrow> predicate \<Rightarrow> nat \<Rightarrow> nat option \<Rightarrow> bool \<Rightarrow>
    bool \<Rightarrow> results" where
  "op_get_filtered skip db c pred offset limit asc has_where =
     (case dm_get (t_state db) c of None \<Rightarrow> []
      | Some col \<Rightarrow>
        (case limit of
           Some lim \<Rightarrow>
             (if has_where then get_filtered_where skip col pred offset lim asc
              else get_filtered_index skip col (dm_get (db_seq_index db) c) pred offset lim asc)
         | None \<Rightarrow> get_filtered_all skip col pred offset))"

text \<open>\<open>Ordering\<close> and the comparison of \<open>HeapItem\<close>.\<close>

datatype ordering = OLess | OEqual | OGreater

definition heap_item_less :: "(json \<Rightarrow> json \<Rightarrow> ordering) \<Rightarrow> string \<times> json \<Rightarrow> string \<times> json \<Rightarrow> bool" where
  "heap_item_less cmp a b \<longleftrightarrow>
     (case cmp (snd a) (snd b) of OLess \<Rightarrow> True | OGreater \<Rightarrow> False | OEqual \<Rightarrow> fst a < fst b)"

definition push_into :: "('a \<Rightarrow> 'a \<Rightarrow> bool) \<Rightarrow> nat \<Rightarrow> 'a \<Rightarrow> 'a list \<Rightarrow> 'a list" where
  "push_into lt cap candidate heap =
     (if cap \<le> length heap \<and> (case heap_peek heap of Some worst \<Rightarrow> \<not> lt candidate worst | None \<Rightarrow> False)
      then heap
      else let heap' = heap_push lt candidate heap
           in if cap < length heap' then butlast heap' else heap')"

definition op_scan_top_n :: "(entry list \<Rightarrow> entry split) \<Rightarrow> db \<Rightarrow> string \<Rightarrow> predicate \<Rightarrow>
    (json \<Rightarrow> json \<Rightarrow> ordering) \<Rightarrow> nat \<Rightarrow> results" where
  "op_scan_top_n rayon db c pred cmp cap =
     (if cap = 0 then []
      else case dm_get (t_state db) c of None \<Rightarrow> []
      | Some col \<Rightarrow>
          par_fold []
            (\<lambda>(key, bs) heap. if pred key bs then
               (case msgpack_to_value bs of None \<Rightarrow> heap
                | Some v \<Rightarrow> push_into (heap_item_less cmp) cap (key, v) heap) else heap)
            (\<lambda>a b. fold (push_into (heap_item_less cmp) cap) b a) (rayon col))"

definition push_raw :: "('a \<Rightarrow> 'a \<Rightarrow> bool) \<Rightarrow> nat \<Rightarrow> 'a \<Rightarrow> 'a list \<Rightarrow> 'a list" where
  "push_raw lt cap item heap =
     (if cap \<le> length heap then
        (case heap_peek heap of None \<Rightarrow> heap
         | Some worst \<Rightarrow> if lt item worst then heap_push lt item (butlast heap) else heap)
      else heap_push lt item heap)"

definition op_scan_top_n_raw :: "(bytes \<Rightarrow> bytes option) \<Rightarrow> (string list \<Rightarrow> string split) \<Rightarrow> db \<Rightarrow> string \<Rightarrow>
    predicate \<Rightarrow> string \<Rightarrow> bool \<Rightarrow> nat \<Rightarrow> results" where
  "op_scan_top_n_raw skip rayon db c pred sort_field is_descending cap =
     (if cap = 0 then []
      else case dm_get (t_state db) c of None \<Rightarrow> []
      | Some col \<Rightarrow>
        (let keys = (case dm_get (db_seq_index db) c of Some idx \<Rightarrow> map snd idx | None \<Rightarrow> map fst col);
             heap = par_fold []
               (\<lambda>key heap. case dm_get col key of None \<Rightarrow> heap
                | Some bs \<Rightarrow> if pred key bs then
                    (case sort_item_of skip (split_on CHR ''.'' sort_field) is_descending (key, bs) of
                       None \<Rightarrow> heap
                     | Some item \<Rightarrow> push_raw sort_item_less cap item heap) else heap)
               (\<lambda>a b. fold (push_raw sort_item_less cap) b a) (rayon keys)
         in decode_winners col (map si_key heap)))"

section \<open>The scans of a handle\<close>

definition expand_results :: "results \<Rightarrow> results" where
  "expand_results rs = map (\<lambda>(k, v). (k, expand_system_fields v)) rs"

definition db_get_filtered :: "(bytes \<Rightarrow> bytes option) \<Rightarrow> db \<Rightarrow> string \<Rightarrow> predicate \<Rightarrow> nat \<Rightarrow> nat option \<Rightarrow> bool \<Rightarrow>
    bool \<Rightarrow> results" where
  "db_get_filtered skip db c pred offset limit asc has_where =
     expand_results (op_get_filtered skip db c pred offset limit asc has_where)"

definition db_scan_top_n :: "(entry list \<Rightarrow> entry split) \<Rightarrow> db \<Rightarrow> string \<Rightarrow> predicate \<Rightarrow>
    (json \<Rightarrow> json \<Rightarrow> ordering) \<Rightarrow> nat \<Rightarrow> results" where
  "db_scan_top_n rayon db c pred cmp cap = expand_results (op_scan_top_n rayon db c pred cmp cap)"

definition db_scan_top_n_raw :: "(bytes \<Rightarrow> bytes option) \<Rightarrow> (string list \<Rightarrow> string split) \<Rightarrow> db \<Rightarrow> string \<Rightarrow>
    predicate \<Rightarrow> string \<Rightarrow> bool \<Rightarrow> nat \<Rightarrow> results" where
  "db_scan_top_n_raw skip rayon db c pred sort_field is_descending cap =
     expand_results (op_scan_top_n_raw skip rayon db c pred sort_field is_descending cap)"

text \<open>
  A request that shares its batch with the requests before and after it in the queue: the answer
  that comes back on its channel.
\<close>

definition submit :: "(bytes \<Rightarrow> bytes option) \<Rightarrow> (entry list \<Rightarrow> entry split) \<Rightarrow> (string, collection) dashmap \<Rightarrow>
    scan_request list \<Rightarrow> scan_request \<Rightarrow> scan_request list \<Rightarrow> results" where
  "submit skip rayon state ahead req behind =
     (let same = filter (\<lambda>r. sr_collection r = sr_collection req)
      in run_batch_for_collection skip rayon state (sr_collection req) (same (ahead @ req # behind)) !
           length (same ahead))"

definition db_get_filtered_coalesced :: "(bytes \<Rightarrow> bytes option) \<Rightarrow> (entry list \<Rightarrow> entry split) \<Rightarrow>
    scan_request list \<times> scan_request list \<Rightarrow> db \<Rightarrow> string \<Rightarrow> predicate \<Rightarrow> nat option \<Rightarrow> bool \<Rightarrow> results" where
  "db_get_filtered_coalesced skip rayon batch db c pred need asc =
     expand_results (submit skip rayon (t_state db) (fst batch)
       \<lparr>sr_collection = c, sr_predicate = pred, sr_kind = Filtered need asc\<rparr> (snd batch))"

definition db_scan_top_n_raw_coalesced :: "(bytes \<Rightarrow> bytes option) \<Rightarrow> (entry list \<Rightarrow> entry split) \<Rightarrow>
    scan_request list \<times> scan_request list \<Rightarrow> db \<Rightarrow> string \<Rightarrow> predicate \<Rightarrow> string \<Rightarrow> bool \<Rightarrow> nat \<Rightarrow> results" where
  "db_scan_top_n_raw_coalesced skip rayon batch db c pred sort_field is_descending cap =
     expand_results (submit skip rayon (t_state db) (fst batch)
       \<lparr>sr_collection = c, sr_predicate = pred, sr_kind = SortedTopN sort_field is_descending cap\<rparr> (snd batch))"

end
