(* ===== verification/TtlSweep.thy ===== *)
theory TtlSweep
  imports Operations
begin

text \<open>
  The background task that drops expired collections (\<open>moltendb-server/src/ttl_sweep.rs\<close>): a heap
  of expiry times that is fed by change events and checked against the engine's expiry table.
\<close>

section \<open>The task\<close>

definition all_ttl_expiries :: "db \<Rightarrow> (string \<times> u64) list" where
  "all_ttl_expiries db = t_ttl_expiry db"

definition get_ttl_expiry :: "db \<Rightarrow> string \<Rightarrow> u64 option" where
  "get_ttl_expiry db c = dm_get (t_ttl_expiry db) c"

text \<open>A binary min-heap as the list in which it is popped.\<close>

type_synonym expiry_heap = "(u64 \<times> string) list"

definition expiry_push :: "u64 \<Rightarrow> string \<Rightarrow> expiry_heap \<Rightarrow> expiry_heap" where
  "expiry_push e c heap = insort_key fst (e, c) heap"

lemma expiry_push_due:
  "now < e \<Longrightarrow> length (filter (\<lambda>p. fst p \<le> now) (expiry_push e c heap)) = length (filter (\<lambda>p. fst p \<le> now) heap)"
  unfolding expiry_push_def by (induction heap) auto

text \<open>The errors of a drop are logged and ignored.\<close>

definition sweep_drop :: "env \<Rightarrow> string \<Rightarrow> db \<Rightarrow> db" where
  "sweep_drop env c db = snd (db_delete_collection env c db)"

definition sweep_startup :: "env \<Rightarrow> u64 \<Rightarrow> db \<Rightarrow> expiry_heap \<times> db" where
  "sweep_startup env now db =
     fold (\<lambda>(c, expires_at) (heap, db).
         if expires_at \<le> now then (heap, sweep_drop env c db) else (expiry_push expires_at c heap, db))
       (sort_key snd (all_ttl_expiries db)) ([], db)"

definition try_update_heap :: "json \<Rightarrow> expiry_heap \<Rightarrow> expiry_heap" where
  "try_update_heap event heap =
     (if Option.bind (vget event ''event'') as_str = Some ''ttl_expiry'' then
        (case (Option.bind (vget event ''collection'') as_str, get_u64 event ''expires_at_ms'') of
           (Some c, Some expires_at) \<Rightarrow> expiry_push expires_at c heap
         | _ \<Rightarrow> heap)
      else heap)"

definition sweep_sleep :: "u64 \<Rightarrow> expiry_heap \<Rightarrow> u64" where
  "sweep_sleep now heap =
     (case heap of
        (e, _) # _ \<Rightarrow> if e \<le> now then 0 else e - now
      | [] \<Rightarrow> 60 * 1000)"

function sweep_evict :: "env \<Rightarrow> u64 \<Rightarrow> expiry_heap \<Rightarrow> db \<Rightarrow> expiry_heap \<times> db" where
  "sweep_evict env now heap db =
     (case heap of
        [] \<Rightarrow> ([], db)
      | (e, c) # rest \<Rightarrow>
        (if e \<le> now then
           (case get_ttl_expiry db c of
              Some current_exp \<Rightarrow>
                (if current_exp > now then sweep_evict env now (expiry_push current_exp c rest) db
                 else sweep_evict env now rest (sweep_drop env c db))
            | None \<Rightarrow> sweep_evict env now rest (sweep_drop env c db))
         else (heap, db)))"
  by pat_completeness auto
termination
  by (relation "measure (\<lambda>(env, now, heap, db). length (filter (\<lambda>p. fst p \<le> now) heap))")
    (auto simp: expiry_push_due)

declare sweep_evict.simps [simp del]

text \<open>One round: drain the pending events, then evict at the time the sleep ends.\<close>

definition sweep_round :: "env \<Rightarrow> json list \<Rightarrow> u64 \<Rightarrow> expiry_heap \<Rightarrow> db \<Rightarrow> expiry_heap \<times> db" where
  "sweep_round env msgs now heap db = sweep_evict env now (fold try_update_heap msgs heap) db"


section \<open>What a sweep drops and what it spares\<close>

lemma log_write_ttl: "log_write env cmd c k v db = (r, db') \<Longrightarrow> t_ttl_expiry db' = t_ttl_expiry db"
  by (auto simp: log_write_def op_bind_def now_unix_ms_def split: prod.splits)

lemma op_delete_collection_frame:
  assumes "op_delete_collection env c db = (r, db')"
  shows "t_state db' = t_state db \<or> t_state db' = dm_remove c (t_state db)"
    and "t_ttl_expiry db' = t_ttl_expiry db"
proof -
  let ?x = "uuid env (db_uuids db)"
  let ?db0 = "db\<lparr>db_uuids := Suc (db_uuids db)\<rparr>"
  let ?rm = "\<lambda>db. db\<lparr>t_state := dm_remove c (t_state db), db_seq_index := dm_remove c (db_seq_index db)\<rparr>"
  obtain r1 db1 where b: "log_write env IKEY_TX_BEGIN c ?x Null ?db0 = (r1, db1)" by fastforce
  obtain r2 db2 where d: "log_write env IKEY_DROP c ''*'' Null (?rm db1) = (r2, db2)" by fastforce
  obtain r3 db3 where e: "log_write env IKEY_TX_COMMIT c ?x Null db2 = (r3, db3)" by fastforce
  have "t_state db' = t_state db \<and> t_ttl_expiry db' = t_ttl_expiry db \<or>
      t_state db' = dm_remove c (t_state db) \<and> t_ttl_expiry db' = t_ttl_expiry db"
    using assms b d e log_write_tables [OF b] log_write_tables [OF d] log_write_tables [OF e]
      log_write_ttl [OF b] log_write_ttl [OF d] log_write_ttl [OF e]
    by (auto simp: op_delete_collection_def op_bind_def new_uuid_def send_def split: sum.splits)
  then show "t_state db' = t_state db \<or> t_state db' = dm_remove c (t_state db)"
    and "t_ttl_expiry db' = t_ttl_expiry db" by auto
qed

lemma sweep_drop_frame:
  assumes "c' \<noteq> c"
  shows "dm_get (t_state (sweep_drop env c db)) c' = dm_get (t_state db) c'"
    and "get_ttl_expiry (sweep_drop env c db) c' = get_ttl_expiry db c'"
proof -
  obtain r db1 where o: "op_delete_collection env c db = (r, db1)" by fastforce
  note f = op_delete_collection_frame [OF o]
  have st: "dm_get (t_state db1) c' = dm_get (t_state db) c'"
    using f(1) assms by (auto simp: dm_get_remove)
  have s: "sweep_drop env c db = (case r of Inl _ \<Rightarrow> db1 | Inr _ \<Rightarrow> db1\<lparr>t_ttl_expiry := dm_remove c (t_ttl_expiry db1),
      db_ttl_defaults := dm_remove c (db_ttl_defaults db1), db_seq_counters := dm_remove c (db_seq_counters db1)\<rparr>)"
    by (simp add: sweep_drop_def db_delete_collection_def o op_bind_def split: sum.split)
  show "dm_get (t_state (sweep_drop env c db)) c' = dm_get (t_state db) c'"
    using st by (simp add: s split: sum.split)
  show "get_ttl_expiry (sweep_drop env c db) c' = get_ttl_expiry db c'"
    using f(2) assms by (simp add: s get_ttl_expiry_def dm_get_remove split: sum.split)
qed


lemma sweep_drop_gone:
  assumes "healthy (db_storage db)"
  shows "dm_get (t_state (sweep_drop env c db)) c = None" and "healthy (db_storage (sweep_drop env c db))"
    and "get_ttl_expiry (sweep_drop env c db) c = None"
proof -
  let ?P = "\<lambda>db. healthy (db_storage db)"
  have w: "\<exists>db'. log_write env cmd c k v db = (Inr (), db') \<and> healthy (db_storage db')"
    if hl: "healthy (db_storage db)" for cmd k v db
  proof -
    obtain st where "write_entry (new_entry (clock env (t_ticks db)) cmd c k v) (db_storage db) = (Inr (), st)" "healthy st"
      using healthy_write [OF hl] by blast
    then show ?thesis by (simp add: log_write_def op_bind_def now_unix_ms_def)
  qed
  let ?x = "uuid env (db_uuids db)"
  let ?db0 = "db\<lparr>db_uuids := Suc (db_uuids db)\<rparr>"
  let ?rm = "\<lambda>db. db\<lparr>t_state := dm_remove c (t_state db), db_seq_index := dm_remove c (db_seq_index db)\<rparr>"
  obtain db1 where b: "log_write env IKEY_TX_BEGIN c ?x Null ?db0 = (Inr (), db1)" "healthy (db_storage db1)"
    using w [of ?db0] assms by simp blast
  obtain db2 where d: "log_write env IKEY_DROP c ''*'' Null (?rm db1) = (Inr (), db2)" "healthy (db_storage db2)"
    using w [of "?rm db1"] b(2) by simp blast
  obtain db3 where e: "log_write env IKEY_TX_COMMIT c ?x Null db2 = (Inr (), db3)" "healthy (db_storage db3)"
    using w [of db2] d(2) by simp blast
  have "sweep_drop env c db = db3\<lparr>db_tx := db_tx db3 @ [change_event c ''*'' Null],
      t_ttl_expiry := dm_remove c (t_ttl_expiry db3), db_ttl_defaults := dm_remove c (db_ttl_defaults db3),
      db_seq_counters := dm_remove c (db_seq_counters db3)\<rparr>"
    using b(1) d(1) e(1)
    by (simp add: sweep_drop_def db_delete_collection_def op_delete_collection_def op_bind_def new_uuid_def send_def)
  then show "dm_get (t_state (sweep_drop env c db)) c = None" and "healthy (db_storage (sweep_drop env c db))"
    and "get_ttl_expiry (sweep_drop env c db) c = None"
    using log_write_tables [OF d(1)] log_write_tables [OF e(1)] e(2) by (simp_all add: get_ttl_expiry_def)
qed

lemma sweep_evict_gone:
  "dm_get (t_state db) c = None \<Longrightarrow> healthy (db_storage db) \<Longrightarrow>
     dm_get (t_state (snd (sweep_evict env now heap db))) c = None"
proof (induction env now heap db rule: sweep_evict.induct)
  case (1 env now heap db)
  have drop: "dm_get (t_state (sweep_drop env c' db)) c = None" for c'
    using 1(4,5) sweep_drop_frame(1) [of c c' env db] sweep_drop_gone(1) [of db env c] by (cases "c = c'") auto
  show ?case
    using 1 drop sweep_drop_gone(2) [OF 1(5)]
    unfolding sweep_evict.simps [of env now heap db] by (auto split: list.split option.split)
qed

text \<open>
  C31. The sweep never drops a live collection: documents and expiry of a collection whose expiry
  lies in the future are unchanged, whatever stale entries the heap has for it.
\<close>

theorem sweep_spares_live:
  assumes "get_ttl_expiry db c = Some e" and "now < e"
  shows "dm_get (t_state (snd (sweep_round env msgs now heap db))) c = dm_get (t_state db) c \<and>
    get_ttl_expiry (snd (sweep_round env msgs now heap db)) c = Some e"
proof -
  have "dm_get (t_state (snd (sweep_evict env now heap db))) c = dm_get (t_state db) c \<and>
    get_ttl_expiry (snd (sweep_evict env now heap db)) c = Some e" for heap
    using assms
  proof (induction env now heap db rule: sweep_evict.induct)
    case (1 env now heap db)
    show ?case
    proof (cases heap)
      case (Cons p rest)
      obtain x c' where p: "p = (x, c')" by (cases p)
      show ?thesis
      proof (cases "c' = c")
        case True
        then show ?thesis using 1(2) [OF Cons p [symmetric] _ _ _ 1(4,5)] 1(4,5) unfolding sweep_evict.simps [of env now heap db] by (simp add: Cons p)
      next
        case False
        then have "c \<noteq> c'" by simp
        note f = sweep_drop_frame [OF this, of env db]
        show ?thesis
          using 1(1) [OF Cons p [symmetric]] 1(2) [OF Cons p [symmetric]] 1(3) [OF Cons p [symmetric]] 1(4,5) f
          unfolding sweep_evict.simps [of env now heap db] by (simp add: Cons p split: option.split)
      qed
    qed (simp add: sweep_evict.simps 1)
  qed
  then show ?thesis by (simp add: sweep_round_def)
qed

lemma sweep_evict_drops:
  assumes "healthy (db_storage db)" and "sorted (map fst heap)" and "(e, c) \<in> set heap" and "e \<le> now"
    and "\<forall>x. get_ttl_expiry db c = Some x \<longrightarrow> x \<le> now"
  shows "dm_get (t_state (snd (sweep_evict env now heap db))) c = None"
  using assms
proof (induction env now heap db rule: sweep_evict.induct)
  case (1 env now heap db)
  obtain x c' rest where heap: "heap = (x, c') # rest"
    using "1.prems"(3) by (cases heap) auto
  have x: "x \<le> now" using "1.prems"(2-4) by (auto simp: heap)
  note IH = 1(1-3) [OF heap refl x]
  have h: "healthy (db_storage (sweep_drop env c' db))" using sweep_drop_gone(2) [OF "1.prems"(1)] .
  show ?case
  proof (cases "c' = c")
    case True
    have "dm_get (t_state (snd (sweep_evict env now rest (sweep_drop env c db)))) c = None"
      using sweep_evict_gone sweep_drop_gone [OF "1.prems"(1)] by blast
    then show ?thesis
      using "1.prems"(5) x True unfolding sweep_evict.simps [of env now heap db] by (auto simp: heap split: option.split)
  next
    case False
    then have c: "c \<noteq> c'" and in_rest: "(e, c) \<in> set rest" using "1.prems"(3) by (auto simp: heap)
    have s: "sorted (map fst rest)" "\<And>y. sorted (map fst (expiry_push y c' rest))"
      using "1.prems"(2) by (simp_all add: heap expiry_push_def sorted_insort_key)
    have m: "(e, c) \<in> set (expiry_push y c' rest)" for y
      using in_rest by (simp add: expiry_push_def set_insort_key)
    have "\<forall>y. get_ttl_expiry (sweep_drop env c' db) c = Some y \<longrightarrow> y \<le> now"
      using "1.prems"(5) sweep_drop_frame(2) [OF c] by simp
    then show ?thesis
      using IH h s m in_rest "1.prems"(1,4,5) x
      unfolding sweep_evict.simps [of env now heap db] by (simp add: heap split: option.split)
  qed
qed


text \<open>
  Turning a collection's time to live off does not stop the sweep: a heap entry from before is
  still due, and the collection is dropped although it no longer expires.
\<close>

lemma ttl_removed_still_dropped:
  assumes "healthy (db_storage db)" and "e \<le> now"
  shows "get_ttl_expiry (set_ttl_default c 0 db) c = None \<and>
    dm_get (t_state (snd (sweep_evict env now [(e, c)] (set_ttl_default c 0 db)))) c = None"
proof -
  let ?db = "set_ttl_default c 0 db"
  have n: "get_ttl_expiry ?db c = None" by (simp add: set_ttl_default_def get_ttl_expiry_def)
  moreover have "healthy (db_storage ?db)" using assms(1) by (simp add: set_ttl_default_def)
  ultimately show ?thesis using sweep_evict_drops [of ?db "[(e, c)]" e c now env] assms(2) by simp
qed

section \<open>Examples\<close>

lemma demo_storage_healthy: "healthy (db_storage demo_db1)"
  using demo_op_insert(2) by (simp add: schemaless_def)

theorem sweep_spares_live_witness:
  "dm_get (t_state (snd (sweep_round demo_env [] 5 [(1, ''c'')] (demo_db1\<lparr>t_ttl_expiry := [(''c'', 9)]\<rparr>)))) ''c'' =
   dm_get (t_state demo_db1) ''c'' \<and> dm_get (t_state demo_db1) ''c'' \<noteq> None"
proof -
  have "dm_get (t_state demo_db1) ''c'' \<noteq> None"
    using demo_version by (auto simp: stored_doc_def bind_eq_Some_conv)
  then show ?thesis
    using sweep_spares_live [of "demo_db1\<lparr>t_ttl_expiry := [(''c'', 9)]\<rparr>" "''c''" 9 5 demo_env "[]" "[(1, ''c'')]"]
    by (simp add: get_ttl_expiry_def)
qed

lemma ttl_removed_still_dropped_example:
  "dm_get (t_state (snd (sweep_evict demo_env 5 [(1, ''c'')] (set_ttl_default ''c'' 0 demo_db1)))) ''c'' = None"
  using ttl_removed_still_dropped [OF demo_storage_healthy, of 1 5 "''c''" demo_env] by simp

end
