(* ===== verification/Handlers.thy ===== *)
theory Handlers
  imports Validation Scan TtlSweep
begin

text \<open>
  The request handlers that write (\<open>handlers/process_set.rs\<close>, \<open>process_update.rs\<close>,
  \<open>process_delete.rs\<close>, \<open>process_schema.rs\<close>, \<open>process_snapshot.rs\<close>) and \<open>process_stats.rs\<close>, with their
  tables of errors, status codes and success bodies. A handler is a function of the handle; an early
  return keeps what was done before it.
\<close>

section \<open>The world a handler reads\<close>

text \<open>
  The engine's environment, the JSON printer, lower-casing, how a parallel iterator divides its items,
  and the requests that share a batch with this one.
\<close>

record world =
  core :: env
  json_text :: "json \<Rightarrow> string"
  to_lowercase :: "string \<Rightarrow> string"
  par_iter :: "entry list \<Rightarrow> entry split"
  batch_mates :: "scan_request list \<times> scan_request list"

record limits =
  max_body_size :: nat
  max_keys_per_request :: nat

section \<open>Handlers\<close>

text \<open>The left value of a step is an early return; \<open>Aborts\<close> is a panic, which gives no response.\<close>

type_synonym 'a step = "(db, response outcome, 'a) op"

definition run_handler :: "response step \<Rightarrow> db \<Rightarrow> response outcome \<times> db" where
  "run_handler m db = (case m db of (Inl r, db') \<Rightarrow> (r, db') | (Inr resp, db') \<Rightarrow> (Returns resp, db'))"

definition early :: "response \<Rightarrow> 'a step" where
  "early resp = op_raise (Returns resp)"

definition db_call :: "(db_error \<Rightarrow> response) \<Rightarrow> 'a db_op \<Rightarrow> 'a step" where
  "db_call on_error m db =
     (case m db of
        (Inl e, db') \<Rightarrow> (Inl (if e = Aborted then Aborts else Returns (on_error e)), db')
      | (Inr a, db') \<Rightarrow> (Inr a, db'))"

text \<open>Calls that cannot fail: the clock and fresh identifiers.\<close>

definition db_total :: "'a db_op \<Rightarrow> 'a step" where
  "db_total = db_call (\<lambda>e. error_response 500 (db_error_text e))"

definition checked :: "ValidationError + unit \<Rightarrow> unit step" where
  "checked r = (case r of Inl e \<Rightarrow> early (validation_response e) | Inr _ \<Rightarrow> op_return ())"

primrec op_map :: "('a \<Rightarrow> ('s, 'e, 'b) op) \<Rightarrow> 'a list \<Rightarrow> ('s, 'e, 'b list) op" where
  "op_map f [] = op_return []"
| "op_map f (x # xs) = op_bind (f x) (\<lambda>y. op_bind (op_map f xs) (\<lambda>ys. op_return (y # ys)))"

definition json_nat :: "nat \<Rightarrow> json" where
  "json_nat n = json_u64 (of_nat n)"

definition ok_body :: "(string \<times> json) list \<Rightarrow> response" where
  "ok_body fs = (200, Object (of_entries ((''status'', String ''ok'') # fs)))"

definition collection_or_default :: "json \<Rightarrow> string" where
  "collection_or_default payload =
     (case as_str (vindex payload (field_str Collection)) of Some c \<Rightarrow> c | None \<Rightarrow> ''default'')"

text \<open>
  A WHERE clause on the bytes of a document, \<open>unwrap_or(false)\<close>. The bytes of a stored document never
  make the search panic.
\<close>

definition raw_where :: "world \<Rightarrow> json \<Rightarrow> bytes \<Rightarrow> bool" where
  "raw_where w clause bs \<longleftrightarrow>
     evaluate_where_msgpack (skip_value (core w)) (to_lowercase w) bs clause = passes"

section \<open>Set\<close>

datatype SetError =
    ReservedFields | InvalidTtl | InvalidMaxSize | InsertConflict | StorageFault string
  | InsertFailed string | MissingDataMap | SchemaValidationError string

fun set_error_text :: "SetError \<Rightarrow> string" where
  "set_error_text SetError.ReservedFields =
     ''Fields starting with '' @ quoted ''_'' @ '' are reserved for internal use and cannot be set by the client.''"
| "set_error_text SetError.InvalidTtl = quoted ''ttl'' @ '' must be a non-negative integer (seconds)''"
| "set_error_text SetError.InvalidMaxSize = quoted ''maxSize'' @ '' must be a positive integer''"
| "set_error_text SetError.InsertConflict = ''Conflict: Document version is outdated''"
| "set_error_text (SetError.StorageFault details) = ''Service unavailable -- storage fault: '' @ details"
| "set_error_text (SetError.InsertFailed details) = ''Database write failed: '' @ details"
| "set_error_text SetError.MissingDataMap = ''Missing '' @ quoted ''data'' @ '' (object or array)''"
| "set_error_text (SetError.SchemaValidationError msg) = msg"

fun set_error_status :: "SetError \<Rightarrow> nat" where
  "set_error_status SetError.InsertConflict = 409"
| "set_error_status (SetError.StorageFault _) = 503"
| "set_error_status (SetError.InsertFailed _) = 500"
| "set_error_status _ = 400"

definition set_error :: "SetError \<Rightarrow> response" where
  "set_error e = error_response (set_error_status e) (set_error_text e)"

datatype SetSuccess = Inserted nat | InsertedWithIds nat "string list"

fun set_success :: "SetSuccess \<Rightarrow> response" where
  "set_success (Inserted n) = ok_body [(''count'', json_nat n)]"
| "set_success (InsertedWithIds n ids) =
     ok_body [(''count'', json_nat n), (''ids'', Array (map String ids))]"

definition SET_ALLOWED :: "string list" where
  "SET_ALLOWED = map field_str [Collection, Data, Ttl, MaxSize]"

text \<open>A reference \<open>collection.key\<close>, split at its first dot.\<close>

definition resolve_ref :: "db \<Rightarrow> string \<times> json \<Rightarrow> object \<Rightarrow> object" where
  "resolve_ref db r result =
     (case r of (alias, ref_val) \<Rightarrow>
      (case as_str ref_val of None \<Rightarrow> result
       | Some ref_str \<Rightarrow>
         (if CHR ''.'' \<notin> set ref_str then result
          else
            let ref_collection = takeWhile (\<lambda>c. c \<noteq> CHR ''.'') ref_str;
                ref_key = tl (dropWhile (\<lambda>c. c \<noteq> CHR ''.'') ref_str)
            in case dm_get (db_get db ref_collection [ref_key]) ref_key of
                 None \<Rightarrow> result
               | Some referenced_doc \<Rightarrow> bt_insert alias referenced_doc result)))"

definition resolve_extends :: "db \<Rightarrow> json \<Rightarrow> json" where
  "resolve_extends db doc =
     (case doc of
        Object obj \<Rightarrow>
          (case Option.bind (bt_get obj ''extends'') as_object of
             None \<Rightarrow> doc
           | Some extends_map \<Rightarrow> Object (fold (resolve_ref db) extends_map (bt_remove ''extends'' obj)))
      | _ \<Rightarrow> doc)"

definition reserved_key :: "string \<Rightarrow> bool" where
  "reserved_key k \<longleftrightarrow> take 1 k = ''_''"

definition has_reserved :: "json \<Rightarrow> bool" where
  "has_reserved v \<longleftrightarrow> (case v of Object obj \<Rightarrow> list_ex (\<lambda>(k, x). reserved_key k) obj | _ \<Rightarrow> False)"

definition resolve_item :: "string \<Rightarrow> json \<Rightarrow> (string \<times> json) step" where
  "resolve_item key v db =
     (let resolved = resolve_extends db v
      in if has_reserved resolved then early (set_error SetError.ReservedFields) db
         else op_return (key, resolved) db)"

definition resolve_with_id :: "world \<Rightarrow> json \<Rightarrow> (string \<times> json) step" where
  "resolve_with_id w v =
     op_bind (db_total (new_uuid (core w))) (\<lambda>key. resolve_item key v)"

fun insert_error :: "db_error \<Rightarrow> SetError" where
  "insert_error Conflict = SetError.InsertConflict"
| "insert_error (db_error.StorageFault msg) = SetError.StorageFault msg"
| "insert_error (db_error.SchemaValidationError msg) = SetError.SchemaValidationError msg"
| "insert_error e = SetError.InsertFailed (db_error_text e)"

definition db_insert_items :: "world \<Rightarrow> string \<Rightarrow> (string \<times> json) list \<Rightarrow> unit step" where
  "db_insert_items w col items = db_call (\<lambda>e. set_error (insert_error e)) (db_insert (core w) col items)"

text \<open>The \<open>ttl\<close> and \<open>maxSize\<close> of a request, shared by set and schema requests.\<close>

definition set_ttl_property :: "response \<Rightarrow> string \<Rightarrow> json option \<Rightarrow> unit step" where
  "set_ttl_property invalid col v =
     (case v of None \<Rightarrow> op_return ()
      | Some ttl_val \<Rightarrow>
        (case as_u64 ttl_val of
           Some ttl_secs \<Rightarrow> op_upd (set_ttl_default col ttl_secs)
         | None \<Rightarrow> early invalid))"

definition set_max_size_property :: "response \<Rightarrow> string \<Rightarrow> json option \<Rightarrow> unit step" where
  "set_max_size_property invalid col v =
     (case v of None \<Rightarrow> op_return ()
      | Some max_val \<Rightarrow>
        (case as_u64 max_val of
           Some n \<Rightarrow> if n > 0 then op_upd (set_max_size col (unat n)) else early invalid
         | None \<Rightarrow> early invalid))"

definition process_set :: "world \<Rightarrow> json \<Rightarrow> limits \<Rightarrow> db \<Rightarrow> response outcome \<times> db" where
  "process_set w payload lim = run_handler (
     op_bind (checked (validate_allowed_properties payload SET_ALLOWED)) (\<lambda>_.
     op_bind (checked (validate_request (json_text w) payload (max_body_size lim) (max_keys_per_request lim))) (\<lambda>_.
     let col = collection_or_default payload in
     op_bind (set_ttl_property (set_error SetError.InvalidTtl) col (pget payload Ttl)) (\<lambda>_.
     op_bind (set_max_size_property (set_error SetError.InvalidMaxSize) col (pget payload MaxSize)) (\<lambda>_.
     case pget payload Data of
       Some (Object data_map) \<Rightarrow>
         op_bind (op_map (\<lambda>(k, v). resolve_item k v) data_map) (\<lambda>items.
         op_bind (db_insert_items w col items) (\<lambda>_.
         op_return (set_success (Inserted (length data_map)))))
     | Some (Array data_arr) \<Rightarrow>
         op_bind (op_map (resolve_with_id w) data_arr) (\<lambda>items.
         op_bind (db_insert_items w col items) (\<lambda>_.
         op_return (set_success (InsertedWithIds (length data_arr) (map fst items)))))
     | _ \<Rightarrow> early (set_error SetError.MissingDataMap))))))"

section \<open>Update\<close>

datatype UpdateError = UpdateFailed string | ReservedFields | VersionConflict | MissingDataMap

fun update_error_text :: "UpdateError \<Rightarrow> string" where
  "update_error_text (UpdateFailed details) = ''Database update failed: '' @ details"
| "update_error_text VersionConflict = ''Conflict: Document version is outdated''"
| "update_error_text UpdateError.ReservedFields = ''Fields starting with '' @ quoted ''_'' @ '' are reserved.''"
| "update_error_text UpdateError.MissingDataMap = ''Missing '' @ quoted ''data'' @ '' map''"

fun update_error_status :: "UpdateError \<Rightarrow> nat" where
  "update_error_status VersionConflict = 409"
| "update_error_status (UpdateFailed _) = 500"
| "update_error_status _ = 400"

definition update_error :: "UpdateError \<Rightarrow> response" where
  "update_error e = error_response (update_error_status e) (update_error_text e)"

definition update_success :: "nat \<Rightarrow> response" where
  "update_success n = ok_body [(''updated'', json_nat n)]"

definition UPDATE_ALLOWED :: "string list" where
  "UPDATE_ALLOWED = map field_str [Collection, Data]"

fun update_failure :: "db_error \<Rightarrow> response" where
  "update_failure Conflict = update_error VersionConflict"
| "update_failure (db_error.SchemaValidationError msg) = error_response 400 msg"
| "update_failure e = update_error (UpdateFailed (db_error_text e))"

definition has_reserved_update :: "json \<Rightarrow> bool" where
  "has_reserved_update v \<longleftrightarrow>
     (case v of Object obj \<Rightarrow> list_ex (\<lambda>(k, x). reserved_key k \<and> k \<noteq> ''_v'') obj | _ \<Rightarrow> False)"

primrec update_items :: "world \<Rightarrow> string \<Rightarrow> nat \<Rightarrow> (string \<times> json) list \<Rightarrow> nat step" where
  "update_items w col updated_count [] = op_return updated_count"
| "update_items w col updated_count (kv # rest) =
     (if has_reserved_update (snd kv) then early (update_error UpdateError.ReservedFields)
      else op_bind (db_call update_failure (db_update (core w) col (fst kv) (snd kv))) (\<lambda>found.
        update_items w col (if found then updated_count + 1 else updated_count) rest))"

definition process_update :: "world \<Rightarrow> json \<Rightarrow> limits \<Rightarrow> db \<Rightarrow> response outcome \<times> db" where
  "process_update w payload lim = run_handler (
     op_bind (checked (validate_allowed_properties payload UPDATE_ALLOWED)) (\<lambda>_.
     op_bind (checked (validate_request (json_text w) payload (max_body_size lim) (max_keys_per_request lim))) (\<lambda>_.
     let col = collection_or_default payload in
     case Option.bind (pget payload Data) as_object of
       Some data_map \<Rightarrow>
         op_bind (update_items w col 0 data_map) (\<lambda>updated_count. op_return (update_success updated_count))
     | None \<Rightarrow> early (update_error UpdateError.MissingDataMap))))"

section \<open>Delete\<close>

datatype DeleteError =
    FailedToDropCollection string | FailedToDelete string | FailedToDeleteKey string
  | FailedToDeleteBatch string | CountExceeded nat | MissingFields

fun delete_error_text :: "DeleteError \<Rightarrow> string" where
  "delete_error_text (FailedToDropCollection details) = ''Failed to drop collection: '' @ details"
| "delete_error_text (FailedToDelete details) = ''Failed to delete: '' @ details"
| "delete_error_text (FailedToDeleteKey details) = ''Failed to delete key: '' @ details"
| "delete_error_text (FailedToDeleteBatch details) = ''Failed to delete batch: '' @ details"
| "delete_error_text (DeleteError.CountExceeded n) = quoted ''count'' @ '' cannot exceed '' @ dec n"
| "delete_error_text MissingFields =
     ''Missing '' @ quoted ''keys'' @ '' (string or array), '' @ quoted ''where'' @ '', or '' @ quoted ''drop'' @ '': true''"

fun delete_error_status :: "DeleteError \<Rightarrow> nat" where
  "delete_error_status (DeleteError.CountExceeded _) = 400"
| "delete_error_status MissingFields = 400"
| "delete_error_status _ = 500"

definition delete_error :: "DeleteError \<Rightarrow> response" where
  "delete_error e = error_response (delete_error_status e) (delete_error_text e)"

datatype DeleteSuccess = Dropped | Deleted nat

fun delete_success :: "DeleteSuccess \<Rightarrow> response" where
  "delete_success Dropped = ok_body [(''dropped'', Bool True)]"
| "delete_success (Deleted n) = ok_body [(''deleted'', json_nat n)]"

definition DELETE_ALLOWED :: "string list" where
  "DELETE_ALLOWED = map field_str [Collection, Count, Drop, Keys, Order, Where]"

definition DEFAULT_DELETE_COUNT :: nat where
  "DEFAULT_DELETE_COUNT = 100"

definition MAX_DELETE_COUNT :: nat where
  "MAX_DELETE_COUNT = 1000"

definition payload_nat :: "json \<Rightarrow> PayloadField \<Rightarrow> nat option" where
  "payload_nat payload f = map_option unat (Option.bind (pget payload f) as_u64)"

definition order_asc :: "json \<Rightarrow> bool" where
  "order_asc payload =
     (case Option.bind (pget payload Order) as_str of Some s \<Rightarrow> s \<noteq> ''desc'' | None \<Rightarrow> True)"

definition check_delete_count :: "json \<Rightarrow> unit step" where
  "check_delete_count payload =
     (case payload_nat payload Count of
        Some n \<Rightarrow> if n > MAX_DELETE_COUNT then early (delete_error (DeleteError.CountExceeded MAX_DELETE_COUNT))
                  else op_return ()
      | None \<Rightarrow> op_return ())"

definition delete_where :: "world \<Rightarrow> json \<Rightarrow> string \<Rightarrow> json \<Rightarrow> response step" where
  "delete_where w payload col clause =
     op_bind (check_delete_count payload) (\<lambda>_.
     op_bind (db_call (\<lambda>e. delete_error (FailedToDelete (db_error_text e)))
       (db_delete_filtered (core w) col (\<lambda>_ bs. raw_where w clause bs)
         (Some (case payload_nat payload Count of Some n \<Rightarrow> n | None \<Rightarrow> DEFAULT_DELETE_COUNT))
         (order_asc payload))) (\<lambda>n.
     op_return (delete_success (Deleted n))))"

definition delete_count :: "world \<Rightarrow> json \<Rightarrow> string \<Rightarrow> nat \<Rightarrow> response step" where
  "delete_count w payload col n =
     op_bind (check_delete_count payload) (\<lambda>_.
     op_bind (db_call (\<lambda>e. delete_error (FailedToDelete (db_error_text e)))
       (db_delete_n (core w) col n (order_asc payload))) (\<lambda>m.
     op_return (delete_success (Deleted m))))"

definition delete_keys :: "world \<Rightarrow> string \<Rightarrow> json option \<Rightarrow> response step" where
  "delete_keys w col ks =
     (case ks of
        Some (String k) \<Rightarrow>
          op_bind (db_call (\<lambda>e. delete_error (FailedToDeleteKey (db_error_text e))) (db_delete (core w) col [k]))
            (\<lambda>_. op_return (delete_success (Deleted 1)))
      | Some (Array arr) \<Rightarrow>
          (let keys = List.map_filter as_str arr
           in op_bind (db_call (\<lambda>e. delete_error (FailedToDeleteBatch (db_error_text e))) (db_delete (core w) col keys))
                (\<lambda>_. op_return (delete_success (Deleted (length keys)))))
      | _ \<Rightarrow> early (delete_error MissingFields))"

definition process_delete :: "world \<Rightarrow> json \<Rightarrow> limits \<Rightarrow> db \<Rightarrow> response outcome \<times> db" where
  "process_delete w payload lim = run_handler (
     op_bind (checked (validate_request (json_text w) payload (max_body_size lim) (max_keys_per_request lim))) (\<lambda>_.
     op_bind (checked (validate_allowed_properties payload DELETE_ALLOWED)) (\<lambda>_.
     let col = collection_or_default payload in
     if as_bool (vindex payload (field_str Drop)) = Some True then
       op_bind (db_call (\<lambda>e. delete_error (FailedToDropCollection (db_error_text e))) (db_delete_collection (core w) col))
         (\<lambda>_. op_return (delete_success Dropped))
     else case pget payload Where of
       Some clause \<Rightarrow> delete_where w payload col clause
     | None \<Rightarrow>
         (case (pget payload Keys, payload_nat payload Count) of
            (None, Some n) \<Rightarrow> delete_count w payload col n
          | _ \<Rightarrow> delete_keys w col (pget payload Keys)))))"

section \<open>Schema\<close>

datatype SchemaError =
    MissingCollection | MissingSchemaFields | InvalidSchema string | InvalidTtl | InvalidMaxSize
  | DatabaseError string

fun schema_error_text :: "SchemaError \<Rightarrow> string" where
  "schema_error_text MissingCollection = ''Missing '' @ quoted ''collection'' @ '' name''"
| "schema_error_text MissingSchemaFields =
     ''At least one of '' @ quoted ''schema'' @ '', '' @ quoted ''ttl'' @ '', or '' @ quoted ''maxSize'' @ '' must be provided''"
| "schema_error_text (InvalidSchema details) = ''Invalid Schema: '' @ details"
| "schema_error_text SchemaError.InvalidTtl = quoted ''ttl'' @ '' must be a non-negative integer (seconds)''"
| "schema_error_text SchemaError.InvalidMaxSize = quoted ''maxSize'' @ '' must be a positive integer''"
| "schema_error_text (DatabaseError details) = ''Database error: '' @ details"

fun schema_error_status :: "SchemaError \<Rightarrow> nat" where
  "schema_error_status (DatabaseError _) = 500"
| "schema_error_status _ = 400"

definition schema_error :: "SchemaError \<Rightarrow> response" where
  "schema_error e = error_response (schema_error_status e) (schema_error_text e)"

definition schema_success :: "string \<Rightarrow> response" where
  "schema_success col = ok_body [(''collection'', String col)]"

definition SCHEMA_ALLOWED :: "string list" where
  "SCHEMA_ALLOWED = map field_str [Collection, Schema, Ttl, MaxSize]"

fun schema_failure :: "db_error \<Rightarrow> response" where
  "schema_failure (db_error.SchemaValidationError msg) = schema_error (InvalidSchema msg)"
| "schema_failure e = schema_error (DatabaseError (db_error_text e))"

definition register_schema :: "world \<Rightarrow> string \<Rightarrow> json option \<Rightarrow> unit step" where
  "register_schema w col v =
     (case v of None \<Rightarrow> op_return ()
      | Some schema \<Rightarrow> db_call schema_failure (db_set_schema (core w) col schema))"

definition process_schema :: "world \<Rightarrow> json \<Rightarrow> limits \<Rightarrow> db \<Rightarrow> response outcome \<times> db" where
  "process_schema w payload lim = run_handler (
     op_bind (checked (validate_allowed_properties payload SCHEMA_ALLOWED)) (\<lambda>_.
     op_bind (checked (validate_request (json_text w) payload (max_body_size lim) (max_keys_per_request lim))) (\<lambda>_.
     case as_str (vindex payload (field_str Collection)) of
       None \<Rightarrow> early (schema_error MissingCollection)
     | Some col \<Rightarrow>
         (if pget payload Schema = None \<and> pget payload Ttl = None \<and> pget payload MaxSize = None
          then early (schema_error MissingSchemaFields)
          else
            op_bind (register_schema w col (pget payload Schema)) (\<lambda>_.
            op_bind (set_ttl_property (schema_error SchemaError.InvalidTtl) col (pget payload Ttl)) (\<lambda>_.
            op_bind (set_max_size_property (schema_error SchemaError.InvalidMaxSize) col (pget payload MaxSize)) (\<lambda>_.
            op_return (schema_success col))))))))"

section \<open>Snapshot\<close>

definition snapshot_failed :: "string \<Rightarrow> response" where
  "snapshot_failed details = error_response 500 (''Failed to take snapshot: '' @ details)"

definition snapshot_success :: response where
  "snapshot_success = ok_body [(''message'', String ''Snapshot taken successfully'')]"

definition process_snapshot :: "world \<Rightarrow> db \<Rightarrow> response outcome \<times> db" where
  "process_snapshot w = run_handler (
     op_bind (db_call (\<lambda>e. snapshot_failed (db_error_text e)) (db_compact (core w))) (\<lambda>_.
     op_return snapshot_success))"

section \<open>Statistics\<close>

definition STATS_ALLOWED :: "string list" where
  "STATS_ALLOWED = map field_str [Collection]"

definition collection_not_found :: response where
  "collection_not_found = error_response 404 ''Collection not found''"

text \<open>The fields of one collection: an expired collection is reported as empty.\<close>

definition stats_entry :: "db \<Rightarrow> u64 \<Rightarrow> string \<Rightarrow> nat \<Rightarrow> (string \<times> json) list" where
  "stats_entry db now col n =
     (case get_ttl_expiry db col of
        Some exp \<Rightarrow>
          (if now \<ge> exp
           then [(''count'', json_nat 0), (''expired'', Bool True), (''expiresAt'', String (ms_to_iso exp))]
           else [(''count'', json_nat n), (''expiresAt'', String (ms_to_iso exp))])
      | None \<Rightarrow> [(''count'', json_nat n)]) @
     (case dm_get (db_max_sizes db) col of Some m \<Rightarrow> [(''maxSize'', json_nat m)] | None \<Rightarrow> [])"

definition stats_total :: "db \<Rightarrow> u64 \<Rightarrow> (string \<times> nat) list \<Rightarrow> nat" where
  "stats_total db now counts =
     sum_list (map (\<lambda>(col, n). case get_ttl_expiry db col of
       Some exp \<Rightarrow> if now \<ge> exp then 0 else n | None \<Rightarrow> n) counts)"

definition stats_response :: "json \<Rightarrow> u64 \<Rightarrow> db \<Rightarrow> response" where
  "stats_response payload now db =
     (case Option.bind (pget payload Collection) as_str of
        Some col \<Rightarrow>
          (case collection_count db col of
             None \<Rightarrow> collection_not_found
           | Some n \<Rightarrow> (200, Object (of_entries ((''collection'', String col) # stats_entry db now col n))))
      | None \<Rightarrow>
          (let counts = all_collection_counts db;
               collections = of_entries (map (\<lambda>(col, n). (col, Object (of_entries (stats_entry db now col n)))) counts)
           in (200, Object (of_entries [(''collections'', Object collections),
                (''total'', json_nat (stats_total db now counts))]))))"

definition process_stats :: "world \<Rightarrow> json \<Rightarrow> db \<Rightarrow> response outcome \<times> db" where
  "process_stats w payload = run_handler (
     op_bind (checked (validate_allowed_properties payload STATS_ALLOWED)) (\<lambda>_.
     op_bind (db_total (now_unix_ms (core w))) (\<lambda>now db.
     (Inr (stats_response payload now db), db))))"

end
