(* ===== verification/GetHandler.thy ===== *)
theory GetHandler
  imports Handlers
begin

text \<open>
  The read handler (\<open>handlers/process_get.rs\<close>) with its parts: the choice of a scan
  (\<open>get/fetch.rs\<close>), sorting, joins and the shape of a document (\<open>get/document_processing.rs\<close>), its
  errors and limits.
\<close>

section \<open>Errors and limits\<close>

datatype GetError =
    CountExceeded nat | CollectionExpired | WhereEvalError string | NoDocumentsFound
  | OrderSortMutuallyExclusive | InvalidOrderValue

fun get_error_text :: "GetError \<Rightarrow> string" where
  "get_error_text (GetError.CountExceeded n) = quoted ''count'' @ '' cannot exceed '' @ dec n"
| "get_error_text CollectionExpired = ''No documents found''"
| "get_error_text (WhereEvalError details) = details"
| "get_error_text NoDocumentsFound = ''No documents found''"
| "get_error_text OrderSortMutuallyExclusive =
     quoted ''order'' @ '' and '' @ quoted ''sort'' @ '' cannot be used together''"
| "get_error_text InvalidOrderValue =
     quoted ''order'' @ '' must be '' @ [CHR 0x22] @ ''asc'' @ [CHR 0x22] @ '' or '' @ [CHR 0x22] @ ''desc'' @ [CHR 0x22]"

fun get_error_status :: "GetError \<Rightarrow> nat" where
  "get_error_status CollectionExpired = 404"
| "get_error_status NoDocumentsFound = 404"
| "get_error_status _ = 400"

definition get_error :: "GetError \<Rightarrow> response" where
  "get_error e = error_response (get_error_status e) (get_error_text e)"

definition GET_ALLOWED :: "string list" where
  "GET_ALLOWED = map field_str
     [Collection, Keys, Where, Fields, ExcludedFields, Joins, Sort, Count, Offset, AllowedPrefixes, Order]"

definition DEFAULT_COUNT :: nat where
  "DEFAULT_COUNT = 100"

definition MAX_COUNT :: nat where
  "MAX_COUNT = 1000"

record get_params =
  gp_col_name :: string
  gp_where_clause :: "json option"
  gp_joins_req :: "json list option"
  gp_sort_specs :: "json list option"
  gp_count_limit :: nat
  gp_offset :: nat
  gp_fields_req :: "json list option"
  gp_excluded_req :: "json list option"
  gp_allowed_prefixes :: "json list option"
  gp_expires_val :: "json option"

definition payload_array :: "json \<Rightarrow> PayloadField \<Rightarrow> json list option" where
  "payload_array payload f = Option.bind (pget payload f) as_array"

section \<open>Sorting\<close>

definition ordering_of :: "bool \<Rightarrow> bool \<Rightarrow> ordering" where
  "ordering_of lt gt = (if lt then OLess else if gt then OGreater else OEqual)"

fun reverse_ordering :: "ordering \<Rightarrow> ordering" where
  "reverse_ordering OLess = OGreater"
| "reverse_ordering OEqual = OEqual"
| "reverse_ordering OGreater = OLess"

definition compare_values :: "(json \<Rightarrow> string) \<Rightarrow> json option \<Rightarrow> json option \<Rightarrow> ordering" where
  "compare_values print a b =
     (case (a, b) of
        (None, None) \<Rightarrow> OEqual
      | (None, Some _) \<Rightarrow> OGreater
      | (Some _, None) \<Rightarrow> OLess
      | (Some va, Some vb) \<Rightarrow>
          (case (as_f64 va, as_f64 vb) of
             (Some na, Some nb) \<Rightarrow>
               ordering_of (f64_less (f64_value na) (f64_value nb)) (f64_less (f64_value nb) (f64_value na))
           | _ \<Rightarrow>
             (case (as_str va, as_str vb) of
                (Some sa, Some sb) \<Rightarrow> ordering_of (sa < sb) (sb < sa)
              | _ \<Rightarrow> ordering_of (print va < print vb) (print vb < print va))))"

definition ascii_lower :: "char \<Rightarrow> char" where
  "ascii_lower c = (let n = of_char c :: nat in if 65 \<le> n \<and> n \<le> 90 then char_of (n + 32) else c)"

definition eq_ignore_ascii_case :: "string \<Rightarrow> string \<Rightarrow> bool" where
  "eq_ignore_ascii_case a b \<longleftrightarrow> map ascii_lower a = map ascii_lower b"

text \<open>A sort specification: a field name, or an object with a field and an order.\<close>

definition sort_spec :: "json \<Rightarrow> (string \<times> bool) option" where
  "sort_spec spec =
     (case spec of
        String s \<Rightarrow> Some (s, False)
      | Object obj \<Rightarrow>
          Some ((case Option.bind (bt_get obj ''field'') as_str of Some f \<Rightarrow> f | None \<Rightarrow> []),
                (case Option.bind (bt_get obj ''order'') as_str of
                   Some ord \<Rightarrow> eq_ignore_ascii_case ord ''desc'' | None \<Rightarrow> False))
      | _ \<Rightarrow> None)"

primrec make_comparator :: "(json \<Rightarrow> string) \<Rightarrow> json list \<Rightarrow> json \<Rightarrow> json \<Rightarrow> ordering" where
  "make_comparator print [] a b = OEqual"
| "make_comparator print (spec # specs) a b =
     (case sort_spec spec of
        None \<Rightarrow> make_comparator print specs a b
      | Some (field, descending) \<Rightarrow>
          (if field = [] then make_comparator print specs a b
           else
             let parts = split_on CHR ''.'' field;
                 ord = compare_values print (get_nested_value a parts) (get_nested_value b parts)
             in if ord \<noteq> OEqual then (if descending then reverse_ordering ord else ord)
                else make_comparator print specs a b))"

text \<open>\<open>slice::sort_by\<close>, a stable sort.\<close>

fun insort_by :: "('a \<Rightarrow> 'a \<Rightarrow> ordering) \<Rightarrow> 'a \<Rightarrow> 'a list \<Rightarrow> 'a list" where
  "insort_by cmp x [] = [x]"
| "insort_by cmp x (y # ys) = (if cmp x y = OGreater then y # insort_by cmp x ys else x # y # ys)"

definition sort_by :: "('a \<Rightarrow> 'a \<Rightarrow> ordering) \<Rightarrow> 'a list \<Rightarrow> 'a list" where
  "sort_by cmp xs = foldr (insort_by cmp) xs []"

section \<open>Joins\<close>

definition join_target :: "json \<Rightarrow> (string \<times> json) option" where
  "join_target join_spec =
     (case join_spec of
        Object obj \<Rightarrow>
          List.find (\<lambda>(k, v). case v of Object inner \<Rightarrow> bt_get inner (field_str From) \<noteq> None | _ \<Rightarrow> False) obj
      | _ \<Rightarrow> None)"

definition str_prop :: "json \<Rightarrow> PayloadField \<Rightarrow> string" where
  "str_prop v f = (case Option.bind (pget v f) as_str of Some s \<Rightarrow> s | None \<Rightarrow> [])"

definition apply_join :: "db \<Rightarrow> json \<Rightarrow> json \<times> string list \<Rightarrow> json \<times> string list" where
  "apply_join db join_spec st =
     (case st of (doc, join_aliases) \<Rightarrow>
      (case join_target join_spec of None \<Rightarrow> st
       | Some (alias, inner) \<Rightarrow>
         (case Option.bind (get_nested_value doc (split_on CHR ''.'' (str_prop inner On))) as_str of
            None \<Rightarrow> st
          | Some fk \<Rightarrow>
            (case dm_get (db_get db (str_prop inner From) [fk]) fk of
               None \<Rightarrow> st
             | Some related \<Rightarrow>
                 (let embedded = (case payload_array inner Fields of Some jf \<Rightarrow> project related jf | None \<Rightarrow> related)
                  in (case doc of Object obj \<Rightarrow> Object (bt_insert alias embedded obj) | _ \<Rightarrow> doc,
                      join_aliases @ [alias]))))))"

definition apply_joins :: "db \<Rightarrow> json \<Rightarrow> json list \<Rightarrow> json \<times> string list" where
  "apply_joins db doc joins = fold (apply_join db) joins (doc, [])"

section \<open>The shape of a document\<close>

definition ts_to_iso_val :: "json \<Rightarrow> json" where
  "ts_to_iso_val v = (case as_u64 v of Some ms \<Rightarrow> String (ms_to_iso ms) | None \<Rightarrow> v)"

definition put_field :: "string \<Rightarrow> json option \<Rightarrow> object \<Rightarrow> object" where
  "put_field k v obj = (case v of Some x \<Rightarrow> bt_insert k x obj | None \<Rightarrow> obj)"

definition put_requested :: "json list \<Rightarrow> string \<Rightarrow> json option \<Rightarrow> object \<Rightarrow> object" where
  "put_requested fs k v obj = (if k \<in> set (List.map_filter as_str fs) then put_field k v obj else obj)"

definition strip_metadata :: "json \<Rightarrow> json" where
  "strip_metadata v =
     (case v of
        Object obj \<Rightarrow> Object (bt_remove EXPIRES_AT (bt_remove MODIFIED_AT (bt_remove CREATED_AT (bt_remove SEQ obj))))
      | _ \<Rightarrow> v)"

definition shape_fields :: "json \<Rightarrow> json list \<Rightarrow> string list \<Rightarrow> json option \<Rightarrow> json" where
  "shape_fields doc fs join_aliases expires_val =
     (case project doc fs of
        Object obj \<Rightarrow>
          (let joined = fold (\<lambda>alias dst. case vget doc alias of
                 Some v \<Rightarrow> bt_insert alias v dst | None \<Rightarrow> dst) join_aliases obj
           in Object
              (put_requested fs EXPIRES_AT expires_val
              (put_requested fs MODIFIED_AT (map_option ts_to_iso_val (vget doc MODIFIED_AT))
              (put_requested fs CREATED_AT (map_option ts_to_iso_val (vget doc CREATED_AT))
              (put_requested fs SEQ (vget doc SEQ) joined)))))
      | v \<Rightarrow> v)"

definition shape_doc :: "json \<Rightarrow> string \<Rightarrow> json list option \<Rightarrow> json list option \<Rightarrow> string list \<Rightarrow> json option \<Rightarrow>
    json option" where
  "shape_doc doc key fs excluded join_aliases expires_val =
     (let out =
        (case fs of
           Some f \<Rightarrow> shape_fields doc f join_aliases expires_val
         | None \<Rightarrow>
           (case excluded of
              Some ex \<Rightarrow> strip_metadata (exclude doc ex)
            | None \<Rightarrow> strip_metadata doc))
      in Some (case out of
           Object obj \<Rightarrow> Object (bt_insert KEY (String key) (put_field VERSION (vget doc VERSION) obj))
         | _ \<Rightarrow> out))"

section \<open>Fetching\<close>

definition is_fast_path_op :: "string \<Rightarrow> bool" where
  "is_fast_path_op operator \<longleftrightarrow>
     (case op_from_str operator of
        Some p \<Rightarrow> p \<in> {Eq, NotEq, In, NotIn, Gt, Gte, Lt, Lte, Contains} | None \<Rightarrow> False)"

text \<open>\<open>None\<close> is an early \<open>return Vec::new()\<close>.\<close>

definition field_predicates :: "string \<times> json \<Rightarrow> (string \<times> string \<times> json) list option" where
  "field_predicates fc =
     (case fc of (field, condition) \<Rightarrow>
      if take 1 field = ''$'' then None
      else case condition of
        String _ \<Rightarrow> Some [(field, op_as_str Eq, condition)]
      | Number _ \<Rightarrow> Some [(field, op_as_str Eq, condition)]
      | Bool _ \<Rightarrow> Some [(field, op_as_str Eq, condition)]
      | Object op_obj \<Rightarrow>
          (if list_all (\<lambda>(operator, op_val). is_fast_path_op operator) op_obj
           then Some (map (\<lambda>(operator, op_val). (field, operator, op_val)) op_obj) else None)
      | _ \<Rightarrow> None)"

fun extract_fast_predicates :: "json \<Rightarrow> (string \<times> string \<times> json) list" where
  "extract_fast_predicates (Array arr) =
     (let preds = map extract_fast_predicates arr in if [] \<in> set preds then [] else concat preds)"
| "extract_fast_predicates (Object obj) =
     (let preds = map field_predicates obj in if None \<in> set preds then [] else concat (map the preds))"
| "extract_fast_predicates _ = []"

definition fast_where :: "world \<Rightarrow> json \<Rightarrow> bytes \<Rightarrow> bool" where
  "fast_where w clause bs \<longleftrightarrow>
     (let fast_preds = extract_fast_predicates clause in
      if fast_preds \<noteq> [] then
        list_all (\<lambda>(field, operator, val).
          evaluate_predicate_msgpack (skip_value (core w)) (to_lowercase w) bs field operator val = passes) fast_preds
      else raw_where w clause bs)"

record fetch_params =
  fp_col_name :: string
  fp_payload :: json
  fp_where_clause :: "json option"
  fp_has_joins :: bool
  fp_has_sort :: bool
  fp_has_where :: bool
  fp_default_order_asc :: bool
  fp_offset :: nat
  fp_count_limit :: nat
  fp_allowed_prefixes :: "json list option"

datatype ScanStrategy = WhereOnly json | PrefixOnly | WhereAndPrefix json | FullScan

definition choose_scan_strategy :: "fetch_params \<Rightarrow> ScanStrategy" where
  "choose_scan_strategy params =
     (let has_prefix = (case fp_allowed_prefixes params of Some p \<Rightarrow> p \<noteq> [] | None \<Rightarrow> False)
      in case (if fp_has_joins params then None else fp_where_clause params, has_prefix) of
        (Some clause, False) \<Rightarrow> WhereOnly clause
      | (None, True) \<Rightarrow> PrefixOnly
      | (Some clause, True) \<Rightarrow> WhereAndPrefix clause
      | (None, False) \<Rightarrow> FullScan)"

definition has_some_prefix :: "string list \<Rightarrow> string \<Rightarrow> bool" where
  "has_some_prefix pfxs k \<longleftrightarrow> list_ex (\<lambda>p. prefix p k) pfxs"

definition prefix_strings :: "json list option \<Rightarrow> string list option" where
  "prefix_strings ps = map_option (List.map_filter as_str) ps"

definition within_prefixes :: "json list option \<Rightarrow> string \<Rightarrow> bool" where
  "within_prefixes ps k \<longleftrightarrow> (case prefix_strings ps of Some pfxs \<Rightarrow> has_some_prefix pfxs k | None \<Rightarrow> True)"

definition fetch_scan :: "world \<Rightarrow> db \<Rightarrow> fetch_params \<Rightarrow> results" where
  "fetch_scan w db params =
     (let early_exit_count = (if fp_has_sort params then None else Some (fp_offset params + fp_count_limit params));
          pfxs = (case prefix_strings (fp_allowed_prefixes params) of Some ps \<Rightarrow> ps | None \<Rightarrow> []);
          skip = skip_value (core w);
          asc = fp_default_order_asc params
      in case choose_scan_strategy params of
           WhereOnly clause \<Rightarrow>
             db_get_filtered_coalesced skip (par_iter w) (batch_mates w) db (fp_col_name params)
               (\<lambda>_ bs. fast_where w clause bs) early_exit_count asc
         | PrefixOnly \<Rightarrow>
             db_get_filtered skip db (fp_col_name params) (\<lambda>key _. has_some_prefix pfxs key) 0 early_exit_count asc
               (fp_has_where params)
         | WhereAndPrefix clause \<Rightarrow>
             db_get_filtered skip db (fp_col_name params)
               (\<lambda>key bs. has_some_prefix pfxs key \<and> fast_where w clause bs) 0 early_exit_count asc
               (fp_has_where params)
         | FullScan \<Rightarrow>
             db_get_filtered skip db (fp_col_name params) (\<lambda>_ _. True) 0 early_exit_count asc False)"

definition fetch_documents :: "world \<Rightarrow> db \<Rightarrow> fetch_params \<Rightarrow> results" where
  "fetch_documents w db params =
     (case pget (fp_payload params) Keys of
        Some (String k) \<Rightarrow>
          (if within_prefixes (fp_allowed_prefixes params) k then db_get db (fp_col_name params) [k] else [])
      | Some (Array arr) \<Rightarrow>
          db_get db (fp_col_name params)
            (filter (within_prefixes (fp_allowed_prefixes params)) (List.map_filter as_str arr))
      | _ \<Rightarrow> fetch_scan w db params)"

section \<open>The request\<close>

definition validate_get_request :: "world \<Rightarrow> json \<Rightarrow> limits \<Rightarrow> response + unit" where
  "validate_get_request w payload lim =
     (case check_then (validate_request (json_text w) payload (max_body_size lim) (max_keys_per_request lim))
             (validate_allowed_properties payload GET_ALLOWED) of
        Inl e \<Rightarrow> Inl (validation_response e)
      | Inr _ \<Rightarrow>
        if payload_array payload Fields \<noteq> None \<and> payload_array payload ExcludedFields \<noteq> None then
          Inl (error_response 400 (quoted ''fields'' @ '' and '' @ quoted ''excludedFields'' @ '' cannot be used together''))
        else if pget payload Sort \<noteq> None \<and> pget payload Order \<noteq> None then
          Inl (get_error OrderSortMutuallyExclusive)
        else case pget payload Order of
          Some ord \<Rightarrow> (if as_str ord \<in> {Some ''asc'', Some ''desc''} then Inr () else Inl (get_error InvalidOrderValue))
        | None \<Rightarrow> Inr ())"

definition parse_get_params :: "db \<Rightarrow> u64 \<Rightarrow> json \<Rightarrow> response + get_params" where
  "parse_get_params db query_time payload =
     (let col_name = collection_or_default payload in
      if (case payload_nat payload Count of Some n \<Rightarrow> n > MAX_COUNT | None \<Rightarrow> False) then
        Inl (get_error (GetError.CountExceeded MAX_COUNT))
      else if (case get_ttl_expiry db col_name of Some exp \<Rightarrow> collection_is_expired exp query_time | None \<Rightarrow> False) then
        Inl (get_error CollectionExpired)
      else Inr
        \<lparr>gp_col_name = col_name,
         gp_where_clause = pget payload Where,
         gp_joins_req = payload_array payload Joins,
         gp_sort_specs = payload_array payload Sort,
         gp_count_limit = (case payload_nat payload Count of Some n \<Rightarrow> n | None \<Rightarrow> DEFAULT_COUNT),
         gp_offset = (case payload_nat payload Offset of Some n \<Rightarrow> n | None \<Rightarrow> 0),
         gp_fields_req = payload_array payload Fields,
         gp_excluded_req = payload_array payload ExcludedFields,
         gp_allowed_prefixes = payload_array payload AllowedPrefixes,
         gp_expires_val = map_option (\<lambda>ms. String (ms_to_iso ms)) (get_ttl_expiry db col_name)\<rparr>)"

definition where_predicate :: "world \<Rightarrow> json option \<Rightarrow> predicate" where
  "where_predicate w where_clause _ bs =
     (case where_clause of Some c \<Rightarrow> raw_where w c bs | None \<Rightarrow> True)"

definition documents_response :: "json list \<Rightarrow> response" where
  "documents_response arr = (if arr = [] then get_error NoDocumentsFound else (200, Array arr))"

definition run_fast_sort_path :: "world \<Rightarrow> db \<Rightarrow> get_params \<Rightarrow> response option" where
  "run_fast_sort_path w db params =
     (case gp_sort_specs params of None \<Rightarrow> None
      | Some specs \<Rightarrow>
        (let cap = gp_offset params + gp_count_limit params;
             pred = where_predicate w (gp_where_clause params);
             generic = db_scan_top_n (par_iter w) db (gp_col_name params) pred (make_comparator (json_text w) specs) cap;
             docs = (case specs of
                [spec] \<Rightarrow>
                  (case sort_spec spec of
                     Some (field, descending) \<Rightarrow>
                       (if field \<noteq> [] then
                          db_scan_top_n_raw_coalesced (skip_value (core w)) (par_iter w) (batch_mates w) db
                            (gp_col_name params) pred field descending cap
                        else generic)
                   | None \<Rightarrow> generic)
              | _ \<Rightarrow> generic)
         in Some (documents_response (List.map_filter (\<lambda>(k, doc).
              shape_doc doc k (gp_fields_req params) (gp_excluded_req params) [] (gp_expires_val params))
              (drop (gp_offset params) docs)))))"

type_synonym joined_doc = "string \<times> json \<times> string list"

definition gate_open :: "get_params \<Rightarrow> string \<Rightarrow> bool" where
  "gate_open params key \<longleftrightarrow>
     (case gp_allowed_prefixes params of
        Some pfxs \<Rightarrow> pfxs \<noteq> [] \<longrightarrow> has_some_prefix (List.map_filter as_str pfxs) key
      | None \<Rightarrow> True)"

fun filter_and_join_docs :: "world \<Rightarrow> db \<Rightarrow> get_params \<Rightarrow> results \<Rightarrow> response + joined_doc list" where
  "filter_and_join_docs w db params [] = Inr []"
| "filter_and_join_docs w db params ((key, doc) # raw) =
     (if \<not> gate_open params key then filter_and_join_docs w db params raw
      else
        let (doc', join_aliases) = (case gp_joins_req params of
              Some joins \<Rightarrow> apply_joins db doc joins | None \<Rightarrow> (doc, []))
        in case (case gp_where_clause params of
                   Some clause \<Rightarrow> evaluate_where (to_lowercase w) doc' clause | None \<Rightarrow> Inr True) of
             Inl e \<Rightarrow> Inl (get_error (WhereEvalError (db_error_text e)))
           | Inr keep \<Rightarrow>
             (case filter_and_join_docs w db params raw of
                Inl r \<Rightarrow> Inl r
              | Inr docs \<Rightarrow> Inr (if keep then (key, doc', join_aliases) # docs else docs)))"

definition shape_joined :: "get_params \<Rightarrow> joined_doc \<Rightarrow> json option" where
  "shape_joined params d =
     (case d of (k, doc, aliases) \<Rightarrow>
      shape_doc doc k (gp_fields_req params) (gp_excluded_req params) aliases (gp_expires_val params))"

definition shape_and_return :: "world \<Rightarrow> joined_doc list \<Rightarrow> json \<Rightarrow> get_params \<Rightarrow> response" where
  "shape_and_return w docs payload params =
     (case pget payload Keys of
        Some (String _) \<Rightarrow>
          (case shape_joined params (hd docs) of
             None \<Rightarrow> get_error NoDocumentsFound
           | Some (Object obj) \<Rightarrow> (200, Object (bt_remove KEY obj))
           | Some out \<Rightarrow> (200, out))
      | _ \<Rightarrow>
          (let ordered = (case gp_sort_specs params of
                 Some specs \<Rightarrow> sort_by (\<lambda>a b. make_comparator (json_text w) specs (fst (snd a)) (fst (snd b))) docs
               | None \<Rightarrow> docs);
               page = drop (gp_offset params) (take (gp_offset params + gp_count_limit params) ordered)
           in documents_response (List.map_filter (shape_joined params) page)))"

definition fetch_params_of :: "json \<Rightarrow> get_params \<Rightarrow> fetch_params" where
  "fetch_params_of payload params =
     \<lparr>fp_col_name = gp_col_name params, fp_payload = payload, fp_where_clause = gp_where_clause params,
      fp_has_joins = (case gp_joins_req params of Some j \<Rightarrow> j \<noteq> [] | None \<Rightarrow> False),
      fp_has_sort = gp_sort_specs params \<noteq> None, fp_has_where = gp_where_clause params \<noteq> None,
      fp_default_order_asc = Option.bind (pget payload Order) as_str = Some ''asc'',
      fp_offset = gp_offset params, fp_count_limit = gp_count_limit params,
      fp_allowed_prefixes = gp_allowed_prefixes params\<rparr>"

definition general_path :: "world \<Rightarrow> db \<Rightarrow> json \<Rightarrow> get_params \<Rightarrow> response" where
  "general_path w db payload params =
     (case filter_and_join_docs w db params (fetch_documents w db (fetch_params_of payload params)) of
        Inl e \<Rightarrow> e
      | Inr docs \<Rightarrow> if docs = [] then get_error NoDocumentsFound else shape_and_return w docs payload params)"

definition empty_or_none :: "'a list option \<Rightarrow> bool" where
  "empty_or_none x \<longleftrightarrow> (case x of Some xs \<Rightarrow> xs = [] | None \<Rightarrow> True)"

definition get_response :: "world \<Rightarrow> json \<Rightarrow> limits \<Rightarrow> u64 \<Rightarrow> db \<Rightarrow> response" where
  "get_response w payload lim query_time db =
     (case validate_get_request w payload lim of
        Inl r \<Rightarrow> r
      | Inr _ \<Rightarrow>
        (case parse_get_params db query_time payload of
           Inl r \<Rightarrow> r
         | Inr params \<Rightarrow>
           (if pget payload Keys = None \<and> empty_or_none (gp_joins_req params) \<and>
               empty_or_none (gp_allowed_prefixes params)
            then (case run_fast_sort_path w db params of
                    Some r \<Rightarrow> r | None \<Rightarrow> general_path w db payload params)
            else general_path w db payload params)))"

text \<open>The clock is read once, for the expiry of the collection.\<close>

definition process_get :: "world \<Rightarrow> json \<Rightarrow> limits \<Rightarrow> db \<Rightarrow> response \<times> db" where
  "process_get w payload lim db =
     (get_response w payload lim (clock (core w) (t_ticks db)) db, db\<lparr>t_ticks := Suc (t_ticks db)\<rparr>)"

end
