(* ===== verification/Auth.thy ===== *)
theory Auth
  imports MsgPack "HOL-Library.Countable"
begin

text \<open>
  Authentication and authorisation (\<open>moltendb-auth\<close>): scopes (\<open>types.rs\<close>, \<open>hmac.rs\<close>), tokens
  (\<open>token.rs\<close>), the revocation store with its signed file and the user store (\<open>store.rs\<close>,
  \<open>password.rs\<close>), and the middleware (\<open>middleware.rs\<close>). JWT signing, HMAC-SHA256, hexadecimal
  text, bcrypt and the JSON text format are third-party code and parameters.
\<close>

section \<open>Scopes\<close>

record claims =
  sub :: string
  exp_at :: u64
  scopes :: "string list"
  jti :: string

text \<open>\<open>str::splitn(3, ':')\<close>\<close>

fun splitn :: "nat \<Rightarrow> char \<Rightarrow> string \<Rightarrow> string list" where
  "splitn 0 d s = []"
| "splitn (Suc 0) d s = [s]"
| "splitn (Suc (Suc n)) d s =
     (if d \<in> set s then takeWhile (\<lambda>c. c \<noteq> d) s # splitn (Suc n) d (tl (dropWhile (\<lambda>c. c \<noteq> d) s))
      else [s])"

definition scope_parts :: "string \<Rightarrow> (string \<times> string \<times> string) option" where
  "scope_parts scope =
     (case splitn 3 (CHR '':'') scope of [s_action, s_col, s_key] \<Rightarrow> Some (s_action, s_col, s_key) | _ \<Rightarrow> None)"

abbreviation STAR :: string where "STAR \<equiv> ''*''"

abbreviation ROOT_SCOPE :: string where "ROOT_SCOPE \<equiv> ''*:*:*''"

definition ends_with_star :: "string \<Rightarrow> bool" where
  "ends_with_star s \<longleftrightarrow> s \<noteq> [] \<and> last s = CHR ''*''"

definition starts_with :: "string \<Rightarrow> string \<Rightarrow> bool" where
  "starts_with p s \<longleftrightarrow> take (length p) s = p"

definition key_matches :: "string \<Rightarrow> string \<Rightarrow> bool" where
  "key_matches pattern key \<longleftrightarrow>
     (if pattern = STAR then True
      else if ends_with_star pattern then starts_with (butlast pattern) key
      else pattern = key)"

definition scope_grants :: "string \<Rightarrow> string \<Rightarrow> string \<Rightarrow> string \<Rightarrow> bool" where
  "scope_grants action collection doc_key scope \<longleftrightarrow>
     (if scope = ROOT_SCOPE then True
      else case scope_parts scope of None \<Rightarrow> False
      | Some (s_action, s_col, s_key) \<Rightarrow>
          s_action = action \<and> (s_col = STAR \<or> s_col = collection) \<and> key_matches s_key doc_key)"

definition has_access :: "claims \<Rightarrow> string \<Rightarrow> string \<Rightarrow> string \<Rightarrow> bool" where
  "has_access cl action collection doc_key \<longleftrightarrow>
     list_ex (scope_grants action collection doc_key) (scopes cl)"

definition has_collection_access :: "claims \<Rightarrow> string \<Rightarrow> string \<Rightarrow> bool" where
  "has_collection_access cl action collection \<longleftrightarrow> has_access cl action collection STAR"

definition is_admin :: "claims \<Rightarrow> bool" where
  "is_admin cl \<longleftrightarrow> list_ex (\<lambda>s. s = ROOT_SCOPE) (scopes cl)"

definition allowed_keys :: "claims \<Rightarrow> string \<Rightarrow> string \<Rightarrow> string list" where
  "allowed_keys cl action collection =
     List.map_filter (\<lambda>scope.
       case scope_parts scope of None \<Rightarrow> None
       | Some (s_action, s_col, s_key) \<Rightarrow>
           (if s_action = action \<and> (s_col = STAR \<or> s_col = collection) \<and> CHR ''*'' \<notin> set s_key
            then Some s_key else None)) (scopes cl)"

text \<open>\<open>trim_end_matches('*')\<close>\<close>

definition trim_stars :: "string \<Rightarrow> string" where
  "trim_stars s = rev (dropWhile (\<lambda>c. c = CHR ''*'') (rev s))"

definition extract_prefixes :: "claims \<Rightarrow> string \<Rightarrow> string \<Rightarrow> string list" where
  "extract_prefixes cl action collection =
     (if is_admin cl then []
      else List.map_filter (\<lambda>scope.
        case scope_parts scope of None \<Rightarrow> None
        | Some (s_action, s_col, s_key) \<Rightarrow>
            (if s_action \<noteq> action then None
             else if s_col \<noteq> STAR \<and> s_col \<noteq> collection then None
             else if ends_with_star s_key \<and> s_key \<noteq> STAR then Some (trim_stars s_key)
             else None)) (scopes cl))"

definition has_prefix_wildcard :: "claims \<Rightarrow> string \<Rightarrow> string \<Rightarrow> bool" where
  "has_prefix_wildcard cl action collection \<longleftrightarrow>
     list_ex (\<lambda>scope.
       case scope_parts scope of None \<Rightarrow> False
       | Some (s_action, s_col, s_key) \<Rightarrow>
           s_action = action \<and> (s_col = STAR \<or> s_col = collection) \<and> ends_with_star s_key \<and> s_key \<noteq> STAR)
       (scopes cl)"

section \<open>Errors and the world outside\<close>

datatype jwt_error = ExpiredSignature | OtherError string

datatype auth_error =
    InvalidToken jwt_error
  | TokenExpired
  | TokenRevoked
  | RefreshNotAllowed
  | RoleNotFound string
  | HashError string

text \<open>
  \<open>jwt_decode now token\<close> checks the signature and the expiry against the clock; \<open>mac\<close> is the
  keyed hash under the secret; \<open>bcrypt_verify password hash\<close>. \<open>json_text\<close> writes the members of
  an object in the order of the list.
\<close>

record auth_env =
  jwt_encode :: "claims \<Rightarrow> jwt_error + string"
  jwt_decode :: "u64 \<Rightarrow> string \<Rightarrow> jwt_error + claims"
  mac :: "string \<Rightarrow> bytes"
  hex_encode :: "bytes \<Rightarrow> string"
  hex_decode :: "string \<Rightarrow> bytes option"
  json_text :: "json \<Rightarrow> string"
  json_parse :: "string \<Rightarrow> json option"
  bcrypt_hash :: "string \<Rightarrow> string + string"
  bcrypt_verify :: "string \<Rightarrow> string \<Rightarrow> string + bool"

definition hmac_sign :: "auth_env \<Rightarrow> string \<Rightarrow> string" where
  "hmac_sign ae data = hex_encode ae (mac ae data)"

definition hmac_verify :: "auth_env \<Rightarrow> string \<Rightarrow> string \<Rightarrow> bool" where
  "hmac_verify ae data expected_hex \<longleftrightarrow>
     (case hex_decode ae expected_hex of None \<Rightarrow> False | Some expected_bytes \<Rightarrow> expected_bytes = mac ae data)"

definition hash_password :: "auth_env \<Rightarrow> string \<Rightarrow> auth_error + string" where
  "hash_password ae password =
     (case bcrypt_hash ae password of Inl e \<Rightarrow> Inl (HashError e) | Inr h \<Rightarrow> Inr h)"

definition verify_password :: "auth_env \<Rightarrow> string \<Rightarrow> string \<Rightarrow> auth_error + bool" where
  "verify_password ae password h =
     (case bcrypt_verify ae password h of Inl e \<Rightarrow> Inl (HashError e) | Inr b \<Rightarrow> Inr b)"

section \<open>Tokens\<close>

definition jwt_failure :: "jwt_error \<Rightarrow> auth_error" where
  "jwt_failure e = (if e = ExpiredSignature then TokenExpired else InvalidToken e)"

text \<open>The claims of a new token, for the clock reading and the identifier drawn.\<close>

definition create_scoped_token :: "auth_env \<Rightarrow> u64 \<Rightarrow> string \<Rightarrow> string \<Rightarrow> string list \<Rightarrow> u64 \<Rightarrow>
    auth_error + string \<times> string" where
  "create_scoped_token ae now new_id username scps ttl_secs =
     (case jwt_encode ae \<lparr>sub = username, exp_at = now + ttl_secs, scopes = scps, jti = new_id\<rparr> of
        Inl e \<Rightarrow> Inl (jwt_failure e) | Inr token \<Rightarrow> Inr (token, new_id))"

definition create_token :: "auth_env \<Rightarrow> u64 \<Rightarrow> string \<Rightarrow> string \<Rightarrow> u64 \<Rightarrow> auth_error + string" where
  "create_token ae now new_id username ttl_secs =
     (case create_scoped_token ae now new_id username [ROOT_SCOPE] ttl_secs of
        Inl e \<Rightarrow> Inl e | Inr (token, _) \<Rightarrow> Inr token)"

definition verify_token :: "auth_env \<Rightarrow> u64 \<Rightarrow> string \<Rightarrow> auth_error + claims" where
  "verify_token ae now token =
     (case jwt_decode ae now token of Inl e \<Rightarrow> Inl (jwt_failure e) | Inr cl \<Rightarrow> Inr cl)"

section \<open>The revocation store\<close>

text \<open>An \<open>Instant\<close> is a number of nanoseconds.\<close>

type_synonym instant = nat
type_synonym revocations = "(string, instant) dashmap"

definition revoke :: "string \<Rightarrow> instant \<Rightarrow> revocations \<Rightarrow> revocations" where
  "revoke j prune_after st = dm_insert j prune_after st"

definition is_revoked :: "string \<Rightarrow> revocations \<Rightarrow> bool" where
  "is_revoked j st \<longleftrightarrow> dm_get st j \<noteq> None"

text \<open>The clock is read once per entry.\<close>

definition prune :: "(nat \<Rightarrow> instant) \<Rightarrow> revocations \<Rightarrow> revocations" where
  "prune clk st = map snd (filter (\<lambda>(i, j, prune_at). prune_at > clk i) (enumerate 0 st))"

definition secs :: "u64 \<Rightarrow> nat" where
  "secs n = unat n * 1000000000"

definition refresh_scoped_token :: "auth_env \<Rightarrow> u64 \<Rightarrow> instant \<Rightarrow> string \<Rightarrow> string \<Rightarrow> u64 \<Rightarrow>
    (revocations, auth_error, string \<times> string) op" where
  "refresh_scoped_token ae now now_instant new_id old_token new_ttl_secs st =
     (case verify_token ae now old_token of
        Inl e \<Rightarrow> (Inl e, st)
      | Inr cl \<Rightarrow>
        (if jti cl = [] then (Inl (InvalidToken (OtherError ''InvalidToken'')), st)
         else if is_admin cl then (Inl RefreshNotAllowed, st)
         else if is_revoked (jti cl) st then (Inl TokenRevoked, st)
         else case create_scoped_token ae now new_id (sub cl) (scopes cl) new_ttl_secs of
             Inl e \<Rightarrow> (Inl e, st)
           | Inr (new_token, new_jti) \<Rightarrow>
               (Inr (new_token, new_jti), revoke (jti cl) (now_instant + secs new_ttl_secs) st)))"

section \<open>The revocation file\<close>

text \<open>The entries of the file: a deadline in Unix seconds for every identifier.\<close>

definition deadline_secs :: "instant \<Rightarrow> u64 \<Rightarrow> instant \<Rightarrow> u64" where
  "deadline_secs now_instant now_unix prune_at =
     now_unix + (if prune_at > now_instant then word_of_nat ((prune_at - now_instant) div 1000000000) else 0)"

text \<open>
  The text that is signed lists the entries of a \<open>HashMap\<close> in its iteration order, which
  \<open>order\<close> gives; the same entries go into the file as a sorted JSON object.
\<close>

definition save_to_file :: "auth_env \<Rightarrow> instant \<Rightarrow> u64 \<Rightarrow> (revocations \<Rightarrow> revocations) \<Rightarrow> revocations \<Rightarrow> string" where
  "save_to_file ae now_instant now_unix order st =
     (let entries = map (\<lambda>(j, p). (j, json_u64 (deadline_secs now_instant now_unix p))) (order st);
          sig = hmac_sign ae (json_text ae (Object entries))
      in json_text ae (Object [(''entries'', Object (of_entries entries)), (''sig'', String sig)]))"

datatype text_file = Missing | ReadFailed string | Contents string

datatype load_error =
    ReadError string
  | ParseError
  | MissingSig
  | MissingEntries
  | BadSignature
  | BadEntries

text \<open>\<open>serde_json::from_value::<HashMap<String, u64>>\<close>\<close>

definition u64_entries :: "json \<Rightarrow> (string \<times> u64) list option" where
  "u64_entries v =
     (case v of
        Object m \<Rightarrow>
          (if list_all (\<lambda>(k, x). as_u64 x \<noteq> None) m
           then Some (map (\<lambda>(k, x). (k, the (as_u64 x))) m) else None)
      | _ \<Rightarrow> None)"

definition load_entry :: "u64 \<Rightarrow> instant \<Rightarrow> string \<times> u64 \<Rightarrow> revocations \<Rightarrow> revocations" where
  "load_entry now_unix now_instant e st =
     (case e of (j, prune_unix) \<Rightarrow>
        if prune_unix \<le> now_unix then st
        else dm_insert j (now_instant + secs (prune_unix - now_unix)) st)"

definition load_from_file :: "auth_env \<Rightarrow> u64 \<Rightarrow> instant \<Rightarrow> text_file \<Rightarrow> load_error + revocations" where
  "load_from_file ae now_unix now_instant path =
     (case path of
        Missing \<Rightarrow> Inr []
      | ReadFailed e \<Rightarrow> Inl (ReadError e)
      | Contents contents \<Rightarrow>
        (case json_parse ae contents of None \<Rightarrow> Inl ParseError
         | Some envelope \<Rightarrow>
           (case Option.bind (vget envelope ''sig'') as_str of None \<Rightarrow> Inl MissingSig
            | Some sig \<Rightarrow>
              (case vget envelope ''entries'' of None \<Rightarrow> Inl MissingEntries
               | Some entries_value \<Rightarrow>
                 (if \<not> hmac_verify ae (json_text ae entries_value) sig then Inl BadSignature
                  else case u64_entries entries_value of None \<Rightarrow> Inl BadEntries
                  | Some entries \<Rightarrow> Inr (fold (load_entry now_unix now_instant) entries []))))))"

section \<open>The user store\<close>

type_synonym user_store = "(string, string) dashmap"

definition user_store_new :: "auth_env \<Rightarrow> string \<Rightarrow> string \<Rightarrow> auth_error + user_store" where
  "user_store_new ae username password =
     (case hash_password ae password of Inl e \<Rightarrow> Inl e | Inr h \<Rightarrow> Inr (dm_insert username h []))"

definition verify_user :: "auth_env \<Rightarrow> user_store \<Rightarrow> string \<Rightarrow> string \<Rightarrow> bool" where
  "verify_user ae users username password \<longleftrightarrow>
     (case dm_get users username of
        Some h \<Rightarrow> (case verify_password ae password h of Inr b \<Rightarrow> b | Inl _ \<Rightarrow> False)
      | None \<Rightarrow> False)"

section \<open>The middleware\<close>

datatype rejection = Unauthorized string | InternalError string

text \<open>
  The claims that are attached to the request, or the response that ends it. \<open>store\<close> is the
  extension of the request that holds the revocation store.
\<close>

definition auth_middleware :: "auth_env \<Rightarrow> u64 \<Rightarrow> string option \<Rightarrow> revocations option \<Rightarrow> rejection + claims" where
  "auth_middleware ae now auth_header store =
     (case auth_header of
        Some header \<Rightarrow>
          (if starts_with ''Bearer '' header then
             (case verify_token ae now (drop 7 header) of
                Inl _ \<Rightarrow> Inl (Unauthorized ''Invalid or expired token'')
              | Inr cl \<Rightarrow>
                (case store of
                   Some st \<Rightarrow>
                     (if jti cl = [] then Inl (Unauthorized ''Token missing required jti claim'')
                      else if is_revoked (jti cl) st then Inl (Unauthorized ''Token has been revoked'')
                      else Inr cl)
                 | None \<Rightarrow> Inl (InternalError ''Internal error: revocation store unavailable'')))
           else Inl (Unauthorized ''Missing or invalid Authorization header''))
      | None \<Rightarrow> Inl (Unauthorized ''Missing or invalid Authorization header''))"


section \<open>Scopes grant what they say\<close>

lemma split_scope:
  assumes "CHR '':'' \<notin> set a" and "CHR '':'' \<notin> set c"
  shows "scope_parts (a @ '':'' @ c @ '':'' @ k) = Some (a, c, k)"
proof -
  have t: "takeWhile (\<lambda>x. x \<noteq> CHR '':'') (s @ CHR '':'' # r) = s"
    "dropWhile (\<lambda>x. x \<noteq> CHR '':'') (s @ CHR '':'' # r) = CHR '':'' # r" if "CHR '':'' \<notin> set s" for s r
    using that by (induction s) auto
  have "splitn 3 (CHR '':'') (a @ '':'' @ c @ '':'' @ k) = [a, c, k]"
    using t [OF assms(1)] t [OF assms(2)] by (simp add: numeral_3_eq_3)
  then show ?thesis by (simp add: scope_parts_def)
qed

lemma starts_with_append: "starts_with p s \<longleftrightarrow> (\<exists>r. s = p @ r)"
  by (metis append_eq_conv_conj append_take_drop_id starts_with_def)

lemma scope_parts_join:
  assumes "scope_parts s = Some (a, c, k)"
  shows "s = a @ '':'' @ c @ '':'' @ k"
proof -
  have j: "takeWhile (\<lambda>x. x \<noteq> CHR '':'') t @ CHR '':'' # tl (dropWhile (\<lambda>x. x \<noteq> CHR '':'') t) = t"
    if "CHR '':'' \<in> set t" for t
    using that by (induction t) auto
  have "splitn 3 (CHR '':'') s = [a, c, k]"
    using assms by (auto simp: scope_parts_def split: list.splits)
  then have "CHR '':'' \<in> set s" "takeWhile (\<lambda>x. x \<noteq> CHR '':'') s = a"
    "CHR '':'' \<in> set (tl (dropWhile (\<lambda>x. x \<noteq> CHR '':'') s))"
    "takeWhile (\<lambda>x. x \<noteq> CHR '':'') (tl (dropWhile (\<lambda>x. x \<noteq> CHR '':'') s)) = c"
    "tl (dropWhile (\<lambda>x. x \<noteq> CHR '':'') (tl (dropWhile (\<lambda>x. x \<noteq> CHR '':'') s))) = k"
    by (auto simp: numeral_3_eq_3 split: if_splits)
  then show ?thesis
    using j [of s] j [of "tl (dropWhile (\<lambda>x. x \<noteq> CHR '':'') s)"] by simp
qed

lemma scope_parts_plain:
  assumes "scope_parts s = Some (a, c, k)"
  shows "CHR '':'' \<notin> set a" and "CHR '':'' \<notin> set c"
proof -
  have no: "CHR '':'' \<notin> set (takeWhile (\<lambda>x. x \<noteq> CHR '':'') t)" for t by (auto dest: set_takeWhileD)
  have "splitn 3 (CHR '':'') s = [a, c, k]"
    using assms by (auto simp: scope_parts_def split: list.splits)
  then have "takeWhile (\<lambda>x. x \<noteq> CHR '':'') s = a"
    "takeWhile (\<lambda>x. x \<noteq> CHR '':'') (tl (dropWhile (\<lambda>x. x \<noteq> CHR '':'') s)) = c"
    by (auto simp: numeral_3_eq_3 split: if_splits)
  then show "CHR '':'' \<notin> set a" and "CHR '':'' \<notin> set c" using no by blast+
qed

lemma scope_parts_iff: "scope_parts s = Some (a, c, k) \<longleftrightarrow>
    s = a @ '':'' @ c @ '':'' @ k \<and> CHR '':'' \<notin> set a \<and> CHR '':'' \<notin> set c"
  using scope_parts_join scope_parts_plain split_scope by metis

lemma key_matches_iff:
  "key_matches k key \<longleftrightarrow> key = k \<and> \<not> ends_with_star k \<or> (\<exists>p r. k = p @ STAR \<and> key = p @ r)"
proof (cases "ends_with_star k")
  case True
  then have k: "k = butlast k @ STAR" by (metis append_butlast_last_id ends_with_star_def)
  have "key_matches k key \<longleftrightarrow> starts_with (butlast k) key"
    using True by (auto simp: key_matches_def starts_with_def)
  then show ?thesis using True k by (metis butlast_snoc starts_with_append)
next
  case False
  then show ?thesis by (auto simp: key_matches_def ends_with_star_def)
qed

lemma scope_grants_iff:
  "scope_grants action col key s \<longleftrightarrow>
     (\<exists>a c k. s = a @ '':'' @ c @ '':'' @ k \<and> CHR '':'' \<notin> set a \<and> CHR '':'' \<notin> set c \<and>
        ((a = STAR \<and> c = STAR \<and> k = STAR) \<or>
         (a = action \<and> (c = STAR \<or> c = col) \<and>
          (key = k \<and> \<not> ends_with_star k \<or> (\<exists>p r. k = p @ STAR \<and> key = p @ r)))))"
proof -
  have root: "scope_parts ROOT_SCOPE = Some (STAR, STAR, STAR)"
    using split_scope [of STAR STAR STAR] by simp
  have "scope_grants action col key s \<longleftrightarrow> (\<exists>a c k. scope_parts s = Some (a, c, k) \<and>
      ((a = STAR \<and> c = STAR \<and> k = STAR) \<or> (a = action \<and> (c = STAR \<or> c = col) \<and> key_matches k key)))"
  proof (cases "scope_parts s")
    case None
    then show ?thesis using root by (auto simp: scope_grants_def)
  next
    case (Some x)
    obtain a c k where x: "x = (a, c, k)" by (cases x)
    have "s = ROOT_SCOPE \<longleftrightarrow> a = STAR \<and> c = STAR \<and> k = STAR"
      using Some root scope_parts_join [of s a c k] by (auto simp: x)
    then show ?thesis using Some by (auto simp: scope_grants_def x)
  qed
  then show ?thesis unfolding scope_parts_iff key_matches_iff by blast
qed

text \<open>
  C28. What a token may do: it has access exactly if one of its scopes has the form \<open>action:collection:key\<close> (the key
  may hold colons) and is \<open>*:*:*\<close>, or names the action, and the collection or \<open>*\<close>, and the key, or a
  prefix of the key followed by \<open>*\<close>, the empty one included. Every other string grants nothing.
\<close>

theorem scope_semantics:
  "has_access cl action col key \<longleftrightarrow>
     (\<exists>scope a c k. scope \<in> set (scopes cl) \<and>
        scope = a @ '':'' @ c @ '':'' @ k \<and> CHR '':'' \<notin> set a \<and> CHR '':'' \<notin> set c \<and>
        ((a = STAR \<and> c = STAR \<and> k = STAR) \<or>
         (a = action \<and> (c = STAR \<or> c = col) \<and>
          (key = k \<and> \<not> ends_with_star k \<or> (\<exists>p r. k = p @ STAR \<and> key = p @ r)))))"
  by (simp only: has_access_def list_ex_iff scope_grants_iff Bex_def) blast

theorem scope_semantics_witness:
  "has_access \<lparr>sub = ''u'', exp_at = 0, scopes = [''read:laptops'', ''read:laptops:store_*''], jti = ''j''\<rparr> ''read'' ''laptops'' ''store_7''"
  by (rule scope_semantics [THEN iffD2], rule exI [of _ "''read:laptops:store_*''"], rule exI [of _ "''read''"],
      rule exI [of _ "''laptops''"], rule exI [of _ "''store_*''"])
    (intro conjI disjI2 exI [of _ "''store_''"] exI [of _ "''7''"]; simp)

lemma trim_one_star:
  assumes "ends_with_star k" and "\<And>q. k \<noteq> q @ ''**''"
  shows "trim_stars k = butlast k"
proof -
  obtain p where k: "k = p @ STAR"
    using assms(1) by (metis append_butlast_last_id ends_with_star_def)
  have "p \<noteq> [] \<Longrightarrow> last p \<noteq> CHR ''*''"
    using assms(2) [of "butlast p"] by (auto simp: k) (metis append_butlast_last_id append_Cons append_Nil append_assoc)
  then have "dropWhile (\<lambda>c. c = CHR ''*'') (rev p) = rev p"
    by (cases p rule: rev_cases) auto
  then show ?thesis by (simp add: trim_stars_def k)
qed

lemma map_filter_in: "y \<in> set (List.map_filter f xs) \<longleftrightarrow> (\<exists>x\<in>set xs. f x = Some y)"
  by (induction xs) (auto simp: map_filter_simps split: option.splits)

lemma prefix_scopeE:
  assumes "p \<in> set (extract_prefixes cl action col)"
  obtains s a c k where "s \<in> set (scopes cl)" and "scope_parts s = Some (a, c, k)" and "a = action"
    and "c = STAR \<or> c = col" and "ends_with_star k" and "k \<noteq> STAR" and "p = trim_stars k"
proof -
  have "\<not> is_admin cl" using assms by (cases "is_admin cl") (simp_all add: extract_prefixes_def)
  then obtain s where s: "s \<in> set (scopes cl)" and e: "(case scope_parts s of None \<Rightarrow> None
        | Some (s_action, s_col, s_key) \<Rightarrow>
            (if s_action \<noteq> action then None
             else if s_col \<noteq> STAR \<and> s_col \<noteq> col then None
             else if ends_with_star s_key \<and> s_key \<noteq> STAR then Some (trim_stars s_key)
             else None)) = Some p"
    using assms by (simp only: extract_prefixes_def if_False map_filter_in) blast
  obtain a c k where "scope_parts s = Some (a, c, k)" using e by (cases "scope_parts s") auto
  with e s that show ?thesis by (simp split: if_splits)
qed

lemma allowed_keys_access:
  assumes "k \<in> set (allowed_keys cl action col)"
  shows "has_access cl action col k"
proof -
  obtain s a c where s: "s \<in> set (scopes cl)" "scope_parts s = Some (a, c, k)" "a = action"
    "c = STAR \<or> c = col" "CHR ''*'' \<notin> set k"
    using assms unfolding allowed_keys_def map_filter_in by (elim bexE) (simp split: option.splits prod.splits if_splits)
  have "\<not> ends_with_star k"
  proof
    assume "ends_with_star k"
    then have ne: "k \<noteq> []" and l: "last k = CHR ''*''" unfolding ends_with_star_def by blast+
    from last_in_set [OF ne] have "CHR ''*'' \<in> set k" unfolding l .
    with s(5) show False by (rule notE)
  qed
  moreover have "k \<noteq> STAR" using s(5) by auto
  ultimately have "scope_grants action col k s"
    using s by (simp add: scope_grants_def key_matches_def)
  then show ?thesis using s(1) by (auto simp: has_access_def list_ex_iff)
qed

lemma extract_prefixes_access:
  assumes "list_all (\<lambda>s. \<forall>q. s \<noteq> q @ ''**'') (scopes cl)" and "p \<in> set (extract_prefixes cl action col)"
  shows "has_access cl action col (p @ r)"
proof -
  from assms(2) obtain s a c k where s: "s \<in> set (scopes cl)" "scope_parts s = Some (a, c, k)" "a = action"
    "c = STAR \<or> c = col" "ends_with_star k" "k \<noteq> STAR" "p = trim_stars k"
    by (elim prefix_scopeE) blast
  have "k \<noteq> q @ ''**''" for q
    using assms(1) s(1) scope_parts_join [OF s(2)] unfolding list_all_iff by (metis append_assoc)
  then have "p = butlast k" using trim_one_star [OF s(5)] s(7) by simp
  then have "scope_grants action col (p @ r) s"
    using s by (simp add: scope_grants_def key_matches_def starts_with_def)
  then show ?thesis using s(1) by (auto simp: has_access_def list_ex_iff)
qed

text \<open>
  The key list and the prefixes that a read request is narrowed to are sound: the token has
  access to every listed key and, when no scope ends in two stars, to every key with a listed
  prefix.
\<close>

lemma narrowing_sound:
  "(\<forall>k\<in>set (allowed_keys cl action col). has_access cl action col k) \<and>
   (list_all (\<lambda>s. \<forall>q. s \<noteq> q @ ''**'') (scopes cl) \<longrightarrow>
    (\<forall>p\<in>set (extract_prefixes cl action col). \<forall>r. has_access cl action col (p @ r)))"
  using allowed_keys_access extract_prefixes_access by blast

definition demo_claims :: "string list \<Rightarrow> claims" where
  "demo_claims scps = \<lparr>sub = ''u'', exp_at = 0, scopes = scps, jti = ''j''\<rparr>"

lemma narrowing_sound_example:
  "has_access (demo_claims [''read:a:store_*'']) ''read'' ''a'' (''store_'' @ ''7'') \<and>
   ''store_'' \<in> set (extract_prefixes (demo_claims [''read:a:store_*'']) ''read'' ''a'')"
proof -
  have p: "scope_parts ''read:a:store_*'' = Some (''read'', ''a'', ''store_*'')" by code_simp
  have e: "''store_'' \<in> set (extract_prefixes (demo_claims [''read:a:store_*'']) ''read'' ''a'')"
    by code_simp
  moreover have "''read:a:store_*'' \<noteq> q @ ''**''" for q
  proof
    assume "''read:a:store_*'' = q @ ''**''"
    then have "rev ''read:a:store_*'' = rev (q @ ''**'')" by simp
    then show False by simp
  qed
  ultimately show ?thesis
    using narrowing_sound [of "demo_claims [''read:a:store_*'']" "''read''" "''a''"]
    by (simp add: demo_claims_def del: append.simps)
qed

text \<open>A key pattern with two stars is narrowed to a wider prefix than it grants.\<close>

lemma double_star_widens:
  "extract_prefixes (demo_claims [''read:a:x**'']) ''read'' ''a'' = [''x''] \<and>
   \<not> has_access (demo_claims [''read:a:x**'']) ''read'' ''a'' ''xy''"
  by code_simp


section \<open>Revocation\<close>

datatype ('j, 't, 'c) store_event = Revoke 'j 't | Prune 'c

text \<open>
  The contract of a revocation list: an entry has a deadline, and a sweep keeps every entry whose
  deadline lies after all its clock readings.
\<close>

locale revocation_list =
  fixes add :: "'j \<Rightarrow> 't :: linorder \<Rightarrow> 's \<Rightarrow> 's"
    and deadline :: "'s \<Rightarrow> 'j \<Rightarrow> 't option"
    and sweep :: "'c \<Rightarrow> 's \<Rightarrow> 's"
    and before :: "'c \<Rightarrow> 't \<Rightarrow> bool"
  assumes deadline_add: "deadline (add j t s) k = (if k = j then Some t else deadline s k)"
    and sweep_keeps: "deadline s j = Some t \<Longrightarrow> before clk t \<Longrightarrow> deadline (sweep clk s) j = Some t"
    and before_mono: "before clk t \<Longrightarrow> t \<le> t' \<Longrightarrow> before clk t'"
begin

definition run_event :: "('j, 't, 'c) store_event \<Rightarrow> 's \<Rightarrow> 's" where
  "run_event e s = (case e of Revoke j t \<Rightarrow> add j t s | Prune clk \<Rightarrow> sweep clk s)"

definition harmless :: "'j \<Rightarrow> 't \<Rightarrow> ('j, 't, 'c) store_event \<Rightarrow> bool" where
  "harmless j t e \<longleftrightarrow> (case e of Revoke j' t' \<Rightarrow> j' \<noteq> j \<or> t \<le> t' | Prune clk \<Rightarrow> before clk t)"

lemma stays_revoked:
  assumes "deadline s j = Some u" and "t \<le> u" and "list_all (harmless j t) evs"
  shows "\<exists>v\<ge>t. deadline (fold run_event evs s) j = Some v"
  using assms
proof (induction evs arbitrary: s u)
  case (Cons e evs)
  have "\<exists>u'\<ge>t. deadline (run_event e s) j = Some u'"
  proof (cases e)
    case (Revoke j' t')
    then show ?thesis
      using Cons.prems by (cases "j' = j") (auto simp: run_event_def harmless_def deadline_add)
  next
    case (Prune clk)
    then have "before clk u" using Cons.prems before_mono by (auto simp: harmless_def)
    then have "deadline (sweep clk s) j = Some u" using Cons.prems(1) by (rule sweep_keeps [rotated])
    then show ?thesis using Cons.prems(2) Prune by (auto simp: run_event_def)
  qed
  then show ?case using Cons.IH Cons.prems(3) by auto
qed auto

end

lemma prune_keeps:
  assumes "dm_get st j = Some t" and "\<And>i. clk i < t"
  shows "dm_get (prune clk st) j = Some t"
proof -
  have "map_of (map snd (filter (\<lambda>(i, j, p). clk i < p) (enumerate n st))) j = Some t" for n
    using assms(1)
  proof (induction st arbitrary: n)
    case (Cons e st)
    have "clk n < t" by (rule assms(2))
    with Cons show ?case by (cases e) (simp split: if_splits)
  qed simp
  then show ?thesis by (simp add: prune_def)
qed

lemma prune_drops:
  assumes "dm_ok st" and "dm_get st j = Some t" and "\<And>i. t \<le> clk i"
  shows "dm_get (prune clk st) j = None"
proof -
  have "\<forall>p. (j, p) \<notin> set (map snd (filter (\<lambda>(i, j, p). clk i < p) (enumerate 0 st)))"
  proof (intro allI notI)
    fix p assume "(j, p) \<in> set (map snd (filter (\<lambda>(i, j, p). clk i < p) (enumerate 0 st)))"
    then obtain i where "clk i < p" "(j, p) \<in> set st"
      by (auto simp: in_set_enumerate_eq) (metis nth_mem)
    then show False using assms by (metis dm_get_in leD option.inject)
  qed
  then have "j \<notin> fst ` set (prune clk st)" unfolding prune_def by force
  then show ?thesis by (simp add: map_of_eq_None_iff)
qed

interpretation rl: revocation_list revoke "\<lambda>st. dm_get st" prune "\<lambda>clk t. \<forall>i. clk i < t"
proof
  show "dm_get (revoke j t s) k = (if k = j then Some t else dm_get s k)" for j t s k
    by (simp add: revoke_def update_conv')
  show "dm_get (prune clk s) j = Some t" if "dm_get s j = Some t" "\<forall>i. clk i < t" for s j t clk
    using that prune_keeps by blast
  show "\<forall>i. clk i < t'" if "\<forall>i. clk i < t" "t \<le> t'" for clk :: "nat \<Rightarrow> nat" and t t'
    using that by (meson less_le_trans)
qed

text \<open>
  A revoked token stays out: from its revocation on, however many other tokens are revoked and
  however often the store is pruned before the entry's deadline, the middleware refuses every
  request that carries the token, whatever its other claims.
\<close>

lemma revoked_token_refused:
  assumes "list_all (\<lambda>e. case e of Revoke j' t' \<Rightarrow> j' \<noteq> j \<or> t \<le> t' | Prune clk \<Rightarrow> \<forall>i. clk i < t) evs"
    and "verify_token ae now token = Inr cl" and "jti cl = j"
  shows "\<exists>msg. auth_middleware ae now (Some (''Bearer '' @ token))
      (Some (fold (\<lambda>e st. case e of Revoke j' t' \<Rightarrow> revoke j' t' st | Prune clk \<Rightarrow> prune clk st) evs (revoke j t st)))
    = Inl (Unauthorized msg)"
proof -
  have "list_all (rl.harmless j t) evs" using assms(1) unfolding rl.harmless_def [abs_def] .
  moreover have "dm_get (revoke j t st) j = Some t" by (simp add: rl.deadline_add)
  ultimately obtain v where "dm_get (fold rl.run_event evs (revoke j t st)) j = Some v"
    using rl.stays_revoked by blast
  then have "is_revoked j (fold rl.run_event evs (revoke j t st))" by (simp add: is_revoked_def)
  then show ?thesis
    using assms(2,3) by (simp add: auth_middleware_def starts_with_def rl.run_event_def [abs_def])
qed


text \<open>The JWT library: a token that has not expired decodes to the claims it was made from.\<close>

definition jwt_ok :: "auth_env \<Rightarrow> bool" where
  "jwt_ok ae \<longleftrightarrow> (\<forall>cl token now. jwt_encode ae cl = Inr token \<and> now \<le> exp_at cl \<longrightarrow> jwt_decode ae now token = Inr cl)"

text \<open>
  C29. Refreshing rotates a token: it needs a valid token that is neither revoked nor root, the new
  token has the same subject and scopes and passes the middleware, the old one is refused from
  then on, and no other token changes its status.
\<close>

theorem refresh_rotates:
  assumes "jwt_ok ae" and "refresh_scoped_token ae now inst new_id old ttl st = (Inr (token, j), st')"
    and "now \<le> now + ttl" and "new_id \<noteq> []" and "\<not> is_revoked new_id st"
    and "\<And>cl. verify_token ae now old = Inr cl \<Longrightarrow> jti cl \<noteq> new_id"
  shows "\<exists>cl cl'. verify_token ae now old = Inr cl \<and> \<not> is_admin cl \<and> \<not> is_revoked (jti cl) st \<and>
    auth_middleware ae now (Some (''Bearer '' @ token)) (Some st') = Inr cl' \<and>
    sub cl' = sub cl \<and> scopes cl' = scopes cl \<and> jti cl' = j \<and> exp_at cl' = now + ttl \<and>
    auth_middleware ae now (Some (''Bearer '' @ old)) (Some st') = Inl (Unauthorized ''Token has been revoked'') \<and>
    (\<forall>k. k \<noteq> jti cl \<longrightarrow> is_revoked k st' = is_revoked k st)"
proof -
  obtain cl where cl: "verify_token ae now old = Inr cl" "jti cl \<noteq> []" "\<not> is_admin cl" "\<not> is_revoked (jti cl) st"
    and tok: "jwt_encode ae \<lparr>sub = sub cl, exp_at = now + ttl, scopes = scopes cl, jti = new_id\<rparr> = Inr token"
    and j: "j = new_id" and st': "st' = revoke (jti cl) (inst + secs ttl) st"
    using assms(2)
    by (auto simp: refresh_scoped_token_def create_scoped_token_def split: sum.splits if_splits)
  let ?cl' = "\<lparr>sub = sub cl, exp_at = now + ttl, scopes = scopes cl, jti = new_id\<rparr>"
  have "jwt_decode ae now token = Inr ?cl'"
    using assms(1,3) tok unfolding jwt_ok_def by (metis claims.select_convs(2))
  then have v: "verify_token ae now token = Inr ?cl'" by (simp add: verify_token_def)
  have r: "is_revoked k st' \<longleftrightarrow> k = jti cl \<or> is_revoked k st" for k
    by (simp add: st' is_revoked_def rl.deadline_add)
  have "auth_middleware ae now (Some (''Bearer '' @ token)) (Some st') = Inr ?cl'"
    using v r assms(4,5) assms(6) [OF cl(1)] by (simp add: auth_middleware_def starts_with_def)
  moreover have "auth_middleware ae now (Some (''Bearer '' @ old)) (Some st') = Inl (Unauthorized ''Token has been revoked'')"
    using cl r by (simp add: auth_middleware_def starts_with_def)
  ultimately show ?thesis using cl r j by auto
qed

text \<open>
  A refresh with a short lifetime lets the old token back in: the revocation entry expires with
  the new token, so once the store has been pruned after that, the middleware accepts the old token
  for as long as it has not expired itself.
\<close>

lemma refresh_replay_window:
  assumes "refresh_scoped_token ae now inst new_id old ttl st = (Inr (token, j), st')" and "dm_ok st"
    and "verify_token ae now old = Inr cl" and "verify_token ae later old = Inr cl"
    and "\<And>i. inst + secs ttl \<le> clk i"
  shows "auth_middleware ae later (Some (''Bearer '' @ old)) (Some (prune clk st')) = Inr cl"
proof -
  have st': "st' = revoke (jti cl) (inst + secs ttl) st" "jti cl \<noteq> []"
    using assms(1,3) by (auto simp: refresh_scoped_token_def split: sum.splits if_splits)
  have "dm_ok st'" using assms(2) by (simp add: st' revoke_def dm_ok_def distinct_update)
  then have "dm_get (prune clk st') (jti cl) = None"
    using prune_drops [of st' "jti cl" "inst + secs ttl" clk] assms(5) by (simp add: st' rl.deadline_add)
  then show ?thesis
    using assms(4) st'(2) by (simp add: auth_middleware_def starts_with_def is_revoked_def)
qed


section \<open>The signed file\<close>

text \<open>Contracts of the JSON text format and of hexadecimal text.\<close>

definition text_ok :: "auth_env \<Rightarrow> bool" where
  "text_ok ae \<longleftrightarrow> (\<forall>v. wf_value v \<longrightarrow> json_parse ae (json_text ae v) = Some v) \<and>
     (\<forall>b. hex_decode ae (hex_encode ae b) = Some b \<and> str_ok (hex_encode ae b))"

lemma as_u64_json_entry [simp]: "as_u64 (json_u64 n) = Some n"
  by (simp add: json_u64_def)

definition file_entries :: "instant \<Rightarrow> u64 \<Rightarrow> revocations \<Rightarrow> (string \<times> json) list" where
  "file_entries ni nu st = map (\<lambda>(j, p). (j, json_u64 (deadline_secs ni nu p))) st"

lemma load_saved:
  assumes "text_ok ae" and "list_all (\<lambda>(j, _). str_ok j) (order st)"
  shows "load_from_file ae nu' ni' (Contents (save_to_file ae ni nu order st)) =
    (let es = file_entries ni nu (order st) in
     if mac ae (json_text ae (Object (of_entries es))) \<noteq> mac ae (json_text ae (Object es)) then Inl BadSignature
     else Inr (fold (load_entry nu' ni') (map (\<lambda>(k, x). (k, the (as_u64 x))) (of_entries es)) []))"
proof -
  let ?es = "file_entries ni nu (order st)"
  let ?sig = "hmac_sign ae (json_text ae (Object ?es))"
  have "(k, v) \<in> set (of_entries ?es) \<Longrightarrow> str_ok k \<and> (\<exists>n. v = json_u64 n)" for k v
    using assms(2) set_of_entries [of ?es] by (force simp: file_entries_def list_all_iff)
  then have m: "list_all (\<lambda>(k, v). str_ok k \<and> wf_value v) (of_entries ?es)"
    "list_all (\<lambda>(k, x). as_u64 x \<noteq> None) (of_entries ?es)"
    by (fastforce simp: list_all_iff)+
  have "str_ok ?sig" using assms(1) by (simp add: text_ok_def hmac_sign_def)
  moreover have "str_ok ''entries''" "str_ok ''sig''" by (simp_all add: str_ok_def bytes_of_def)
  ultimately have "wf_value (Object [(''entries'', Object (of_entries ?es)), (''sig'', String ?sig)])"
    using m(1) by simp
  then have "json_parse ae (save_to_file ae ni nu order st) =
      Some (Object [(''entries'', Object (of_entries ?es)), (''sig'', String ?sig)])"
    using assms(1) by (simp only: save_to_file_def Let_def text_ok_def file_entries_def [symmetric])
  moreover have "hex_decode ae ?sig = Some (mac ae (json_text ae (Object ?es)))"
    using assms(1) by (simp add: text_ok_def hmac_sign_def)
  ultimately show ?thesis
    using m(2) by (auto simp: load_from_file_def hmac_verify_def u64_entries_def Let_def)
qed

text \<open>
  C33. A revocation file whose entries were signed in key order is accepted by the next start, and
  exactly the tokens whose deadline has not passed are revoked again.
\<close>

theorem revocation_file_roundtrip:
  assumes "text_ok ae" and "bt_ok (order st)" and "list_all (\<lambda>(j, _). str_ok j) (order st)"
  shows "\<exists>st'. load_from_file ae nu' ni' (Contents (save_to_file ae ni nu order st)) = Inr st' \<and>
    (\<forall>j. is_revoked j st' \<longleftrightarrow> (\<exists>p. dm_get (order st) j = Some p \<and> nu' < deadline_secs ni nu p))"
proof -
  let ?es = "file_entries ni nu (order st)"
  let ?us = "map (\<lambda>(j, p). (j, deadline_secs ni nu p)) (order st)"
  have ok: "bt_ok ?es" using assms(2) by (simp add: bt_ok_def file_entries_def comp_def case_prod_beta')
  have us: "map (\<lambda>(k, x). (k, the (as_u64 x))) ?es = ?us"
    by (auto simp: file_entries_def)
  have "dm_get (fold (load_entry nu' ni') us acc) j \<noteq> None \<longleftrightarrow>
      (\<exists>u. (j, u) \<in> set us \<and> nu' < u) \<or> dm_get acc j \<noteq> None" for us acc j
    by (induction us arbitrary: acc) (auto simp: load_entry_def update_conv' not_le split: if_splits)
  then have "is_revoked j (fold (load_entry nu' ni') ?us []) \<longleftrightarrow> (\<exists>u. (j, u) \<in> set ?us \<and> nu' < u)" for j
    by (simp add: is_revoked_def)
  moreover have "(\<exists>u. (j, u) \<in> set ?us \<and> nu' < u) \<longleftrightarrow> (\<exists>p. dm_get (order st) j = Some p \<and> nu' < deadline_secs ni nu p)" for j
    using bt_get_in [OF assms(2)] by force
  ultimately show ?thesis
    using load_saved [OF assms(1), of order st nu' ni' ni nu] assms(3) ok us by (simp add: Let_def)
qed

text \<open>
  A revocation file whose entries were signed in another order, which is the order in which a
  \<open>HashMap\<close> happens to iterate, is refused by the next start as tampered with, although nobody
  touched it (the keyed hash and the text format being free of collisions).
\<close>

lemma unordered_file_refused:
  assumes "text_ok ae" and "list_all (\<lambda>(j, _). str_ok j) (order st)"
    and "\<And>xs ys. mac ae (json_text ae (Object xs)) = mac ae (json_text ae (Object ys)) \<Longrightarrow> xs = ys"
    and "\<not> bt_ok (order st)"
  shows "load_from_file ae nu' ni' (Contents (save_to_file ae ni nu order st)) = Inl BadSignature"
proof -
  let ?es = "file_entries ni nu (order st)"
  have "\<not> bt_ok ?es" using assms(4) by (simp add: bt_ok_def file_entries_def comp_def case_prod_beta')
  then have "of_entries ?es \<noteq> ?es" by (metis bt_ok_of_entries)
  then show ?thesis
    using load_saved [OF assms(1), of order st nu' ni' ni nu] assms(2,3) by (auto simp: Let_def)
qed


section \<open>Examples\<close>

text \<open>
  A world that fits the contracts: texts that are as long as the number of what they encode, and a
  hash without collisions.
\<close>

instance number :: countable
  by countable_datatype

instance json :: countable
  by countable_datatype

definition enc_token :: "claims \<Rightarrow> string" where
  "enc_token cl = replicate (to_nat (sub cl, exp_at cl, scopes cl, jti cl)) (CHR ''x'')"

definition dec_token :: "u64 \<Rightarrow> string \<Rightarrow> jwt_error + claims" where
  "dec_token now token =
     (case from_nat (length token) of (s, e, sc, j) \<Rightarrow>
        if now \<le> e then Inr \<lparr>sub = s, exp_at = e, scopes = sc, jti = j\<rparr> else Inl ExpiredSignature)"

definition demo_auth :: auth_env where
  "demo_auth = \<lparr>jwt_encode = (\<lambda>cl. Inr (enc_token cl)), jwt_decode = dec_token,
     mac = (\<lambda>s. bytes_of s), hex_encode = (\<lambda>b. replicate (to_nat (map unat b)) (CHR ''x'')),
     hex_decode = (\<lambda>s. Some (map word_of_nat (from_nat (length s)))),
     json_text = (\<lambda>v. replicate (to_nat v) (CHR ''x'')), json_parse = (\<lambda>s. Some (from_nat (length s))),
     bcrypt_hash = Inr, bcrypt_verify = (\<lambda>p h. Inr (p = h))\<rparr>"

lemma demo_auth_ok: "jwt_ok demo_auth" "text_ok demo_auth"
proof -
  show "jwt_ok demo_auth"
    by (simp add: jwt_ok_def demo_auth_def enc_token_def dec_token_def)
  have "str_ok (replicate n (CHR ''x''))" for n
    by (induction n) (simp_all add: str_ok_def bytes_of_def)
  then show "text_ok demo_auth"
    by (simp add: text_ok_def demo_auth_def comp_def)
qed

abbreviation demo_old :: string where
  "demo_old \<equiv> enc_token \<lparr>sub = ''u'', exp_at = 100, scopes = [''read:a:k''], jti = ''j''\<rparr>"

lemma demo_verify:
  "now \<le> 100 \<Longrightarrow> verify_token demo_auth now demo_old =
     Inr \<lparr>sub = ''u'', exp_at = 100, scopes = [''read:a:k''], jti = ''j''\<rparr>"
  by (simp add: verify_token_def demo_auth_def dec_token_def enc_token_def)

lemma demo_refresh:
  "\<exists>token. refresh_scoped_token demo_auth 5 0 ''j2'' demo_old 10 [] = (Inr (token, ''j2''), revoke ''j'' (secs 10) [])"
  using demo_verify [of 5]
  by (simp add: refresh_scoped_token_def is_admin_def is_revoked_def create_scoped_token_def demo_auth_def)

theorem refresh_rotates_witness:
  "\<exists>token st' cl'. refresh_scoped_token demo_auth 5 0 ''j2'' demo_old 10 [] = (Inr (token, ''j2''), st') \<and>
    auth_middleware demo_auth 5 (Some (''Bearer '' @ token)) (Some st') = Inr cl' \<and> scopes cl' = [''read:a:k'']"
proof -
  obtain token where r: "refresh_scoped_token demo_auth 5 0 ''j2'' demo_old 10 [] =
      (Inr (token, ''j2''), revoke ''j'' (secs 10) [])"
    using demo_refresh by blast
  show ?thesis
    using refresh_rotates [OF demo_auth_ok(1) r] r demo_verify [of 5] by (auto simp: is_revoked_def)
qed

lemma demo_str_ok: "str_ok ''a''" "str_ok ''b''"
  by (simp_all add: str_ok_def bytes_of_def)

theorem revocation_file_roundtrip_witness:
  "\<exists>st'. load_from_file demo_auth 6 0 (Contents (save_to_file demo_auth 0 5 id [(''a'', secs 9)])) = Inr st' \<and>
    is_revoked ''a'' st'"
proof -
  have "6 < deadline_secs 0 5 (secs 9)" by (simp add: deadline_secs_def secs_def)
  then show ?thesis
    using revocation_file_roundtrip [OF demo_auth_ok(2), of id "[(''a'', secs 9)]" 6 0 0 5] demo_str_ok by auto
qed

end
