(* ===== verification/Routes.thy ===== *)
theory Routes
  imports GetHandler Auth
begin

text \<open>
  The HTTP endpoints of the server (\<open>route_handlers.rs\<close>): which scope a request needs, how a read is
  narrowed to what a token may see, and the request handler it is passed to. The claims are those
  that the authentication middleware attached to the request.
\<close>

section \<open>State and constants\<close>

record app_state =
  app_users :: user_store
  app_limits :: limits
  root_username :: string
  root_token_ttl :: u64

definition DEFAULT_DELEGATE_TTL_SECS :: u64 where
  "DEFAULT_DELEGATE_TTL_SECS = 3600"

definition DEFAULT_REVOKE_TTL_SECS :: u64 where
  "DEFAULT_REVOKE_TTL_SECS = 86400"

abbreviation ACTION_READ :: string where "ACTION_READ \<equiv> ''read''"
abbreviation ACTION_WRITE :: string where "ACTION_WRITE \<equiv> ''write''"
abbreviation ACTION_DELETE :: string where "ACTION_DELETE \<equiv> ''delete''"

text \<open>\<open>StatusCode::from_u16(code).unwrap_or(INTERNAL_SERVER_ERROR)\<close>\<close>

definition status_of :: "nat \<Rightarrow> nat" where
  "status_of code = (if 100 \<le> code \<and> code < 1000 then code else 500)"

definition reply :: "response outcome \<times> db \<Rightarrow> response outcome \<times> db" where
  "reply r =
     (case r of (Returns (code, body), db) \<Rightarrow> (Returns (status_of code, body), db) | (Aborts, db) \<Rightarrow> (Aborts, db))"

definition error_body :: "nat \<Rightarrow> string \<Rightarrow> response" where
  "error_body code msg = (code, Object (of_entries [(''error'', String msg)]))"

definition forbidden :: "string \<Rightarrow> response" where
  "forbidden msg = error_body 403 msg"

definition requested_collection :: "json \<Rightarrow> string" where
  "requested_collection payload =
     (case Option.bind (pget payload Collection) as_str of Some c \<Rightarrow> c | None \<Rightarrow> [])"

definition requires_scope :: "string \<Rightarrow> string \<Rightarrow> string" where
  "requires_scope action collection =
     ''Forbidden: token requires '' @ quoted (action @ '':'' @ collection @ '':*'') @ '' scope''"

definition lacks_scope :: "string \<Rightarrow> string \<Rightarrow> string" where
  "lacks_scope collection key =
     ''Forbidden: token lacks '' @ quoted (''read:'' @ collection @ '':'' @ key) @ '' scope''"

section \<open>Tokens\<close>

record delegate_request =
  client_id :: string
  requested_scopes :: "string list"
  ttl_secs :: "u64 option"

fun auth_error_text :: "(jwt_error \<Rightarrow> string) \<Rightarrow> auth_error \<Rightarrow> string" where
  "auth_error_text jwt_text (InvalidToken e) = ''Invalid token: '' @ jwt_text e"
| "auth_error_text jwt_text TokenExpired = ''Token has expired''"
| "auth_error_text jwt_text TokenRevoked = ''Token has been revoked''"
| "auth_error_text jwt_text RefreshNotAllowed =
     ''Admin tokens (*:*:*) cannot be refreshed via this endpoint '' @ [CHR 0xE2, CHR 0x80, CHR 0x94] @
     '' re-delegate via POST /auth/delegate''"
| "auth_error_text jwt_text (RoleNotFound role) = ''Role not found: '' @ role"
| "auth_error_text jwt_text (HashError e) = ''Password hashing error: '' @ e"

definition malformed_scope :: "string \<Rightarrow> bool" where
  "malformed_scope scope \<longleftrightarrow> scope \<noteq> ROOT_SCOPE \<and> length (splitn 3 (CHR '':'') scope) \<noteq> 3"

text \<open>For a reading of the clock and a fresh identifier.\<close>

definition handle_delegate :: "auth_env \<Rightarrow> (jwt_error \<Rightarrow> string) \<Rightarrow> u64 \<Rightarrow> string \<Rightarrow> app_state \<Rightarrow> claims \<Rightarrow>
    delegate_request \<Rightarrow> response" where
  "handle_delegate ae jwt_text now new_id app cl payload =
     (if \<not> is_admin cl then forbidden ''Admin access required to delegate tokens''
      else if ROOT_SCOPE \<in> set (requested_scopes payload) \<and> sub cl \<noteq> root_username app then
        forbidden (''Only the root user can mint '' @ quoted ROOT_SCOPE @ '' (admin) tokens'')
      else case List.find malformed_scope (requested_scopes payload) of
        Some scope \<Rightarrow>
          error_body 400 (''Invalid scope '' @ quoted scope @ ''. Expected format: '' @ quoted ''action:collection:key'')
      | None \<Rightarrow>
          (case create_scoped_token ae now new_id (client_id payload) (requested_scopes payload)
                  (case ttl_secs payload of Some t \<Rightarrow> t | None \<Rightarrow> DEFAULT_DELEGATE_TTL_SECS) of
             Inl e \<Rightarrow> error_body 500 (''Token creation failed: '' @ auth_error_text jwt_text e)
           | Inr (token, new_jti) \<Rightarrow>
               (200, Object (of_entries [(''token'', String token), (''client_id'', String (client_id payload)),
                 (''scopes'', Array (map String (requested_scopes payload))), (''jti'', String new_jti)]))))"

definition handle_login :: "auth_env \<Rightarrow> u64 \<Rightarrow> string \<Rightarrow> app_state \<Rightarrow> string \<Rightarrow> string \<Rightarrow> response" where
  "handle_login ae now new_id app username password =
     (if verify_user ae (app_users app) username password then
        (case create_token ae now new_id username (root_token_ttl app) of
           Inr token \<Rightarrow> (200, Object (of_entries [(''token'', String token)]))
         | Inl _ \<Rightarrow> error_body 500 ''Failed to create token'')
      else error_body 401 ''Invalid credentials'')"

text \<open>
  The revocation store and its file. A failed write leaves the file as it was and is only reported.
\<close>

record sessions =
  revoked :: revocations
  revocations_file :: text_file

record moment =
  now_unix :: u64
  now_instant :: instant
  iteration :: "revocations \<Rightarrow> revocations"
  write_succeeds :: bool

definition persist :: "auth_env \<Rightarrow> moment \<Rightarrow> sessions \<Rightarrow> sessions" where
  "persist ae m s =
     (if write_succeeds m then
        s\<lparr>revocations_file := Contents (save_to_file ae (now_instant m) (now_unix m) (iteration m) (revoked s))\<rparr>
      else s)"

fun refresh_failure :: "(jwt_error \<Rightarrow> string) \<Rightarrow> auth_error \<Rightarrow> response" where
  "refresh_failure jwt_text RefreshNotAllowed =
     forbidden (''Admin tokens cannot be refreshed '' @ [CHR 0xE2, CHR 0x80, CHR 0x94] @
       '' re-delegate via POST /auth/delegate'')"
| "refresh_failure jwt_text TokenRevoked = error_body 401 ''Token has been revoked''"
| "refresh_failure jwt_text TokenExpired =
     error_body 401 (''Token has expired '' @ [CHR 0xE2, CHR 0x80, CHR 0x94] @ '' re-authenticate via POST /auth/login'')"
| "refresh_failure jwt_text (InvalidToken _) =
     error_body 401 (''Invalid token '' @ [CHR 0xE2, CHR 0x80, CHR 0x94] @ '' re-authenticate via POST /auth/login'')"
| "refresh_failure jwt_text e = error_body 500 (''Unexpected error: '' @ auth_error_text jwt_text e)"

definition handle_refresh :: "auth_env \<Rightarrow> (jwt_error \<Rightarrow> string) \<Rightarrow> moment \<Rightarrow> string \<Rightarrow> string option \<Rightarrow> json option \<Rightarrow>
    sessions \<Rightarrow> response \<times> sessions" where
  "handle_refresh ae jwt_text m new_id auth_header body s =
     (case auth_header of
        Some header \<Rightarrow>
          (if starts_with ''Bearer '' header then
             (let ttl = (case Option.bind (Option.bind body (\<lambda>b. vget b ''ttl_secs'')) as_u64 of
                    Some t \<Rightarrow> t | None \<Rightarrow> DEFAULT_DELEGATE_TTL_SECS)
              in case refresh_scoped_token ae (now_unix m) (now_instant m) new_id (drop 7 header) ttl (revoked s) of
                   (Inr (new_token, new_jti), st) \<Rightarrow>
                     ((200, Object (of_entries [(''token'', String new_token), (''jti'', String new_jti),
                        (''expires_in'', json_u64 ttl)])), persist ae m (s\<lparr>revoked := st\<rparr>))
                 | (Inl e, st) \<Rightarrow> (refresh_failure jwt_text e, s\<lparr>revoked := st\<rparr>))
           else (error_body 401 ''Missing or invalid Authorization header'', s))
      | None \<Rightarrow> (error_body 401 ''Missing or invalid Authorization header'', s))"

definition handle_revoke :: "auth_env \<Rightarrow> moment \<Rightarrow> claims \<Rightarrow> string \<Rightarrow> json \<Rightarrow> sessions \<Rightarrow> response \<times> sessions" where
  "handle_revoke ae m cl token_id payload s =
     (if \<not> is_admin cl then (forbidden ''Admin access required to revoke tokens'', s)
      else if token_id = [] then (error_body 400 ''jti must not be empty'', s)
      else
        let prune_after = now_instant m + secs
              (case Option.bind (pget payload Exp) as_u64 of
                 Some exp_secs \<Rightarrow> if now_unix m \<le> exp_secs then exp_secs - now_unix m else 0
               | None \<Rightarrow> DEFAULT_REVOKE_TTL_SECS)
        in ((200, Object (of_entries [(''revoked'', String token_id),
               (''message'', String ''Token has been revoked successfully'')])),
            persist ae m (s\<lparr>revoked := revoke token_id prune_after (revoked s)\<rparr>)))"

section \<open>Writes\<close>

definition handle_set :: "world \<Rightarrow> app_state \<Rightarrow> claims \<Rightarrow> json \<Rightarrow> db \<Rightarrow> response outcome \<times> db" where
  "handle_set w app cl payload db =
     (let collection = requested_collection payload in
      if \<not> has_collection_access cl ACTION_WRITE collection
      then (Returns (forbidden (requires_scope ACTION_WRITE collection)), db)
      else reply (process_set w payload (app_limits app) db))"

definition handle_update :: "world \<Rightarrow> app_state \<Rightarrow> claims \<Rightarrow> json \<Rightarrow> db \<Rightarrow> response outcome \<times> db" where
  "handle_update w app cl payload db =
     (let collection = requested_collection payload in
      if \<not> has_collection_access cl ACTION_WRITE collection
      then (Returns (forbidden (requires_scope ACTION_WRITE collection)), db)
      else reply (process_update w payload (app_limits app) db))"

definition handle_delete :: "world \<Rightarrow> app_state \<Rightarrow> claims \<Rightarrow> json \<Rightarrow> db \<Rightarrow> response outcome \<times> db" where
  "handle_delete w app cl payload db =
     (let collection = requested_collection payload in
      if \<not> has_collection_access cl ACTION_DELETE collection
      then (Returns (forbidden (requires_scope ACTION_DELETE collection)), db)
      else reply (process_delete w payload (app_limits app) db))"

text \<open>The schema endpoint takes no claims.\<close>

definition handle_schema :: "world \<Rightarrow> app_state \<Rightarrow> json \<Rightarrow> db \<Rightarrow> response outcome \<times> db" where
  "handle_schema w app payload db = reply (process_schema w payload (app_limits app) db)"

definition handle_snapshot :: "world \<Rightarrow> claims \<Rightarrow> db \<Rightarrow> response outcome \<times> db" where
  "handle_snapshot w cl db =
     (if \<not> is_admin cl then (Returns (forbidden ''Forbidden: snapshot requires admin scope''), db)
      else reply (process_snapshot w db))"

definition handle_stats_post :: "world \<Rightarrow> json \<Rightarrow> db \<Rightarrow> response outcome \<times> db" where
  "handle_stats_post w payload db = reply (process_stats w payload db)"

definition handle_stats_get :: "world \<Rightarrow> db \<Rightarrow> response outcome \<times> db" where
  "handle_stats_get w db = reply (process_stats w (Object []) db)"

definition handle_health :: response where
  "handle_health = ok_body [(''message'', String ''MoltenDB is running'')]"

section \<open>Reads\<close>

definition run_get :: "world \<Rightarrow> app_state \<Rightarrow> json \<Rightarrow> db \<Rightarrow> response \<times> db" where
  "run_get w app payload db =
     (case process_get w payload (app_limits app) db of ((code, body), db') \<Rightarrow> ((status_of code, body), db'))"

text \<open>The keys a request names; anything but a string or an array names none.\<close>

definition requested_keys :: "json \<Rightarrow> string list" where
  "requested_keys keys_val =
     (case keys_val of String s \<Rightarrow> [s] | Array arr \<Rightarrow> List.map_filter as_str arr | _ \<Rightarrow> [])"

text \<open>
  \<open>payload[k] = v\<close>: \<open>Null\<close> becomes an object; the assignment panics on any other value that is not an
  object.
\<close>

definition vset :: "json \<Rightarrow> string \<Rightarrow> json \<Rightarrow> json outcome" where
  "vset payload k v =
     (case payload of Object m \<Rightarrow> Returns (Object (bt_insert k v m)) | Null \<Rightarrow> Returns (Object [(k, v)]) | _ \<Rightarrow> Aborts)"

definition vremove :: "json \<Rightarrow> string \<Rightarrow> json" where
  "vremove payload k = (case payload of Object m \<Rightarrow> Object (bt_remove k m) | _ \<Rightarrow> payload)"

definition narrow_to_prefixes :: "claims \<Rightarrow> string \<Rightarrow> json \<Rightarrow> json outcome" where
  "narrow_to_prefixes cl collection payload =
     (let pfxs = extract_prefixes cl ACTION_READ collection;
          stripped = vremove payload (field_str AllowedPrefixes)
      in if pfxs \<noteq> [] then vset stripped (field_str AllowedPrefixes) (Array (map String pfxs)) else Returns stripped)"

definition run_scoped :: "world \<Rightarrow> app_state \<Rightarrow> json outcome \<Rightarrow> db \<Rightarrow> response outcome \<times> db" where
  "run_scoped w app scoped db =
     (case scoped of Aborts \<Rightarrow> (Aborts, db)
      | Returns payload \<Rightarrow> (case run_get w app payload db of (r, db') \<Rightarrow> (Returns r, db')))"

definition handle_get :: "world \<Rightarrow> app_state \<Rightarrow> claims \<Rightarrow> json \<Rightarrow> db \<Rightarrow> response outcome \<times> db" where
  "handle_get w app cl payload db =
     (let collection = requested_collection payload in
      if has_collection_access cl ACTION_READ collection then run_scoped w app (Returns payload) db
      else
        let allowed = allowed_keys cl ACTION_READ collection in
        if allowed = [] then
          (Returns (forbidden (''Forbidden: token has no read access to collection '' @ quoted collection)), db)
        else case pget payload Keys of
          Some keys_val \<Rightarrow>
            (case List.find (\<lambda>k. \<not> has_access cl ACTION_READ collection k) (requested_keys keys_val) of
               Some k \<Rightarrow> (Returns (forbidden (lacks_scope collection k)), db)
             | None \<Rightarrow> run_scoped w app (Returns payload) db)
        | None \<Rightarrow>
            (if has_prefix_wildcard cl ACTION_READ collection
             then run_scoped w app (narrow_to_prefixes cl collection payload) db
             else run_scoped w app (vset payload (field_str Keys) (Array (map String allowed))) db))"

definition handle_rest_get :: "world \<Rightarrow> app_state \<Rightarrow> claims \<Rightarrow> string \<Rightarrow> string \<Rightarrow> db \<Rightarrow> response \<times> db" where
  "handle_rest_get w app cl collection key db =
     (if \<not> has_access cl ACTION_READ collection key then (forbidden (lacks_scope collection key), db)
      else run_get w app (Object (of_entries [(''collection'', String collection), (''keys'', String key)])) db)"

definition query_u64 :: "(string, string) dashmap \<Rightarrow> PayloadField \<Rightarrow> u64 option" where
  "query_u64 params f = Option.bind (dm_get params (field_str f)) parse_u64"

definition handle_rest_get_collection :: "world \<Rightarrow> app_state \<Rightarrow> claims \<Rightarrow> string \<Rightarrow> (string, string) dashmap \<Rightarrow>
    db \<Rightarrow> response \<times> db" where
  "handle_rest_get_collection w app cl collection params db =
     (if \<not> has_collection_access cl ACTION_READ collection
      then (forbidden (requires_scope ACTION_READ collection), db)
      else
        let paging = (case query_u64 params Limit of Some n \<Rightarrow> [(field_str Count, json_u64 n)] | None \<Rightarrow> []) @
              (case query_u64 params Offset of Some n \<Rightarrow> [(field_str Offset, json_u64 n)] | None \<Rightarrow> [])
        in run_get w app (Object (of_entries ((''collection'', String collection) # paging))) db)"

end
