(* ===== verification/Coalesce.thy ===== *)
theory Coalesce
  imports Scan
begin

text \<open>
  The coordinator of shared scans (\<open>coalesce.rs\<close>) against a plain evaluation of each request: sharing a
  pass, the division of the work among threads and the bounded heaps change no answer, and every
  request is answered.
\<close>

section \<open>The order of sort items\<close>

interpretation sort_items: bounded_scan sort_item_less
proof
  fix x y z :: sort_item
  show "\<not> sort_item_less x x" by (simp add: sort_item_less_def)
  show "sort_item_less x y \<Longrightarrow> sort_item_less y z \<Longrightarrow> sort_item_less x z"
    by (auto simp: sort_item_less_def)
  show "sort_item_less x y \<or> sort_item_less y x" if "x \<noteq> y"
  proof -
    have "si_key x \<noteq> si_key y \<or> si_value x \<noteq> si_value y" using that by (cases x, cases y) simp
    then show ?thesis using total_key_inj unfolding sort_item_less_def by (metis linorder_neqE)
  qed
qed

section \<open>The shared pass answers every request on its own\<close>

lemma map2_map: "map2 f xs (map g xs) = map (\<lambda>x. f x (g x)) xs"
  by (induction xs) simp_all

lemma fold_map2:
  "fold (\<lambda>e accs. map2 (f e) rs accs) xs (map g rs) = map (\<lambda>r. fold (\<lambda>e a. f e r a) xs (g r)) rs"
  by (induction xs arbitrary: g) (simp_all add: map2_map)

lemma zip3_map: "map (\<lambda>(r, a, b). h r a b) (zip rs (zip (map f rs) (map g rs))) = map (\<lambda>r. h r (f r) (g r)) rs"
  by (induction rs) simp_all

lemma shared_pass_each:
  "shared_pass skip rs t = map (\<lambda>r. par_fold (new_accumulator r) (\<lambda>e. task_step skip e r) (task_merge r) t) rs"
  unfolding shared_pass_def
  by (induction t) (simp_all add: fold_map2 zip3_map)

text \<open>What a request accumulates.\<close>

definition matches :: "(bytes \<Rightarrow> bytes option) \<Rightarrow> predicate \<Rightarrow> entry \<Rightarrow> (u64 \<times> string) option" where
  "matches skip pred e = (if pred (fst e) (snd e) then Some (seq_of skip (snd e), fst e) else None)"

definition sort_match :: "(bytes \<Rightarrow> bytes option) \<Rightarrow> predicate \<Rightarrow> string \<Rightarrow> bool \<Rightarrow> entry \<Rightarrow> sort_item option" where
  "sort_match skip pred sort_field is_descending e =
     (if pred (fst e) (snd e) then sort_item_of skip (split_on CHR ''.'' sort_field) is_descending e else None)"

lemma map_filter_simps' [simp]:
  "List.map_filter f [] = []"
  "List.map_filter f (xs @ ys) = List.map_filter f xs @ List.map_filter f ys"
  "List.map_filter f (x # xs) = (case f x of None \<Rightarrow> [] | Some y \<Rightarrow> [y]) @ List.map_filter f xs"
  by (simp_all add: List.map_filter_def split: option.split)

lemma filtered_pass:
  assumes "sr_kind r = Filtered need asc"
  shows "par_fold (new_accumulator r) (\<lambda>e. task_step skip e r) (task_merge r) t =
    AccFiltered (List.map_filter (matches skip (sr_predicate r)) (split_items t))"
proof -
  have run: "fold (\<lambda>e. task_step skip e r) xs (AccFiltered v) =
      AccFiltered (v @ List.map_filter (matches skip (sr_predicate r)) xs)" for xs v
    using assms by (induction xs arbitrary: v) (simp_all add: task_step_def matches_def)
  show ?thesis using assms by (induction t) (simp_all add: run new_accumulator_def task_merge_def)
qed

lemma sorted_pass:
  assumes "sr_kind r = SortedTopN sort_field is_descending cap"
  shows "par_fold (new_accumulator r) (\<lambda>e. task_step skip e r) (task_merge r) t =
    AccSorted (par_top sort_item_less cap (sort_match skip (sr_predicate r) sort_field is_descending) t)"
proof -
  have run: "fold (\<lambda>e. task_step skip e r) xs (AccSorted h) =
      AccSorted (fold (push_bounded sort_item_less cap)
        (List.map_filter (sort_match skip (sr_predicate r) sort_field is_descending) xs) h)" for xs h
    using assms by (induction xs arbitrary: h) (simp_all add: task_step_def sort_match_def split: option.split)
  show ?thesis using assms
    by (induction t) (simp_all add: run new_accumulator_def task_merge_def par_top_def fold_map_filter)
qed

section \<open>Reference answers\<close>

text \<open>
  What a request asks for, on the collection as a plain list: the matches in the order of their
  sequence numbers, or the first \<open>cap\<close> matches in the order of the sort field.
\<close>

definition scan_answer :: "(bytes \<Rightarrow> bytes option) \<Rightarrow> collection \<Rightarrow> scan_request \<Rightarrow> results" where
  "scan_answer skip col r =
     decode_winners col
       (case sr_kind r of
          Filtered need asc \<Rightarrow>
            map snd (let found = seq_sort asc (List.map_filter (matches skip (sr_predicate r)) col)
              in case need of Some n \<Rightarrow> take n found | None \<Rightarrow> found)
        | SortedTopN sort_field is_descending cap \<Rightarrow>
            map si_key (take cap (heap_sort sort_item_less
              (List.map_filter (sort_match skip (sr_predicate r) sort_field is_descending) col))))"

definition collection_ok :: "(bytes \<Rightarrow> bytes option) \<Rightarrow> collection \<Rightarrow> bool" where
  "collection_ok skip col \<longleftrightarrow> dm_ok col \<and> distinct (map (\<lambda>(k, bs). seq_of skip bs) col)"

lemma distinct_map_filter:
  assumes "distinct (map g xs)" and "\<And>x y. f x = Some y \<Longrightarrow> h y = g x"
  shows "distinct (map h (List.map_filter f xs)) \<and> set (map h (List.map_filter f xs)) \<subseteq> set (map g xs)"
  using assms(1)
proof (induction xs)
  case (Cons x xs)
  then show ?case using assms(2) [of x] by (cases "f x") auto
qed simp

lemma seq_sort_mset:
  assumes "mset xs = mset ys" and "distinct (map fst ys)"
  shows "seq_sort asc xs = seq_sort asc ys"
proof -
  have "inj_on fst (set ys)" using assms(2) by (simp add: distinct_map)
  then have "sort_key fst xs = sort_key fst ys"
    using assms(1) by (intro sort_key_inj_key_eq) (simp_all add: set_mset_mset flip: set_mset_mset)
  then show ?thesis by (simp add: seq_sort_def)
qed

lemma mset_map_filter: "mset xs = mset ys \<Longrightarrow> mset (List.map_filter f xs) = mset (List.map_filter f ys)"
  by (simp add: List.map_filter_def flip: mset_map) 
    (metis (no_types, lifting) image_mset_filter_mset_swap mset_filter mset_map)

lemma sort_match_key: "sort_match skip pred sort_field is_descending e = Some item \<Longrightarrow> si_key item = fst e"
  by (cases "find_msgpack_value skip (snd e) (split_on CHR ''.'' sort_field)")
    (auto simp: sort_match_def sort_item_of_def split: if_splits)

lemma scan_output_answer:
  assumes "divides rayon" and "collection_ok skip col"
  shows "scan_output col r (par_fold (new_accumulator r) (\<lambda>e. task_step skip e r) (task_merge r) (rayon col)) =
    scan_answer skip col r"
proof -
  have ms: "mset (split_items (rayon col)) = mset col" using assms(1) by (simp add: divides_def)
  have col: "distinct (map fst col)" "distinct (map (\<lambda>(k, bs). seq_of skip bs) col)"
    using assms(2) by (simp_all add: collection_ok_def dm_ok_def)
  show ?thesis
  proof (cases "sr_kind r")
    case (Filtered need asc)
    let ?f = "List.map_filter (matches skip (sr_predicate r))"
    have dist: "distinct (map fst (?f col))"
      by (rule distinct_map_filter [OF col(2), THEN conjunct1]) (auto simp: matches_def split: if_splits)
    have "seq_sort asc (?f (split_items (rayon col))) = seq_sort asc (?f col)"
      by (rule seq_sort_mset [OF mset_map_filter [OF ms] dist])
    then show ?thesis
      unfolding filtered_pass [OF Filtered] scan_output_def scan_answer_def Filtered Let_def
      by (cases need) (simp_all only: scan_kind.case accum.case prod.case option.case)
  next
    case (SortedTopN sort_field is_descending cap)
    let ?g = "sort_match skip (sr_predicate r) sort_field is_descending"
    have "distinct (map si_key (List.map_filter ?g col))"
      by (rule distinct_map_filter [OF col(1), THEN conjunct1]) (rule sort_match_key)
    then have dc: "distinct (List.map_filter ?g col)" by (simp add: distinct_map)
    have ms': "mset (List.map_filter ?g (split_items (rayon col))) = mset (List.map_filter ?g col)"
      by (rule mset_map_filter [OF ms])
    then have ds: "distinct (List.map_filter ?g (split_items (rayon col)))"
      using dc by (metis mset_eq_imp_distinct_iff)
    have "par_top sort_item_less cap ?g (rayon col) = take cap (heap_sort sort_item_less (List.map_filter ?g col))"
      using sort_items.par_top_sorted [OF ds] sort_items.heap_sort_set [OF ds dc mset_eq_setD [OF ms']] by simp
    then show ?thesis by (simp add: SortedTopN sorted_pass [OF SortedTopN] scan_output_def scan_answer_def)
  qed
qed

lemma run_batch_answer:
  assumes "divides rayon" and "dm_get state c = Some col" and "collection_ok skip col"
  shows "run_batch_for_collection skip rayon state c rs = map (scan_answer skip col) rs"
  unfolding run_batch_for_collection_def assms(2) option.case shared_pass_each map2_map
    scan_output_answer [OF assms(1,3)] ..

definition state_answer :: "(bytes \<Rightarrow> bytes option) \<Rightarrow> (string, collection) dashmap \<Rightarrow> scan_request \<Rightarrow> results" where
  "state_answer skip state r =
     (case dm_get state (sr_collection r) of None \<Rightarrow> [] | Some col \<Rightarrow> scan_answer skip col r)"

definition state_ok :: "(bytes \<Rightarrow> bytes option) \<Rightarrow> (string, collection) dashmap \<Rightarrow> bool" where
  "state_ok skip state \<longleftrightarrow> (\<forall>(c, col)\<in>set state. collection_ok skip col)"

lemma run_batch_state:
  assumes "divides rayon" and "\<And>col. dm_get state c = Some col \<Longrightarrow> collection_ok skip col"
    and "\<forall>r\<in>set rs. sr_collection r = c"
  shows "run_batch_for_collection skip rayon state c rs = map (state_answer skip state) rs"
proof (cases "dm_get state c")
  case None
  then show ?thesis using assms(3) by (simp add: run_batch_for_collection_def state_answer_def)
next
  case (Some col)
  note batch = run_batch_answer [OF assms(1) Some assms(2) [OF Some]]
  show ?thesis unfolding batch using assms(3) Some by (simp add: state_answer_def)
qed

lemma scanned_ok: "state_ok skip state \<Longrightarrow> dm_get state c = Some col \<Longrightarrow> collection_ok skip col"
  by (auto simp: state_ok_def dest: map_of_SomeD)

text \<open>The answer to a request depends on the collection it names alone.\<close>

lemma submit_answer_col:
  assumes "divides rayon" and "\<And>col. dm_get state (sr_collection req) = Some col \<Longrightarrow> collection_ok skip col"
  shows "submit skip rayon state ahead req behind = state_answer skip state req"
proof -
  let ?same = "filter (\<lambda>r. sr_collection r = sr_collection req)"
  have split: "?same (ahead @ req # behind) = ?same ahead @ req # ?same behind" by simp
  have "\<forall>r\<in>set (?same (ahead @ req # behind)). sr_collection r = sr_collection req" by auto
  from run_batch_state [OF assms this] show ?thesis
    unfolding submit_def Let_def split by (simp add: nth_append)
qed

text \<open>
  C38. Sharing a pass changes no answer: whatever other requests are in the batch and however the work
  is divided among threads, a request gets what a plain evaluation of it on the collection gives: the matching
  documents in the order of their sequence numbers, or the first \<open>cap\<close> of them in the order of the
  sort field.
\<close>
theorem coalesced_answers:
  assumes "divides rayon" and "state_ok skip state"
  shows "submit skip rayon state ahead req behind = state_answer skip state req"
  by (rule submit_answer_col [OF assms(1) scanned_ok [OF assms(2)]])

lemma answer_batch_members:
  assumes "divides rayon" and "state_ok skip state"
  shows "set (answer_batch skip rayon state batch) = (\<lambda>r. (r, state_answer skip state r)) ` set batch"
    and "mset (map fst (answer_batch skip rayon state batch)) = mset batch"
proof -
  let ?part = "\<lambda>c. filter (\<lambda>req. sr_collection req = c) batch"
  have part: "zip (?part c) (run_batch_for_collection skip rayon state c (?part c)) =
      map (\<lambda>r. (r, state_answer skip state r)) (?part c)" for c
    using run_batch_state [OF assms(1) scanned_ok [OF assms(2)], where c = c and rs = "?part c"] by (simp add: zip_map_self)
  show "set (answer_batch skip rayon state batch) = (\<lambda>r. (r, state_answer skip state r)) ` set batch"
    by (auto simp: answer_batch_def Let_def part)
  have sum: "mset (concat (map (\<lambda>c. ?part c) cs)) = filter_mset (\<lambda>r. sr_collection r \<in> set cs) (mset batch)"
    if "distinct cs" for cs
    using that
  proof (induction cs)
    case (Cons c cs)
    have "filter_mset (\<lambda>r. sr_collection r \<in> set (c # cs)) (mset batch) =
        filter_mset (\<lambda>r. sr_collection r = c) (mset batch) + filter_mset (\<lambda>r. sr_collection r \<in> set cs) (mset batch)"
      using Cons.prems by (induction batch) auto
    then show ?case using Cons by (simp add: mset_filter)
  qed simp
  have "map fst (answer_batch skip rayon state batch) = concat (map (\<lambda>c. ?part c) (remdups (map sr_collection batch)))"
    by (simp add: answer_batch_def Let_def part map_concat o_def)
  then show "mset (map fst (answer_batch skip rayon state batch)) = mset batch"
    using sum [of "remdups (map sr_collection batch)"] by (simp add: filter_mset_eq_conv flip: mset_filter)
qed

inductive_cases coordinator_stepE: "coordinator_step skip rayon state s s'"

text \<open>
  C39. The coordinator answers every request exactly once and correctly: while requests wait, it takes a step that
  shortens the queue; and at any moment the requests are those still waiting and those answered, each answer being that
  of a plain evaluation.
\<close>
theorem coordinator_answers_all:
  assumes "divides rayon" and "state_ok skip state"
    and "(coordinator_step skip rayon state)\<^sup>*\<^sup>* (requests, []) (queue, answers)"
  shows "mset requests = mset queue + mset (map fst answers) \<and>
    (\<forall>(r, res)\<in>set answers. res = state_answer skip state r) \<and>
    (queue \<noteq> [] \<longrightarrow> (\<exists>queue' answers'. coordinator_step skip rayon state (queue, answers) (queue', answers') \<and>
       length queue' < length queue))"
proof -
  have "mset requests = mset queue + mset (map fst answers) \<and>
    (\<forall>(r, res)\<in>set answers. res = state_answer skip state r)"
    using assms(3)
  proof (induction "(queue, answers)" arbitrary: queue answers rule: rtranclp_induct)
    case (step s)
    obtain q a where s: "s = (q, a)" by (cases s)
    from step.hyps(2) [unfolded s] obtain batch where
      "q = batch @ queue" "answers = a @ answer_batch skip rayon state batch"
      by (auto elim: coordinator_stepE)
    moreover note step.hyps(3) [OF s] answer_batch_members [OF assms(1,2), of batch]
    ultimately show ?case by auto
  qed simp
  moreover have "coordinator_step skip rayon state (r # q, answers) (q, answers @ answer_batch skip rayon state [r])" for r q
    using coordinator_step.intros [of "[r]" skip rayon state q answers] by (simp add: MAX_BATCH_def)
  then have "\<exists>queue' answers'. coordinator_step skip rayon state (queue, answers) (queue', answers') \<and>
      length queue' < length queue" if "queue \<noteq> []"
    using that by (cases queue) auto
  ultimately show ?thesis by blast
qed

section \<open>An example\<close>

definition demo_item :: "u64 \<Rightarrow> u64 \<Rightarrow> json" where
  "demo_item seq price = Object [(IKEY_SEQ, json_u64 seq), (''price'', json_u64 price)]"

definition demo_state :: "(string, collection) dashmap" where
  "demo_state = [(''laptops'', [(''a'', value_to_msgpack (demo_item 1 900)), (''b'', value_to_msgpack (demo_item 2 700))])]"

definition demo_request :: scan_request where
  "demo_request = \<lparr>sr_collection = ''laptops'', sr_predicate = (\<lambda>key bs. True), sr_kind = SortedTopN ''price'' True 1\<rparr>"

lemma demo_item_ok: "doc_ok (demo_item seq price)"
  by (simp add: demo_item_def doc_ok_def str_ok_def bytes_of_def len_ok_def json_u64_def)

lemma seq_of_written: "skips_values skip \<Longrightarrow> doc_ok v \<Longrightarrow> seq_of skip (value_to_msgpack v) = raw_seq v"
  by (simp add: seq_of_def)

lemma demo_state_ok: "state_ok skip_by_reading demo_state"
  by (simp add: state_ok_def demo_state_def collection_ok_def dm_ok_def seq_of_written demo_item_ok)
    (simp add: demo_item_def raw_seq_def raw_field_def key_token_def)

lemma divides_Run: "divides Run"
  by (simp add: divides_def)

theorem coalesced_answers_witness:
  "submit skip_by_reading Run demo_state [demo_request] demo_request [] = state_answer skip_by_reading demo_state demo_request"
  by (rule coalesced_answers [OF divides_Run demo_state_ok])

theorem coordinator_answers_all_witness:
  "\<exists>queue answers. (coordinator_step skip_by_reading Run demo_state)\<^sup>*\<^sup>* ([demo_request, demo_request], []) (queue, answers) \<and>
    mset [demo_request, demo_request] = mset queue + mset (map fst answers)"
proof -
  have "(coordinator_step skip_by_reading Run demo_state)\<^sup>*\<^sup>* ([demo_request, demo_request], [])
      ([], [] @ answer_batch skip_by_reading Run demo_state [demo_request, demo_request])"
    using coordinator_step.intros [of "[demo_request, demo_request]" skip_by_reading Run demo_state "[]" "[]"]
    by (intro r_into_rtranclp) (simp add: MAX_BATCH_def)
  with coordinator_answers_all [OF divides_Run demo_state_ok this] show ?thesis by blast
qed

section \<open>The sequence index and the scan give the same pages\<close>

text \<open>The index of a collection lists its documents by sequence number; every document can be decoded.\<close>

definition index_ok :: "(bytes \<Rightarrow> bytes option) \<Rightarrow> collection \<Rightarrow> (u64, string) btreemap \<Rightarrow> bool" where
  "index_ok skip col idx \<longleftrightarrow> bt_ok idx \<and> set idx = (\<lambda>(k, bs). (seq_of skip bs, k)) ` set col"

definition decodable :: "collection \<Rightarrow> bool" where
  "decodable col \<longleftrightarrow> (\<forall>(k, bs)\<in>set col. msgpack_to_value bs \<noteq> None)"

definition wanted :: "predicate \<Rightarrow> collection \<Rightarrow> u64 \<times> string \<Rightarrow> bool" where
  "wanted pred col p \<longleftrightarrow> (case dm_get col (snd p) of Some bs \<Rightarrow> pred (snd p) bs | None \<Rightarrow> False)"

lemma decode_winners_map:
  assumes "decodable col" and "\<forall>k\<in>set ks. dm_get col k \<noteq> None"
  shows "decode_winners col ks = map (\<lambda>k. (k, the (msgpack_to_value (the (dm_get col k))))) ks"
  using assms(2)
proof (induction ks)
  case (Cons k ks)
  then obtain bs where bs: "dm_get col k = Some bs" by auto
  then obtain v where "msgpack_to_value bs = Some v" using assms(1) by (force simp: decodable_def dest: map_of_SomeD)
  with bs Cons show ?case by (simp add: decode_winners_def)
qed (simp add: decode_winners_def)

lemma index_scan_take:
  assumes "decodable col" and "length found < need"
  shows "index_scan pred col need found idx =
    found @ take (need - length found) (decode_winners col (map snd (filter (wanted pred col) idx)))"
  using assms(2)
proof (induction idx arbitrary: found)
  case (Cons p idx)
  obtain seq key where p: "p = (seq, key)" by (cases p)
  show ?case
  proof (cases "wanted pred col p")
    case False
    then show ?thesis using Cons by (auto simp: p wanted_def split: option.splits)
  next
    case True
    then obtain bs where bs: "dm_get col key = Some bs" "pred key bs" by (auto simp: p wanted_def split: option.splits)
    then obtain v where v: "msgpack_to_value bs = Some v" using assms(1) by (force simp: decodable_def dest: map_of_SomeD)
    show ?thesis
    proof (cases "need \<le> Suc (length found)")
      case True
      then have "need - length found = Suc 0" using Cons.prems by simp
      with True \<open>wanted pred col p\<close> bs v show ?thesis by (simp add: p decode_winners_def Let_def)
    next
      case False
      then have "need - length found = Suc (need - Suc (length found))" by simp
      with False Cons.IH [of "found @ [(key, v)]"] \<open>wanted pred col p\<close> bs v show ?thesis
        by (simp add: p decode_winners_def Let_def)
    qed
  qed
qed (simp add: decode_winners_def)

lemma set_map_filter: "y \<in> set (List.map_filter f xs) \<longleftrightarrow> (\<exists>x\<in>set xs. f x = Some y)"
  by (induction xs) (auto split: option.split)

lemma index_sorted:
  assumes "collection_ok skip col" and "index_ok skip col idx"
  shows "sort_key fst (List.map_filter (matches skip pred) col) = filter (wanted pred col) idx"
proof -
  have col: "distinct (map fst col)" "distinct (map (\<lambda>(k, bs). seq_of skip bs) col)"
    using assms(1) by (simp_all add: collection_ok_def dm_ok_def)
  have dm: "distinct (map fst (List.map_filter (matches skip pred) col))"
    by (rule distinct_map_filter [OF col(2), THEN conjunct1]) (auto simp: matches_def split: if_splits)
  have di: "distinct (map fst idx)" using assms(2) by (simp add: index_ok_def bt_distinct)
  have mem: "p \<in> set (List.map_filter (matches skip pred) col) \<longleftrightarrow> p \<in> set idx \<and> wanted pred col p" for p
  proof -
    have "p \<in> set (List.map_filter (matches skip pred) col) \<longleftrightarrow>
        (\<exists>(k, bs)\<in>set col. pred k bs \<and> p = (seq_of skip bs, k))"
      by (auto simp: set_map_filter matches_def split: if_splits) force
    also have "\<dots> \<longleftrightarrow> p \<in> set idx \<and> wanted pred col p"
      using assms(2) col(1) by (auto simp: index_ok_def wanted_def) blast
    finally show ?thesis .
  qed
  show ?thesis
  proof (rule sort_key_inj_key_eq)
    show "mset (List.map_filter (matches skip pred) col) = mset (filter (wanted pred col) idx)"
      using dm di mem by (subst set_eq_iff_mset_eq_distinct [symmetric]) (auto simp: distinct_map)
    show "inj_on fst (set (List.map_filter (matches skip pred) col))" using dm by (simp add: distinct_map)
    have "sorted (map fst idx)" using assms(2) by (auto simp: index_ok_def bt_ok_def intro: strict_sorted_imp_sorted)
    then show "sorted (map fst (filter (wanted pred col) idx))" by (rule sorted_filter)
  qed
qed

text \<open>A page of a scan is a page of the winners, in the order of their sequence numbers.\<close>

definition page_of :: "(bytes \<Rightarrow> bytes option) \<Rightarrow> collection \<Rightarrow> predicate \<Rightarrow> bool \<Rightarrow> results" where
  "page_of skip col pred asc = decode_winners col (map snd (seq_sort asc (List.map_filter (matches skip pred) col)))"

lemma matches_keys:
  assumes "dm_ok col" and "k \<in> snd ` set (List.map_filter (matches skip pred) col)"
  shows "dm_get col k \<noteq> None"
  using assms dm_get_in [OF assms(1)] by (fastforce simp: set_map_filter matches_def split: if_splits)

lemma where_page:
  assumes "dm_ok col" and "decodable col"
  shows "get_filtered_where skip col pred offset lim asc = take lim (drop offset (page_of skip col pred asc))"
    and "decode_winners col (map snd (take lim (seq_sort asc (List.map_filter (matches skip pred) col)))) =
      take lim (page_of skip col pred asc)"
proof -
  let ?keys = "map snd (seq_sort asc (List.map_filter (matches skip pred) col))"
  have matches: "List.map_filter (\<lambda>(key, bs). if pred key bs then Some (seq_of skip bs, key) else None) col =
      List.map_filter (matches skip pred) col"
    by (rule arg_cong [where f = "\<lambda>f. List.map_filter f col"]) (auto simp: matches_def fun_eq_iff)
  have keys: "set ?keys = snd ` set (List.map_filter (matches skip pred) col)" by (simp add: seq_sort_def)
  have in_col: "\<forall>k\<in>set ?keys. dm_get col k \<noteq> None"
    unfolding keys using matches_keys [OF assms(1)] by blast
  then have sub: "\<forall>k\<in>set (take m (drop j ?keys)). dm_get col k \<noteq> None" for m j
    by (meson in_set_dropD in_set_takeD)
  have page: "decode_winners col (take m (drop j ?keys)) = take m (drop j (page_of skip col pred asc))" for m j
    unfolding page_of_def decode_winners_map [OF assms(2) in_col] decode_winners_map [OF assms(2) sub]
    by (simp only: take_map drop_map)
  show "get_filtered_where skip col pred offset lim asc = take lim (drop offset (page_of skip col pred asc))"
    unfolding get_filtered_where_def matches Let_def using page [of lim offset] by (simp only: take_map drop_map)
  show "decode_winners col (map snd (take lim (seq_sort asc (List.map_filter (matches skip pred) col)))) =
      take lim (page_of skip col pred asc)"
    using page [of lim 0] by (simp only: take_map drop_0)
qed

lemma index_page:
  assumes "collection_ok skip col" and "index_ok skip col idx" and "decodable col"
  shows "get_filtered_index skip col (Some idx) pred offset lim asc = take lim (drop offset (page_of skip col pred asc))"
proof -
  let ?keys = "map snd (filter (wanted pred col) (if asc then idx else rev idx))"
  have "map snd (seq_sort asc (List.map_filter (matches skip pred) col)) = ?keys"
    by (simp add: seq_sort_def index_sorted [OF assms(1,2)] rev_filter)
  then have "page_of skip col pred asc = decode_winners col ?keys" by (simp only: page_of_def)
  then have "take lim (drop offset (index_scan pred col (offset + lim) [] (if asc then idx else rev idx))) =
      take lim (drop offset (page_of skip col pred asc))"
    using index_scan_take [OF assms(3), of "[]" "offset + lim" pred] by (cases "lim = 0") (auto simp: drop_take)
  then show ?thesis by (simp add: get_filtered_index_def)
qed

text \<open>
  A page read from the sequence index, which stops as soon as it has enough documents, is the page that a scan of the whole
  collection gives that sorts all matches by sequence number first.
\<close>
lemma index_page_agrees:
  assumes "collection_ok skip col" and "index_ok skip col idx" and "decodable col"
  shows "get_filtered_index skip col (Some idx) pred offset lim asc = get_filtered_where skip col pred offset lim asc"
  using index_page [OF assms] where_page(1) [OF _ assms(3)] assms(1) by (simp add: collection_ok_def)

end
