(* ===== verification/Access.thy ===== *)
theory Access
  imports Routes Coalesce
begin

text \<open>
  What a scoped token can read through \<open>POST /get\<close>: the documents of the answer are stored documents
  whose keys the token may read, and two ways in which the endpoint departs from its scopes.
\<close>

section \<open>Where the documents of an answer come from\<close>

lemma op_get_members:
  assumes "(k, v) \<in> set (op_get db c ks)"
  shows "k \<in> set ks \<and> stored_doc db c k = Some v"
proof (cases "dm_get (t_state db) c")
  case None
  then show ?thesis using assms by (simp add: op_get_def)
next
  case (Some col)
  let ?f = "\<lambda>k m. case Option.bind (dm_get col k) msgpack_to_value of Some v \<Rightarrow> dm_insert k v m | None \<Rightarrow> m"
  have "(k, v) \<in> set (fold ?f ks m) \<Longrightarrow>
      (k, v) \<in> set m \<or> k \<in> set ks \<and> Option.bind (dm_get col k) msgpack_to_value = Some v" for m
  proof (induction ks arbitrary: m)
    case (Cons x ks)
    then have "(k, v) \<in> set (?f x m) \<or> k \<in> set ks \<and> Option.bind (dm_get col k) msgpack_to_value = Some v"
      by simp
    then show ?case
      using set_dm_insert by (cases "Option.bind (dm_get col x) msgpack_to_value") fastforce+
  qed simp
  from this [of "[]"] show ?thesis using assms Some by (simp add: op_get_def stored_doc_def)
qed

lemma db_get_members:
  "(k, d) \<in> set (db_get db c ks) \<Longrightarrow>
     k \<in> set ks \<and> (\<exists>v. stored_doc db c k = Some v \<and> d = expand_system_fields v)"
  using op_get_members by (fastforce simp: db_get_def)

lemma decode_winners_members:
  "(k, v) \<in> set (decode_winners col ks) \<Longrightarrow> \<exists>bs. dm_get col k = Some bs \<and> msgpack_to_value bs = Some v"
  by (auto simp: decode_winners_def map_filter_in split: option.splits)

lemma index_scan_members:
  assumes "(k, v) \<in> set (index_scan pred col need found idx)"
  shows "(k, v) \<in> set found \<or> (\<exists>bs. dm_get col k = Some bs \<and> msgpack_to_value bs = Some v)"
  using assms
  by (induction pred col need found idx rule: index_scan.induct)
    (fastforce simp: Let_def split: option.splits if_splits)+

lemma seq_sort_set [simp]: "set (seq_sort asc xs) = set xs"
  by (simp add: seq_sort_def)

text \<open>The pairs of a filtered scan are stored documents.\<close>

lemma op_get_filtered_members:
  assumes "\<forall>(c, col)\<in>set (t_state db). dm_ok col"
    and "(k, v) \<in> set (op_get_filtered skip db c pred offset limit asc has_where)"
  shows "stored_doc db c k = Some v"
proof (cases "dm_get (t_state db) c")
  case None
  then show ?thesis using assms(2) by (simp add: op_get_filtered_def)
next
  case (Some col)
  then have "dm_ok col" using assms(1) map_of_SomeD by fastforce
  then have in_col: "(k', bs) \<in> set col \<longleftrightarrow> dm_get col k' = Some bs" for k' bs by (rule dm_get_in)
  have "(k, v) \<in> set (get_filtered_where skip col pred offset lim asc) \<Longrightarrow>
      \<exists>bs. dm_get col k = Some bs \<and> msgpack_to_value bs = Some v" for lim
    unfolding get_filtered_where_def Let_def by (rule decode_winners_members)
  moreover have "\<exists>bs. dm_get col k = Some bs \<and> msgpack_to_value bs = Some v"
    if m: "(k, v) \<in> set (get_filtered_index skip col index pred offset lim asc)" for lim index
  proof (cases index)
    case None
    then have "(k, v) \<in> snd ` set (List.map_filter (\<lambda>(key, bs). if pred key bs
        then map_option (\<lambda>v. (seq_of skip bs, key, v)) (msgpack_to_value bs) else None) col)"
      using m by (auto simp: get_filtered_index_def Let_def dest!: in_set_takeD in_set_dropD)
    then show ?thesis using in_col by (auto simp: map_filter_in split: if_splits)
  next
    case (Some idx)
    then have "(k, v) \<in> set (index_scan pred col (offset + lim) [] (if asc then idx else rev idx))"
      using m by (auto simp: get_filtered_index_def Let_def dest!: in_set_takeD in_set_dropD)
    from index_scan_members [OF this] show ?thesis by simp
  qed
  moreover have "(k, v) \<in> set (get_filtered_all skip col pred offset) \<Longrightarrow>
      \<exists>bs. dm_get col k = Some bs \<and> msgpack_to_value bs = Some v"
    by (auto simp: get_filtered_all_def Let_def map_filter_in split: option.splits)
  ultimately have "\<exists>bs. dm_get col k = Some bs \<and> msgpack_to_value bs = Some v"
    using assms(2) Some by (auto simp: op_get_filtered_def split: option.splits if_splits)
  then show ?thesis using Some by (auto simp: stored_doc_def)
qed


section \<open>Filtering, sorting and shaping\<close>

lemma filter_members:
  assumes "empty_or_none (gp_joins_req params)" and "filter_and_join_docs w db params raw = Inr docs"
    and "(k, doc, aliases) \<in> set docs"
  shows "(k, doc) \<in> set raw \<and> gate_open params k \<and> aliases = []"
  using assms(2,3)
proof (induction raw arbitrary: docs)
  case (Cons kd raw)
  obtain key d where kd: "kd = (key, d)" by (cases kd)
  have joins: "(case gp_joins_req params of Some joins \<Rightarrow> apply_joins db d joins | None \<Rightarrow> (d, [])) = (d, [])"
    using assms(1) by (auto simp: empty_or_none_def apply_joins_def split: option.splits)
  show ?case
  proof (cases "gate_open params key")
    case False
    then show ?thesis using Cons by (simp add: kd)
  next
    case True
    obtain docs' keep where "filter_and_join_docs w db params raw = Inr docs'"
      and "docs = (if keep then (key, d, []) # docs' else docs')"
      using Cons.prems(1) True by (auto simp: kd joins split: sum.splits)
    with Cons True show ?thesis by (auto simp: kd split: if_splits)
  qed
qed simp

lemma insort_by_set: "set (insort_by cmp x xs) = insert x (set xs)"
  by (induction xs) auto

lemma sort_by_set: "set (sort_by cmp xs) = set xs"
  by (induction xs) (simp_all add: sort_by_def insort_by_set)

text \<open>The documents of a body: the body itself where one key was asked for, else the array.\<close>

definition returned_documents :: "json \<Rightarrow> json \<Rightarrow> json list" where
  "returned_documents payload body =
     (case pget payload Keys of Some (String _) \<Rightarrow> [body] | _ \<Rightarrow> (case body of Array ds \<Rightarrow> ds | _ \<Rightarrow> [body]))"

text \<open>The form in which a stored document is presented: its shape, without its key where one key was asked for.\<close>

definition presents :: "json \<Rightarrow> db \<Rightarrow> string \<Rightarrow> string \<Rightarrow> json \<Rightarrow> json \<Rightarrow> bool" where
  "presents payload db col k v d \<longleftrightarrow>
     (let shaped = the (shape_doc (expand_system_fields v) k (payload_array payload Fields)
            (payload_array payload ExcludedFields) []
            (map_option (\<lambda>ms. String (ms_to_iso ms)) (get_ttl_expiry db col)))
      in d = shaped \<or> d = vremove shaped KEY)"

lemma shape_doc_Some: "\<exists>d. shape_doc doc k fs ex aliases exp = Some d"
  by (simp add: shape_doc_def Let_def)

lemma documents_response_200: "documents_response ds = (200, body) \<Longrightarrow> body = Array ds"
  by (simp add: documents_response_def get_error_def error_response_def split: if_splits)

lemma shape_and_return_members:
  assumes "shape_and_return w docs payload params = (200, body)" and "docs \<noteq> []"
    and "d \<in> set (returned_documents payload body)"
  shows "\<exists>j\<in>set docs. \<exists>s. shape_joined params j = Some s \<and> (d = s \<or> d = vremove s KEY)"
proof (cases "\<exists>s. pget payload Keys = Some (String s)")
  case True
  obtain k doc al where h: "hd docs = (k, doc, al)" by (metis prod_cases3)
  obtain s where s: "shape_joined params (hd docs) = Some s"
    using shape_doc_Some [of doc k "gp_fields_req params" "gp_excluded_req params" al "gp_expires_val params"]
    by (auto simp: h shape_joined_def)
  then have "body = s \<or> body = vremove s KEY"
    using True assms(1) by (auto simp: shape_and_return_def vremove_def split: json.splits)
  moreover have "d = body" using True assms(3) by (auto simp: returned_documents_def)
  ultimately show ?thesis using s assms(2) by (metis hd_in_set)
next
  case False
  define page where "page = drop (gp_offset params) (take (gp_offset params + gp_count_limit params)
    (case gp_sort_specs params of
       Some specs \<Rightarrow> sort_by (\<lambda>a b. make_comparator (world.json_text w) specs (fst (snd a)) (fst (snd b))) docs
     | None \<Rightarrow> docs))"
  have "shape_and_return w docs payload params = documents_response (List.map_filter (shape_joined params) page)"
    using False unfolding shape_and_return_def page_def Let_def
    by (cases "pget payload Keys") (auto split: json.splits)
  then have "body = Array (List.map_filter (shape_joined params) page)"
    using assms(1) documents_response_200 by simp
  then have "d \<in> set (List.map_filter (shape_joined params) page)"
    using assms(3) False by (auto simp: returned_documents_def split: option.splits json.splits)
  moreover have "set page \<subseteq> set docs"
    by (auto simp: page_def sort_by_set dest!: in_set_dropD in_set_takeD split: option.splits)
  ultimately show ?thesis by (auto simp: map_filter_in)
qed


section \<open>The answer to a narrowed request\<close>

lemma errors_not_200 [simp]:
  "get_error e \<noteq> (200, b)" "validation_response ve \<noteq> (200, b)"
  by (cases e; simp add: get_error_def error_response_def) (simp add: validation_response_def error_response_def)

text \<open>The documents a request can see: those of the keys it names, or those under the prefixes it is narrowed to.\<close>

definition confined :: "(string \<Rightarrow> bool) \<Rightarrow> json \<Rightarrow> bool" where
  "confined P payload \<longleftrightarrow>
     (case pget payload Keys of
        Some (String k) \<Rightarrow> P k
      | Some (Array arr) \<Rightarrow> list_all P (List.map_filter as_str arr)
      | Some _ \<Rightarrow> False
      | None \<Rightarrow>
        (case payload_array payload AllowedPrefixes of
           Some pfxs \<Rightarrow> pfxs \<noteq> [] \<and> (\<forall>k. has_some_prefix (List.map_filter as_str pfxs) k \<longrightarrow> P k)
         | None \<Rightarrow> False))"

lemma fetch_confined:
  assumes "\<forall>(c, col)\<in>set (t_state db). dm_ok col" and "confined P (fp_payload params)"
    and "fp_allowed_prefixes params = payload_array (fp_payload params) AllowedPrefixes"
    and "(k, d) \<in> set (fetch_documents w db params)"
  shows "(\<exists>v. stored_doc db (fp_col_name params) k = Some v \<and> d = expand_system_fields v) \<and>
    (pget (fp_payload params) Keys \<noteq> None \<longrightarrow> P k)"
proof (cases "pget (fp_payload params) Keys")
  case None
  then obtain pfxs where pfxs: "fp_allowed_prefixes params = Some pfxs" "pfxs \<noteq> []"
    using assms(2,3) by (auto simp: confined_def split: option.splits)
  have "\<exists>pred has_where. (k, d) \<in> set (db_get_filtered (skip_value (core w)) db (fp_col_name params) pred 0
      (if fp_has_sort params then None else Some (fp_offset params + fp_count_limit params))
      (fp_default_order_asc params) has_where)"
    using assms(4) None pfxs
    by (auto simp: fetch_documents_def fetch_scan_def choose_scan_strategy_def Let_def split: option.splits if_splits)
  then show ?thesis
    using None op_get_filtered_members [OF assms(1)] by (fastforce simp: db_get_filtered_def expand_results_def)
next
  case (Some v)
  then obtain ks where "(k, d) \<in> set (db_get db (fp_col_name params) ks)" "\<forall>k\<in>set ks. P k"
    using assms(2,4)
    by (cases v) (auto simp: confined_def fetch_documents_def list_all_iff split: if_splits
        dest!: bspec [where A = "set (List.map_filter as_str _)"])
  with db_get_members show ?thesis by blast
qed


lemma parse_get_params_Inr:
  assumes "parse_get_params db t payload = Inr params"
  shows "gp_col_name params = collection_or_default payload"
    and "gp_joins_req params = payload_array payload Joins"
    and "gp_allowed_prefixes params = payload_array payload AllowedPrefixes"
    and "gp_fields_req params = payload_array payload Fields"
    and "gp_excluded_req params = payload_array payload ExcludedFields"
    and "gp_expires_val params = map_option (\<lambda>ms. String (ms_to_iso ms)) (get_ttl_expiry db (collection_or_default payload))"
  using assms by (auto simp: parse_get_params_def Let_def split: if_splits)

lemma get_response_200:
  assumes "get_response w payload lim t db = (200, body)" and "confined P payload"
  obtains params where "parse_get_params db t payload = Inr params" and "general_path w db payload params = (200, body)"
proof -
  have "validate_get_request w payload lim \<noteq> Inl (200, body)"
    by (auto simp: validate_get_request_def error_response_def split: sum.splits option.splits)
  moreover have "parse_get_params db t payload \<noteq> Inl (200, body)"
    by (auto simp: parse_get_params_def Let_def)
  ultimately obtain params where params: "parse_get_params db t payload = Inr params"
    and r: "(if pget payload Keys = None \<and> empty_or_none (gp_joins_req params) \<and>
               empty_or_none (gp_allowed_prefixes params)
            then (case run_fast_sort_path w db params of
                    Some r \<Rightarrow> r | None \<Rightarrow> general_path w db payload params)
            else general_path w db payload params) = (200, body)"
    using assms(1) by (auto simp: get_response_def split: sum.splits)
  have "\<not> (pget payload Keys = None \<and> empty_or_none (gp_allowed_prefixes params))"
    using assms(2) parse_get_params_Inr(3) [OF params]
    by (auto simp: confined_def empty_or_none_def split: option.splits)
  with r params that show ?thesis by auto
qed

lemma get_response_confined:
  assumes "get_response w payload lim t db = (200, body)" and "confined P payload"
    and "\<forall>(c, col)\<in>set (t_state db). dm_ok col" and "empty_or_none (payload_array payload Joins)"
    and "d \<in> set (returned_documents payload body)"
  shows "\<exists>k v. P k \<and> stored_doc db (collection_or_default payload) k = Some v \<and>
    presents payload db (collection_or_default payload) k v d"
proof -
  obtain params where params: "parse_get_params db t payload = Inr params"
    and gp: "general_path w db payload params = (200, body)"
    using get_response_200 [OF assms(1,2)] by blast
  note p = parse_get_params_Inr [OF params]
  define fp where "fp = fetch_params_of payload params"
  have sel: "fp_col_name fp = collection_or_default payload" "fp_payload fp = payload"
    "fp_allowed_prefixes fp = payload_array payload AllowedPrefixes"
    by (simp_all add: fp_def fetch_params_of_def p)
  have no_error: "filter_and_join_docs w db params raw \<noteq> Inl (200, body)" for raw
    by (induction raw) (auto simp: Let_def split_beta split: sum.splits if_splits)
  obtain docs where docs: "filter_and_join_docs w db params (fetch_documents w db fp) = Inr docs" "docs \<noteq> []"
    and sr: "shape_and_return w docs payload params = (200, body)"
    using gp no_error by (auto simp: general_path_def simp flip: fp_def split: sum.splits if_splits)
  obtain k doc al s where j: "(k, doc, al) \<in> set docs" "shape_joined params (k, doc, al) = Some s"
    and d: "d = s \<or> d = vremove s KEY"
    using shape_and_return_members [OF sr docs(2) assms(5)] by (metis prod_cases3)
  have m: "(k, doc) \<in> set (fetch_documents w db fp)" "gate_open params k" "al = []"
    using filter_members [OF _ docs(1) j(1)] assms(4) p(2) by auto
  from fetch_confined [of db P fp k doc w] assms(2,3) sel m(1)
  obtain v where v: "stored_doc db (collection_or_default payload) k = Some v" "doc = expand_system_fields v"
    and keys: "pget payload Keys \<noteq> None \<longrightarrow> P k" by auto
  have "P k" if "pget payload Keys = None"
    using that assms(2) m(2) p(3) by (auto simp: confined_def gate_open_def split: option.splits)
  moreover have "presents payload db (collection_or_default payload) k v d"
    using d j(2) by (simp add: presents_def shape_joined_def p v(2) m(3) Let_def)
  ultimately show ?thesis using keys v(1) by blast
qed


section \<open>Reads with a scoped token\<close>

lemma pget_set: "pget (Object (bt_insert (field_str f) v m)) g = (if g = f then Some v else pget (Object m) g)"
  by (cases f; cases g) (simp_all add: pget_def)

lemma pget_remove: "f \<noteq> g \<Longrightarrow> pget (vremove (Object m) (field_str f)) g = pget (Object m) g"
  by (cases f; cases g) (simp_all add: pget_def vremove_def)

lemma admin_collection_access: "is_admin cl \<Longrightarrow> has_collection_access cl action col"
  by (auto simp: is_admin_def has_collection_access_def has_access_def list_ex_iff scope_grants_def)

lemma wildcard_prefixes:
  assumes "has_prefix_wildcard cl action col" and "\<not> is_admin cl"
  shows "extract_prefixes cl action col \<noteq> []"
proof -
  from assms(1) obtain s a c k where "s \<in> set (scopes cl)" "scope_parts s = Some (a, c, k)" "a = action"
    "c = STAR \<or> c = col" "ends_with_star k" "k \<noteq> STAR"
    unfolding has_prefix_wildcard_def list_ex_iff by (elim bexE) (auto split: option.splits)
  then have "trim_stars k \<in> set (extract_prefixes cl action col)"
    using assms(2) unfolding extract_prefixes_def if_not_P [OF assms(2)] map_filter_in
    by (intro bexI [of _ s]) simp_all
  then show ?thesis by auto
qed

lemma as_str_Strings [simp]: "List.map_filter as_str (map String xs) = xs"
  by (induction xs) simp_all

lemma run_scoped_200:
  assumes "run_scoped w app scoped db = (Returns (200, body), db')"
  obtains payload t where "scoped = Returns payload" and "get_response w payload (app_limits app) t db = (200, body)"
  using assms
  by (auto simp: run_scoped_def run_get_def process_get_def status_of_def split: outcome.splits prod.splits if_splits)

text \<open>
  The requests a scoped token's \<open>POST /get\<close> runs: the original one where it names keys, and the narrowed one where
  it does not.
\<close>

lemma handle_get_200:
  assumes "handle_get w app cl payload db = (Returns (200, body), db')"
    and "\<not> has_collection_access cl ACTION_READ col" and "payload = Object m"
    and "pget payload Collection = Some (String col)"
    and "\<forall>v. pget payload Keys = Some v \<longrightarrow> (\<exists>s. v = String s) \<or> (\<exists>arr. v = Array arr)"
    and "list_all (\<lambda>s. \<forall>q. s \<noteq> q @ ''**'') (scopes cl)"
  obtains payload' t where "get_response w payload' (app_limits app) t db = (200, body)"
    and "confined (has_access cl ACTION_READ col) payload'"
    and "\<And>f. f \<noteq> Keys \<Longrightarrow> f \<noteq> AllowedPrefixes \<Longrightarrow> pget payload' f = pget payload f"
    and "\<And>b. returned_documents payload' b = returned_documents payload b"
proof -
  let ?P = "has_access cl ACTION_READ col"
  have col: "requested_collection payload = col" using assms(4) by (simp add: requested_collection_def)
  note h = assms(1) [unfolded handle_get_def Let_def col if_not_P [OF assms(2)]]
  have ne: "allowed_keys cl ACTION_READ col \<noteq> []" using h by (auto simp: forbidden_def error_body_def)
  note h = h [unfolded if_not_P [OF ne]]
  show ?thesis
  proof (cases "pget payload Keys")
    case (Some v)
    have none: "List.find (\<lambda>k. \<not> ?P k) (requested_keys v) = None"
      using h Some by (auto simp: forbidden_def error_body_def split: option.splits)
    then have "confined ?P payload"
      using assms(5) Some by (auto simp: confined_def requested_keys_def find_None_iff list_all_iff)
    moreover obtain t where "get_response w payload (app_limits app) t db = (200, body)"
      using h Some none run_scoped_200 by (auto elim: run_scoped_200)
    ultimately show ?thesis using that by blast
  next
    case None
    show ?thesis
    proof (cases "has_prefix_wildcard cl ACTION_READ col")
      case True
      have pne: "extract_prefixes cl ACTION_READ col \<noteq> []"
        using wildcard_prefixes [OF True] admin_collection_access assms(2) by blast
      let ?p' = "Object (bt_insert (field_str AllowedPrefixes) (Array (map String (extract_prefixes cl ACTION_READ col)))
        (bt_remove (field_str AllowedPrefixes) m))"
      have "narrow_to_prefixes cl col payload = Returns ?p'"
        using pne by (simp add: narrow_to_prefixes_def Let_def vremove_def vset_def assms(3))
      then obtain t where r: "get_response w ?p' (app_limits app) t db = (200, body)"
        using h None True by (auto elim: run_scoped_200)
      have same: "pget ?p' f = pget payload f" if "f \<noteq> AllowedPrefixes" for f
        using that pget_remove [OF that [symmetric], of m] by (simp only: pget_set assms(3) vremove_def json.case if_False)
      have "pget ?p' AllowedPrefixes = Some (Array (map String (extract_prefixes cl ACTION_READ col)))"
        by (simp only: pget_set refl if_True)
      then have "confined ?P ?p'"
        using same [of Keys] None pne extract_prefixes_access [OF assms(6)]
        by (auto simp: confined_def payload_array_def has_some_prefix_def list_ex_iff prefix_def)
      with r same show ?thesis
        by (intro that [of ?p' t]) (simp_all add: returned_documents_def)
    next
      case False
      let ?p' = "Object (bt_insert (field_str Keys) (Array (map String (allowed_keys cl ACTION_READ col))) m)"
      obtain t where r: "get_response w ?p' (app_limits app) t db = (200, body)"
        using h None False by (auto simp: vset_def assms(3) elim: run_scoped_200)
      have "pget ?p' Keys = Some (Array (map String (allowed_keys cl ACTION_READ col)))"
        by (simp only: pget_set refl if_True)
      moreover from this have "confined ?P ?p'"
        using allowed_keys_access by (auto simp: confined_def list_all_iff)
      moreover have "pget ?p' f = pget payload f" if "f \<noteq> Keys" for f
        using that by (simp only: pget_set assms(3) if_False)
      ultimately show ?thesis using r None
        by (intro that [of ?p' t]) (simp_all add: returned_documents_def split: json.splits)
    qed
  qed
qed


section \<open>An example\<close>

definition demo_world :: world where
  "demo_world = \<lparr>core = demo_env, json_text = (\<lambda>_. []), to_lowercase = (\<lambda>s. s), par_iter = Run, batch_mates = ([], [])\<rparr>"

definition demo_app :: app_state where
  "demo_app = \<lparr>app_users = [], app_limits = \<lparr>max_body_size = 10, max_keys_per_request = 10\<rparr>,
     root_username = ''root'', root_token_ttl = 60\<rparr>"

definition demo_shop :: db where
  "demo_shop = (fresh_db InMemoryStorage (empty_tables 0))\<lparr>t_state := demo_state\<rparr>"

definition demo_query :: "json option \<Rightarrow> json" where
  "demo_query ks = Object ((''collection'', String ''laptops'') # (case ks of Some v \<Rightarrow> [(''keys'', v)] | None \<Rightarrow> []))"

definition scoped_a :: claims where
  "scoped_a = demo_claims [''read:laptops:a'']"
lemma demo_item_read: "msgpack_to_value (value_to_msgpack (demo_item s p)) = Some (tokenize (demo_item s p))"
  using demo_item_ok by simp

lemma demo_item_shown: "expand_system_fields (tokenize (demo_item s p)) = Object [(SEQ, json_u64 s), (''price'', json_u64 p)]"
  by (simp add: demo_item_def json_u64_def) code_simp

lemma demo_checked: "validate_get_request demo_world (demo_query (Some (String ''a''))) (app_limits demo_app) = Inr ()"
 "validate_get_request demo_world (demo_query (Some Null)) (app_limits demo_app) = Inr ()"
  by (code_simp, code_simp)

definition demo_params :: get_params where
  "demo_params = \<lparr>gp_col_name = ''laptops'', gp_where_clause = None, gp_joins_req = None, gp_sort_specs = None,
     gp_count_limit = 100, gp_offset = 0, gp_fields_req = None, gp_excluded_req = None, gp_allowed_prefixes = None,
     gp_expires_val = None\<rparr>"

lemma demo_parsed: "parse_get_params demo_shop t (demo_query ks) = Inr demo_params"
  by (cases ks) (simp_all add: parse_get_params_def demo_query_def demo_params_def pget_def payload_nat_def payload_array_def
      get_ttl_expiry_def demo_shop_def fresh_db_def tables.extend_def empty_tables_def collection_or_default_def
      vindex_def DEFAULT_COUNT_def)

lemma demo_stored:
  "stored_doc demo_shop ''laptops'' ''a'' = Some (tokenize (demo_item 1 900))"
  "stored_doc demo_shop ''laptops'' ''b'' = Some (tokenize (demo_item 2 700))"
  by (simp_all add: stored_doc_def demo_shop_def demo_state_def demo_item_read)

lemma demo_seq: "seq_of skip_by_reading (value_to_msgpack (demo_item s p)) = s"
  by (simp add: seq_of_written demo_item_ok) (simp add: demo_item_def raw_seq_def raw_field_def key_token_def)

lemma demo_fetch_all:
  "fetch_documents demo_world demo_shop (fetch_params_of (demo_query (Some Null)) demo_params) =
     [(''b'', expand_system_fields (tokenize (demo_item 2 700))), (''a'', expand_system_fields (tokenize (demo_item 1 900)))]"
  by (simp add: fetch_documents_def fetch_params_of_def demo_query_def pget_def fetch_scan_def choose_scan_strategy_def
    demo_params_def db_get_filtered_def op_get_filtered_def demo_shop_def demo_state_def get_filtered_index_def
    fresh_db_def tables.extend_def expand_results_def demo_world_def demo_env_def demo_item_read demo_seq seq_sort_def
    Let_def)

lemma demo_fetch_one:
  "fetch_documents demo_world demo_shop (fetch_params_of (demo_query (Some (String ''a''))) demo_params) =
     [(''a'', expand_system_fields (tokenize (demo_item 1 900)))]"
  by (simp add: fetch_documents_def fetch_params_of_def demo_query_def pget_def within_prefixes_def prefix_strings_def
    demo_params_def db_get_def op_get_def demo_shop_def demo_state_def
    fresh_db_def tables.extend_def demo_item_read)

lemma demo_response:
  "get_response demo_world (demo_query (Some Null)) (app_limits demo_app) t demo_shop =
     (200, Array [Object [(KEY, String ''b''), (''price'', json_u64 700)], Object [(KEY, String ''a''), (''price'', json_u64 900)]])"
  "get_response demo_world (demo_query (Some (String ''a''))) (app_limits demo_app) t demo_shop =
     (200, Object [(''price'', json_u64 900)])"
  unfolding get_response_def demo_checked demo_parsed sum.case general_path_def demo_fetch_all demo_fetch_one
  by (simp_all add: demo_query_def pget_def demo_params_def gate_open_def shape_and_return_def shape_joined_def
    demo_item_shown shape_doc_def strip_metadata_def documents_response_def put_field_def bt_remove_def)

lemma demo_tables: "\<forall>(c, col)\<in>set (t_state demo_shop). dm_ok col"
  by (simp add: demo_shop_def demo_state_def dm_ok_def)

lemma scoped_a_scopes:
  "\<not> has_collection_access scoped_a ACTION_READ ''laptops''" "allowed_keys scoped_a ACTION_READ ''laptops'' = [''a'']"
  "has_access scoped_a ACTION_READ ''laptops'' ''a''" "\<not> has_access scoped_a ACTION_READ ''laptops'' ''b''"
  by code_simp+

lemma handle_get_keys:
  assumes "\<not> has_collection_access cl ACTION_READ (requested_collection payload)"
    and "allowed_keys cl ACTION_READ (requested_collection payload) \<noteq> []"
    and "pget payload Keys = Some v"
    and "\<forall>k\<in>set (requested_keys v). has_access cl ACTION_READ (requested_collection payload) k"
  shows "handle_get w app cl payload db = run_scoped w app (Returns payload) db"
proof -
  have "List.find (\<lambda>k. \<not> has_access cl ACTION_READ (requested_collection payload) k) (requested_keys v) = None"
    using assms(4) by (simp add: find_None_iff)
  then show ?thesis using assms(1-3) by (simp add: handle_get_def)
qed

lemma demo_run:
  "run_scoped demo_world demo_app (Returns (demo_query (Some Null))) demo_shop =
     (Returns (200, Array [Object [(KEY, String ''b''), (''price'', json_u64 700)], Object [(KEY, String ''a''), (''price'', json_u64 900)]]),
      demo_shop\<lparr>t_ticks := Suc (t_ticks demo_shop)\<rparr>)"
  "run_scoped demo_world demo_app (Returns (demo_query (Some (String ''a'')))) demo_shop =
     (Returns (200, Object [(''price'', json_u64 900)]), demo_shop\<lparr>t_ticks := Suc (t_ticks demo_shop)\<rparr>)"
  by (simp_all add: run_scoped_def run_get_def process_get_def demo_response status_of_def)

section \<open>Properties\<close>

text \<open>
  C35. Confinement of scoped reads: when a token without access to the whole collection asks \<open>POST /get\<close> without joins
  and with keys that are a string, an array or absent, then every document of a successful answer is a stored document of
  that collection whose key the token may read, in the shape the request asks for. (No scope ends in two stars.)
\<close>
theorem scoped_get_confined:
  assumes "list_all (\<lambda>s. \<forall>q. s \<noteq> q @ ''**'') (scopes cl)" and "\<not> has_collection_access cl ACTION_READ col"
    and "payload = Object m" and "pget payload Collection = Some (String col)"
    and "empty_or_none (payload_array payload Joins)"
    and "\<forall>v. pget payload Keys = Some v \<longrightarrow> (\<exists>s. v = String s) \<or> (\<exists>arr. v = Array arr)"
    and "\<forall>(c, docs)\<in>set (t_state db). dm_ok docs"
    and "handle_get w app cl payload db = (Returns (200, body), db')"
  shows "\<forall>d\<in>set (returned_documents payload body). \<exists>k v. has_access cl ACTION_READ col k \<and>
    stored_doc db col k = Some v \<and> presents payload db col k v d"
proof
  fix d assume d: "d \<in> set (returned_documents payload body)"
  obtain payload' t where r: "get_response w payload' (app_limits app) t db = (200, body)"
    and c: "confined (has_access cl ACTION_READ col) payload'"
    and same: "\<And>f. f \<noteq> Keys \<Longrightarrow> f \<noteq> AllowedPrefixes \<Longrightarrow> pget payload' f = pget payload f"
    and ret: "\<And>b. returned_documents payload' b = returned_documents payload b"
    using handle_get_200 [OF assms(8,2,3,4,6,1)] by blast
  have arrays: "payload_array payload' f = payload_array payload f" if "f \<noteq> Keys" "f \<noteq> AllowedPrefixes" for f
    using same [OF that] by (simp add: payload_array_def)
  have "vget payload' (field_str Collection) = Some (String col)"
    using same [of Collection] assms(4) by (simp add: pget_def)
  then have col: "collection_or_default payload' = col" by (simp add: collection_or_default_def vindex_def)
  have "empty_or_none (payload_array payload' Joins)" using assms(5) arrays by simp
  from get_response_confined [OF r c assms(7) this] d ret
  show "\<exists>k v. has_access cl ACTION_READ col k \<and> stored_doc db col k = Some v \<and> presents payload db col k v d"
    by (simp add: presents_def arrays col)
qed

theorem scoped_get_confined_witness:
  "\<exists>k v. has_access scoped_a ACTION_READ ''laptops'' k \<and> stored_doc demo_shop ''laptops'' k = Some v \<and>
     presents (demo_query (Some (String ''a''))) demo_shop ''laptops'' k v (Object [(''price'', json_u64 900)])"
proof -
  let ?q = "demo_query (Some (String ''a''))"
  have p: "requested_collection ?q = ''laptops''" "pget ?q Keys = Some (String ''a'')"
    "pget ?q Collection = Some (String ''laptops'')" "payload_array ?q Joins = None"
    by (simp_all add: requested_collection_def demo_query_def pget_def payload_array_def)
  have run: "handle_get demo_world demo_app scoped_a ?q demo_shop =
      (Returns (200, Object [(''price'', json_u64 900)]), demo_shop\<lparr>t_ticks := Suc (t_ticks demo_shop)\<rparr>)"
    using handle_get_keys [of scoped_a ?q "String ''a''" demo_world demo_app demo_shop] scoped_a_scopes p
    by (simp add: demo_run requested_keys_def)
  have "rev ''read:laptops:a'' \<noteq> rev (q @ ''**'')" for q by simp
  then have stars: "list_all (\<lambda>s. \<forall>q. s \<noteq> q @ ''**'') (scopes scoped_a)"
    by (simp add: scoped_a_def demo_claims_def del: append.simps rev.simps)
  have q: "?q = Object [(''collection'', String ''laptops''), (''keys'', String ''a'')]" by (simp add: demo_query_def)
  have "returned_documents ?q (Object [(''price'', json_u64 900)]) = [Object [(''price'', json_u64 900)]]"
    by (simp add: returned_documents_def p)
  with scoped_get_confined [OF stars scoped_a_scopes(1) q p(3) _ _ demo_tables run] p show ?thesis
    by (simp add: empty_or_none_def)
qed

text \<open>
  C37. The confinement does not extend to other values of \<open>keys\<close>: a token that may read one document of a collection
  gets, with \<open>"keys": null\<close> (or a number, a boolean or an object), the same answer as a token with access to the whole
  collection.
\<close>
theorem null_keys_unscoped:
  assumes "allowed_keys cl ACTION_READ (requested_collection payload) \<noteq> []"
    and "has_collection_access root ACTION_READ (requested_collection payload)"
    and "pget payload Keys = Some v" and "as_str v = None" and "as_array v = None"
  shows "handle_get w app cl payload db = handle_get w app root payload db"
proof -
  have "requested_keys v = []" using assms(4,5) by (cases v) (simp_all add: requested_keys_def)
  then have "handle_get w app cl payload db = run_scoped w app (Returns payload) db"
    using assms(1,3) handle_get_keys [of cl payload v] by (cases "has_collection_access cl ACTION_READ (requested_collection payload)")
      (simp_all add: handle_get_def)
  also have "\<dots> = handle_get w app root payload db" using assms(2) by (simp add: handle_get_def)
  finally show ?thesis .
qed

theorem null_keys_unscoped_witness:
  "\<not> has_access scoped_a ACTION_READ ''laptops'' ''b'' \<and>
   fst (handle_get demo_world demo_app (demo_claims [''read:laptops:*'']) (demo_query (Some Null)) demo_shop) =
     fst (handle_get demo_world demo_app scoped_a (demo_query (Some Null)) demo_shop) \<and>
   fst (handle_get demo_world demo_app scoped_a (demo_query (Some Null)) demo_shop) =
     Returns (200, Array [Object [(KEY, String ''b''), (''price'', json_u64 700)], Object [(KEY, String ''a''), (''price'', json_u64 900)]])"
proof -
  let ?q = "demo_query (Some Null)" and ?root = "demo_claims [''read:laptops:*'']"
  have p: "requested_collection ?q = ''laptops''" "pget ?q Keys = Some Null"
    by (simp_all add: requested_collection_def demo_query_def pget_def)
  have root: "has_collection_access ?root ACTION_READ ''laptops''" by code_simp
  have "handle_get demo_world demo_app scoped_a ?q demo_shop = handle_get demo_world demo_app ?root ?q demo_shop"
    using null_keys_unscoped [of scoped_a ?q ?root Null] p root scoped_a_scopes by simp
  moreover have "handle_get demo_world demo_app ?root ?q demo_shop = run_scoped demo_world demo_app (Returns ?q) demo_shop"
    using root p by (simp add: handle_get_def)
  ultimately show ?thesis using scoped_a_scopes(4) by (simp add: demo_run)
qed


text \<open>A token whose scopes all are \<open>read:col:p*\<close>.\<close>

definition prefix_claims :: "string \<Rightarrow> string list \<Rightarrow> claims" where
  "prefix_claims col ps = demo_claims (map (\<lambda>p. ACTION_READ @ '':'' @ col @ '':'' @ p @ STAR) ps)"

lemma prefix_scope:
  assumes "CHR '':'' \<notin> set col"
  shows "scope_parts (ACTION_READ @ '':'' @ col @ '':'' @ p @ STAR) = Some (ACTION_READ, col, p @ STAR)"
  using split_scope [of ACTION_READ col "p @ STAR"] assms by (simp del: append.simps)

lemma prefix_scope_grants:
  assumes "CHR '':'' \<notin> set col"
  shows "scope_grants ACTION_READ col key (ACTION_READ @ '':'' @ col @ '':'' @ p @ STAR) \<longleftrightarrow> starts_with p key"
proof -
  have "ACTION_READ @ '':'' @ col @ '':'' @ p @ STAR \<noteq> ROOT_SCOPE" by simp
  moreover have "key_matches (p @ STAR) key = starts_with p key"
    by (auto simp: key_matches_def ends_with_star_def starts_with_def)
  ultimately show ?thesis
    unfolding scope_grants_def by (simp only: if_not_P prefix_scope [OF assms] option.case prod.case) simp
qed

text \<open>
  A token whose scopes are all prefix patterns may read every key under its prefixes, but \<open>POST /get\<close> refuses it with
  403 whatever it asks for, because the endpoint requires at least one concrete key among the scopes before it looks at
  the prefixes.
\<close>
lemma prefix_token_refused:
  assumes "CHR '':'' \<notin> set col" and "\<forall>p\<in>set ps. \<not> starts_with p STAR"
    and "pget payload Collection = Some (String col)"
  shows "(\<forall>p\<in>set ps. \<forall>r. has_access (prefix_claims col ps) ACTION_READ col (p @ r)) \<and>
    (\<exists>body. handle_get w app (prefix_claims col ps) payload db = (Returns (403, body), db))"
proof
  show "\<forall>p\<in>set ps. \<forall>r. has_access (prefix_claims col ps) ACTION_READ col (p @ r)"
  proof (intro ballI allI)
    fix p r assume "p \<in> set ps"
    moreover have "scope_grants ACTION_READ col (p @ r) (ACTION_READ @ '':'' @ col @ '':'' @ p @ STAR)"
      unfolding prefix_scope_grants [OF assms(1)] by (simp add: starts_with_def)
    ultimately show "has_access (prefix_claims col ps) ACTION_READ col (p @ r)"
      by (auto simp: has_access_def prefix_claims_def demo_claims_def list_ex_iff simp del: append.simps)
  qed
  have "\<not> has_collection_access (prefix_claims col ps) ACTION_READ col"
    using prefix_scope_grants [OF assms(1)] assms(2)
    by (auto simp: has_collection_access_def has_access_def prefix_claims_def demo_claims_def list_ex_iff simp del: append.simps)
  moreover have "allowed_keys (prefix_claims col ps) ACTION_READ col = []"
    unfolding allowed_keys_def prefix_claims_def demo_claims_def claims.simps
    by (induction ps) (simp_all add: prefix_scope [OF assms(1)] del: append.simps)
  moreover have "requested_collection payload = col" using assms(3) by (simp add: requested_collection_def)
  ultimately show "\<exists>body. handle_get w app (prefix_claims col ps) payload db = (Returns (403, body), db)"
    by (simp add: handle_get_def forbidden_def error_body_def)
qed

section \<open>Sorting by a field that is not a number\<close>

text \<open>
  The fast path of a sort by a single field keeps only the documents that have a number there: when no document does, the
  answer is 404, whatever the collection holds.
\<close>

lemma sort_needs_numbers:
  assumes "divides (par_iter w)" and "state_ok (skip_value (core w)) (t_state db)"
    and "gp_sort_specs params = Some [spec]" and "sort_spec spec = Some (field, descending)" and "field \<noteq> []"
    and "dm_get (t_state db) (gp_col_name params) = Some col"
    and "\<forall>e\<in>set col. sort_item_of (skip_value (core w)) (split_on CHR ''.'' field) descending e = None"
  shows "run_fast_sort_path w db params = Some (get_error NoDocumentsFound)"
proof -
  let ?req = "\<lparr>sr_collection = gp_col_name params, sr_predicate = where_predicate w (gp_where_clause params),
     sr_kind = SortedTopN field descending (gp_offset params + gp_count_limit params)\<rparr>"
  have none: "List.map_filter (sort_match (skip_value (core w)) pred field descending) es = []"
    if "set es \<subseteq> set col" for es pred
    using that assms(7) by (induction es) (auto simp: sort_match_def)
  have "state_answer (skip_value (core w)) (t_state db) ?req = []"
    using none [of col] assms(6) by (simp add: state_answer_def scan_answer_def heap_sort_def decode_winners_def)
  then have "db_scan_top_n_raw_coalesced (skip_value (core w)) (par_iter w) (batch_mates w) db (gp_col_name params)
      (where_predicate w (gp_where_clause params)) field descending (gp_offset params + gp_count_limit params) = []"
    by (simp add: db_scan_top_n_raw_coalesced_def submit_answer_col [OF assms(1) scanned_ok [OF assms(2)]] expand_results_def)
  then show ?thesis
    using assms(3-5) by (simp add: run_fast_sort_path_def documents_response_def)
qed

end
