(* ===== verification/Isolation.thy ===== *)
theory Isolation
  imports GetHandler
begin

text \<open>
  What a write request can touch: every method of the handle, and with it every write handler, changes
  only what the database keeps about the collection it is called for.
\<close>

section \<open>What the database keeps about a collection\<close>

text \<open>Its documents, sequence index and counter, schema, expiry, default time to live and size limit.\<close>

definition part :: "db \<Rightarrow> string \<Rightarrow> collection option \<times> (u64, string) btreemap option \<times> u64 option \<times>
    (json \<times> (json \<Rightarrow> bool)) option \<times> u64 option \<times> u64 option \<times> nat option" where
  "part db c = (dm_get (t_state db) c, dm_get (db_seq_index db) c, dm_get (db_seq_counters db) c,
     dm_get (t_schemas db) c, dm_get (t_ttl_expiry db) c, dm_get (db_ttl_defaults db) c, dm_get (db_max_sizes db) c)"

definition only :: "string \<Rightarrow> (db, 'e, 'a) op \<Rightarrow> bool" where
  "only c m \<longleftrightarrow> (\<forall>db c'. c' \<noteq> c \<longrightarrow> part (snd (m db)) c' = part db c')"

lemma onlyD: "only c m \<Longrightarrow> m db = (r, db') \<Longrightarrow> c' \<noteq> c \<Longrightarrow> part db' c' = part db c'"
  by (metis only_def snd_conv)

lemma part_documents: "part db' c = part db c \<Longrightarrow> dm_get (t_state db') c = dm_get (t_state db) c"
  by (simp add: part_def)

lemma only_return [intro!]: "only c (op_return a)"
  by (simp add: only_def)

lemma only_raise [intro!]: "only c (op_raise e)"
  by (simp add: only_def)

lemma only_bind [intro]:
  assumes "only c m" and "\<And>a. only c (f a)"
  shows "only c (op_bind m f)"
  unfolding only_def
proof (intro allI impI)
  fix db c' assume c': "c' \<noteq> c"
  obtain r db1 where m: "m db = (r, db1)" by fastforce
  then have p: "part db1 c' = part db c'" by (rule onlyD [OF assms(1) _ c'])
  show "part (snd (op_bind m f db)) c' = part db c'"
    using assms(2) c' p by (cases r) (simp_all add: op_bind_def m only_def)
qed

lemma only_iter: "(\<And>x. x \<in> set xs \<Longrightarrow> only c (f x)) \<Longrightarrow> only c (op_iter f xs)"
  by (induction xs) auto

lemma only_map: "(\<And>x. only c (f x)) \<Longrightarrow> only c (op_map f xs)"
  by (induction xs) (auto intro!: only_bind)

lemma only_upd: "(\<And>db c'. c' \<noteq> c \<Longrightarrow> part (g db) c' = part db c') \<Longrightarrow> only c (op_upd g)"
  by (simp add: only_def)

section \<open>The engine\<close>

lemma part_updates [simp]:
  "part (db\<lparr>t_ticks := n\<rparr>) c = part db c" "part (db\<lparr>db_storage := st\<rparr>) c = part db c"
  "part (db\<lparr>db_tx := evs\<rparr>) c = part db c" "part (db\<lparr>db_uuids := u\<rparr>) c = part db c"
  by (simp_all add: part_def)

lemma only_leaves:
  "only c (now_unix_ms env)" "only c (new_uuid env)" "only c (send ev)" "only c (log_write env cmd c0 k v)"
  "only c (validate_document c0 v)" "only c (patch_doc env updates doc)" "only c check_fault"
  "only c (prepare_item now seq c0 k v)" "only c (db_compact env)"
  by (auto simp: only_def now_unix_ms_def new_uuid_def send_def log_write_def op_bind_def validate_document_def
      patch_doc_def check_fault_def prepare_item_def db_compact_def Let_def
      split: prod.splits sum.splits option.splits json.splits)

lemma part_steps:
  assumes "c' \<noteq> c"
  shows "part (put_doc c k b db) c' = part db c'" "part (remove_doc c k db) c' = part db c'"
    "part (index_put c n k db) c' = part db c'" "part (index_remove c n db) c' = part db c'"
    "part (create_collection c db) c' = part db c'" "part (set_max_size c m db) c' = part db c'"
    "part (set_ttl_default c secs db) c' = part db c'"
  using assms
  by (simp_all add: part_def put_doc_def remove_doc_def index_put_def index_remove_def create_collection_def
      set_max_size_def set_ttl_default_def split: option.split)

lemma only_next_seq: "only c (next_seq c)"
  by (simp add: only_def next_seq_def Let_def part_def)

lemma only_insert: "only c (op_insert env c items)"
  unfolding op_insert_def insert_item_def
  by (intro only_bind only_iter only_upd only_leaves)
    (auto intro!: only_bind only_upd only_leaves only_next_seq simp: part_steps split: prod.split)

lemma only_unindex: "only c (unindex_doc env c k)"
  by (auto simp: only_def unindex_doc_def part_steps split: option.split outcome.split)

lemma only_delete: "only c (op_delete env c keys)"
proof -
  have "only c (op_iter (delete_key env c) keys)"
    unfolding delete_key_def
    by (intro only_iter only_bind only_unindex only_upd only_leaves) (simp add: part_steps)
  then have "only c (\<lambda>db. if dm_get (t_state db) c = None then (Inr (), db) else op_iter (delete_key env c) keys db)"
    by (simp add: only_def)
  then show ?thesis unfolding op_delete_def by (intro only_bind only_leaves)
qed

lemma only_update: "only c (op_update env c key updates)"
proof -
  let ?found = "\<lambda>tx doc. op_bind (patch_doc env updates doc) (\<lambda>new_value.
      op_bind (validate_document c new_value) (\<lambda>_.
      op_bind (op_upd (put_doc c key (value_to_msgpack new_value))) (\<lambda>_.
      op_bind (log_write env IKEY_INSERT c key new_value) (\<lambda>_.
      op_bind (log_write env IKEY_TX_COMMIT c tx Null) (\<lambda>_.
      op_bind (send (change_event c key (json_u64 (u64_or 0 new_value VERSION)))) (\<lambda>_. op_return True))))))"
  let ?absent = "\<lambda>tx. op_bind (log_write env IKEY_TX_COMMIT c tx Null) (\<lambda>_. op_return False)"
  have "only c (?found tx doc)" "only c (?absent tx)" for tx doc
    by (intro only_bind only_upd only_leaves only_return; simp add: part_steps)+
  then have "only c (\<lambda>db. case stored_doc db c key of Some doc \<Rightarrow> ?found tx doc db | None \<Rightarrow> ?absent tx db)" for tx
    by (simp add: only_def split: option.split)
  then show ?thesis unfolding op_update_def by (intro only_bind only_leaves)
qed

lemma only_drop: "only c (op_delete_collection env c)"
  unfolding op_delete_collection_def
  by (intro only_bind only_upd only_leaves) (simp add: part_def)

lemma only_counted: "only c (delete_counted env c keys)"
  using only_bind [OF only_delete [of c env keys] only_return [of c "length keys"]]
  by (simp add: only_def delete_counted_def)

lemma only_evict_oldest: "only c (evict_oldest env c n)"
  using only_delete [of c env]
  by (auto simp: only_def evict_oldest_def Let_def split: option.split prod.split sum.split db_error.split)
    (metis snd_conv)+

lemma only_evict_expired: "only c (evict_expired env c)"
proof -
  have t: "part (db\<lparr>t_ttl_expiry := dm_remove c (t_ttl_expiry db)\<rparr>) c' = part db c'" if "c' \<noteq> c" for db :: db and c'
    using that by (simp add: part_def)
  have d: "part db2 c' = part db c'" if "op_delete_collection env c (db\<lparr>t_ticks := n\<rparr>) = (r, db2)" "c' \<noteq> c" for db c' r db2 n
    using onlyD [OF only_drop that] by simp
  show ?thesis
    by (auto simp: only_def evict_expired_def op_bind_def now_unix_ms_def t d split: option.split prod.split)
qed

lemma only_renew_ttl: "only c (renew_ttl env c)"
proof -
  have t: "part (db\<lparr>t_ticks := n, t_ttl_expiry := dm_insert c x (t_ttl_expiry db)\<rparr>) c' = part db c'" if "c' \<noteq> c" for db :: db and c' x n
    using that by (simp add: part_def)
  have w: "part (snd (log_write env cmd c0 k v db)) c' = part db c'" for db c' cmd c0 k v
    using only_leaves(4) [of _ env cmd c0 k v] by (metis only_def not_Cons_self2)
  show ?thesis
    by (auto simp: only_def renew_ttl_def op_bind_def now_unix_ms_def send_def Let_def t w split: option.split)
qed

lemma only_methods:
  "only c (db_insert env c items)" "only c (db_update env c key updates)" "only c (db_delete env c keys)"
  "only c (db_delete_filtered env c p l asc)" "only c (db_delete_n env c n asc)" "only c (db_delete_collection env c)"
  "only c (db_set_schema env c schema)"
proof -
  have "only c (enforce_max_size env c)"
    using only_evict_oldest [of c env] by (simp add: only_def enforce_max_size_def Let_def split: option.split)
  then show "only c (db_insert env c items)"
    unfolding db_insert_def by (intro only_bind only_leaves only_evict_expired only_insert only_renew_ttl)
  show "only c (db_update env c key updates)" "only c (db_delete env c keys)"
    unfolding db_update_def db_delete_def by (intro only_bind only_leaves only_update only_delete)+
  have "only c (op_delete_filtered env c p l asc)" "only c (op_delete_n env c n asc)"
    using only_counted [of c env]
    by (simp_all add: only_def op_delete_filtered_def op_delete_n_def Let_def split: option.split outcome.split)
  then show "only c (db_delete_filtered env c p l asc)" "only c (db_delete_n env c n asc)"
    unfolding db_delete_filtered_def db_delete_n_def by (intro only_bind only_leaves; simp)+
  show "only c (db_delete_collection env c)"
    unfolding db_delete_collection_def by (intro only_bind only_drop only_upd) (simp add: part_def)
  show "only c (db_set_schema env c schema)"
    unfolding db_set_schema_def op_set_schema_def
    by (auto intro!: only_bind only_upd only_leaves simp: part_def split: sum.split)
qed

section \<open>The handlers\<close>

lemma only_db_call: "only c m \<Longrightarrow> only c (db_call f m)"
  by (simp add: only_def db_call_def split: prod.split sum.split) (metis snd_conv)

lemma only_early [intro!]: "only c (early r)"
  by (simp add: early_def only_raise)

lemma only_checked: "only c (checked r)"
  by (auto simp: checked_def split: sum.split)

lemma only_settings: "only c (set_ttl_property r c v)" "only c (set_max_size_property r c v)"
  by (auto simp: set_ttl_property_def set_max_size_property_def part_steps intro!: only_upd split: option.split)

lemma only_resolve: "only c (resolve_item k v)" "only c (resolve_with_id w v)"
proof -
  show *: "only c (resolve_item k v)" for k
    by (simp add: only_def resolve_item_def Let_def early_def)
  show "only c (resolve_with_id w v)"
    unfolding resolve_with_id_def db_total_def by (intro only_bind only_db_call only_leaves *)
qed

lemma only_update_items: "only c (update_items w c n items)"
  by (induction items arbitrary: n) (auto intro!: only_bind only_db_call only_methods)

text \<open>A handler in its own collection; the collection is \<open>default\<close> where the request names none.\<close>

lemma run_handler_part:
  assumes "only c m"
  shows "c' \<noteq> c \<Longrightarrow> part (snd (run_handler m db)) c' = part db c'"
  using assms by (simp add: only_def run_handler_def split: prod.split sum.split) (metis snd_conv)

lemma set_part: "c' \<noteq> collection_or_default payload \<Longrightarrow> part (snd (process_set w payload lim db)) c' = part db c'"
  unfolding process_set_def Let_def
  by (rule run_handler_part [where c = "collection_or_default payload"])
    (auto intro!: only_bind only_checked only_settings only_map only_resolve only_db_call only_methods
      simp: db_insert_items_def split: option.split json.split prod.split)

lemma update_part: "c' \<noteq> collection_or_default payload \<Longrightarrow> part (snd (process_update w payload lim db)) c' = part db c'"
  unfolding process_update_def Let_def
  by (rule run_handler_part [where c = "collection_or_default payload"])
    (auto intro!: only_bind only_checked only_update_items split: option.split)

lemma delete_part: "c' \<noteq> collection_or_default payload \<Longrightarrow> part (snd (process_delete w payload lim db)) c' = part db c'"
  unfolding process_delete_def Let_def
  by (rule run_handler_part [where c = "collection_or_default payload"])
    (auto intro!: only_bind only_checked only_db_call only_methods
      simp: delete_where_def delete_count_def delete_keys_def check_delete_count_def Let_def
      split: option.split json.split)

lemma schema_part:
  "as_str (vindex payload (field_str Collection)) \<noteq> Some c' \<Longrightarrow> part (snd (process_schema w payload lim db)) c' = part db c'"
  unfolding process_schema_def
  by (rule run_handler_part [where c = "case as_str (vindex payload (field_str Collection)) of Some c \<Rightarrow> c | None \<Rightarrow> c' @ ''x''"])
    (auto intro!: only_bind only_checked only_settings only_db_call only_methods simp: register_schema_def split: option.splits)

text \<open>The schema endpoint leaves all documents alone; a snapshot, the statistics and a read leave everything.\<close>

lemma snapshot_part: "part (snd (process_snapshot w db)) c = part db c"
  unfolding process_snapshot_def
  by (intro run_handler_part [where c = "CHR ''x'' # c"] only_bind only_db_call only_leaves only_return) simp

lemma stats_part: "part (snd (process_stats w payload db)) c = part db c"
proof -
  have "only c (\<lambda>db. (Inr (stats_response payload now db) :: response outcome + response, db))" for c now
    by (simp add: only_def)
  then show ?thesis
    unfolding process_stats_def db_total_def
    by (intro run_handler_part [where c = "CHR ''x'' # c"] only_bind only_checked only_db_call only_leaves) simp_all
qed

lemma get_part: "part (snd (process_get w payload lim db)) c = part db c"
  by (simp add: process_get_def)

lemma schema_documents: "t_state (snd (process_schema w payload lim db)) = t_state db"
proof -
  have leaves: "keeps (\<lambda>db. t_state db = s) (new_uuid env)" "keeps (\<lambda>db. t_state db = s) (log_write env cmd c k v)"
    "keeps (\<lambda>db. t_state db = s) (send ev)" "keeps (\<lambda>db. t_state db = s) (checked r)"
    "keeps (\<lambda>db. t_state db = s) (early resp)" for s env cmd c k v ev r resp
    by (auto simp: keeps_def new_uuid_def log_write_def now_unix_ms_def op_bind_def send_def checked_def early_def
        split: prod.splits sum.splits)
  have set: "keeps (\<lambda>db. t_state db = s) (db_set_schema env c schema)" for s env c schema
    unfolding db_set_schema_def op_set_schema_def
    by (cases "validator_for env schema") (auto intro!: keeps_bind keeps_upd leaves)
  have call: "keeps (\<lambda>db. t_state db = s) m \<Longrightarrow> keeps (\<lambda>db. t_state db = s) (db_call f m)" for s f and m :: "unit db_op"
    by (simp add: keeps_def db_call_def split: prod.split sum.split) (metis snd_conv)
  have props: "keeps (\<lambda>db. t_state db = s) (set_ttl_property r c v)" "keeps (\<lambda>db. t_state db = s) (set_max_size_property r c v)" for s r c v
    by (auto simp: set_ttl_property_def set_max_size_property_def keeps_def set_ttl_default_def set_max_size_def early_def
        split: option.split)
  have run: "keeps (\<lambda>db. t_state db = s) m \<Longrightarrow> t_state db = s \<Longrightarrow> t_state (snd (run_handler m db)) = s" for s m db
    by (simp add: keeps_def run_handler_def split: prod.split sum.split) (metis snd_conv)
  show ?thesis
    unfolding process_schema_def
    by (rule run [OF _ refl]) (auto intro!: keeps_bind leaves props call set simp: register_schema_def split: option.split)
qed

end
