(* ===== verification/RateLimit.thy ===== *)
theory RateLimit
  imports Prelude
begin

text \<open>
  The per-address rate limiter of the server (\<open>moltendb-server/src/rate_limit.rs\<close>): a sliding window
  of request times per client. An \<open>Instant\<close> is a number of nanoseconds; parsing an address is a
  parameter.
\<close>

section \<open>The limiter\<close>

record 'ip rate_limiter =
  requests :: "('ip, int list) dashmap"
  max_requests :: nat
  window_secs :: nat

abbreviation nanos :: int where "nanos \<equiv> 1000000000"

definition window :: "'ip rate_limiter \<Rightarrow> int" where
  "window l = int (window_secs l) * nanos"

definition new_limiter :: "nat \<Rightarrow> nat \<Rightarrow> 'ip rate_limiter" where
  "new_limiter mx w = \<lparr>requests = [], max_requests = mx, window_secs = w\<rparr>"

text \<open>\<open>Limited retry_after limit\<close>; \<open>Panicked\<close>: \<open>first().unwrap()\<close> of an empty list.\<close>

datatype verdict = Allowed | Limited nat nat | Panicked

text \<open>\<open>now\<close> is the first reading of the clock, \<open>later\<close> the one of \<open>elapsed()\<close>.\<close>

definition check_rate_limit :: "int \<Rightarrow> int \<Rightarrow> 'ip \<Rightarrow> 'ip rate_limiter \<Rightarrow> verdict \<times> 'ip rate_limiter" where
  "check_rate_limit now later ip l =
     (let cutoff = now - window l;
          entry = (case dm_get (requests l) ip of Some ts \<Rightarrow> ts | None \<Rightarrow> []);
          kept = filter (\<lambda>timestamp. timestamp > cutoff) entry
      in if length kept \<ge> max_requests l then
           (case kept of
              [] \<Rightarrow> (Panicked, l\<lparr>requests := dm_insert ip kept (requests l)\<rparr>)
            | oldest # _ \<Rightarrow>
                (Limited (max (nat ((later - oldest) div nanos) - window_secs l) 1) (max_requests l),
                 l\<lparr>requests := dm_insert ip kept (requests l)\<rparr>))
         else (Allowed, l\<lparr>requests := dm_insert ip (kept @ [now]) (requests l)\<rparr>))"

definition cleanup :: "int \<Rightarrow> 'ip rate_limiter \<Rightarrow> 'ip rate_limiter" where
  "cleanup now l =
     (let cutoff = now - window l - 60 * nanos in
      l\<lparr>requests := filter (\<lambda>(ip, ts). ts \<noteq> [])
          (map (\<lambda>(ip, ts). (ip, filter (\<lambda>t. t > cutoff) ts)) (requests l))\<rparr>)"

section \<open>The middleware\<close>

definition trim :: "string \<Rightarrow> string" where
  "trim s = (let blank = (\<lambda>c. c = CHR '' '' \<or> c = CHR 0x09)
             in rev (dropWhile blank (rev (dropWhile blank s))))"

text \<open>The headers \<open>x-forwarded-for\<close> and \<open>x-real-ip\<close>, where they are present and text.\<close>

definition extract_ip :: "(string \<Rightarrow> 'ip option) \<Rightarrow> 'ip \<Rightarrow> string option \<Rightarrow> string option \<Rightarrow> 'ip" where
  "extract_ip parse_ip localhost forwarded_for real_ip =
     (case Option.bind forwarded_for (\<lambda>s. parse_ip (trim (hd (split_on (CHR '','') s)))) of
        Some ip \<Rightarrow> ip
      | None \<Rightarrow> (case Option.bind real_ip parse_ip of Some ip \<Rightarrow> ip | None \<Rightarrow> localhost))"

text \<open>The response that ends a request: status 429 with the limit and the seconds to wait.\<close>

definition rate_limit_middleware :: "int \<Rightarrow> int \<Rightarrow> 'ip \<Rightarrow> 'ip rate_limiter \<Rightarrow>
    ((nat \<times> nat \<times> nat) option + unit) \<times> 'ip rate_limiter" where
  "rate_limit_middleware now later ip l =
     (case check_rate_limit now later ip l of
        (Allowed, l') \<Rightarrow> (Inr (), l')
      | (Limited retry_after limit, l') \<Rightarrow> (Inl (Some (429, limit, retry_after)), l')
      | (Panicked, l') \<Rightarrow> (Inl None, l'))"

section \<open>The bound on admitted requests\<close>

text \<open>A history of the limiter: requests and cleanups, and the requests that were let through.\<close>

datatype 'ip limiter_event = Request 'ip int int | Cleanup int

fun event_time :: "'ip limiter_event \<Rightarrow> int" where
  "event_time (Request ip now later) = now"
| "event_time (Cleanup now) = now"

fun limiter_step :: "'ip limiter_event \<Rightarrow> 'ip rate_limiter \<times> ('ip \<times> int) list \<Rightarrow>
    'ip rate_limiter \<times> ('ip \<times> int) list" where
  "limiter_step (Request ip now later) (l, admitted) =
     (case check_rate_limit now later ip l of (v, l') \<Rightarrow>
        (l', if v = Allowed then admitted @ [(ip, now)] else admitted))"
| "limiter_step (Cleanup now) (l, admitted) = (cleanup now l, admitted)"

abbreviation times_of :: "'ip \<Rightarrow> ('ip \<times> int) list \<Rightarrow> int list" where
  "times_of ip admitted \<equiv> map snd (filter (\<lambda>e. fst e = ip) admitted)"

definition stored_times :: "'ip \<Rightarrow> 'ip rate_limiter \<Rightarrow> int list" where
  "stored_times ip l = (case dm_get (requests l) ip of Some ts \<Rightarrow> ts | None \<Rightarrow> [])"

text \<open>
  The limiter remembers every admitted request of the last window, and no window holds more than
  the limit.
\<close>

definition limiter_inv :: "int \<Rightarrow> 'ip rate_limiter \<times> ('ip \<times> int) list \<Rightarrow> bool" where
  "limiter_inv now s \<longleftrightarrow> (case s of (l, admitted) \<Rightarrow>
     dm_ok (requests l) \<and>
     (\<forall>ip. \<forall>c\<ge>now - window l. filter (\<lambda>t. t > c) (stored_times ip l) = filter (\<lambda>t. t > c) (times_of ip admitted)) \<and>
     (\<forall>ip t. length (filter (\<lambda>s. t - window l < s \<and> s \<le> t) (times_of ip admitted)) \<le> max_requests l) \<and>
     (\<forall>(ip, t)\<in>set admitted. t \<le> now))"

lemma check_settings:
  "window (snd (check_rate_limit now later ip l)) = window l"
  "max_requests (snd (check_rate_limit now later ip l)) = max_requests l"
  by (simp_all add: check_rate_limit_def Let_def window_def split: list.splits)

lemma filter_filter_le: "c \<le> d \<Longrightarrow> filter (\<lambda>t. t > d) (filter (\<lambda>t. t > c) ts) = filter (\<lambda>t :: int. t > d) ts"
  by (induction ts) auto

lemma check_times:
  "stored_times ip' (snd (check_rate_limit now later ip l)) =
     (if ip' = ip then filter (\<lambda>t. t > now - window l) (stored_times ip l) @
        (if fst (check_rate_limit now later ip l) = Allowed then [now] else [])
      else stored_times ip' l)"
  by (auto simp: check_rate_limit_def Let_def stored_times_def update_conv' split: list.splits option.splits)

lemma check_allowed:
  "fst (check_rate_limit now later ip l) = Allowed \<longleftrightarrow>
     length (filter (\<lambda>t. t > now - window l) (stored_times ip l)) < max_requests l"
  by (auto simp: check_rate_limit_def Let_def stored_times_def split: list.splits option.splits)

lemma filter_mono_length:
  "(\<And>x. x \<in> set xs \<Longrightarrow> P x \<Longrightarrow> Q x) \<Longrightarrow> length (filter P xs) \<le> length (filter Q xs)"
  by (induction xs) auto

lemma dm_ok_check: "dm_ok (requests l) \<Longrightarrow> dm_ok (requests (snd (check_rate_limit now later ip l)))"
  by (simp add: check_rate_limit_def Let_def dm_ok_def distinct_update split: list.splits)

lemma request_inv:
  assumes "limiter_inv prev (l, admitted)" and "prev \<le> now"
  shows "limiter_inv now (limiter_step (Request ip now later) (l, admitted))"
proof -
  let ?W = "window l"
  obtain v l' where c: "check_rate_limit now later ip l = (v, l')" by fastforce
  have inv: "dm_ok (requests l)"
    "\<And>ip c. prev - ?W \<le> c \<Longrightarrow> filter (\<lambda>t. t > c) (stored_times ip l) = filter (\<lambda>t. t > c) (times_of ip admitted)"
    "\<And>ip t. length (filter (\<lambda>s. t - ?W < s \<and> s \<le> t) (times_of ip admitted)) \<le> max_requests l"
    "\<And>ip t. (ip, t) \<in> set admitted \<Longrightarrow> t \<le> prev"
    using assms(1) by (auto simp: limiter_inv_def)
  have W: "window l' = ?W" "max_requests l' = max_requests l" using check_settings [of now later ip l] c by simp_all
  have kept: "filter (\<lambda>t. t > now - ?W) (stored_times ip l) = filter (\<lambda>t. t > now - ?W) (times_of ip admitted)"
    using inv(2) assms(2) by simp
  let ?adm = "if v = Allowed then admitted @ [(ip, now)] else admitted"
  have times: "times_of ip' ?adm = times_of ip' admitted @ (if ip' = ip \<and> v = Allowed then [now] else [])" for ip'
    by simp
  have mem: "filter (\<lambda>t. t > c) (stored_times ip' l') = filter (\<lambda>t. t > c) (times_of ip' ?adm)"
    if "now - ?W \<le> c" for ip' c
    using check_times [of ip' now later ip l] c kept inv(2) [of c ip'] filter_filter_le [OF that] that assms(2)
    unfolding times by (auto simp: kept)
  have bound: "length (filter (\<lambda>s. t - ?W < s \<and> s \<le> t) (times_of ip' ?adm)) \<le> max_requests l" for ip' t
  proof (cases "ip' = ip \<and> v = Allowed \<and> now \<le> t")
    case True
    have "length (filter (\<lambda>s. t - ?W < s \<and> s \<le> t) (times_of ip admitted)) \<le>
        length (filter (\<lambda>s. s > now - ?W) (times_of ip admitted))"
      using True by (intro filter_mono_length) auto
    also have "\<dots> < max_requests l"
      using check_allowed [of now later ip l] c True kept by simp
    finally show ?thesis using True unfolding times by auto
  next
    case False
    then show ?thesis using inv(3) [of t ip'] unfolding times by auto
  qed
  have "\<forall>(ip', t)\<in>set ?adm. t \<le> now"
    using inv(4) assms(2) by (fastforce split: if_splits)
  moreover have "dm_ok (requests l')" using dm_ok_check [OF inv(1), of now later ip] c by simp
  ultimately show ?thesis
    using mem bound unfolding limiter_inv_def limiter_step.simps c prod.case W by blast
qed

lemma retain_lookup:
  fixes m :: "('k \<times> 'v list) list" and P :: "'v \<Rightarrow> bool"
  assumes "distinct (map fst m)"
  defines "m' \<equiv> filter (\<lambda>(k, ts). ts \<noteq> []) (map (\<lambda>(k, ts). (k, filter P ts)) m)"
  shows "(case map_of m' k of Some ts \<Rightarrow> ts | None \<Rightarrow> []) =
    filter P (case map_of m k of Some ts \<Rightarrow> ts | None \<Rightarrow> [])"
    and "distinct (map fst m')"
proof -
  have "fst ` set m' \<subseteq> fst ` set m \<and> distinct (map fst m') \<and>
    (\<forall>k. (case map_of m' k of Some ts \<Rightarrow> ts | None \<Rightarrow> []) = filter P (case map_of m k of Some ts \<Rightarrow> ts | None \<Rightarrow> []))"
    using assms(1) unfolding m'_def
  proof (induction m)
    case (Cons e m)
    let ?r = "filter (\<lambda>(k, ts). ts \<noteq> []) (map (\<lambda>(k, ts). (k, filter P ts)) m)"
    obtain a ts where e: "e = (a, ts)" by (cases e)
    have IH: "fst ` set ?r \<subseteq> fst ` set m" "distinct (map fst ?r)"
      "\<And>k. (case map_of ?r k of Some ts \<Rightarrow> ts | None \<Rightarrow> []) = filter P (case map_of m k of Some ts \<Rightarrow> ts | None \<Rightarrow> [])"
      using Cons by simp_all
    have "a \<notin> fst ` set ?r" "a \<notin> fst ` set m" using Cons.prems IH(1) by (auto simp: e)
    then have "map_of ?r a = None" "map_of m a = None" unfolding map_of_eq_None_iff .
    then show ?case
      using IH \<open>a \<notin> fst ` set ?r\<close> by (cases "filter P ts = []") (auto simp: e)
  qed simp
  then show "(case map_of m' k of Some ts \<Rightarrow> ts | None \<Rightarrow> []) =
      filter P (case map_of m k of Some ts \<Rightarrow> ts | None \<Rightarrow> [])" and "distinct (map fst m')"
    by blast+
qed

lemma cleanup_lookup:
  assumes "dm_ok (requests l)"
  shows "stored_times ip (cleanup now l) = filter (\<lambda>t. t > now - window l - 60 * nanos) (stored_times ip l)"
    and "dm_ok (requests (cleanup now l))"
  using retain_lookup [of "requests l", where P = "\<lambda>t. t > now - window l - 60 * nanos"] assms
  by (simp_all add: stored_times_def cleanup_def Let_def dm_ok_def)

lemma cleanup_inv:
  assumes "limiter_inv prev (l, admitted)" and "prev \<le> now"
  shows "limiter_inv now (limiter_step (Cleanup now) (l, admitted))"
proof -
  have ok: "dm_ok (requests l)" using assms(1) by (simp add: limiter_inv_def)
  have w: "window (cleanup now l) = window l" "max_requests (cleanup now l) = max_requests l"
    by (simp_all add: cleanup_def Let_def window_def)
  have "filter (\<lambda>t. t > c) (stored_times ip (cleanup now l)) = filter (\<lambda>t. t > c) (stored_times ip l)"
    if "now - window l \<le> c" for ip c
    unfolding cleanup_lookup(1) [OF ok] using that by (intro filter_filter_le) simp
  then show ?thesis
    using assms cleanup_lookup(2) [OF ok] by (auto simp: limiter_inv_def w intro: order_trans)
qed

lemma history_inv:
  assumes "limiter_inv prev s" and "sorted_wrt (\<le>) (prev # map event_time evs)"
  shows "\<exists>now. limiter_inv now (fold limiter_step evs s)"
  using assms
proof (induction evs arbitrary: prev s)
  case (Cons e evs)
  obtain l admitted where s: "s = (l, admitted)" by (cases s)
  have "limiter_inv (event_time e) (limiter_step e s)"
    using Cons.prems by (cases e) (auto simp: s intro!: request_inv cleanup_inv simp del: limiter_step.simps)
  then show ?case using Cons.IH [of "event_time e"] Cons.prems(2) by simp
qed auto

lemma history_settings:
  "window (fst (fold limiter_step evs s)) = window (fst s) \<and>
   max_requests (fst (fold limiter_step evs s)) = max_requests (fst s)"
proof (induction evs arbitrary: s)
  case (Cons e evs)
  have "window (fst (limiter_step e s)) = window (fst s) \<and> max_requests (fst (limiter_step e s)) = max_requests (fst s)"
  proof (cases s)
    case (Pair l admitted)
    then show ?thesis
    proof (cases e)
      case (Request ip now later)
      then show ?thesis using check_settings [of now later ip l] by (simp add: Pair case_prod_beta)
    next
      case (Cleanup now)
      then show ?thesis by (simp add: Pair cleanup_def window_def Let_def)
    qed
  qed
  then show ?case using Cons.IH by simp
qed simp

text \<open>
  C30. The rate limit holds: in any history of requests and cleanups in the order of time, no window
  of the configured length contains more admitted requests of one address than the limit.
\<close>

theorem window_never_exceeded:
  assumes "sorted_wrt (\<le>) (map event_time evs)"
    and "fold limiter_step evs (new_limiter mx w, []) = (l, admitted)"
  shows "length (filter (\<lambda>s. t - int w * nanos < s \<and> s \<le> t) (times_of ip admitted)) \<le> mx"
proof (cases evs)
  case Nil
  then show ?thesis using assms(2) by simp
next
  case (Cons e es)
  have "limiter_inv (event_time e) (new_limiter mx w, [])"
    by (simp add: limiter_inv_def new_limiter_def stored_times_def dm_ok_def)
  moreover have "sorted_wrt (\<le>) (event_time e # map event_time evs)"
    using assms(1) by (auto simp: Cons)
  ultimately obtain now where "limiter_inv now (l, admitted)"
    using history_inv assms(2) by metis
  moreover have "window l = int w * nanos" "max_requests l = mx"
    using history_settings [of evs "(new_limiter mx w, [])"] assms(2)
    by (simp_all add: new_limiter_def window_def)
  ultimately show ?thesis by (auto simp: limiter_inv_def)
qed

theorem window_never_exceeded_witness:
  "length (filter (\<lambda>s. 7 - int 60 * nanos < s \<and> s \<le> 7) (times_of ''ip''
     (snd (fold limiter_step [Request ''ip'' 5 5, Request ''ip'' 6 6, Cleanup 7] (new_limiter 1 60, []))))) \<le> 1"
proof -
  obtain l admitted where "fold limiter_step [Request ''ip'' 5 5, Request ''ip'' 6 6, Cleanup 7] (new_limiter 1 60, []) = (l, admitted)"
    by (rule prod.exhaust)
  then show ?thesis
    using window_never_exceeded [of "[Request ''ip'' 5 5, Request ''ip'' 6 6, Cleanup 7]" 1 60 l admitted 7 "''ip''"]
    by simp
qed

text \<open>
  A client over its limit is always told to retry after one second, however long the window:
  when the check itself takes at most a second, the oldest remembered request is never older than
  the window. The limiter answers so until that request leaves the window.
\<close>

lemma retry_after_is_one:
  assumes "check_rate_limit now later ip l = (Limited retry_after limit, l')" and "later - now \<le> nanos"
  shows "retry_after = 1 \<and> limit = max_requests l \<and>
    (\<forall>oldest. stored_times ip l' \<noteq> [] \<and> oldest = hd (stored_times ip l') \<longrightarrow> now - oldest < window l)"
proof -
  obtain oldest rest where k: "filter (\<lambda>t. t > now - window l) (stored_times ip l) = oldest # rest"
    and r: "retry_after = max (nat ((later - oldest) div nanos) - window_secs l) 1" "limit = max_requests l"
    and l': "l' = l\<lparr>requests := dm_insert ip (oldest # rest) (requests l)\<rparr>"
    using assms(1) by (auto simp: check_rate_limit_def Let_def stored_times_def split: if_splits list.splits)
  have "oldest > now - window l" using k by (auto simp: filter_eq_Cons_iff)
  moreover from this have "later - oldest < (int (window_secs l) + 1) * nanos"
    using assms(2) by (simp add: window_def algebra_simps)
  then have "(later - oldest) div nanos \<le> int (window_secs l)"
    by (simp add: div_less_iff_less_mult flip: zless_add1_eq)
  then have "nat ((later - oldest) div nanos) - window_secs l = 0" by simp
  ultimately show ?thesis using r by (simp add: l' stored_times_def)
qed


lemma retry_after_is_one_example:
  "\<exists>retry_after limit l'. check_rate_limit 6 6 ''ip'' \<lparr>requests = [(''ip'', [5])], max_requests = 1, window_secs = 60\<rparr> =
     (Limited retry_after limit, l') \<and> retry_after = 1"
proof -
  obtain r m l' where c: "check_rate_limit 6 6 ''ip'' \<lparr>requests = [(''ip'', [5])], max_requests = 1, window_secs = 60\<rparr> =
      (Limited r m, l')"
    by (simp add: check_rate_limit_def Let_def window_def)
  from retry_after_is_one [OF this] c show ?thesis by auto
qed

text \<open>With a limit of zero every request panics.\<close>

lemma zero_limit_panics: "fst (check_rate_limit now later ip (new_limiter 0 w)) = Panicked"
  by (simp add: check_rate_limit_def Let_def new_limiter_def)

end
