(* ===== verification/Server.thy ===== *)
theory Server
  imports Access Isolation RateLimit
begin

text \<open>
  The server that \<open>main.rs\<close> puts together: the route table, the layers a request passes (rate limit, size
  limit, security headers, CORS, authentication) and the handler it reaches, as one function of the
  request and the state all requests share. The router's path matching, the extractors of the web
  framework, its own refusals and the CORS layer are third-party code and parameters.
\<close>

section \<open>Requests and responses\<close>

datatype http_method = GET | POST | DELETE | HEAD | OtherMethod

record http_request =
  rq_method :: http_method
  rq_path :: string
  rq_authorization :: "string option"
  rq_forwarded_for :: "string option"
  rq_real_ip :: "string option"
  rq_content_length :: "nat option"
  rq_body :: bytes

datatype http_body = JsonBody json | OtherBody bytes

record http_response =
  rs_status :: nat
  rs_headers :: "(string \<times> string) list"
  rs_body :: http_body

definition json_response :: "response \<Rightarrow> http_response" where
  "json_response r =
     \<lparr>rs_status = fst r, rs_headers = [(''content-type'', ''application/json'')], rs_body = JsonBody (snd r)\<rparr>"

section \<open>The route table\<close>

datatype public_endpoint = Login | WebSocket | Health

datatype protected_endpoint =
    SetDocs | UpdateDocs | DeleteDocs | Snapshot | GetDocs | StatsPost | StatsGet | RestGetCollection | RestGet
  | Delegate | Refresh | RevokeToken | Metrics | SchemaPost

definition protected_routes :: "(string \<times> (http_method \<times> protected_endpoint) list) list" where
  "protected_routes =
     [(''/set'', [(POST, SetDocs)]), (''/update'', [(POST, UpdateDocs)]), (''/delete'', [(POST, DeleteDocs)]),
      (''/snapshot'', [(POST, Snapshot)]), (''/get'', [(POST, GetDocs)]),
      (''/stats'', [(POST, StatsPost), (GET, StatsGet)]),
      (''/collections/{collection}'', [(GET, RestGetCollection)]),
      (''/collections/{collection}/docs/{key}'', [(GET, RestGet)]),
      (''/auth/delegate'', [(POST, Delegate)]), (''/auth/refresh'', [(POST, Refresh)]),
      (''/auth/tokens/{jti}'', [(DELETE, RevokeToken)]), (''/system/metrics'', [(GET, Metrics)]),
      (''/schema'', [(POST, SchemaPost)])]"

definition public_routes :: "(string \<times> (http_method \<times> public_endpoint) list) list" where
  "public_routes = [(''/login'', [(POST, Login)]), (''/ws'', [(GET, WebSocket)]), (''/system/health'', [(GET, Health)])]"

text \<open>A route for \<open>GET\<close> answers \<open>HEAD\<close> too.\<close>

definition for_method :: "(http_method \<times> 'a) list \<Rightarrow> http_method \<Rightarrow> 'a option" where
  "for_method methods m =
     (case map_of methods m of Some e \<Rightarrow> Some e | None \<Rightarrow> if m = HEAD then map_of methods GET else None)"

section \<open>The world of a request\<close>

text \<open>
  The web framework: the route that matches a path, with the values of its parameters; the extractors,
  which give the value or the response that refuses the request; the framework's other refusals; the
  CORS layer, which answers preflight requests itself and adds headers to other responses.
\<close>

record 'ip web =
  match_route :: "string list \<Rightarrow> string \<Rightarrow> (string \<times> string list) option"
  read_json :: "nat \<Rightarrow> http_request \<Rightarrow> http_response + json"
  read_optional_json :: "nat \<Rightarrow> http_request \<Rightarrow> http_response + json option"
  read_login :: "nat \<Rightarrow> http_request \<Rightarrow> http_response + string \<times> string"
  read_delegate :: "nat \<Rightarrow> http_request \<Rightarrow> http_response + delegate_request"
  read_query :: "http_request \<Rightarrow> http_response + (string, string) dashmap"
  upgrade :: "http_request \<Rightarrow> http_response"
  bad_path :: http_response
  no_route :: "http_request \<Rightarrow> http_response"
  wrong_method :: "http_request \<Rightarrow> http_response"
  too_large_text :: bytes
  cors_preflight :: "http_request \<Rightarrow> http_response option"
  cors_headers :: "http_request \<Rightarrow> (string \<times> string) list"
  parse_ip :: "string \<Rightarrow> 'ip option"
  localhost :: 'ip

text \<open>What \<open>/system/metrics\<close> reads of its host; a disk is its mount point, total and available space.\<close>

record host_reading =
  uptime_seconds :: u64
  total_ram :: u64
  used_ram :: u64
  free_ram :: u64
  process_memory :: "u64 option"
  host_disks :: "(string \<times> u64 \<times> u64) list"

text \<open>The readings of the clock and the other inputs of one request.\<close>

record arrival =
  ar_limiter_now :: int
  ar_limiter_later :: int
  ar_checked_at :: u64
  ar_moment :: moment
  ar_new_id :: string
  ar_host :: host_reading

text \<open>What the process is configured with, and the state all requests share.\<close>

record 'ip service =
  su_world :: world
  su_auth :: auth_env
  su_jwt_text :: "jwt_error \<Rightarrow> string"
  su_app :: app_state
  su_web :: "'ip web"

record 'ip server =
  sv_db :: db
  sv_sessions :: sessions
  sv_limiter :: "'ip rate_limiter"

text \<open>No response: a panic closes the connection.\<close>

type_synonym 'ip responder = "'ip server \<Rightarrow> http_response option \<times> 'ip server"

section \<open>Metrics\<close>

definition disk_info :: "string \<times> u64 \<times> u64 \<Rightarrow> json" where
  "disk_info d = (case d of (mount, capacity, avail) \<Rightarrow>
     Object (of_entries [(''mount'', String mount), (''total_bytes'', json_u64 capacity),
       (''used_bytes'', json_u64 (if avail \<le> capacity then capacity - avail else 0)),
       (''available_bytes'', json_u64 avail)]))"

definition handle_metrics :: "host_reading \<Rightarrow> claims \<Rightarrow> db \<Rightarrow> response" where
  "handle_metrics h cl db =
     (if \<not> is_admin cl then forbidden ''Admin access required''
      else (200, Object (of_entries
        [(''uptime_seconds'', json_u64 (uptime_seconds h)),
         (''process'', Object (of_entries [(''memory_used_bytes'',
            json_u64 (case process_memory h of Some n \<Rightarrow> n | None \<Rightarrow> 0))])),
         (''host'', Object (of_entries [(''memory'', Object (of_entries [(''total_bytes'', json_u64 (total_ram h)),
            (''used_bytes'', json_u64 (used_ram h)), (''free_bytes'', json_u64 (free_ram h))])),
            (''disks'', Array (map disk_info (host_disks h)))])),
         (''database'', Object (of_entries [(''hot_keys_count'', json_nat (hot_keys_count db)),
            (''storage_mode'', String (storage_mode (db_storage db)))]))])))"

section \<open>Handlers\<close>

definition body_limit :: "'ip service \<Rightarrow> nat" where
  "body_limit su = max_body_size (app_limits (su_app su))"

definition extracting :: "http_response + 'a \<Rightarrow> ('a \<Rightarrow> 'ip responder) \<Rightarrow> 'ip responder" where
  "extracting r f s = (case r of Inl rejected \<Rightarrow> (Some rejected, s) | Inr v \<Rightarrow> f v s)"

definition from_db :: "(db \<Rightarrow> response outcome \<times> db) \<Rightarrow> 'ip responder" where
  "from_db f s =
     (case f (sv_db s) of
        (Returns r, db) \<Rightarrow> (Some (json_response r), s\<lparr>sv_db := db\<rparr>) | (Aborts, db) \<Rightarrow> (None, s\<lparr>sv_db := db\<rparr>))"

definition from_read :: "(db \<Rightarrow> response \<times> db) \<Rightarrow> 'ip responder" where
  "from_read f s = (case f (sv_db s) of (r, db) \<Rightarrow> (Some (json_response r), s\<lparr>sv_db := db\<rparr>))"

definition from_sessions :: "(sessions \<Rightarrow> response \<times> sessions) \<Rightarrow> 'ip responder" where
  "from_sessions f s =
     (case f (sv_sessions s) of (r, ss) \<Rightarrow> (Some (json_response r), s\<lparr>sv_sessions := ss\<rparr>))"

definition respond :: "http_response \<Rightarrow> 'ip responder" where
  "respond r s = (Some r, s)"

fun public_answer :: "'ip service \<Rightarrow> arrival \<Rightarrow> http_request \<Rightarrow> public_endpoint \<Rightarrow> 'ip responder" where
  "public_answer su ar rq Login = extracting (read_login (su_web su) (body_limit su) rq) (\<lambda>(username, password).
     respond (json_response (handle_login (su_auth su) (now_unix (ar_moment ar)) (ar_new_id ar) (su_app su) username password)))"
| "public_answer su ar rq WebSocket = respond (upgrade (su_web su) rq)"
| "public_answer su ar rq Health = respond (json_response handle_health)"

fun protected_answer :: "'ip service \<Rightarrow> arrival \<Rightarrow> http_request \<Rightarrow> claims \<Rightarrow> string list \<Rightarrow> protected_endpoint \<Rightarrow> 'ip responder" where
  "protected_answer su ar rq cl caps SetDocs = extracting (read_json (su_web su) (body_limit su) rq)
     (\<lambda>payload. from_db (handle_set (su_world su) (su_app su) cl payload))"
| "protected_answer su ar rq cl caps UpdateDocs = extracting (read_json (su_web su) (body_limit su) rq)
     (\<lambda>payload. from_db (handle_update (su_world su) (su_app su) cl payload))"
| "protected_answer su ar rq cl caps DeleteDocs = extracting (read_json (su_web su) (body_limit su) rq)
     (\<lambda>payload. from_db (handle_delete (su_world su) (su_app su) cl payload))"
| "protected_answer su ar rq cl caps Snapshot = from_db (handle_snapshot (su_world su) cl)"
| "protected_answer su ar rq cl caps GetDocs = extracting (read_json (su_web su) (body_limit su) rq)
     (\<lambda>payload. from_db (handle_get (su_world su) (su_app su) cl payload))"
| "protected_answer su ar rq cl caps StatsPost = extracting (read_json (su_web su) (body_limit su) rq)
     (\<lambda>payload. from_db (handle_stats_post (su_world su) payload))"
| "protected_answer su ar rq cl caps StatsGet = from_db (handle_stats_get (su_world su))"
| "protected_answer su ar rq cl caps RestGetCollection =
     (case caps of
        [collection] \<Rightarrow> extracting (read_query (su_web su) rq)
          (\<lambda>params. from_read (handle_rest_get_collection (su_world su) (su_app su) cl collection params))
      | _ \<Rightarrow> respond (bad_path (su_web su)))"
| "protected_answer su ar rq cl caps RestGet =
     (case caps of
        [collection, key] \<Rightarrow> from_read (handle_rest_get (su_world su) (su_app su) cl collection key)
      | _ \<Rightarrow> respond (bad_path (su_web su)))"
| "protected_answer su ar rq cl caps Delegate = extracting (read_delegate (su_web su) (body_limit su) rq)
     (\<lambda>payload. respond (json_response (handle_delegate (su_auth su) (su_jwt_text su) (now_unix (ar_moment ar))
        (ar_new_id ar) (su_app su) cl payload)))"
| "protected_answer su ar rq cl caps Refresh = extracting (read_optional_json (su_web su) (body_limit su) rq)
     (\<lambda>body. from_sessions (handle_refresh (su_auth su) (su_jwt_text su) (ar_moment ar) (ar_new_id ar)
        (rq_authorization rq) body))"
| "protected_answer su ar rq cl caps RevokeToken =
     (case caps of
        [token_id] \<Rightarrow> extracting (read_json (su_web su) (body_limit su) rq)
          (\<lambda>payload. from_sessions (handle_revoke (su_auth su) (ar_moment ar) cl token_id payload))
      | _ \<Rightarrow> respond (bad_path (su_web su)))"
| "protected_answer su ar rq cl caps Metrics = (\<lambda>s. respond (json_response (handle_metrics (ar_host ar) cl (sv_db s))) s)"
| "protected_answer su ar rq cl caps SchemaPost = extracting (read_json (su_web su) (body_limit su) rq)
     (\<lambda>payload. from_db (handle_schema (su_world su) (su_app su) payload))"

section \<open>Layers\<close>

fun rejection_response :: "rejection \<Rightarrow> http_response" where
  "rejection_response (Unauthorized msg) = json_response (error_body 401 msg)"
| "rejection_response (InternalError msg) = json_response (error_body 500 msg)"

definition auth_layer :: "'ip service \<Rightarrow> arrival \<Rightarrow> http_request \<Rightarrow> (claims \<Rightarrow> 'ip responder) \<Rightarrow> 'ip responder" where
  "auth_layer su ar rq inner s =
     (case auth_middleware (su_auth su) (ar_checked_at ar) (rq_authorization rq) (Some (revoked (sv_sessions s))) of
        Inl rejected \<Rightarrow> respond (rejection_response rejected) s
      | Inr cl \<Rightarrow> inner cl s)"

text \<open>The router: the authentication layer wraps the protected routes, whatever the method.\<close>

definition routed :: "'ip service \<Rightarrow> arrival \<Rightarrow> http_request \<Rightarrow> 'ip responder" where
  "routed su ar rq =
     (case match_route (su_web su) (map fst public_routes @ map fst protected_routes) (rq_path rq) of
        None \<Rightarrow> respond (no_route (su_web su) rq)
      | Some (pattern, caps) \<Rightarrow>
        (case (map_of public_routes pattern, map_of protected_routes pattern) of
           (Some methods, _) \<Rightarrow>
             (case for_method methods (rq_method rq) of
                Some e \<Rightarrow> public_answer su ar rq e | None \<Rightarrow> respond (wrong_method (su_web su) rq))
         | (None, Some methods) \<Rightarrow> auth_layer su ar rq (\<lambda>cl.
             case for_method methods (rq_method rq) of
               Some e \<Rightarrow> protected_answer su ar rq cl caps e | None \<Rightarrow> respond (wrong_method (su_web su) rq))
         | (None, None) \<Rightarrow> respond (no_route (su_web su) rq)))"

definition with_response :: "(http_response \<Rightarrow> http_response) \<Rightarrow> 'ip responder \<Rightarrow> 'ip responder" where
  "with_response f inner s = (case inner s of (r, s') \<Rightarrow> (map_option f r, s'))"

definition cors_layer :: "'ip service \<Rightarrow> http_request \<Rightarrow> 'ip responder \<Rightarrow> 'ip responder" where
  "cors_layer su rq inner =
     (case cors_preflight (su_web su) rq of
        Some r \<Rightarrow> respond r
      | None \<Rightarrow> with_response (\<lambda>r. r\<lparr>rs_headers := rs_headers r @ cors_headers (su_web su) rq\<rparr>) inner)"

definition overriding :: "string \<Rightarrow> string \<Rightarrow> http_response \<Rightarrow> http_response" where
  "overriding name v r = r\<lparr>rs_headers := filter (\<lambda>h. fst h \<noteq> name) (rs_headers r) @ [(name, v)]\<rparr>"

definition security_headers :: "(string \<times> string) list" where
  "security_headers =
     [(''x-content-type-options'', ''nosniff''), (''x-frame-options'', ''DENY''),
      (''x-xss-protection'', ''1; mode=block''),
      (''strict-transport-security'', ''max-age=31536000; includeSubDomains''),
      (''referrer-policy'', ''no-referrer''),
      (''permissions-policy'', ''geolocation=(), microphone=(), camera=()''),
      (''content-security-policy'', ''default-src '' @ quoted ''self'' @ ''; script-src '' @ quoted ''self'' @
         ''; object-src '' @ quoted ''none'')]"

definition security_layer :: "'ip responder \<Rightarrow> 'ip responder" where
  "security_layer = with_response (fold (\<lambda>(name, v). overriding name v) security_headers)"

definition body_limit_layer :: "'ip service \<Rightarrow> http_request \<Rightarrow> 'ip responder \<Rightarrow> 'ip responder" where
  "body_limit_layer su rq inner =
     (if (case rq_content_length rq of Some n \<Rightarrow> n > body_limit su | None \<Rightarrow> False)
      then respond \<lparr>rs_status = 413, rs_headers = [], rs_body = OtherBody (too_large_text (su_web su))\<rparr>
      else inner)"

definition limited_response :: "nat \<Rightarrow> nat \<Rightarrow> nat \<Rightarrow> http_response" where
  "limited_response code limit retry_after = json_response (code, Object (of_entries
     [(''error'', String ''Rate limit exceeded''), (''limit'', json_nat limit), (''retry_after_seconds'', json_nat retry_after)]))"

definition rate_limit_layer :: "'ip service \<Rightarrow> arrival \<Rightarrow> http_request \<Rightarrow> 'ip responder \<Rightarrow> 'ip responder" where
  "rate_limit_layer su ar rq inner s =
     (case rate_limit_middleware (ar_limiter_now ar) (ar_limiter_later ar)
             (extract_ip (parse_ip (su_web su)) (localhost (su_web su)) (rq_forwarded_for rq) (rq_real_ip rq)) (sv_limiter s) of
        (Inr _, l) \<Rightarrow> inner (s\<lparr>sv_limiter := l\<rparr>)
      | (Inl (Some (code, limit, retry_after)), l) \<Rightarrow> (Some (limited_response code limit retry_after), s\<lparr>sv_limiter := l\<rparr>)
      | (Inl None, l) \<Rightarrow> (None, s\<lparr>sv_limiter := l\<rparr>))"

text \<open>The layers from the outside in: rate limit, size limit, security headers, CORS, routes.\<close>

definition serve :: "'ip service \<Rightarrow> arrival \<Rightarrow> http_request \<Rightarrow> 'ip responder" where
  "serve su ar rq = rate_limit_layer su ar rq (body_limit_layer su rq (security_layer (cors_layer su rq (routed su ar rq))))"

section \<open>What a request changes\<close>

lemma respond_run [simp]: "respond r s = (Some r, s)"
  by (simp add: respond_def)

text \<open>A relation between the states before and after that every layer hands on, however the limiter counts.\<close>

definition follows :: "('ip server \<Rightarrow> 'ip server \<Rightarrow> bool) \<Rightarrow> 'ip responder \<Rightarrow> bool" where
  "follows R f \<longleftrightarrow> (\<forall>s. R s (snd (f s)))"

lemma follows_db: "(\<And>s. R s (s\<lparr>sv_db := snd (f (sv_db s))\<rparr>)) \<Longrightarrow> follows R (from_db f)"
  by (simp add: follows_def from_db_def split: prod.split outcome.split) (metis snd_conv)

lemma follows_read: "(\<And>s. R s (s\<lparr>sv_db := snd (f (sv_db s))\<rparr>)) \<Longrightarrow> follows R (from_read f)"
  by (simp add: follows_def from_read_def split: prod.split) (metis snd_conv)

lemma follows_sessions:
  "(\<And>s. R s (s\<lparr>sv_sessions := snd (f (sv_sessions s))\<rparr>)) \<Longrightarrow> follows R (from_sessions f)"
  by (simp add: follows_def from_sessions_def split: prod.split) (metis snd_conv)

text \<open>The protected route that a request reaches, with the values of the path's parameters.\<close>

definition protected_route :: "'ip service \<Rightarrow> http_request \<Rightarrow> ((http_method \<times> protected_endpoint) list \<times> string list) option" where
  "protected_route su rq =
     (case match_route (su_web su) (map fst public_routes @ map fst protected_routes) (rq_path rq) of
        Some (pattern, caps) \<Rightarrow>
          (if map_of public_routes pattern = None
           then map_option (\<lambda>methods. (methods, caps)) (map_of protected_routes pattern) else None)
      | None \<Rightarrow> None)"

definition reaches :: "'ip service \<Rightarrow> http_request \<Rightarrow> protected_endpoint \<Rightarrow> string list \<Rightarrow> bool" where
  "reaches su rq e caps \<longleftrightarrow>
     (\<exists>methods. protected_route su rq = Some (methods, caps) \<and> for_method methods (rq_method rq) = Some e)"

lemma routed_protected:
  assumes "protected_route su rq = Some (methods, caps)"
  shows "routed su ar rq = auth_layer su ar rq (\<lambda>cl. case for_method methods (rq_method rq) of
    Some e \<Rightarrow> protected_answer su ar rq cl caps e | None \<Rightarrow> respond (wrong_method (su_web su) rq))"
  using assms by (auto simp: routed_def protected_route_def split: option.splits if_splits)

text \<open>
  A relation that a request keeps to when the handler it reaches does: it is reflexive and blind to the
  limiter. The layers, the extractors and the public endpoints add nothing of their own.
\<close>

locale state_frame =
  fixes R :: "'ip server \<Rightarrow> 'ip server \<Rightarrow> bool"
  assumes same: "R s s"
    and limiter_before: "R (s\<lparr>sv_limiter := l\<rparr>) = R s"
    and limiter_after: "R s s' \<Longrightarrow> R s (s'\<lparr>sv_limiter := l\<rparr>)"
begin

lemma responding [simp, intro]: "follows R (respond r)"
  by (simp add: follows_def same)

lemma reading [intro]: "follows R (\<lambda>s. (Some (f s), s))"
  by (simp add: follows_def same)

lemma extracted: "(\<And>v. x = Inr v \<Longrightarrow> follows R (f v)) \<Longrightarrow> follows R (extracting x f)"
  by (cases x) (simp_all add: follows_def extracting_def same)

lemma decorated: "follows R f \<Longrightarrow> follows R (with_response g f)"
  by (simp add: follows_def with_response_def split_beta)

lemma public_endpoints: "follows R (public_answer su ar rq e)"
  by (cases e) (auto intro!: extracted)

lemma routes:
  assumes "\<And>cl e caps s. auth_middleware (su_auth su) (ar_checked_at ar) (rq_authorization rq) (Some (revoked (sv_sessions s))) = Inr cl \<Longrightarrow>
      reaches su rq e caps \<Longrightarrow> R s (snd (protected_answer su ar rq cl caps e s))"
  shows "follows R (routed su ar rq)"
proof (cases "protected_route su rq")
  case None
  then show ?thesis
    by (auto simp: routed_def protected_route_def intro: public_endpoints split: option.split prod.split if_splits)
next
  case (Some p)
  then obtain methods caps where p: "protected_route su rq = Some (methods, caps)" by (cases p) auto
  show ?thesis
    unfolding routed_protected [OF p] follows_def auth_layer_def
    using assms p same by (auto simp: reaches_def split: sum.split option.split)
qed

lemma serves:
  assumes "follows R (routed su ar rq)"
  shows "R s (snd (serve su ar rq s))"
proof -
  have "follows R (cors_layer su rq (routed su ar rq))"
    using assms by (simp add: cors_layer_def decorated split: option.split)
  then have inner: "follows R (body_limit_layer su rq (security_layer (cors_layer su rq (routed su ar rq))))"
    by (simp add: body_limit_layer_def security_layer_def decorated)
  then have "R s (snd (body_limit_layer su rq (security_layer (cors_layer su rq (routed su ar rq))) (s\<lparr>sv_limiter := l\<rparr>)))" for l
    using limiter_before unfolding follows_def by metis
  moreover have "R s (s\<lparr>sv_limiter := l\<rparr>)" for l using same limiter_after by blast
  ultimately show ?thesis
    by (simp add: serve_def rate_limit_layer_def split: prod.split sum.split option.split)
qed

end

text \<open>When the authentication refuses the request, neither the database nor the sessions change.\<close>

definition if_refused :: "'ip service \<Rightarrow> arrival \<Rightarrow> http_request \<Rightarrow> 'ip server \<Rightarrow> 'ip server \<Rightarrow> bool" where
  "if_refused su ar rq s s' \<longleftrightarrow>
     (\<exists>rejected. auth_middleware (su_auth su) (ar_checked_at ar) (rq_authorization rq) (Some (revoked (sv_sessions s))) = Inl rejected) \<longrightarrow>
     sv_db s' = sv_db s \<and> sv_sessions s' = sv_sessions s"

interpretation refused: state_frame "if_refused su ar rq" for su ar rq
  by unfold_locales (auto simp: if_refused_def fun_eq_iff)

lemma refused_frame:
  assumes "auth_middleware (su_auth su) (ar_checked_at ar) (rq_authorization rq) (Some (revoked (sv_sessions s))) = Inl rejected"
  shows "sv_db (snd (serve su ar rq s)) = sv_db s \<and> sv_sessions (snd (serve su ar rq s)) = sv_sessions s"
proof -
  have "follows (if_refused su ar rq) (routed su ar rq)" by (rule refused.routes) (auto simp: if_refused_def)
  then have "if_refused su ar rq s (snd (serve su ar rq s))" by (rule refused.serves)
  with assms show ?thesis by (auto simp: if_refused_def)
qed

lemma overriding_status [simp]: "rs_status (overriding n v r) = rs_status r"
  by (simp add: overriding_def)

lemma security_status [simp]: "rs_status (fold (\<lambda>(name, v). overriding name v) hs r) = rs_status r"
  by (induction hs arbitrary: r) auto

lemma limited_code:
  "rate_limit_middleware now later ip l = (Inl (Some (code, limit, retry_after)), l') \<Longrightarrow> code = 429"
  by (auto simp: rate_limit_middleware_def split: verdict.splits prod.splits)

lemma refused_status:
  assumes "auth_middleware (su_auth su) (ar_checked_at ar) (rq_authorization rq) (Some (revoked (sv_sessions s))) = Inl rejected"
    and "protected_route su rq \<noteq> None" and "cors_preflight (su_web su) rq = None" and "fst (serve su ar rq s) = Some resp"
  shows "rs_status resp \<in> {401, 413, 429}"
proof -
  obtain methods caps where p: "protected_route su rq = Some (methods, caps)" using assms(2) by auto
  have rej: "rs_status (rejection_response rejected) = 401"
    using assms(1) by (auto simp: auth_middleware_def json_response_def error_body_def split: option.splits sum.splits if_splits)
  have "fst (routed su ar rq (s\<lparr>sv_limiter := l\<rparr>)) = Some (rejection_response rejected)" for l
    using assms(1) by (simp add: routed_protected [OF p] auth_layer_def)
  then have inner: "rs_status r \<in> {401, 413}"
    if "fst (body_limit_layer su rq (security_layer (cors_layer su rq (routed su ar rq))) (s\<lparr>sv_limiter := l\<rparr>)) = Some r" for r l
    using that rej assms(3)
    by (auto simp: body_limit_layer_def security_layer_def cors_layer_def with_response_def split_beta split: if_splits)
  show ?thesis
    using assms(4) inner limited_code
    by (auto simp: serve_def rate_limit_layer_def limited_response_def json_response_def
        split: prod.splits sum.splits option.splits) fastforce+
qed

section \<open>What a token can change\<close>

text \<open>The collections a token may write to; a request that names none is checked against the empty name and then
  stored in \<open>default\<close>.\<close>

definition may_change :: "claims \<Rightarrow> string \<Rightarrow> bool" where
  "may_change cl c \<longleftrightarrow> (\<exists>a\<in>{ACTION_WRITE, ACTION_DELETE}.
     has_collection_access cl a c \<or> c = ''default'' \<and> has_collection_access cl a [])"

lemma collection_named:
  "collection_or_default payload =
     (if Option.bind (pget payload Collection) as_str = None then ''default'' else requested_collection payload)"
  "Option.bind (pget payload Collection) as_str = None \<Longrightarrow> requested_collection payload = []"
  by (auto simp: collection_or_default_def requested_collection_def pget_def vindex_def split: option.split json.split)

lemma change_allowed:
  assumes "has_collection_access cl a (requested_collection payload)" and "a \<in> {ACTION_WRITE, ACTION_DELETE}"
    and "\<not> may_change cl c"
  shows "c \<noteq> collection_or_default payload"
  using assms collection_named [of payload] by (auto simp: may_change_def split: if_splits)

lemma reply_db [simp]: "snd (reply r) = snd r"
  by (simp add: reply_def split: prod.split outcome.split)

lemma run_get_part: "part (snd (run_get w app payload db)) c = part db c"
  using get_part [of w payload "app_limits app" db c] by (auto simp: run_get_def split: prod.split)

lemma run_scoped_part: "part (snd (run_scoped w app scoped db)) c = part db c"
proof (cases scoped)
  case (Returns payload)
  then show ?thesis using run_get_part [of w app payload db c] by (simp add: run_scoped_def split_beta)
qed (simp add: run_scoped_def)

lemma handlers_part:
  assumes "\<not> may_change cl c"
  shows "part (snd (handle_set w app cl payload db)) c = part db c"
    "part (snd (handle_update w app cl payload db)) c = part db c"
    "part (snd (handle_delete w app cl payload db)) c = part db c"
    "part (snd (handle_get w app cl payload db)) c = part db c"
    "part (snd (handle_snapshot w cl db)) c = part db c"
    "part (snd (handle_stats_post w payload db)) c = part db c"
    "part (snd (handle_stats_get w db)) c = part db c"
    "part (snd (handle_rest_get w app cl col key db)) c = part db c"
    "part (snd (handle_rest_get_collection w app cl col params db)) c = part db c"
  using change_allowed [OF _ _ assms, of ACTION_WRITE payload] change_allowed [OF _ _ assms, of ACTION_DELETE payload]
  by (simp_all add: handle_set_def handle_update_def handle_delete_def handle_get_def handle_snapshot_def
      handle_stats_post_def handle_stats_get_def handle_rest_get_def handle_rest_get_collection_def Let_def
      set_part update_part delete_part snapshot_part stats_part run_get_part run_scoped_part split: option.split)

definition part_kept :: "string \<Rightarrow> 'ip server \<Rightarrow> 'ip server \<Rightarrow> bool" where
  "part_kept c s s' \<longleftrightarrow> part (sv_db s') c = part (sv_db s) c"

definition documents_kept :: "'ip server \<Rightarrow> 'ip server \<Rightarrow> bool" where
  "documents_kept s s' \<longleftrightarrow> t_state (sv_db s') = t_state (sv_db s)"

interpretation parts: state_frame "part_kept c" for c
  by unfold_locales (auto simp: part_kept_def fun_eq_iff)

interpretation documents: state_frame documents_kept
  by unfold_locales (auto simp: documents_kept_def fun_eq_iff)

lemma answer_part:
  assumes "\<not> may_change cl c" and "e \<noteq> SchemaPost"
  shows "part_kept c s (snd (protected_answer su ar rq cl caps e s))"
proof -
  have "follows (part_kept c) (protected_answer su ar rq cl caps e)"
    using assms(2) handlers_part [OF assms(1)]
    by (cases e) (auto intro!: parts.extracted follows_db follows_read follows_sessions simp: part_kept_def split: list.split)
  then show ?thesis unfolding follows_def by blast
qed

lemma schema_answer_documents: "documents_kept s (snd (protected_answer su ar rq cl caps SchemaPost s))"
proof -
  have "follows documents_kept (protected_answer su ar rq cl caps SchemaPost)"
    using schema_documents by (auto intro!: documents.extracted follows_db simp: handle_schema_def documents_kept_def)
  then show ?thesis by (simp add: follows_def)
qed

text \<open>What a request with a token that may not change a collection leaves of it.\<close>

definition unwritten :: "'ip service \<Rightarrow> arrival \<Rightarrow> http_request \<Rightarrow> claims \<Rightarrow> string \<Rightarrow> 'ip server \<Rightarrow> 'ip server \<Rightarrow> bool" where
  "unwritten su ar rq cl c s s' \<longleftrightarrow>
     (auth_middleware (su_auth su) (ar_checked_at ar) (rq_authorization rq) (Some (revoked (sv_sessions s))) = Inr cl \<longrightarrow>
      dm_get (t_state (sv_db s')) c = dm_get (t_state (sv_db s)) c \<and>
      ((\<exists>caps. reaches su rq SchemaPost caps) \<or> part_kept c s s'))"

interpretation unwritten: state_frame "unwritten su ar rq cl c" for su ar rq cl c
  by unfold_locales (auto simp: unwritten_def part_kept_def fun_eq_iff)

lemma serve_unwritten:
  assumes "\<not> may_change cl c"
  shows "unwritten su ar rq cl c s (snd (serve su ar rq s))"
proof -
  have "unwritten su ar rq cl c s (snd (protected_answer su ar rq cl' caps e s))"
    if "auth_middleware (su_auth su) (ar_checked_at ar) (rq_authorization rq) (Some (revoked (sv_sessions s))) = Inr cl'"
      and "reaches su rq e caps" for cl' e caps and s :: "'a server"
  proof (cases "e = SchemaPost")
    case True
    then show ?thesis using that schema_answer_documents [of s su ar rq cl' caps] by (auto simp: unwritten_def documents_kept_def)
  next
    case False
    have "part_kept c s (snd (protected_answer su ar rq cl' caps e s))" if "cl' = cl"
      using answer_part assms False that by blast
    with that show ?thesis by (auto simp: unwritten_def part_kept_def dest: part_documents)
  qed
  then show ?thesis by (intro unwritten.serves unwritten.routes)
qed

section \<open>Revocations\<close>

text \<open>What happens to the shared state: a request, the prune task (which saves the store unless the database is in memory
  only), the limiter's cleanup.\<close>

datatype server_event = Arrives arrival http_request | PruneTick "nat \<Rightarrow> instant" moment | CleanupTick int

definition prune_tick :: "'ip service \<Rightarrow> bool \<Rightarrow> (nat \<Rightarrow> instant) \<Rightarrow> moment \<Rightarrow> sessions \<Rightarrow> sessions" where
  "prune_tick su in_memory clk m ss =
     (let pruned = ss\<lparr>revoked := prune clk (revoked ss)\<rparr>
      in if in_memory then pruned else persist (su_auth su) m pruned)"

fun server_turn :: "'ip service \<Rightarrow> bool \<Rightarrow> server_event \<Rightarrow> 'ip server \<Rightarrow> 'ip server" where
  "server_turn su in_memory (Arrives ar rq) s = snd (serve su ar rq s)"
| "server_turn su in_memory (PruneTick clk m) s = s\<lparr>sv_sessions := prune_tick su in_memory clk m (sv_sessions s)\<rparr>"
| "server_turn su in_memory (CleanupTick now) s = s\<lparr>sv_limiter := cleanup now (sv_limiter s)\<rparr>"

lemma persist_revoked [simp]: "revoked (persist ae m ss) = revoked ss"
  by (simp add: persist_def)

text \<open>An event that leaves the entry of an identifier alone until the given moment.\<close>

definition spares :: "'ip service \<Rightarrow> string \<Rightarrow> instant \<Rightarrow> server_event \<Rightarrow> bool" where
  "spares su j t e \<longleftrightarrow>
     (case e of Arrives ar rq \<Rightarrow> \<not> reaches su rq RevokeToken [j] | PruneTick clk m \<Rightarrow> \<forall>i. clk i < t | CleanupTick now \<Rightarrow> True)"

lemma refresh_spares:
  assumes "dm_get (revoked ss) j = Some t"
  shows "dm_get (revoked (snd (handle_refresh ae jt m new_id hdr body ss))) j = Some t"
  using assms
  by (auto simp: handle_refresh_def refresh_scoped_token_def revoke_def is_revoked_def update_conv' Let_def
      split: option.split sum.split)

lemma revoke_spares:
  assumes "dm_get (revoked ss) j = Some t" and "token_id \<noteq> j"
  shows "dm_get (revoked (snd (handle_revoke ae m cl token_id payload ss))) j = Some t"
  using assms by (simp add: handle_revoke_def revoke_def update_conv' Let_def)

definition entry_kept :: "string \<Rightarrow> instant \<Rightarrow> 'ip server \<Rightarrow> 'ip server \<Rightarrow> bool" where
  "entry_kept j t s s' \<longleftrightarrow>
     (dm_get (revoked (sv_sessions s)) j = Some t \<longrightarrow> dm_get (revoked (sv_sessions s')) j = Some t)"

interpretation entries: state_frame "entry_kept j t" for j t
  by unfold_locales (auto simp: entry_kept_def fun_eq_iff)

lemma turn_spares:
  assumes "dm_get (revoked (sv_sessions s)) j = Some t" and "spares su j t e"
  shows "dm_get (revoked (sv_sessions (server_turn su in_memory e s))) j = Some t"
proof (cases e)
  case (Arrives ar rq)
  have "entry_kept j t s (snd (protected_answer su ar rq cl caps e s))" if "reaches su rq e caps" for cl e caps and s :: "'a server"
  proof -
    have other: "follows (entry_kept j t) (from_sessions (handle_revoke (su_auth su) (ar_moment ar) cl x payload))"
      if "x \<noteq> j" for x payload
      using revoke_spares that by (intro follows_sessions) (simp add: entry_kept_def)
    have "e = RevokeToken \<Longrightarrow> caps \<noteq> [j]" using that assms(2) Arrives by (auto simp: spares_def)
    then have "follows (entry_kept j t) (protected_answer su ar rq cl caps e)"
      using refresh_spares
      by (cases e) (auto intro!: entries.extracted follows_db follows_read other intro: follows_sessions
          simp: entry_kept_def split: list.split)
    then show ?thesis unfolding follows_def by blast
  qed
  then have "entry_kept j t s (snd (serve su ar rq s))" by (intro entries.serves entries.routes)
  with assms(1) Arrives show ?thesis by (simp add: entry_kept_def)
next
  case (PruneTick clk m)
  then show ?thesis using assms prune_keeps [of "revoked (sv_sessions s)" j t clk]
    by (simp add: spares_def prune_tick_def Let_def)
qed (use assms in simp)

lemma turns_spare:
  assumes "dm_get (revoked (sv_sessions s)) j = Some t" and "list_all (spares su j t) evs"
  shows "dm_get (revoked (sv_sessions (fold (server_turn su in_memory) evs s))) j = Some t"
  using assms by (induction evs arbitrary: s) (auto intro: turn_spares)

text \<open>The entry that \<open>DELETE /auth/tokens/{jti}\<close> makes.\<close>

lemma revoke_request:
  assumes "is_admin cl" and "j \<noteq> []" and "read_json (su_web su) (body_limit su) rq = Inr payload"
    and "Option.bind (pget payload Exp) as_u64 = Some exp_secs" and "now_unix (ar_moment ar) \<le> exp_secs"
  shows "dm_get (revoked (sv_sessions (snd (protected_answer su ar rq cl [j] RevokeToken s)))) j =
    Some (now_instant (ar_moment ar) + secs (exp_secs - now_unix (ar_moment ar)))"
  using assms by (simp add: extracting_def from_sessions_def handle_revoke_def revoke_def update_conv' Let_def split_beta)

section \<open>Security headers\<close>

text \<open>Every response that comes through the layer has the headers; the refusals of the two limits outside of it have none.\<close>

lemma overriding_headers: "map_of (rs_headers (overriding n v r)) k = (if k = n then Some v else map_of (rs_headers r) k)"
proof -
  have "map_of (filter (\<lambda>h. fst h \<noteq> n) hs @ [(n, v)]) k = (if k = n then Some v else map_of hs k)" for hs :: "(string \<times> string) list"
    by (induction hs) auto
  then show ?thesis by (simp add: overriding_def)
qed

lemma secured:
  assumes "distinct (map fst hs)" and "(k, v) \<in> set hs"
  shows "map_of (rs_headers (fold (\<lambda>(name, v). overriding name v) hs r)) k = Some v"
proof -
  have keep: "k \<notin> fst ` set hs \<Longrightarrow> map_of (rs_headers (fold (\<lambda>(name, v). overriding name v) hs r)) k = map_of (rs_headers r) k" for hs r
    by (induction hs arbitrary: r) (auto simp: overriding_headers)
  show ?thesis
    using assms by (induction hs arbitrary: r) (auto simp: keep overriding_headers)
qed

lemma served_headers:
  assumes "\<not> (case rq_content_length rq of Some n \<Rightarrow> n > body_limit su | None \<Rightarrow> False)"
    and "rate_limit_middleware (ar_limiter_now ar) (ar_limiter_later ar)
      (extract_ip (parse_ip (su_web su)) (localhost (su_web su)) (rq_forwarded_for rq) (rq_real_ip rq)) (sv_limiter s) = (Inr (), l)"
    and "fst (serve su ar rq s) = Some resp" and "(k, v) \<in> set security_headers"
  shows "map_of (rs_headers resp) k = Some v"
proof -
  have "distinct (map fst security_headers)" by (simp add: security_headers_def)
  then show ?thesis
    using assms(3) secured [OF _ assms(4)]
    by (auto simp: serve_def rate_limit_layer_def assms(2) body_limit_layer_def assms(1) security_layer_def
        with_response_def split_beta)
qed

lemma limited_without_headers:
  assumes "rate_limit_middleware (ar_limiter_now ar) (ar_limiter_later ar)
      (extract_ip (parse_ip (su_web su)) (localhost (su_web su)) (rq_forwarded_for rq) (rq_real_ip rq)) (sv_limiter s) =
      (Inl (Some (429, limit, retry_after)), l)"
  shows "\<exists>resp. fst (serve su ar rq s) = Some resp \<and> rs_status resp = 429 \<and> map fst (rs_headers resp) = [''content-type'']"
  by (simp add: serve_def rate_limit_layer_def assms limited_response_def json_response_def)

section \<open>Two slips at the boundary\<close>

text \<open>The messages of the refresh endpoint send clients to \<open>POST /auth/login\<close>, which is no route.\<close>

lemma no_auth_login: "''/auth/login'' \<notin> fst ` set public_routes" "''/auth/login'' \<notin> fst ` set protected_routes"
  by (simp_all add: public_routes_def protected_routes_def)

text \<open>
  A write that names no collection goes to \<open>default\<close>, but the scope is checked for the empty name: a token for \<open>default\<close>
  is refused, one for the empty name is let through.
\<close>

lemma unnamed_collection:
  "collection_or_default (Object []) = ''default''"
  "\<not> has_collection_access (demo_claims [''write:default:*'']) ACTION_WRITE (requested_collection (Object []))"
  "has_collection_access (demo_claims [''write::*'']) ACTION_WRITE (requested_collection (Object []))"
  "\<not> has_collection_access (demo_claims [''write::*'']) ACTION_WRITE ''default''"
  by code_simp+

section \<open>An example\<close>

definition demo_web :: "nat web" where
  "demo_web = \<lparr>match_route = (\<lambda>rs path. if path \<in> set rs then Some (path, []) else Some (''/auth/tokens/{jti}'', [path])),
     read_json = (\<lambda>n rq. Inr (demo_query None)), read_optional_json = (\<lambda>n rq. Inr None),
     read_login = (\<lambda>n rq. Inr ([], [])), read_delegate = (\<lambda>n rq. Inl (json_response handle_health)),
     read_query = (\<lambda>rq. Inr []), upgrade = (\<lambda>rq. json_response handle_health), bad_path = json_response handle_health,
     no_route = (\<lambda>rq. json_response handle_health), wrong_method = (\<lambda>rq. json_response handle_health),
     too_large_text = [], cors_preflight = (\<lambda>rq. None), cors_headers = (\<lambda>rq. []), parse_ip = (\<lambda>s. None), localhost = 0\<rparr>"

definition demo_service :: "nat service" where
  "demo_service = \<lparr>su_world = demo_world, su_auth = demo_auth, su_jwt_text = (\<lambda>e. []), su_app = demo_app, su_web = demo_web\<rparr>"

definition demo_arrival :: arrival where
  "demo_arrival = \<lparr>ar_limiter_now = 0, ar_limiter_later = 0, ar_checked_at = 5,
     ar_moment = \<lparr>now_unix = 5, now_instant = 0, iteration = (\<lambda>st. st), write_succeeds = True\<rparr>, ar_new_id = ''n'',
     ar_host = \<lparr>uptime_seconds = 0, total_ram = 0, used_ram = 0, free_ram = 0, process_memory = None, host_disks = []\<rparr>\<rparr>"

definition demo_request :: "string \<Rightarrow> http_request" where
  "demo_request path = \<lparr>rq_method = POST, rq_path = path, rq_authorization = Some (''Bearer '' @ demo_old),
     rq_forwarded_for = None, rq_real_ip = None, rq_content_length = None, rq_body = []\<rparr>"

definition demo_server :: "revocations \<Rightarrow> nat server" where
  "demo_server st = \<lparr>sv_db = demo_shop, sv_sessions = \<lparr>revoked = st, revocations_file = Missing\<rparr>, sv_limiter = new_limiter 10 60\<rparr>"

lemma demo_let_in: "auth_middleware (su_auth demo_service) (ar_checked_at demo_arrival) (rq_authorization (demo_request path))
    (Some (revoked (sv_sessions (demo_server [])))) =
  Inr \<lparr>sub = ''u'', exp_at = 100, scopes = [''read:a:k''], jti = ''j''\<rparr>"
  using demo_verify [of 5]
  by (simp add: auth_middleware_def demo_service_def demo_arrival_def demo_request_def demo_server_def is_revoked_def starts_with_def)

lemma demo_limiter: "rate_limit_middleware 0 0 0 (new_limiter 10 60) = (Inr (), (new_limiter 10 60)\<lparr>requests := [(0, [0])]\<rparr>)"
  by (simp add: rate_limit_middleware_def check_rate_limit_def new_limiter_def Let_def)

lemma demo_paths:
  "protected_route demo_service (demo_request ''/set'') = Some ([(POST, SetDocs)], [])"
  "protected_route demo_service (demo_request ''/get'') = Some ([(POST, GetDocs)], [])"
  by (simp_all add: protected_route_def demo_service_def demo_web_def demo_request_def public_routes_def protected_routes_def)

lemma demo_serve:
  assumes "fst (routed demo_service demo_arrival (rq :: http_request)
      (demo_server st\<lparr>sv_limiter := (new_limiter 10 60)\<lparr>requests := [(0, [0])]\<rparr>\<rparr>)) = Some r"
    and "rq_content_length rq = None" and "rq_forwarded_for rq = None" and "rq_real_ip rq = None"
  shows "\<exists>resp. fst (serve demo_service demo_arrival rq (demo_server st)) = Some resp \<and> rs_status resp = rs_status r"
proof -
  have l: "sv_limiter (demo_server st) = new_limiter 10 60" "ar_limiter_now demo_arrival = 0" "ar_limiter_later demo_arrival = 0"
    "extract_ip (parse_ip (su_web demo_service)) (localhost (su_web demo_service)) (rq_forwarded_for rq) (rq_real_ip rq) = 0"
    "cors_preflight (su_web demo_service) rq = None"
    by (simp_all add: demo_server_def demo_arrival_def extract_ip_def demo_service_def demo_web_def assms(3,4))
  show ?thesis
    using assms(1,2)
    by (simp add: serve_def rate_limit_layer_def l demo_limiter body_limit_layer_def security_layer_def cors_layer_def
        with_response_def split_beta)
qed

section \<open>Properties\<close>

text \<open>
  C8. The authentication layer stands before everything that matters: a request whose token is missing, invalid, expired
  or revoked changes neither the database nor the sessions, whatever its path and method, and on a protected path it is
  answered with 401, unless one of the two limits refuses it before with 429 or 413 (or it is a CORS preflight).
\<close>
theorem refused_without_token:
  assumes "auth_middleware (su_auth su) (ar_checked_at ar) (rq_authorization rq) (Some (revoked (sv_sessions s))) = Inl rejected"
    and "serve su ar rq s = (resp, s')"
  shows "sv_db s' = sv_db s \<and> sv_sessions s' = sv_sessions s \<and>
    (protected_route su rq = None \<or> cors_preflight (su_web su) rq \<noteq> None \<or> resp = None \<or>
     rs_status (the resp) \<in> {401, 413, 429})"
  using refused_frame [OF assms(1)] refused_status [OF assms(1)] assms(2) by (cases resp) auto

theorem refused_without_token_witness:
  "\<exists>resp s'. serve demo_service demo_arrival ((demo_request ''/set'')\<lparr>rq_authorization := None\<rparr>) (demo_server []) = (Some resp, s') \<and>
     rs_status resp = 401 \<and> sv_db s' = demo_shop"
proof -
  let ?rq = "(demo_request ''/set'')\<lparr>rq_authorization := None\<rparr>" and ?s = "demo_server []"
  have no: "auth_middleware (su_auth demo_service) (ar_checked_at demo_arrival) (rq_authorization ?rq) (Some st) =
      Inl (Unauthorized ''Missing or invalid Authorization header'')" for st
    by (simp add: auth_middleware_def)
  have "protected_route demo_service ?rq = Some ([(POST, SetDocs)], [])"
    using demo_paths(1) by (simp add: protected_route_def)
  from routed_protected [OF this, of demo_arrival] obtain resp where
    resp: "fst (serve demo_service demo_arrival ?rq ?s) = Some resp" "rs_status resp = 401"
    using demo_serve [of ?rq "[]"] no
    by (fastforce simp: auth_layer_def json_response_def error_body_def demo_request_def)
  obtain s' where s': "serve demo_service demo_arrival ?rq ?s = (Some resp, s')" using resp(1) by (metis fst_conv surj_pair)
  from refused_without_token [OF no s'] resp s' show ?thesis by (simp add: demo_server_def)
qed

text \<open>
  C9. Isolation of collections: a request with a token that has neither the write nor the delete scope of a collection
  (and, if the collection is \<open>default\<close>, of the empty name either, under which a request that names no collection is
  checked and which it then stores in \<open>default\<close>) leaves its documents as they are; and unless it goes to the schema endpoint, which asks for no scope, it leaves
  everything the database keeps about the collection as it is: index, counter, schema, expiry, time to live, size limit.
\<close>
theorem writes_confined:
  assumes "auth_middleware (su_auth su) (ar_checked_at ar) (rq_authorization rq) (Some (revoked (sv_sessions s))) = Inr cl"
    and "\<not> may_change cl c" and "serve su ar rq s = (resp, s')"
  shows "dm_get (t_state (sv_db s')) c = dm_get (t_state (sv_db s)) c \<and>
    ((\<exists>caps. reaches su rq SchemaPost caps) \<or> part (sv_db s') c = part (sv_db s) c)"
  using serve_unwritten [OF assms(2), of su ar rq s] assms(1,3) by (simp add: unwritten_def part_kept_def)

theorem writes_confined_witness:
  "\<exists>resp s'. serve demo_service demo_arrival (demo_request ''/set'') (demo_server []) = (Some resp, s') \<and>
     rs_status resp = 403 \<and> part (sv_db s') ''laptops'' = part demo_shop ''laptops''"
proof -
  let ?rq = "demo_request ''/set''" and ?s = "demo_server []"
  let ?cl = "\<lparr>sub = ''u'', exp_at = 100, scopes = [''read:a:k''], jti = ''j''\<rparr>"
  have none: "\<not> has_collection_access ?cl a c" if "a \<in> {ACTION_WRITE, ACTION_DELETE}" for a c
    using that by (auto simp: has_collection_access_def has_access_def scope_grants_def scope_parts_def numeral_3_eq_3)
  then have no: "\<not> may_change ?cl ''laptops''" by (auto simp: may_change_def)
  have json: "read_json (su_web demo_service) (body_limit demo_service) ?rq = Inr (demo_query None)"
    by (simp add: demo_service_def demo_web_def)
  have refused: "handle_set w app ?cl payload db = (Returns (forbidden (requires_scope ACTION_WRITE (requested_collection payload))), db)"
    for w app payload db using none by (simp add: handle_set_def)
  obtain resp where resp: "fst (serve demo_service demo_arrival ?rq ?s) = Some resp" "rs_status resp = 403"
    using routed_protected [OF demo_paths(1), of demo_arrival] demo_serve [of ?rq "[]"] demo_let_in [of "''/set''"] json refused
    by (fastforce simp: auth_layer_def json_response_def error_body_def forbidden_def demo_request_def for_method_def
        extracting_def from_db_def demo_server_def)
  obtain s' where s': "serve demo_service demo_arrival ?rq ?s = (Some resp, s')" using resp(1) by (metis fst_conv surj_pair)
  have "\<not> reaches demo_service ?rq SchemaPost caps" for caps
    using demo_paths(1) by (simp add: reaches_def for_method_def demo_request_def)
  with writes_confined [OF demo_let_in no s'] resp s' show ?thesis by (simp add: demo_server_def)
qed

text \<open>
  C10. A revocation holds for the whole server: once an identifier has an entry, then whatever requests other tokens make
  and however often the store is pruned before the entry's deadline (and the identifier is not revoked anew), a request
  whose token carries it changes nothing, and on a protected path it is answered with 401, or refused by a limit.
\<close>
theorem revocation_holds:
  assumes "dm_get (revoked (sv_sessions s0)) j = Some t" and "list_all (spares su j t) evs"
    and "verify_token (su_auth su) (ar_checked_at ar) token = Inr cl" and "jti cl = j" and "j \<noteq> []"
    and "rq_authorization rq = Some (''Bearer '' @ token)"
    and "s = fold (server_turn su in_memory) evs s0" and "serve su ar rq s = (resp, s')"
  shows "sv_db s' = sv_db s \<and> sv_sessions s' = sv_sessions s \<and>
    (protected_route su rq = None \<or> cors_preflight (su_web su) rq \<noteq> None \<or> resp = None \<or>
     rs_status (the resp) \<in> {401, 413, 429})"
proof -
  have "is_revoked j (revoked (sv_sessions s))"
    using turns_spare [OF assms(1,2)] assms(7) by (simp add: is_revoked_def)
  then have "auth_middleware (su_auth su) (ar_checked_at ar) (rq_authorization rq) (Some (revoked (sv_sessions s))) =
      Inl (Unauthorized ''Token has been revoked'')"
    using assms(3-6) by (simp add: auth_middleware_def starts_with_def)
  from refused_frame [OF this] refused_status [OF this] assms(8) show ?thesis by (cases resp) auto
qed

theorem revocation_holds_witness:
  "sv_db (snd (serve demo_service demo_arrival (demo_request ''/set'')
     (fold (server_turn demo_service True)
       [Arrives demo_arrival (demo_request ''/get''), PruneTick (\<lambda>i. i mod 3) (ar_moment demo_arrival), CleanupTick 0]
       (demo_server [(''j'', 10)])))) =
   sv_db (fold (server_turn demo_service True)
       [Arrives demo_arrival (demo_request ''/get''), PruneTick (\<lambda>i. i mod 3) (ar_moment demo_arrival), CleanupTick 0]
       (demo_server [(''j'', 10)]))"
proof -
  let ?evs = "[Arrives demo_arrival (demo_request ''/get''), PruneTick (\<lambda>i. i mod 3) (ar_moment demo_arrival), CleanupTick 0]"
  let ?s = "fold (server_turn demo_service True) ?evs (demo_server [(''j'', 10)])"
  obtain resp s' where s': "serve demo_service demo_arrival (demo_request ''/set'') ?s = (resp, s')" by fastforce
  have entry: "dm_get (revoked (sv_sessions (demo_server [(''j'', 10)]))) ''j'' = Some 10" by (simp add: demo_server_def)
  have "(i :: nat) mod 3 < 10" for i by (rule less_trans [of _ 3]) simp_all
  moreover have "\<not> reaches demo_service (demo_request ''/get'') RevokeToken [''j'']"
    using demo_paths(2) by (simp add: reaches_def for_method_def demo_request_def)
  ultimately have sp: "list_all (spares demo_service ''j'' 10) ?evs" by (simp add: spares_def)
  have tok: "verify_token (su_auth demo_service) (ar_checked_at demo_arrival) demo_old =
      Inr \<lparr>sub = ''u'', exp_at = 100, scopes = [''read:a:k''], jti = ''j''\<rparr>"
    "rq_authorization (demo_request ''/set'') = Some (''Bearer '' @ demo_old)"
    using demo_verify [of 5] by (simp_all add: demo_service_def demo_arrival_def demo_request_def)
  show ?thesis
    using revocation_holds [OF entry sp tok(1) _ _ tok(2) refl s'] s' by simp
qed

end
