(* ===== verification/Keys.thy ===== *)
theory Keys
  imports Storage
begin

text \<open>
  The key of an encrypted database (\<open>EncryptedStorage::derive_key\<close>): the salt is cut from the path of the
  database. Argon2 and the check of a salt's format are third-party code and parameters.
\<close>

section \<open>Deriving a key\<close>

record kdf =
  salt_ok :: "string \<Rightarrow> bool"
  argon2 :: "string \<Rightarrow> string \<Rightarrow> bytes option"

text \<open>A string is its UTF-8 bytes. A byte inside a character, and the places where a string may be cut.\<close>

definition continuation_byte :: "char \<Rightarrow> bool" where
  "continuation_byte c \<longleftrightarrow> 0x80 \<le> (of_char c :: nat) \<and> (of_char c :: nat) < 0xC0"

definition char_boundary :: "string \<Rightarrow> nat \<Rightarrow> bool" where
  "char_boundary s i \<longleftrightarrow> i = length s \<or> i < length s \<and> \<not> continuation_byte (s ! i)"

text \<open>\<open>&s[..s.len().min(22)]\<close>, and the padding of the format \<open>{:0<22}\<close>, which counts characters.\<close>

definition salt_prefix :: "string \<Rightarrow> string outcome" where
  "salt_prefix s =
     (let n = min (length s) 22 in if char_boundary s n then Returns (take n s) else Aborts)"

definition padded :: "string \<Rightarrow> string" where
  "padded s = s @ replicate (22 - length (filter (\<lambda>c. \<not> continuation_byte c) s)) (CHR ''0'')"

definition default_salt :: string where
  "default_salt = ''bW9sdGVuZGJkZWZhdWx0''"

definition derive_key :: "kdf \<Rightarrow> string \<Rightarrow> string \<Rightarrow> bytes outcome" where
  "derive_key k password salt_context =
     (case salt_prefix salt_context of Aborts \<Rightarrow> Aborts
      | Returns beginning \<Rightarrow>
         (let raw_salt = padded beginning;
              salt = (if salt_ok k raw_salt then raw_salt else default_salt)
          in case argon2 k password salt of None \<Rightarrow> Aborts
             | Some hash_output \<Rightarrow> if length hash_output < 32 then Aborts else Returns (take 32 hash_output)))"

section \<open>What the salt depends on\<close>

lemma derived_length: "derive_key k password ctx = Returns key \<Longrightarrow> length key = 32"
  by (auto simp: derive_key_def Let_def split: outcome.splits option.splits if_splits)

text \<open>Databases whose paths begin alike share their key.\<close>

lemma derived_from_prefix:
  assumes "derive_key k password a = Returns key" and "derive_key k password b = Returns key'"
    and "take 22 a = take 22 b"
  shows "key = key'"
proof -
  have "take (min (length s) 22) s = take 22 s" for s :: string by (cases "length s \<le> 22") simp_all
  then show ?thesis
    using assms by (auto simp: derive_key_def salt_prefix_def Let_def split: outcome.splits if_splits)
qed

text \<open>A path that has a character across its 22nd byte panics.\<close>

lemma derive_key_panics:
  "22 < length ctx \<Longrightarrow> continuation_byte (ctx ! 22) \<Longrightarrow> derive_key k password ctx = Aborts"
  by (simp add: derive_key_def salt_prefix_def char_boundary_def)

end
