(* ===== verification/PointInTime.thy ===== *)
theory PointInTime
  imports Recovery Keys
begin

text \<open>
  Point-in-time recovery (\<open>operations/recover.rs\<close> and the command \<open>recover\<close> of the server's \<open>main.rs\<close>): what
  \<open>recover_to\<close> finds is what a restart would find if the log ended at the requested point; and what the
  command makes of it.
\<close>

section \<open>Reading until a callback stops\<close>

text \<open>Once the callback has stopped at a record it changes nothing there and at no later one.\<close>

definition settles :: "'s callback \<Rightarrow> log_entry list \<Rightarrow> bool" where
  "settles f es \<longleftrightarrow> (\<forall>pre e post s. es = pre @ e # post \<longrightarrow> fst (f e 0 s) = Break \<longrightarrow>
     (\<forall>x\<in>set (e # post). snd (f x 0 s) = s))"

lemma settlesD: "settles f (e # es) \<Longrightarrow> fst (f e 0 s) = Break \<Longrightarrow> x \<in> set (e # es) \<Longrightarrow> snd (f x 0 s) = s"
  unfolding settles_def by blast

lemma settles_suffix: "settles f (xs @ ys) \<Longrightarrow> settles f ys"
  unfolding settles_def by (metis append.assoc)

lemma settles_prefix: "settles f (xs @ ys) \<Longrightarrow> settles f xs"
  unfolding settles_def by fastforce

lemma feed_Cons [simp]: "feed f (e # es) s = feed f es (snd (f e 0 s))"
  by (simp add: feed_def)

lemma feed_settled: "(\<And>x. x \<in> set es \<Longrightarrow> snd (f x 0 s) = s) \<Longrightarrow> feed f es s = s"
  by (induction es) (simp_all add: feed_def)

lemma stopped:
  assumes "settles f (e # es)" and "f e 0 s = (Break, s')"
  shows "feed f (e # es) s = s'"
  using settlesD [OF assms(1), of s] assms(2) feed_settled [of "e # es" f s] by simp (metis list.set_intros(1) snd_conv)

lemma stream_list_settles:
  assumes "settles f (map fst els)" and "ignores_len f"
  shows "snd (stream_list f els s) = feed f (map fst els) s"
  using assms(1)
proof (induction els arbitrary: s)
  case Nil
  show ?case by (simp add: feed_def)
next
  case (Cons el els)
  obtain e len where el: "el = (e, len)" by (cases el)
  obtain r s' where f: "f e 0 s = (r, s')" by fastforce
  then have fl: "f e len s = (r, s')" using assms(2) by (metis ignores_len_def)
  show ?case
  proof (cases r)
    case Continue
    have "settles f (map fst els)" using Cons.prems settles_suffix [of f "[e]" "map fst els"] by (simp add: el)
    with Cons.IH f fl Continue show ?thesis by (simp add: el)
  next
    case Break
    then show ?thesis using stopped [of f e "map fst els" s s'] Cons.prems f fl by (simp add: el)
  qed
qed

lemma load_entries_settles:
  assumes "list_all record_ok es" and "settles f (map stored_entry es)"
  shows "snd (load_entries env f (length es) (log_bytes es) s) = feed f (map stored_entry es) s"
  using assms
proof (induction es arbitrary: s)
  case Nil
  show ?case by (simp add: feed_def)
next
  case (Cons e es)
  have len: "length (log_entry_to_msgpack e) mod 4294967296 = length (log_entry_to_msgpack e)"
    and ok: "entry_ok e"
    using Cons.prems by (simp_all add: record_ok_def)
  obtain r s' where f: "f (stored_entry e) 0 s = (r, s')" by fastforce
  have step: "snd (load_entries env f (length (e # es)) (log_bytes (e # es)) s) =
      (case r of Break \<Rightarrow> s' | Continue \<Rightarrow> snd (load_entries env f (length es) (log_bytes es) s'))"
    by (cases r)
      (simp_all add: write_msgpack_entry_def Let_def from_le_le_bytes len encoded_nonzero log_entry_read_back [OF ok] f)
  show ?case
  proof (cases r)
    case Continue
    have "settles f (map stored_entry es)"
      using Cons.prems settles_suffix [of f "[stored_entry e]" "map stored_entry es"] by simp
    with Cons.IH Cons.prems f Continue step show ?thesis by simp
  next
    case Break
    then show ?thesis using stopped [of f "stored_entry e" "map stored_entry es" s s'] Cons.prems f step by simp
  qed
qed

lemma stream_log_settles:
  assumes "list_all record_ok es" and "settles f (map stored_entry es)" and "ignores_len f"
  shows "\<exists>cf. stream_log_entries skip (File (log_bytes es)) 0 f s = (Inr cf, feed f (map stored_entry es) s)"
proof (cases "es = []")
  case True
  then show ?thesis by (simp add: stream_log_entries_def feed_def)
next
  case False
  then have "log_bytes es \<noteq> []"
    by (cases es) (auto simp: write_msgpack_entry_def Let_def log_entry_to_msgpack_def)
  moreover have "snd (stream_list f (decode_frames skip (map log_entry_to_msgpack es)) s) = feed f (map stored_entry es) s"
    using stream_list_settles [of f "decode_frames skip (map log_entry_to_msgpack es)" s] assms
    by (simp add: decode_written)
  ultimately show ?thesis
    using assms(1) by (simp add: stream_log_entries_def stream_frames_eq frames_log_bytes split_beta)
qed

lemma load_snapshot_settles:
  assumes "list_all record_ok ss" and "length ss < 2 ^ 64" and "settles f (map stored_entry ss)" and "gzip_ok env"
  shows "\<exists>r\<in>{Some 0, None}. load_snapshot env (Some (snapshot_of env ss)) f s = (r, feed f (map stored_entry ss) s)"
proof -
  have "length magic = 8" by (simp add: magic_def)
  moreover obtain b where "load_entries env f (length ss) (log_bytes ss) s = (b, feed f (map stored_entry ss) s)"
    using load_entries_settles [OF assms(1,3), of env s] by (metis surjective_pairing)
  ultimately show ?thesis
    using assms by (cases b) (auto simp: load_snapshot_def snapshot_of_def snapshot_header_def from_le_le_bytes gzip_ok_def)
qed

lemma sync_stream_settles:
  assumes "disk_logs env d ss ls" and "settles f (map stored_entry (ss @ ls))" and "ignores_len f" and "gzip_ok env"
  shows "\<exists>cf. sync_stream env d f s = (Inr cf, feed f (map stored_entry (ss @ ls)) s)"
proof -
  have ls: "list_all record_ok ls" "settles f (map stored_entry ls)" "log_path d = File (log_bytes ls)"
    using assms(1,2) settles_suffix [of f "map stored_entry ss"] by (auto simp: disk_logs_def log_path_def)
  note tail = stream_log_settles [OF ls(1,2) assms(3)]
  show ?thesis
  proof (cases "d_snapshot d = None")
    case True
    then show ?thesis using assms(1) tail ls(3) by (simp add: sync_stream_def load_snapshot_def disk_logs_def)
  next
    case False
    then have ss: "list_all record_ok ss" "length ss < 2 ^ 64" "d_snapshot d = Some (snapshot_of env ss)"
      using assms(1) by (auto simp: disk_logs_def split: if_splits)
    have "settles f (map stored_entry ss)" using assms(2) settles_prefix by simp
    then obtain r where "r \<in> {Some 0, None}" "load_snapshot env (d_snapshot d) f s = (r, feed f (map stored_entry ss) s)"
      using load_snapshot_settles [OF ss(1,2) _ assms(4), of f s] ss(3) by auto
    then show ?thesis using tail ls(3) by (auto simp: sync_stream_def feed_append)
  qed
qed

lemma settles_decrypting:
  assumes "settles f (List.map_filter (decrypted env c) raw)"
  shows "settles (decrypting env c f) raw"
  unfolding settles_def
proof (intro allI impI ballI)
  fix pre e post s x
  assume raw: "raw = pre @ e # post" and b: "fst (decrypting env c f e 0 s) = Break" and x: "x \<in> set (e # post)"
  obtain e' where e': "decrypted env c e = Some e'" "fst (f e' 0 s) = Break"
    using b by (auto simp: decrypting_def decrypted_def split: if_splits sum.splits)
  have "List.map_filter (decrypted env c) raw =
      List.map_filter (decrypted env c) pre @ e' # List.map_filter (decrypted env c) post"
    using e'(1) by (simp add: raw map_filter_def)
  with assms have "settles f (e' # List.map_filter (decrypted env c) post)" by (metis settles_suffix)
  note still = settlesD [OF this e'(2)]
  have "snd (f x' 0 s) = s" if "decrypted env c x = Some x'" for x'
  proof (rule still)
    have "x' \<in> set (List.map_filter (decrypted env c) post)" if "x \<in> set post"
      using that \<open>decrypted env c x = Some x'\<close> by (force simp: map_filter_def)
    then show "x' \<in> set (e' # List.map_filter (decrypted env c) post)"
      using x e'(1) that by auto
  qed
  then show "snd (decrypting env c f x 0 s) = s"
    by (auto simp: decrypting_def decrypted_def split: sum.splits)
qed

lemma stream_logs_settles:
  assumes "logs env st es" and "settles f es" and "ignores_len f" and "gzip_ok env"
  shows "\<exists>cf. stream_log env st f s = (Inr cf, feed f es s)"
  using assms(1-3)
proof (induction st arbitrary: f es)
  case (EncryptedStorage c n inner)
  then obtain raw where raw: "logs env inner raw" "es = List.map_filter (decrypted env c) raw" by auto
  have "ignores_len (decrypting env c f)"
    using EncryptedStorage.prems(3) by (auto simp: ignores_len_def decrypting_def split: sum.splits)
  with EncryptedStorage.IH [OF raw(1) settles_decrypting] EncryptedStorage.prems(2) show ?case
    by (simp add: raw(2) feed_decrypting)
next
  case (OpfsStorage h)
  then obtain ls where ls: "opfs_logs h ls" "es = map stored_entry ls" by auto
  have "f e len s = f e 0 s" for e len s using OpfsStorage.prems(3) by (auto simp: ignores_len_def)
  then have "opfs_stream (skip_value env) h f s = stream_log_entries (skip_value env) (File (log_bytes ls)) 0 f s"
    by (rule opfs_stream_logs [OF ls(1)])
  then show ?case
    using ls OpfsStorage.prems(2,3) stream_log_settles [of ls f] by (simp add: opfs_logs_def)
qed (use assms(4) sync_stream_settles in auto)

section \<open>The requested point\<close>

definition too_late :: "u64 option \<Rightarrow> log_entry \<Rightarrow> bool" where
  "too_late to_time e \<longleftrightarrow> (case to_time of Some t \<Rightarrow> e_t e > t | None \<Rightarrow> False)"

text \<open>The records up to the requested time and at most as many as requested.\<close>

definition until :: "u64 option \<Rightarrow> nat option \<Rightarrow> log_entry list \<Rightarrow> log_entry list" where
  "until to_time to_seq es =
     takeWhile (\<lambda>e. \<not> too_late to_time e) (case to_seq of Some n \<Rightarrow> take n es | None \<Rightarrow> es)"

text \<open>The clock did not run backwards while the records were written.\<close>

definition in_time_order :: "log_entry list \<Rightarrow> bool" where
  "in_time_order es \<longleftrightarrow> sorted (map e_t es)"

lemma settles_recover:
  assumes "to_time = None \<or> in_time_order es"
  shows "settles (counting (recover_step env to_time to_seq)) es"
  unfolding settles_def
proof (intro allI impI ballI)
  fix pre e post ns x
  assume es: "es = pre @ e # post" and b: "fst (counting (recover_step env to_time to_seq) e 0 ns) = Break" and x: "x \<in> set (e # post)"
  obtain n rp where ns: "ns = (n, rp)" by (cases ns)
  have "too_late to_time x" if "too_late to_time e"
    using assms es x that by (cases to_time) (auto simp: too_late_def in_time_order_def sorted_append)
  then show "snd (counting (recover_step env to_time to_seq) x 0 ns) = ns"
    using b by (auto simp: ns counting_def recover_step_def replay_step_def too_late_def split: if_splits option.splits prod.splits)
qed

lemma fold_replay_count:
  "fold (replay_entry env) es (rp\<lparr>rp_count := n\<rparr>) = (fold (replay_entry env) es rp)\<lparr>rp_count := n\<rparr>"
  by (induction es arbitrary: rp) (simp_all add: replay_entry_count)

lemma feed_recover:
  assumes "to_time = None \<or> in_time_order es" and "case to_seq of Some m \<Rightarrow> rp_count rp \<le> m | None \<Rightarrow> True"
  shows "snd (feed (counting (recover_step env to_time to_seq)) es (n, rp)) =
    (let us = until to_time (map_option (\<lambda>m. m - rp_count rp) to_seq) es
     in (fold (replay_entry env) us rp)\<lparr>rp_count := rp_count rp + length us\<rparr>)"
  using assms
proof (induction es arbitrary: n rp)
  case Nil
  show ?case by (cases to_seq) (simp_all add: feed_def until_def)
next
  case (Cons e es)
  let ?f = "counting (recover_step env to_time to_seq)"
  show ?case
  proof (cases "fst (?f e 0 (n, rp))")
    case Break
    then have full: "too_late to_time e \<or> to_seq = Some (rp_count rp)"
      using Cons.prems(2)
      by (auto simp: counting_def recover_step_def replay_step_def too_late_def split: if_splits option.splits prod.splits)
    have "settles ?f (e # es)" by (rule settles_recover [OF Cons.prems(1)])
    then have "feed ?f (e # es) (n, rp) = (n, rp)"
      using settlesD [of ?f e es "(n, rp)"] Break feed_settled [of "e # es" ?f "(n, rp)"] by blast
    moreover have "until to_time (map_option (\<lambda>m. m - rp_count rp) to_seq) (e # es) = []"
    proof (cases to_seq)
      case None
      then show ?thesis using full by (simp add: until_def)
    next
      case (Some m)
      then show ?thesis using full by (cases "m - rp_count rp") (auto simp: until_def)
    qed
    ultimately show ?thesis by simp
  next
    case Continue
    then have go: "\<not> too_late to_time e" "case to_seq of Some m \<Rightarrow> rp_count rp < m | None \<Rightarrow> True"
      by (auto simp: counting_def recover_step_def replay_step_def too_late_def split: if_splits option.splits prod.splits)
    let ?rp = "(replay_entry env e rp)\<lparr>rp_count := Suc (rp_count rp)\<rparr>"
    have f: "snd (?f e 0 (n, rp)) = (Suc n, ?rp)"
      using go by (auto simp: counting_def recover_step_def replay_step_def too_late_def split: option.splits)
    have u: "until to_time (map_option (\<lambda>m. m - rp_count rp) to_seq) (e # es) =
        e # until to_time (map_option (\<lambda>m. m - rp_count ?rp) to_seq) es"
      using go by (cases to_seq) (auto simp: until_def Suc_diff_Suc [symmetric])
    have "to_time = None \<or> in_time_order es" using Cons.prems(1) by (auto simp: in_time_order_def)
    moreover have "case to_seq of Some m \<Rightarrow> rp_count ?rp \<le> m | None \<Rightarrow> True" using go(2) by (auto split: option.splits)
    ultimately show ?thesis
      using Cons.IH [of ?rp "Suc n"] unfolding u by (simp add: f Let_def fold_replay_count)
  qed
qed

lemma recover_logs:
  assumes "logs env st es" and "gzip_ok env" and "to_time = None \<or> in_time_order es"
    and t_def: "t = replay_tables env (until to_time to_seq es) (empty_tables tick)"
  shows "recover_to env tick st to_time to_seq =
    Inr (stamp_entries env (t_ticks t) (doc_entries (t_state t) @ schema_entries (t_schemas t)))"
proof -
  let ?f = "counting (recover_step env to_time to_seq)"
  have "ignores_len ?f" by (auto simp: ignores_len_def counting_def recover_step_def replay_step_def)
  then obtain cf where run: "stream_log env st ?f (0, replay_start (empty_tables tick)) =
      (Inr cf, feed ?f es (0, replay_start (empty_tables tick)))"
    using stream_logs_settles [OF assms(1) settles_recover [OF assms(3)] _ assms(2)] by blast
  obtain n rp where fed: "feed ?f es (0, replay_start (empty_tables tick)) = (n, rp)" by fastforce
  have "rp_tables rp = t"
    using feed_recover [OF assms(3), where to_seq = to_seq and rp = "replay_start (empty_tables tick)" and env = env and n = 0] fed
    by (auto simp: t_def replay_tables_def replay_start_def Let_def option.map_ident split: option.splits)
  then show ?thesis
    using run fed by (simp add: recover_to_def stream_log_into_def Let_def)
qed

text \<open>No collection and no key twice.\<close>

definition tidy :: "(string, collection) dashmap \<Rightarrow> bool" where
  "tidy st \<longleftrightarrow> dm_ok st \<and> (\<forall>(c, col)\<in>set st. dm_ok col)"

lemma tidy_col: "tidy st \<Longrightarrow> dm_ok (col_of st c)"
  by (auto simp: tidy_def col_of_def split: option.split dest!: map_of_SomeD)

lemma tidy_steps: "tidy st \<Longrightarrow> dm_ok col \<Longrightarrow> tidy (dm_insert c col st)" "tidy st \<Longrightarrow> tidy (dm_remove c st)"
proof -
  show "tidy (dm_insert c col st)" if "tidy st" "dm_ok col"
  proof -
    have "set (dm_insert c col st) \<subseteq> insert (c, col) (set st)" by (rule set_dm_insert)
    then show ?thesis using that by (auto simp: tidy_def)
  qed
  have "set (dm_remove c st) \<subseteq> set st" by (rule set_dm_remove)
  then show "tidy st \<Longrightarrow> tidy (dm_remove c st)" by (auto simp: tidy_def)
qed

lemma tidy_apply: "tidy (t_state t) \<Longrightarrow> tidy (t_state (apply_entry env e t))"
  by (auto simp: apply_entry_def intro!: tidy_steps tidy_col split: option.split sum.split)
    (auto simp: tidy_def dest!: map_of_SomeD)

lemma tidy_replay:
  assumes "tidy (t_state t)"
  shows "tidy (t_state (replay_tables env es t))"
proof -
  have steps: "tidy (t_state t) \<Longrightarrow> tidy (t_state (fold (apply_entry env) xs t))" for xs and t :: tables
    by (induction xs arbitrary: t) (simp_all add: tidy_apply)
  have "tidy (t_state (rp_tables rp)) \<Longrightarrow> tidy (t_state (rp_tables (fold (replay_entry env) es rp)))" for rp
    by (induction es arbitrary: rp) (auto simp: replay_entry_def steps tidy_apply)
  with assms show ?thesis by (simp add: replay_tables_def replay_start_def)
qed

lemma doc_entries_members:
  assumes "tidy st"
  shows "new_entry 0 IKEY_INSERT c k v \<in> set (doc_entries st) \<longleftrightarrow> docs_of st c k = Some v"
proof -
  have "new_entry 0 IKEY_INSERT c k v \<in> set (doc_entries st) \<longleftrightarrow>
      (\<exists>col b. (c, col) \<in> set st \<and> (k, b) \<in> set col \<and> msgpack_to_value b = Some v)"
    by (force simp: doc_entries_def map_filter_def new_entry_def image_iff)
  also have "\<dots> \<longleftrightarrow> (\<exists>col b. dm_get st c = Some col \<and> dm_get col k = Some b \<and> msgpack_to_value b = Some v)"
    using assms dm_get_in unfolding tidy_def by (metis (mono_tags, lifting) case_prodD)
  finally show ?thesis by (auto simp: docs_of_def bind_eq_Some_conv)
qed

lemma stamped_members:
  assumes "\<And>e x. P (e\<lparr>e_t := x\<rparr>) = P e"
  shows "(\<exists>e\<in>set (stamp_entries env n es). P e) \<longleftrightarrow> (\<exists>e\<in>set es. P e)"
proof -
  have "(\<exists>e\<in>set (stamp_entries env n es). P e) \<longleftrightarrow> (\<exists>x\<in>set (enumerate n es). P (snd x))"
    using assms by (simp add: stamp_entries_def split_beta)
  also have "\<dots> \<longleftrightarrow> (\<exists>e\<in>snd ` set (enumerate n es). P e)" by blast
  also have "snd ` set (enumerate n es) = set es" by (metis map_snd_enumerate set_map)
  finally show ?thesis .
qed

lemma doc_entries_shape:
  "e \<in> set (doc_entries st) \<Longrightarrow> e = new_entry 0 IKEY_INSERT (e_collection e) (e_key e) (e_value e)"
  by (auto simp: doc_entries_def new_entry_def map_filter_def)

section \<open>The command \<open>recover\<close>\<close>

text \<open>
  The temporary map that the command fills from the recovered records. \<open>to_vec\<close> is the third-party
  serialiser.
\<close>

definition rebuild_entry :: "(json \<Rightarrow> bytes option) \<Rightarrow> log_entry \<Rightarrow> (string, collection) dashmap \<Rightarrow>
    (string, collection) dashmap" where
  "rebuild_entry to_vec e st =
     (if e_cmd e = ''INSERT'' then
        (case to_vec (e_value e) of
           Some bs \<Rightarrow> dm_insert (e_collection e) (dm_insert (e_key e) bs (col_of st (e_collection e))) st
         | None \<Rightarrow> st)
      else if e_cmd e = ''DELETE'' then
        (case dm_get st (e_collection e) of
           Some col \<Rightarrow> dm_insert (e_collection e) (dm_remove (e_key e) col) st
         | None \<Rightarrow> st)
      else st)"

text \<open>The file at the output path; an error that is reported; a panic of one of the \<open>expect\<close>s.\<close>

datatype recover_result = Recovered bytes | RecoveryFailed db_error | RecoverPanics

text \<open>
  \<open>log_file\<close> is the disk of the log that is read, \<open>temp_log\<close> that of the temporary log beside the
  output path; \<open>renames\<close>: whether the last move succeeds.
\<close>

definition run_recover :: "env \<Rightarrow> nat \<Rightarrow> (json \<Rightarrow> bytes option) \<Rightarrow> kdf \<Rightarrow> (bytes \<Rightarrow> cipher) \<Rightarrow> db_error + disk \<Rightarrow>
    db_error + disk \<Rightarrow> bool \<Rightarrow> string option \<Rightarrow> u64 option \<Rightarrow> nat option \<Rightarrow> recover_result" where
  "run_recover env tick to_vec k cipher_of log_file temp_log renames encryption_key to_time to_seq =
     (case derive_key k (case encryption_key of Some pw \<Rightarrow> pw | None \<Rightarrow> ''default_molten_password'') ''moltendb_log_salt'' of
        Aborts \<Rightarrow> RecoverPanics
      | Returns master_key \<Rightarrow>
        (case log_file of Inl _ \<Rightarrow> RecoverPanics
         | Inr d \<Rightarrow>
           (case recover_to env tick (EncryptedStorage (cipher_of master_key) 0 (SyncDiskStorage d)) to_time to_seq of
              Inl e \<Rightarrow> RecoveryFailed e
            | Inr entries \<Rightarrow>
              (case temp_log of Inl _ \<Rightarrow> RecoverPanics
               | Inr td \<Rightarrow>
                 (case sync_compact_from_maps env (fold (rebuild_entry to_vec) entries []) [] td of
                    (Inl _, td') \<Rightarrow> RecoverPanics
                  | (Inr _, td') \<Rightarrow>
                    (case d_snapshot td' of
                       Some snapshot \<Rightarrow> if renames then Recovered snapshot else RecoverPanics
                     | None \<Rightarrow> RecoverPanics))))))"

text \<open>The records of \<open>recover_to\<close> carry the token of the command, which the command does not look for.\<close>

lemma recovered_commands:
  assumes "recover_to env tick st to_time to_seq = Inr entries" and "e \<in> set entries"
  shows "e_cmd e \<noteq> ''INSERT''" and "e_cmd e \<noteq> ''DELETE''"
proof -
  obtain n and t :: tables where "entries = stamp_entries env n (doc_entries (t_state t) @ schema_entries (t_schemas t))"
    using assms(1) by (auto simp: recover_to_def Let_def split: prod.splits sum.splits)
  then obtain i x where "e = x\<lparr>e_t := clock env i\<rparr>" "x \<in> set (doc_entries (t_state t) @ schema_entries (t_schemas t))"
    using assms(2) by (auto simp: stamp_entries_def enumerate_eq_zip dest!: set_zip_rightD)
  then have "e_cmd e \<in> {IKEY_INSERT, ''SCHEMA''}"
    by (auto simp: doc_entries_def schema_entries_def new_entry_def map_filter_def split: option.splits)
  then show "e_cmd e \<noteq> ''INSERT''" and "e_cmd e \<noteq> ''DELETE''" by auto
qed

lemma rebuilt_nothing:
  assumes "recover_to env tick st to_time to_seq = Inr entries"
  shows "fold (rebuild_entry to_vec) entries [] = []"
proof -
  have "fold (rebuild_entry to_vec) es [] = []" if "set es \<subseteq> set entries" for es
    using that recovered_commands [OF assms] by (induction es) (auto simp: rebuild_entry_def)
  then show ?thesis by simp
qed

lemma finish_snapshot_file:
  assumes "finish_snapshot_gz tmp d = (r, d')" and "d_snapshot d = None"
  shows "d_snapshot d' = None \<or> (\<exists>n. d_snapshot d' = Some (take n tmp))"
proof -
  have "\<exists>n. tmp = take n tmp" by (rule exI [of _ "length tmp"]) simp
  then show ?thesis
    using assms by (auto simp: finish_snapshot_gz_def drop_snapshot_writer_def op_bind_def io_call_def
        split: prod.splits sum.splits io.splits dest!: next_io_keeps(3))
qed

lemma swap_log_snapshot: "d_snapshot (snd (swap_log d)) = d_snapshot d"
  by (auto simp: swap_log_def op_bind_def io_call_def split: prod.splits sum.splits io.splits dest!: next_io_keeps(3))

lemma compact_empty_snapshot:
  assumes "d_snapshot d = None" and "sync_compact_from_maps env [] [] d = (r, d')"
  shows "d_snapshot d' = None \<or> (\<exists>n. d_snapshot d' = Some (take n (snapshot_header 0 0 @ gzip env [])))"
proof -
  let ?tmp = "snapshot_header 0 0 @ gzip env []"
  obtain d1 r2 where "io_call d = (r2, d1)" "d_snapshot d1 = None"
    using assms(1) next_io_keeps(3) [of d] by (cases "next_io d"; cases "fst (next_io d)") (fastforce simp: io_call_def)+
  then have "d_snapshot (snd (write_snapshot_from_maps env [] [] 0 d)) = None \<or>
      (\<exists>n. d_snapshot (snd (write_snapshot_from_maps env [] [] 0 d)) = Some (take n ?tmp))"
    using finish_snapshot_file [of ?tmp d1]
    by (cases "finish_snapshot_gz ?tmp d1"; cases r2)
      (simp_all add: write_snapshot_from_maps_def op_bind_def snapshot_count_def snapshot_body_def)
  moreover have "d_snapshot d' = d_snapshot (snd (write_snapshot_from_maps env [] [] 0 d))"
    using assms(2) swap_log_snapshot by (metis snd_conv sync_compact_from_maps_def)
  ultimately show ?thesis by simp
qed

lemma load_empty_snapshot: "load_snapshot env (Some (snapshot_header 0 0 @ gz)) f s = (Some 0, s)"
proof -
  have "length magic = 8" by (simp add: magic_def)
  then show ?thesis by (simp add: load_snapshot_def snapshot_header_def from_le_le_bytes)
qed

text \<open>A cut file says no more: without its whole header it is not read at all.\<close>

lemma load_cut_snapshot: "snd (load_snapshot env (Some (take n (snapshot_header 0 0 @ gz))) f s) = s"
proof (cases "n < 24")
  case True
  have "length magic = 8" by (simp add: magic_def)
  then have "read_exact 8 (drop 8 (drop 8 (take n (snapshot_header 0 0 @ gz)))) = None"
    using True by (simp add: read_exact_def snapshot_header_def)
  then show ?thesis
    by (simp add: load_snapshot_def read_exact_def Let_def split: option.split prod.split)
next
  case False
  have "length (snapshot_header 0 0) = 24" by (simp add: snapshot_header_def magic_def)
  then have "take n (snapshot_header 0 0 @ gz) = snapshot_header 0 0 @ take (n - 24) gz"
    using False by simp
  then show ?thesis by (simp only: load_empty_snapshot snd_conv)
qed

lemma compact_empty_fine:
  assumes "io_fine d" and "sync_compact_from_maps env [] [] d = (r, d')"
  shows "d_snapshot d' = Some (snapshot_header 0 0 @ gzip env [])"
proof -
  let ?tmp = "snapshot_header 0 0 @ gzip env []"
  obtain d1 where d1: "io_call d = (Inr (), d1)" "io_fine d1" using io_call_fine [OF assms(1)] by metis
  obtain d2 where "finish_snapshot_gz ?tmp d1 = (Inr (), d2)" "d_snapshot d2 = Some ?tmp"
    using finish_snapshot_fine [OF d1(2), of ?tmp] by metis
  then have "d_snapshot (snd (write_snapshot_from_maps env [] [] 0 d)) = Some ?tmp"
    using d1(1) by (simp add: write_snapshot_from_maps_def op_bind_def snapshot_count_def snapshot_body_def)
  then show ?thesis using assms(2) swap_log_snapshot by (metis snd_conv sync_compact_from_maps_def)
qed

lemma build_indexes_state: "build_indexes env st db = (r, db') \<Longrightarrow> t_state db' = t_state db"
  by (induction st arbitrary: db) (fastforce simp: op_bind_def split: prod.splits outcome.splits)+

lemma demo_logs: "list_all record_ok ls \<Longrightarrow> logs env (SyncDiskStorage (demo_disk (log_bytes ls))) (map stored_entry ls)"
  unfolding logs.simps by (rule exI [of _ "[]"], rule exI [of _ ls]) (simp add: disk_logs_def demo_disk_def)

section \<open>Properties\<close>

text \<open>
  C3. Point-in-time recovery is a restart from an earlier end: on every intact backend \<open>recover_to\<close> gives exactly the
  documents that \<open>Db::open\<close> would find if the log ended with the last record up to the requested time, and with the
  requested number of records, transactions without their commit left out. (For a time, the clock did not run backwards.)
\<close>
theorem recover_is_restart:
  assumes "env_ok env" and "logs env st es" and "to_time = None \<or> in_time_order es"
    and "logs env st' (until to_time to_seq es)" and "db_open env tick st' = Inr db'"
  shows "\<exists>entries. recover_to env tick st to_time to_seq = Inr entries \<and>
    (\<forall>c k v. (\<exists>e\<in>set entries. e_cmd e = IKEY_INSERT \<and> e_collection e = c \<and> e_key e = k \<and> e_value e = v) \<longleftrightarrow>
       stored_doc db' c k = Some v)"
proof -
  have gz: "gzip_ok env" using assms(1) by (simp add: env_ok_def)
  define t where "t = replay_tables env (until to_time to_seq es) (empty_tables tick)"
  note r = recover_logs [OF assms(2) gz assms(3) t_def]
  let ?es = "doc_entries (t_state t) @ schema_entries (t_schemas t)"
  have "tidy (t_state (empty_tables tick))" by (simp add: tidy_def empty_tables_def)
  then have tidy: "tidy (t_state t)" unfolding t_def by (rule tidy_replay)
  have db': "t_state db' = t_state t"
    using assms(5) stream_into_state_logs [OF assms(4) gz, of "empty_tables tick"]
    by (auto simp: db_open_def t_def split: sum.splits prod.splits dest!: build_indexes_state)
  have "(\<exists>e\<in>set (stamp_entries env n ?es). e_cmd e = IKEY_INSERT \<and> e_collection e = c \<and> e_key e = k \<and> e_value e = v) \<longleftrightarrow>
      (\<exists>e\<in>set ?es. e_cmd e = IKEY_INSERT \<and> e_collection e = c \<and> e_key e = k \<and> e_value e = v)" for n c k v
    by (rule stamped_members) simp
  moreover have "(\<exists>e\<in>set ?es. e_cmd e = IKEY_INSERT \<and> e_collection e = c \<and> e_key e = k \<and> e_value e = v) \<longleftrightarrow>
      new_entry 0 IKEY_INSERT c k v \<in> set (doc_entries (t_state t))" for c k v
  proof
    assume "\<exists>e\<in>set ?es. e_cmd e = IKEY_INSERT \<and> e_collection e = c \<and> e_key e = k \<and> e_value e = v"
    then obtain e where e: "e \<in> set ?es" "e_cmd e = IKEY_INSERT" "e_collection e = c" "e_key e = k" "e_value e = v" by blast
    then have "e \<in> set (doc_entries (t_state t))" by (auto simp: schema_entries_def new_entry_def)
    with doc_entries_shape [OF this] e(3-5) show "new_entry 0 IKEY_INSERT c k v \<in> set (doc_entries (t_state t))" by simp
  next
    assume "new_entry 0 IKEY_INSERT c k v \<in> set (doc_entries (t_state t))"
    then show "\<exists>e\<in>set ?es. e_cmd e = IKEY_INSERT \<and> e_collection e = c \<and> e_key e = k \<and> e_value e = v"
      by (intro bexI [of _ "new_entry 0 IKEY_INSERT c k v"]) (simp_all add: new_entry_def)
  qed
  ultimately show ?thesis
    using r doc_entries_members [OF tidy] by (simp add: stored_doc_docs db')
qed

theorem recover_is_restart_witness:
  "\<exists>db' entries. db_open demo_env 0 (SyncDiskStorage (demo_disk (log_bytes (item_entries (demo_tx ''x'' ''k''))))) = Inr db' \<and>
     recover_to demo_env 0 (SyncDiskStorage (demo_disk (log_bytes (item_entries (demo_tx ''x'' ''k'') @ item_entries (demo_tx ''y'' ''c'')))))
       None (Some 3) = Inr entries \<and>
     ((\<exists>e\<in>set entries. e_cmd e = IKEY_INSERT \<and> e_collection e = ''c'' \<and> e_key e = ''k'' \<and> e_value e = Object []) \<longleftrightarrow>
        stored_doc db' ''c'' ''k'' = Some (Object []))"
proof -
  let ?st = "SyncDiskStorage (demo_disk (log_bytes (item_entries (demo_tx ''x'' ''k'') @ item_entries (demo_tx ''y'' ''c''))))"
  let ?st' = "SyncDiskStorage (demo_disk (log_bytes (item_entries (demo_tx ''x'' ''k''))))"
  let ?es = "map stored_entry (item_entries (demo_tx ''x'' ''k'') @ item_entries (demo_tx ''y'' ''c''))"
  have names: "name_ok ''x''" "name_ok ''y''" by (simp_all add: name_ok_def str_ok_def bytes_of_def)
  note ok = demo_tx_ok(2) [OF names(1) demo_names(2)] demo_tx_ok(2) [OF names(2) demo_names(1)]
  have logs: "logs demo_env ?st ?es"
    using demo_logs [of "item_entries (demo_tx ''x'' ''k'') @ item_entries (demo_tx ''y'' ''c'')"] ok by simp
  have u: "until None (Some 3) ?es = map stored_entry (item_entries (demo_tx ''x'' ''k''))"
    by (simp add: until_def too_late_def demo_tx_def numeral_3_eq_3)
  have logs': "logs demo_env ?st' (until None (Some 3) ?es)"
    unfolding u by (rule demo_logs [OF ok(1)])
  have "list_all (\<lambda>e. doc_ok (e_value e)) (until None (Some 3) ?es)"
    unfolding u by (simp add: demo_tx_def new_entry_def doc_ok_def len_ok_def)
  then obtain db' where db': "db_open demo_env 0 ?st' = Inr db'" using open_logs [OF demo_env_ok logs'] by metis
  from recover_is_restart [OF demo_env_ok logs _ logs' this] db' show ?thesis by blast
qed

text \<open>
  C23. The command \<open>recover\<close> never recovers a document: it looks for records with the command \<open>INSERT\<close>, but those of
  \<open>recover_to\<close> carry its token, so whatever the log holds, the snapshot it writes (and announces as complete) is
  empty: loading it reads no record, even if the disk cut it short, and reports it as complete if the disk did not
  fail. (No file of an earlier run is in the way.)
\<close>
theorem recovery_tool_empty:
  assumes "run_recover env tick to_vec k cipher_of log_file (Inr td) renames encryption_key to_time to_seq = Recovered snapshot"
    and "d_snapshot td = None"
  shows "snd (load_snapshot env (Some snapshot) f s) = s \<and>
    (io_fine td \<longrightarrow> load_snapshot env (Some snapshot) f s = (Some 0, s))"
proof -
  obtain st entries td' r where e: "recover_to env tick st to_time to_seq = Inr entries"
    and c: "sync_compact_from_maps env (fold (rebuild_entry to_vec) entries []) [] td = (r, td')" "d_snapshot td' = Some snapshot"
    using assms(1) unfolding run_recover_def
    by (fastforce split: outcome.splits sum.splits prod.splits option.splits if_splits)
  from c(1) have "sync_compact_from_maps env [] [] td = (r, td')" by (simp only: rebuilt_nothing [OF e])
  with compact_empty_snapshot [OF assms(2) this] compact_empty_fine [of td env r td'] c(2)
  obtain n where "snapshot = take n (snapshot_header 0 0 @ gzip env [])"
    and "io_fine td \<Longrightarrow> snapshot = snapshot_header 0 0 @ gzip env []" by auto
  then show ?thesis using load_cut_snapshot [of env n "gzip env []" f s] load_empty_snapshot [of env "gzip env []" f s] by auto
qed

definition demo_kdf :: kdf where
  "demo_kdf = \<lparr>salt_ok = (\<lambda>s. True), argon2 = (\<lambda>pw salt. Some (replicate 32 0))\<rparr>"

lemma run_recover_steps:
  assumes "derive_key k ''default_molten_password'' ''moltendb_log_salt'' = Returns key"
    and "recover_to env tick (EncryptedStorage (cipher_of key) 0 (SyncDiskStorage d)) to_time to_seq = Inr entries"
    and "sync_compact_from_maps env [] [] td = (Inr (), td')" and "d_snapshot td' = Some snapshot"
  shows "run_recover env tick to_vec k cipher_of (Inr d) (Inr td) True None to_time to_seq = Recovered snapshot"
  by (simp add: run_recover_def assms rebuilt_nothing [OF assms(2)])

lemma demo_key: "\<exists>key. derive_key demo_kdf pw ''moltendb_log_salt'' = Returns key"
  by (simp add: derive_key_def demo_kdf_def salt_prefix_def char_boundary_def Let_def)

theorem recovery_tool_empty_witness:
  "\<exists>snapshot. run_recover demo_env 0 (\<lambda>v. Some [0]) demo_kdf (\<lambda>key. demo_cipher)
      (Inr (demo_disk (log_bytes (item_entries (demo_tx ''x'' ''k''))))) (Inr (demo_disk [])) True None None None = Recovered snapshot \<and>
    load_snapshot demo_env (Some snapshot) (replay_step demo_env) (replay_start (empty_tables 0)) =
      (Some 0, replay_start (empty_tables 0))"
proof -
  let ?d = "demo_disk (log_bytes (item_entries (demo_tx ''x'' ''k'')))"
  let ?st = "EncryptedStorage demo_cipher 0 (SyncDiskStorage ?d)"
  have "name_ok ''x''" by (simp add: name_ok_def str_ok_def bytes_of_def)
  note ok = demo_tx_ok(2) [OF this demo_names(2)]
  let ?es = "List.map_filter (decrypted demo_env demo_cipher) (map stored_entry (item_entries (demo_tx ''x'' ''k'')))"
  have logs: "logs demo_env ?st ?es"
    using demo_logs [OF ok] demo_cipher_ok by (simp only: logs.simps(4)) blast
  have gz: "gzip_ok demo_env" using demo_env_ok by (simp add: env_ok_def)
  have "(None :: u64 option) = None \<or> in_time_order ?es" by simp
  from recover_logs [OF logs gz this refl, where tick = 0 and to_seq = None]
  obtain entries where e: "recover_to demo_env 0 ?st None None = Inr entries" by blast
  have c: "\<exists>td'. sync_compact_from_maps demo_env [] [] (demo_disk []) = (Inr (), td') \<and> d_snapshot td' \<noteq> None"
    by (simp add: sync_compact_from_maps_def write_snapshot_from_maps_def finish_snapshot_gz_def drop_snapshot_writer_def
        swap_log_def op_bind_def io_call_def next_io_def demo_disk_def)
  obtain key where key: "derive_key demo_kdf ''default_molten_password'' ''moltendb_log_salt'' = Returns key" using demo_key by blast
  obtain td' snapshot where td': "sync_compact_from_maps demo_env [] [] (demo_disk []) = (Inr (), td')" "d_snapshot td' = Some snapshot"
    using c by blast
  have r: "run_recover demo_env 0 (\<lambda>v. Some [0]) demo_kdf (\<lambda>key. demo_cipher) (Inr ?d) (Inr (demo_disk [])) True
      None None None = Recovered snapshot"
    by (rule run_recover_steps [OF key _ td']) (rule e)
  have "d_snapshot (demo_disk []) = None" by (simp add: demo_disk_def)
  note loads = recovery_tool_empty [OF r this]
  have "io_fine (demo_disk [])" by (simp add: io_fine_def demo_disk_def)
  then show ?thesis by (intro exI [of _ snapshot] conjI r mp [OF conjunct2 [OF loads]])
qed

end
