(* ===== verification/Startup.thy ===== *)
theory Startup
  imports Server PointInTime
begin

text \<open>
  The start of the server (\<open>main.rs\<close>): what it demands of its configuration, the storage it opens, the
  accounts, the revocation file, and the secret that the tokens are signed with (\<open>token.rs\<close>). A start
  ends with the service and its first state, or with the reason why the process exits.
\<close>

section \<open>Configuration\<close>

record config =
  cf_db_path :: string
  cf_write_mode :: string
  cf_in_memory :: bool
  cf_disable_encryption :: bool
  cf_encryption_key :: "string option"
  cf_jwt_secret :: "string option"
  cf_root_user :: "string option"
  cf_root_password :: "string option"
  cf_root_token_ttl :: u64
  cf_rate_limit_requests :: u32
  cf_rate_limit_window :: u64
  cf_max_body_size :: nat
  cf_max_keys_per_request :: nat
  cf_cors_origin :: string
  cf_dev_mode :: bool
  cf_host :: string
  cf_port :: "16 word"
  cf_cert :: string
  cf_key :: string

datatype cors_policy = AnyOrigin | Origins "string list"

text \<open>
  The process around it: environment variables, text functions of the standard library that go by
  Unicode tables, the file name and the parent of a path, the files, which addresses parse, the reading
  of certificates, the cipher of a key, the third-party authentication for a secret, and the web
  framework for a CORS policy.
\<close>

record 'ip os =
  os_var :: "string \<Rightarrow> string option"
  os_lower :: "string \<Rightarrow> string"
  os_trim :: "string \<Rightarrow> string"
  os_file_stem :: "string \<Rightarrow> string option"
  os_parent :: "string \<Rightarrow> string option"
  os_new_backend :: "bool \<Rightarrow> string \<Rightarrow> db_error + storage"
  os_text_file :: "string \<Rightarrow> text_file"
  os_header_value :: "string \<Rightarrow> bool"
  os_socket_addr :: "string \<Rightarrow> 16 word \<Rightarrow> bool"
  os_exists :: "string \<Rightarrow> bool"
  os_pem :: "string \<Rightarrow> string \<Rightarrow> string + unit"
  os_kdf :: kdf
  os_cipher :: "bytes \<Rightarrow> cipher"
  os_auth :: "string \<Rightarrow> auth_env"
  os_jwt_text :: "jwt_error \<Rightarrow> string"
  os_web :: "cors_policy \<Rightarrow> 'ip web"
  os_now_unix :: u64
  os_now_instant :: instant

text \<open>The secret that signs tokens and the revocation file: read from the environment, not from the configuration.\<close>

definition dev_secret :: string where
  "dev_secret = ''dev-secret-change-in-production''"

definition get_secret :: "(string \<Rightarrow> string option) \<Rightarrow> string" where
  "get_secret var = (case var ''JWT_SECRET'' of Some s \<Rightarrow> s | None \<Rightarrow> dev_secret)"

section \<open>Steps of the start\<close>

definition is_sync_mode :: "'ip os \<Rightarrow> config \<Rightarrow> bool" where
  "is_sync_mode os cf \<longleftrightarrow> os_lower os (cf_write_mode cf) = ''sync''"

definition start_key :: "'ip os \<Rightarrow> config \<Rightarrow> bytes option outcome" where
  "start_key os cf =
     (if cf_disable_encryption cf then Returns None
      else case derive_key (os_kdf os)
             (case cf_encryption_key cf of Some pw \<Rightarrow> pw | None \<Rightarrow> ''moltendb-default-encryption-key'') (cf_db_path cf) of
          Aborts \<Rightarrow> Aborts | Returns key \<Rightarrow> Returns (Some key))"

text \<open>\<open>Db::open\<close>: the base storage, wrapped when there is a key and a disk.\<close>

definition select_storage :: "'ip os \<Rightarrow> config \<Rightarrow> bytes option \<Rightarrow> db_error + storage" where
  "select_storage os cf key =
     (if cf_in_memory cf then Inr InMemoryStorage
      else case os_new_backend os (is_sync_mode os cf) (cf_db_path cf) of
          Inl e \<Rightarrow> Inl e
        | Inr base \<Rightarrow>
            Inr (case key of Some k \<Rightarrow> EncryptedStorage (os_cipher os k) 0 base | None \<Rightarrow> base))"

definition open_configured :: "'ip os \<Rightarrow> env \<Rightarrow> nat \<Rightarrow> config \<Rightarrow> bytes option \<Rightarrow> db_error + db" where
  "open_configured os env tick cf key =
     (case select_storage os cf key of Inl e \<Rightarrow> Inl e | Inr st \<Rightarrow> db_open env tick st)"

definition revocations_path :: "'ip os \<Rightarrow> string \<Rightarrow> string" where
  "revocations_path os path =
     (let stem = (case os_file_stem os path of Some s \<Rightarrow> s | None \<Rightarrow> ''my_database'');
          dir = (case os_parent os path of Some p \<Rightarrow> if p = [] then ''.'' else p | None \<Rightarrow> ''.'')
      in dir @ ''/'' @ stem @ ''.revocations.json'')"

definition cors_origins :: "'ip os \<Rightarrow> string \<Rightarrow> cors_policy option" where
  "cors_origins os origin =
     (let origin_str = os_trim os origin in
      if origin_str = ''*'' then Some AnyOrigin
      else
        let origins = filter (os_header_value os)
              (filter (\<lambda>s. s \<noteq> []) (map (os_trim os) (split_on (CHR '','') origin_str)))
        in if origins = [] then None else Some (Origins origins))"

text \<open>\<open>server.rs\<close>\<close>

datatype tls_error = CertNotFound string | KeyNotFound string | PemRejected string

definition load_tls_config :: "'ip os \<Rightarrow> string \<Rightarrow> string \<Rightarrow> tls_error + unit" where
  "load_tls_config os cert_path key_path =
     (if \<not> os_exists os cert_path then Inl (CertNotFound cert_path)
      else if \<not> os_exists os key_path then Inl (KeyNotFound key_path)
      else case os_pem os cert_path key_path of Inl e \<Rightarrow> Inl (PemRejected e) | Inr u \<Rightarrow> Inr u)"

datatype start_failure =
    NoJwtSecret | NoRootUser | NoRootPassword | KeyDerivationPanics | OpenFailed db_error
  | HashFailed auth_error | RevocationsRejected load_error | NoValidOrigins | BadAddress | BadTls tls_error

text \<open>The address to listen on, and the certificates unless the server runs in dev mode.\<close>

definition listen :: "'ip os \<Rightarrow> config \<Rightarrow> start_failure + unit" where
  "listen os cf =
     (if \<not> os_socket_addr os (cf_host cf) (cf_port cf) then Inl BadAddress
      else if cf_dev_mode cf then Inr ()
      else case load_tls_config os (cf_cert cf) (cf_key cf) of Inl e \<Rightarrow> Inl (BadTls e) | Inr u \<Rightarrow> Inr u)"

definition start_server :: "'ip os \<Rightarrow> env \<Rightarrow> nat \<Rightarrow> (auth_env \<Rightarrow> world) \<Rightarrow> config \<Rightarrow>
    start_failure + 'ip service \<times> 'ip server" where
  "start_server os env tick world_of cf =
     (let ae = os_auth os (get_secret (os_var os)) in
      case (cf_jwt_secret cf, cf_root_user cf, cf_root_password cf) of
        (None, _, _) \<Rightarrow> Inl NoJwtSecret
      | (Some _, None, _) \<Rightarrow> Inl NoRootUser
      | (Some _, Some _, None) \<Rightarrow> Inl NoRootPassword
      | (Some _, Some root_user, Some root_password) \<Rightarrow>
        (case start_key os cf of Aborts \<Rightarrow> Inl KeyDerivationPanics
         | Returns key \<Rightarrow>
           (case open_configured os env tick cf key of Inl e \<Rightarrow> Inl (OpenFailed e)
            | Inr db \<Rightarrow>
              (case user_store_new ae root_user root_password of Inl e \<Rightarrow> Inl (HashFailed e)
               | Inr users \<Rightarrow>
                 (let revocations = os_text_file os (revocations_path os (cf_db_path cf)) in
                  case load_from_file ae (os_now_unix os) (os_now_instant os) revocations of
                    Inl e \<Rightarrow> Inl (RevocationsRejected e)
                  | Inr store \<Rightarrow>
                    (case cors_origins os (cf_cors_origin cf) of None \<Rightarrow> Inl NoValidOrigins
                     | Some cors \<Rightarrow>
                       (case listen os cf of Inl e \<Rightarrow> Inl e | Inr _ \<Rightarrow>
                        Inr
                          (\<lparr>su_world = world_of ae, su_auth = ae, su_jwt_text = os_jwt_text os,
                             su_app = \<lparr>app_users = users,
                               app_limits = \<lparr>max_body_size = cf_max_body_size cf,
                                 max_keys_per_request = cf_max_keys_per_request cf\<rparr>,
                               root_username = root_user, root_token_ttl = cf_root_token_ttl cf\<rparr>,
                             su_web = os_web os cors\<rparr>,
                           \<lparr>sv_db = db, sv_sessions = \<lparr>revoked = store, revocations_file = revocations\<rparr>,
                             sv_limiter = new_limiter (unat (cf_rate_limit_requests cf)) (unat (cf_rate_limit_window cf))\<rparr>))))))))"

section \<open>What a started server is\<close>

lemma started:
  assumes "start_server os env tick world_of cf = Inr (su, s)"
  obtains root_user root_password key users store where "cf_jwt_secret cf \<noteq> None" and "cf_root_user cf = Some root_user"
    and "cf_root_password cf = Some root_password" and "start_key os cf = Returns key"
    and "open_configured os env tick cf key = Inr (sv_db s)"
    and "su_auth su = os_auth os (get_secret (os_var os))"
    and "user_store_new (su_auth su) root_user root_password = Inr (app_users (su_app su))"
    and "load_from_file (su_auth su) (os_now_unix os) (os_now_instant os)
      (os_text_file os (revocations_path os (cf_db_path cf))) = Inr (revoked (sv_sessions s))"
    and "root_username (su_app su) = root_user"
  using assms by (auto simp: start_server_def Let_def split: option.splits outcome.splits sum.splits if_splits prod.splits)

text \<open>Outside dev mode a server starts only with both files of its certificate there.\<close>

lemma starts_with_tls:
  assumes "start_server os env tick world_of cf = Inr (su, s)" and "\<not> cf_dev_mode cf"
  shows "os_exists os (cf_cert cf)" and "os_exists os (cf_key cf)" and "os_pem os (cf_cert cf) (cf_key cf) = Inr ()"
  using assms
  by (auto simp: start_server_def listen_def load_tls_config_def Let_def
      split: option.splits outcome.splits sum.splits if_splits prod.splits)

text \<open>The only account is the configured one.\<close>

lemma only_root_logs_in:
  assumes "start_server os env tick world_of cf = Inr (su, s)" and "verify_user (su_auth su) (app_users (su_app su)) u p"
  shows "cf_root_user cf = Some u" and "\<exists>pw h. cf_root_password cf = Some pw \<and> hash_password (su_auth su) pw = Inr h \<and>
    verify_password (su_auth su) p h = Inr True"
proof -
  obtain root_user root_password where r: "cf_root_user cf = Some root_user" "cf_root_password cf = Some root_password"
    and users: "user_store_new (su_auth su) root_user root_password = Inr (app_users (su_app su))"
    using started [OF assms(1)] by metis
  from users obtain h where h: "hash_password (su_auth su) root_password = Inr h" "app_users (su_app su) = [(root_user, h)]"
    by (auto simp: user_store_new_def split: sum.splits)
  have "u = root_user \<and> verify_password (su_auth su) p h = Inr True"
    using assms(2) h(2) by (auto simp: verify_user_def split: option.splits sum.splits if_splits)
  with r h(1) show "cf_root_user cf = Some u" and "\<exists>pw h. cf_root_password cf = Some pw \<and>
      hash_password (su_auth su) pw = Inr h \<and> verify_password (su_auth su) p h = Inr True"
    by auto
qed

text \<open>
  In memory nothing is wrapped and nothing is on disk, but a revocation is still written to the file
  beside the database: \<open>persist\<close> does not know the mode.
\<close>

lemma in_memory_storage: "cf_in_memory cf \<Longrightarrow> select_storage os cf key = Inr InMemoryStorage"
  by (simp add: select_storage_def)

lemma in_memory_revocation_saved:
  assumes "is_admin cl" and "j \<noteq> []" and "write_succeeds m"
  shows "\<exists>text. revocations_file (snd (handle_revoke ae m cl j payload ss)) = Contents text"
  using assms by (simp add: handle_revoke_def persist_def Let_def)

section \<open>An example\<close>

definition demo_config :: config where
  "demo_config = \<lparr>cf_db_path = ''d.log'', cf_write_mode = ''sync'', cf_in_memory = True, cf_disable_encryption = True,
     cf_encryption_key = None, cf_jwt_secret = Some ''strong'', cf_root_user = Some ''root'', cf_root_password = Some ''pw'',
     cf_root_token_ttl = 60, cf_rate_limit_requests = 10, cf_rate_limit_window = 60, cf_max_body_size = 10,
     cf_max_keys_per_request = 10, cf_cors_origin = ''*'', cf_dev_mode = True,
     cf_host = ''0.0.0.0'', cf_port = 1538, cf_cert = ''cert.pem'', cf_key = ''key.pem''\<rparr>"

definition demo_os :: "nat os" where
  "demo_os = \<lparr>os_var = (\<lambda>v. None), os_lower = (\<lambda>s. s), os_trim = (\<lambda>s. s), os_file_stem = (\<lambda>s. None),
     os_parent = (\<lambda>s. None), os_new_backend = (\<lambda>sync path. Inl WriteError), os_text_file = (\<lambda>path. Missing),
     os_header_value = (\<lambda>s. True), os_socket_addr = (\<lambda>host port. True), os_exists = (\<lambda>path. False),
     os_pem = (\<lambda>cert key. Inl []),
     os_kdf = demo_kdf,
     os_cipher = (\<lambda>key. demo_cipher), os_auth = (\<lambda>secret. demo_auth), os_jwt_text = (\<lambda>e. []), os_web = (\<lambda>cors. demo_web),
     os_now_unix = 5, os_now_instant = 0\<rparr>"

lemma demo_start:
  "\<exists>su s. start_server demo_os demo_env 0 (\<lambda>ae. demo_world) demo_config = Inr (su, s) \<and> revoked (sv_sessions s) = []"
  by (simp add: start_server_def demo_config_def demo_os_def start_key_def open_configured_def select_storage_def
      db_open_def stream_into_state_def stream_log_into_def empty_tables_def replay_start_def fresh_db_def tables.extend_def
      user_store_new_def hash_password_def demo_auth_def load_from_file_def cors_origins_def listen_def Let_def)

section \<open>Properties\<close>

text \<open>
  C11. The configured secret protects nothing: the server refuses to start without \<open>--jwt-secret\<close>
  (\<open>MOLTENDB_JWT_SECRET\<close>), but signs with the environment variable \<open>JWT_SECRET\<close>; where that is not set, a token that
  anyone makes with the constant of the source code, with the root scope, passes the authentication of the started
  server, whatever secret was configured.
\<close>
theorem configured_secret_ignored:
  assumes "start_server os env tick world_of cf = Inr (su, s)" and "os_var os ''JWT_SECRET'' = None"
    and "jwt_ok (os_auth os dev_secret)"
    and "jwt_encode (os_auth os dev_secret) \<lparr>sub = u, exp_at = t, scopes = [ROOT_SCOPE], jti = j\<rparr> = Inr forged"
    and "now \<le> t" and "j \<noteq> []" and "\<not> is_revoked j (revoked (sv_sessions s))"
  shows "\<exists>cl. auth_middleware (su_auth su) now (Some (''Bearer '' @ forged)) (Some (revoked (sv_sessions s))) = Inr cl \<and>
    is_admin cl"
proof -
  have ae: "su_auth su = os_auth os dev_secret"
    using started [OF assms(1)] assms(2) by (metis get_secret_def option.case(1))
  have "jwt_decode (os_auth os dev_secret) now forged = Inr \<lparr>sub = u, exp_at = t, scopes = [ROOT_SCOPE], jti = j\<rparr>"
    using assms(3-5) unfolding jwt_ok_def by (metis claims.select_convs(2))
  then show ?thesis
    using assms(6,7) by (simp add: ae auth_middleware_def verify_token_def starts_with_def is_admin_def)
qed

theorem configured_secret_ignored_witness:
  "\<exists>su s forged cl. start_server demo_os demo_env 0 (\<lambda>ae. demo_world) demo_config = Inr (su, s) \<and>
     cf_jwt_secret demo_config = Some ''strong'' \<and>
     auth_middleware (su_auth su) 5 (Some (''Bearer '' @ forged)) (Some (revoked (sv_sessions s))) = Inr cl \<and> is_admin cl"
proof -
  obtain su s where st: "start_server demo_os demo_env 0 (\<lambda>ae. demo_world) demo_config = Inr (su, s)"
    and none: "revoked (sv_sessions s) = []"
    using demo_start by blast
  let ?cl = "\<lparr>sub = ''eve'', exp_at = 100, scopes = [ROOT_SCOPE], jti = ''x''\<rparr>"
  have var: "os_var demo_os ''JWT_SECRET'' = None" and auth: "os_auth demo_os dev_secret = demo_auth" by (simp_all add: demo_os_def)
  have forged: "jwt_encode demo_auth ?cl = Inr (enc_token ?cl)" by (simp add: demo_auth_def)
  have "cf_jwt_secret demo_config = Some ''strong''" by (simp add: demo_config_def)
  then show ?thesis
    using configured_secret_ignored [OF st var, unfolded auth, OF demo_auth_ok(1) forged, of 5] none st
    by (auto simp: is_revoked_def)
qed

end
