(* ===== verification/Requests.thy ===== *)
theory Requests
  imports Access
begin

text \<open>
  A request to store a document followed by a request to read it, through the handlers and the engine.
\<close>

section \<open>The document a client sees\<close>

definition api_key :: "string \<Rightarrow> string" where
  "api_key k = expand_key (ikey_of k)"

lemma expand_tokenize_object:
  assumes "bt_ok m" and "inj_on api_key (fst ` set m)"
    and "\<And>k v. (k, v) \<in> set m \<Longrightarrow> expand_system_fields (tokenize v) = v"
  shows "\<exists>view. expand_system_fields (tokenize (Object m)) = Object view \<and> bt_ok view \<and>
    set view = (\<lambda>(k, v). (api_key k, v)) ` set m"
proof -
  let ?m1 = "of_entries (map (\<lambda>(k, v). (ikey_of k, tokenize v)) m)"
  let ?view = "of_entries (map (\<lambda>(k, v). (expand_key k, expand_system_fields v)) ?m1)"
  have "inj_on ikey_of (fst ` set m)"
    using assms(2) by (auto simp: inj_on_def api_key_def)
  then have m1: "set ?m1 = (\<lambda>(k, v). (ikey_of k, tokenize v)) ` set m"
    by (rule set_of_entries_rename [OF assms(1)])
  have "inj_on expand_key (fst ` set ?m1)"
    unfolding m1 using assms(2) by (auto simp: inj_on_def api_key_def)
  then have "set ?view = (\<lambda>(k, v). (expand_key k, expand_system_fields v)) ` set ?m1"
    by (intro set_of_entries_rename) simp_all
  also have "\<dots> = (\<lambda>(k, v). (api_key k, v)) ` set m"
    unfolding m1 image_image using assms(3) by (intro image_cong) (auto simp: api_key_def)
  finally show ?thesis by auto
qed


text \<open>A document of a client: no reserved names and no integer-string names at the top level, plain values.\<close>

definition client_object :: "object \<Rightarrow> bool" where
  "client_object obj \<longleftrightarrow> wf_value (Object obj) \<and> no_ikeys (Object obj) \<and> \<not> has_reserved (Object obj)"

lemma system_keys:
  "api_key IKEY_VERSION = VERSION" "api_key IKEY_SEQ = SEQ" "api_key IKEY_CREATED_AT = CREATED_AT"
  "api_key IKEY_MODIFIED_AT = MODIFIED_AT"
  "reserved_key VERSION" "reserved_key SEQ" "reserved_key CREATED_AT" "reserved_key MODIFIED_AT"
  "reserved_key EXPIRES_AT" "reserved_key KEY"
  "expand_key IKEY_VERSION = VERSION" "expand_key IKEY_SEQ = SEQ" "expand_key IKEY_CREATED_AT = CREATED_AT"
  "expand_key IKEY_MODIFIED_AT = MODIFIED_AT"
  by (simp_all add: api_key_def expand_key_def ikey_of_def reserved_key_def)

lemma client_keys:
  assumes "client_object obj" and "(k, v) \<in> set obj"
  shows "api_key k = k" and "\<not> reserved_key k" and "expand_key k = k" and "expand_system_fields (tokenize v) = v"
proof -
  show nr: "\<not> reserved_key k" using assms by (auto simp: client_object_def has_reserved_def list_ex_iff)
  show ek: "expand_key k = k" using assms by (auto simp: client_object_def list_all_iff)
  have "k \<noteq> n" if "reserved_key n" for n using nr that by blast
  then have "ikey_of k = k" using system_keys by (simp add: ikey_of_def)
  then show "api_key k = k" by (simp add: api_key_def ek)
  show "expand_system_fields (tokenize v) = v"
    using assms by (intro expand_tokenize) (auto simp: client_object_def list_all_iff)
qed

lemma client_fresh:
  assumes "client_object obj" and "reserved_key k \<or> expand_key k \<noteq> k"
  shows "map_of obj k = None"
proof (cases "map_of obj k")
  case (Some v)
  then have "(k, v) \<in> set obj" by (rule map_of_SomeD)
  with client_keys [OF assms(1)] assms(2) show ?thesis by blast
qed

definition stamped :: "json \<Rightarrow> json \<Rightarrow> json \<Rightarrow> json \<Rightarrow> object \<Rightarrow> object" where
  "stamped v s cr mo obj =
     bt_insert IKEY_SEQ s (bt_insert IKEY_MODIFIED_AT mo (bt_insert IKEY_CREATED_AT cr (bt_insert IKEY_VERSION v obj)))"

lemma set_bt_insert_fresh: "bt_ok m \<Longrightarrow> map_of m k = None \<Longrightarrow> set (bt_insert k v m) = insert (k, v) (set m)"
  by (induction m) (auto split: if_splits)

lemma stamped_set:
  assumes "client_object obj"
  shows "bt_ok (stamped v s cr mo obj)" and "set (stamped v s cr mo obj) =
    {(IKEY_SEQ, s), (IKEY_MODIFIED_AT, mo), (IKEY_CREATED_AT, cr), (IKEY_VERSION, v)} \<union> set obj"
proof -
  have ok: "bt_ok obj" using assms by (simp add: client_object_def)
  have fresh: "map_of obj IKEY_SEQ = None" "map_of obj IKEY_MODIFIED_AT = None" "map_of obj IKEY_CREATED_AT = None"
    "map_of obj IKEY_VERSION = None"
    using client_fresh [OF assms] system_keys by simp_all
  show "bt_ok (stamped v s cr mo obj)" by (simp add: stamped_def bt_ok_insert ok)
  show "set (stamped v s cr mo obj) =
    {(IKEY_SEQ, s), (IKEY_MODIFIED_AT, mo), (IKEY_CREATED_AT, cr), (IKEY_VERSION, v)} \<union> set obj"
    by (simp add: stamped_def set_bt_insert_fresh bt_ok_insert ok fresh map_of_bt_insert)
qed


lemma expand_u64 [simp]: "expand_system_fields (json_u64 n) = json_u64 n"
  by (simp add: json_u64_def)

lemma stamped_view:
  assumes "client_object obj"
  shows "\<exists>view. expand_system_fields (tokenize (Object (stamped (json_u64 v) (json_u64 s) (json_u64 cr) (json_u64 mo) obj))) =
      Object view \<and> bt_ok view \<and>
    set view = {(SEQ, json_u64 s), (MODIFIED_AT, json_u64 mo), (CREATED_AT, json_u64 cr), (VERSION, json_u64 v)} \<union> set obj"
    (is "\<exists>view. expand_system_fields (tokenize (Object ?m)) = _ \<and> _ \<and> set view = ?S")
proof -
  let ?I = "{IKEY_SEQ, IKEY_MODIFIED_AT, IKEY_CREATED_AT, IKEY_VERSION}"
  note st = stamped_set [OF assms, of "json_u64 v" "json_u64 s" "json_u64 cr" "json_u64 mo"]
  have keys: "fst ` set ?m = ?I \<union> fst ` set obj" unfolding st(2) by simp
  have plain: "api_key k = k \<and> \<not> reserved_key k" if "k \<in> fst ` set obj" for k
    using that client_keys(1,2) [OF assms] by (metis imageE surjective_pairing)
  have "inj_on api_key ?I" by (simp add: inj_on_def system_keys)
  moreover have "inj_on api_key (fst ` set obj)" using plain by (simp add: inj_on_def)
  moreover have res: "reserved_key (api_key k)" if "k \<in> ?I" for k using that by (auto simp: system_keys)
  have "api_key ` (?I - fst ` set obj) \<inter> api_key ` (fst ` set obj - ?I) = {}"
  proof (rule ccontr)
    assume "\<not> ?thesis"
    then obtain a b where "a \<in> ?I" "b \<in> fst ` set obj" "api_key a = api_key b" by blast
    with res [of a] plain [of b] show False by simp
  qed
  ultimately have inj: "inj_on api_key (fst ` set ?m)"
    unfolding keys inj_on_Un by blast
  have vals: "expand_system_fields (tokenize x) = x" if "(k, x) \<in> set ?m" for k x
    using that client_keys(4) [OF assms] unfolding st(2) by fastforce
  have "(\<lambda>(k, v). (api_key k, v)) ` set obj = set obj"
    using plain by (force simp: image_iff)
  then have "(\<lambda>(k, v). (api_key k, v)) ` set ?m = ?S"
    unfolding st(2) image_Un by (simp only: image_insert image_empty prod.case system_keys)
  with expand_tokenize_object [OF st(1) inj vals] show ?thesis by simp
qed

lemma view_without_metadata:
  assumes "bt_ok obj" and "bt_ok view" and "distinct [sq, mo, cr, ex, ky, ve]"
    and "\<forall>n\<in>{sq, mo, cr, ex, ky, ve}. map_of obj n = None"
    and "set view = {(sq, s), (mo, m), (cr, c), (ve, v)} \<union> set obj"
  shows "map_of view ve = Some v"
    and "bt_remove ky (bt_insert ky w (bt_insert ve v
      (bt_remove ex (bt_remove mo (bt_remove cr (bt_remove sq view)))))) = bt_insert ve v obj" (is "?l = ?r")
proof -
  show "map_of view ve = Some v" using bt_get_in [OF assms(2)] assms(5) by blast
  have same: "map_of view x = map_of obj x" if "x \<notin> {sq, mo, cr, ve}" for x
  proof -
    have "map_of view x = Some y \<longleftrightarrow> map_of obj x = Some y" for y
      using that unfolding bt_get_in [OF assms(2), symmetric] bt_get_in [OF assms(1), symmetric] assms(5) by blast
    then show ?thesis by (metis option.exhaust)
  qed
  have "map_of ?l x = map_of ?r x" for x
    using same [of x] assms(3,4) by auto
  then show "?l = ?r"
    by (intro bt_ext) (simp_all add: bt_ok_insert bt_ok_remove assms(1,2) fun_eq_iff)
qed

lemma client_view:
  assumes "client_object obj" and "bt_ok view"
    and "set view = {(SEQ, s), (MODIFIED_AT, mo), (CREATED_AT, cr), (VERSION, v)} \<union> set obj"
  shows "map_of view VERSION = Some v"
    and "bt_remove KEY (bt_insert KEY w (bt_insert VERSION v
      (bt_remove EXPIRES_AT (bt_remove MODIFIED_AT (bt_remove CREATED_AT (bt_remove SEQ view)))))) = bt_insert VERSION v obj"
proof -
  have ok: "bt_ok obj" using assms(1) by (simp add: client_object_def)
  have d: "distinct [SEQ, MODIFIED_AT, CREATED_AT, EXPIRES_AT, KEY, VERSION]" by simp
  have none: "\<forall>n\<in>{SEQ, MODIFIED_AT, CREATED_AT, EXPIRES_AT, KEY, VERSION}. map_of obj n = None"
    using client_fresh [OF assms(1)] by (simp only: ball_simps system_keys simp_thms)
  note view = view_without_metadata [OF ok assms(2) d none assms(3)]
  show "map_of view VERSION = Some v" by (rule view(1))
  show "bt_remove KEY (bt_insert KEY w (bt_insert VERSION v
      (bt_remove EXPIRES_AT (bt_remove MODIFIED_AT (bt_remove CREATED_AT (bt_remove SEQ view)))))) = bt_insert VERSION v obj"
    by (rule view(2))
qed


section \<open>One document in\<close>

definition set_payload :: "string \<Rightarrow> string \<Rightarrow> object \<Rightarrow> json" where
  "set_payload c k obj = Object [(''collection'', String c), (''data'', Object [(k, Object obj)])]"

definition get_payload :: "string \<Rightarrow> string \<Rightarrow> json" where
  "get_payload c k = Object [(''collection'', String c), (''keys'', String k)]"

lemma set_payload_props:
  "pget (set_payload c k obj) Collection = Some (String c)" "pget (set_payload c k obj) Data = Some (Object [(k, Object obj)])"
  "pget (set_payload c k obj) Ttl = None" "pget (set_payload c k obj) MaxSize = None"
  "pget (set_payload c k obj) Keys = None"
  "collection_or_default (set_payload c k obj) = c"
  by (simp_all add: set_payload_def pget_def collection_or_default_def vindex_def)

lemma get_payload_props:
  "pget (get_payload c k) Collection = Some (String c)" "pget (get_payload c k) Keys = Some (String k)"
  "collection_or_default (get_payload c k) = c"
  "f \<noteq> Collection \<Longrightarrow> f \<noteq> Keys \<Longrightarrow> pget (get_payload c k) f = None"
  by (simp_all add: get_payload_def pget_def collection_or_default_def vindex_def) (cases f; simp)

lemma op_bind_run: "op_bind m f db = (case m db of (Inl e, db') \<Rightarrow> (Inl e, db') | (Inr a, db') \<Rightarrow> f a db')"
  by (simp add: op_bind_def)

lemma set_errors_not_200 [simp]: "set_error e \<noteq> (200, b)"
  by (cases e) (simp_all add: set_error_def error_response_def)

lemma checked_run: "checked r db = (case r of Inl e \<Rightarrow> (Inl (Returns (validation_response e)), db) | Inr _ \<Rightarrow> (Inr (), db))"
  by (simp add: checked_def early_def op_raise_def op_return_def split: sum.split)

lemma process_set_one:
  assumes "process_set w (set_payload c k obj) lim db = (Returns (200, b), db1)" and "bt_get obj ''extends'' = None"
  shows "\<not> has_reserved (Object obj)" and "db_insert (core w) c [(k, Object obj)] db = (Inr (), db1)"
    and "validate_request (world.json_text w) (set_payload c k obj) (max_body_size lim) (max_keys_per_request lim) = Inr ()"
proof -
  let ?v1 = "validate_allowed_properties (set_payload c k obj) SET_ALLOWED"
  let ?v2 = "validate_request (world.json_text w) (set_payload c k obj) (max_body_size lim) (max_keys_per_request lim)"
  note run = assms(1) [unfolded process_set_def run_handler_def op_bind_run checked_run Let_def set_payload_props
    set_ttl_property_def set_max_size_property_def option.case]
  obtain v1: "?v1 = Inr ()" using run by (cases ?v1) auto
  note run = run [unfolded v1 sum.case prod.case]
  obtain v2: "?v2 = Inr ()" using run by (cases ?v2) auto
  then show "?v2 = Inr ()" .
  have ext: "resolve_extends db (Object obj) = Object obj" using assms(2) by (simp add: resolve_extends_def)
  note run = run [unfolded v2 sum.case prod.case]
  show nr: "\<not> has_reserved (Object obj)"
    using run by (auto simp: op_return_def op_bind_run resolve_item_def ext early_def op_raise_def split: if_splits)
  obtain r db' where ins: "db_insert (core w) c [(k, Object obj)] db = (r, db')" by fastforce
  show "db_insert (core w) c [(k, Object obj)] db = (Inr (), db1)"
    using run nr
    by (cases r) (auto simp: op_return_def op_bind_run resolve_item_def ext db_insert_items_def db_call_def ins
        split: if_splits)
qed


text \<open>No time to live and no size limit for the collection.\<close>

definition unlimited :: "string \<Rightarrow> db \<Rightarrow> bool" where
  "unlimited c db \<longleftrightarrow> dm_get (t_ttl_expiry db) c = None \<and> dm_get (db_ttl_defaults db) c = None \<and>
     dm_get (db_max_sizes db) c = None"

lemma unlimited_settings: "settings db' = settings db \<Longrightarrow> unlimited c db' \<longleftrightarrow> unlimited c db"
  by (simp add: settings_def unlimited_def)

lemma db_insert_unlimited:
  assumes "db_insert env c items db = (Inr (), db1)" and "unlimited c db"
  shows "op_insert env c items db = (Inr (), db1)" and "unlimited c db1"
proof -
  obtain r db2 where ins: "op_insert env c items db = (r, db2)" by fastforce
  have "settings db2 = settings db" using keepsD [OF settings_insert _ ins] by blast
  then have u: "unlimited c db2" using assms(2) unlimited_settings by blast
  have "db_insert env c items db = (if db_io_fault db then (Inl (db_error.StorageFault read_only_msg), db) else (r, db2))"
    using assms(2) u ins
    by (cases r) (simp_all add: db_insert_def op_bind_run check_fault_def evict_expired_def enforce_max_size_def
        renew_ttl_def unlimited_def)
  with assms(1) ins u show "op_insert env c items db = (Inr (), db1)" "unlimited c db1"
    by (simp_all split: if_splits)
qed

definition next_version :: "db \<Rightarrow> string \<Rightarrow> string \<Rightarrow> u64" where
  "next_version db c k = (case stored_doc db c k of Some old \<Rightarrow> u64_or 0 old IKEY_VERSION + 1 | None \<Rightarrow> 1)"

lemma insert_stamped:
  assumes "op_insert env c [(k, Object obj)] db = (Inr (), db1)" and "item_small (k, Object obj)"
  shows "\<exists>sq cr mo. stored_doc db1 c k =
    Some (tokenize (Object (stamped (json_u64 (next_version db c k)) (json_u64 sq) (json_u64 cr) (json_u64 mo) obj)))"
proof -
  obtain now seq where docs: "docs_of (t_state db1) = (docs_of (t_state db))
      (c := (docs_of (t_state db) c)(k \<mapsto> tokenize (item_doc now seq (docs_of (t_state db) c k) (Object obj))))"
    using op_insert_one(1) [OF assms] by blast
  show ?thesis
  proof (cases "docs_of (t_state db) c k")
    case None
    then have "item_doc now seq (docs_of (t_state db) c k) (Object obj) =
        Object (stamped (json_u64 (next_version db c k)) (json_u64 seq) (json_u64 now) (json_u64 now) obj)"
      by (simp add: item_doc_def stamp_new_def stamped_def next_version_def stored_doc_docs)
    with docs show ?thesis by (auto simp: stored_doc_docs)
  next
    case (Some old)
    then have "item_doc now seq (docs_of (t_state db) c k) (Object obj) =
        Object (stamped (json_u64 (next_version db c k)) (json_u64 (u64_or seq old IKEY_SEQ))
          (json_u64 (u64_or now old IKEY_CREATED_AT)) (json_u64 now) obj)"
      by (simp add: item_doc_def stamp_overwrite_def stamped_def next_version_def stored_doc_docs)
    with docs show ?thesis by (auto simp: stored_doc_docs)
  qed
qed

section \<open>One document out\<close>

lemma get_checked:
  assumes "validate_request print (set_payload c k obj) n m = Inr ()"
    and "length (world.json_text w (get_payload c k)) \<le> max_body_size lim"
  shows "validate_get_request w (get_payload c k) lim = Inr ()"
proof -
  have names: "validate_collection_name c = Inr ()" "validate_key_name k = Inr ()"
    using assms(1) by (simp_all add: validate_request_def set_payload_props check_data_def)
  have "validate_json_depth (get_payload c k) 32 = Inr ()"
    by (simp add: validate_json_depth_def get_payload_def check_depth.simps)
  then have "validate_request (world.json_text w) (get_payload c k) (max_body_size lim) (max_keys_per_request lim) = Inr ()"
    using names assms(2)
    by (simp add: validate_request_def get_payload_props validate_payload_size_def check_keys_def check_fields_def)
  moreover have "validate_allowed_properties (get_payload c k) GET_ALLOWED = Inr ()"
    by (simp add: validate_allowed_properties_def get_payload_def GET_ALLOWED_def)
  ultimately show ?thesis
    by (simp add: validate_get_request_def check_then_def get_payload_props payload_array_def)
qed

lemma get_one:
  assumes "validate_get_request w (get_payload c k) lim = Inr ()" and "dm_get (t_ttl_expiry db) c = None"
    and "stored_doc db c k = Some v" and "expand_system_fields v = Object view" and "map_of view VERSION = Some ver"
  shows "get_response w (get_payload c k) lim t db = (200, Object (bt_remove KEY (bt_insert KEY (String k)
    (bt_insert VERSION ver (bt_remove EXPIRES_AT (bt_remove MODIFIED_AT (bt_remove CREATED_AT (bt_remove SEQ view))))))))"
proof -
  let ?p = "get_payload c k"
  obtain params where params: "parse_get_params db t ?p = Inr params"
    and sel: "gp_col_name params = c" "gp_joins_req params = None" "gp_sort_specs params = None" "gp_where_clause params = None"
      "gp_fields_req params = None" "gp_excluded_req params = None" "gp_allowed_prefixes params = None"
    using assms(2) by (simp add: parse_get_params_def get_payload_props payload_nat_def payload_array_def get_ttl_expiry_def Let_def)
  have fetched: "fetch_documents w db (fetch_params_of ?p params) = [(k, Object view)]"
    using assms(3,4)
    by (cases "dm_get (t_state db) c") (auto simp: fetch_documents_def fetch_params_of_def get_payload_props within_prefixes_def prefix_strings_def sel
        db_get_def op_get_def stored_doc_def split: option.splits)
  have "filter_and_join_docs w db params [(k, Object view)] = Inr [(k, Object view, [])]"
    by (simp add: gate_open_def sel)
  then have "general_path w db ?p params = shape_and_return w [(k, Object view, [])] ?p params"
    by (simp add: general_path_def fetched)
  also have "\<dots> = (200, Object (bt_remove KEY (bt_insert KEY (String k)
    (bt_insert VERSION ver (bt_remove EXPIRES_AT (bt_remove MODIFIED_AT (bt_remove CREATED_AT (bt_remove SEQ view))))))))"
    by (simp add: shape_and_return_def get_payload_props shape_joined_def shape_doc_def sel strip_metadata_def put_field_def
        assms(5) Let_def)
  finally show ?thesis
    by (simp add: get_response_def assms(1) params get_payload_props)
qed


section \<open>Property\<close>

text \<open>
  C34. What a client stores it reads back: after a successful set request for one document, the read request for its key
  answers 200 with exactly the client's object, to which only the version has been added: 1 for a new document, one more
  than before for an overwrite. (The document has no \<open>extends\<close> directive and no integer-string names, and the collection has
  neither a time to live nor a size limit.)
\<close>
theorem set_then_get:
  assumes "process_set w (set_payload c k obj) lim db = (Returns (200, b), db1)"
    and "item_small (k, Object obj)" and "no_ikeys (Object obj)" and "bt_get obj ''extends'' = None"
    and "unlimited c db" and "length (world.json_text w (get_payload c k)) \<le> max_body_size lim"
  shows "fst (process_get w (get_payload c k) lim db1) =
    (200, Object (bt_insert VERSION (json_u64 (next_version db c k)) obj))"
proof -
  note set = process_set_one [OF assms(1,4)]
  have client: "client_object obj"
    using set(1) assms(2,3) by (simp add: client_object_def item_small_def doc_small_def)
  note ins = db_insert_unlimited [OF set(2) assms(5)]
  obtain sq cr mo where stored: "stored_doc db1 c k =
      Some (tokenize (Object (stamped (json_u64 (next_version db c k)) (json_u64 sq) (json_u64 cr) (json_u64 mo) obj)))"
    using insert_stamped [OF ins(1) assms(2)] by blast
  obtain view where view: "expand_system_fields (tokenize (Object (stamped (json_u64 (next_version db c k)) (json_u64 sq)
      (json_u64 cr) (json_u64 mo) obj))) = Object view" "bt_ok view"
    "set view = {(SEQ, json_u64 sq), (MODIFIED_AT, json_u64 mo), (CREATED_AT, json_u64 cr),
      (VERSION, json_u64 (next_version db c k))} \<union> set obj"
    using stamped_view [OF client] by blast
  note cv = client_view [OF client view(2,3)]
  have "dm_get (t_ttl_expiry db1) c = None" using ins(2) by (simp add: unlimited_def)
  from get_one [OF get_checked [OF set(3) assms(6)] this stored view(1) cv(1)]
  show ?thesis by (simp add: process_get_def cv(2))
qed

theorem set_then_get_witness:
  "fst (process_get demo_world (get_payload ''c'' ''k'') (app_limits demo_app) demo_db1) =
     (200, Object (bt_insert VERSION (json_u64 1) [(''a'', Null)]))"
proof -
  have valid: "validate_allowed_properties (set_payload ''c'' ''k'' [(''a'', Null)]) SET_ALLOWED = Inr ()"
    "validate_request (world.json_text demo_world) (set_payload ''c'' ''k'' [(''a'', Null)])
      (max_body_size (app_limits demo_app)) (max_keys_per_request (app_limits demo_app)) = Inr ()"
    by (code_simp, code_simp)
  have core: "core demo_world = demo_env" by (simp add: demo_world_def)
  have "process_set demo_world (set_payload ''c'' ''k'' [(''a'', Null)]) (app_limits demo_app) demo_db =
      (Returns (200, snd (set_success (Inserted 1))), demo_db1)"
    unfolding process_set_def run_handler_def op_bind_run checked_run valid set_payload_props Let_def
    by (simp add: op_return_def op_bind_run resolve_item_def resolve_extends_def has_reserved_def reserved_key_def
        db_insert_items_def db_call_def core demo_insert ok_body_def set_ttl_property_def set_max_size_property_def)
  moreover have "item_small (''k'', Object [(''a'', Null)])" using demo_names(3) by simp
  moreover have "no_ikeys (Object [(''a'', Null)])" by (simp add: expand_key_def)
  moreover have "unlimited ''c'' demo_db" using demo_db_sel by (simp add: unlimited_def)
  moreover have "next_version demo_db ''c'' ''k'' = 1"
    using demo_db_sel(6) by (simp add: next_version_def stored_doc_docs)
  ultimately show ?thesis
    using set_then_get [of demo_world "''c''" "''k''" "[(''a'', Null)]" "app_limits demo_app" demo_db _ demo_db1]
    by (simp add: demo_world_def)
qed

end
