(* ===== verification/Feed.thy ===== *)
theory Feed
  imports Auth Operations
begin

text \<open>
  The change feed over a web socket (\<open>ws.rs\<close>): authentication by the first frame, the task that
  forwards the engine's change events, the one that reads and ignores the client's frames, and the
  periodic look into the revocation store.
\<close>

section \<open>Messages\<close>

text \<open>
  A frame of the client: text, any other kind (binary, ping, pong, close), or an error or the end
  of the stream.
\<close>

datatype client_frame = TextFrame string | OtherFrame | NoFrame

definition in_quotes :: "string \<Rightarrow> string" where
  "in_quotes s = CHR 0x22 # s @ [CHR 0x22]"

definition escaped_quotes :: "string \<Rightarrow> string" where
  "escaped_quotes s = [CHR 0x5C, CHR 0x22] @ s @ [CHR 0x5C, CHR 0x22]"

definition feed_error :: "string \<Rightarrow> string \<Rightarrow> string" where
  "feed_error err detail =
     ''{'' @ in_quotes ''error'' @ '':'' @ in_quotes err @ '','' @ in_quotes ''detail'' @ '':'' @ in_quotes detail @ ''}''"

definition auth_frame_text :: string where
  "auth_frame_text = ''{'' @ escaped_quotes ''action'' @ '':'' @ escaped_quotes ''AUTH'' @ '','' @
     escaped_quotes ''token'' @ '':'' @ escaped_quotes ''<jwt>'' @ ''}''"

definition feed_greeting :: string where
  "feed_greeting =
     ''{'' @ in_quotes ''status'' @ '':'' @ in_quotes ''authenticated'' @ '','' @ in_quotes ''message'' @ '':'' @
     in_quotes (''Connected to MoltenDB real-time feed. Use HTTP endpoints for CRUD. Send {'' @
       escaped_quotes ''action'' @ '':'' @ escaped_quotes ''SUBSCRIBE'' @ '','' @ escaped_quotes ''collection'' @ '':'' @
       escaped_quotes ''<name>'' @ ''} to register interest.'') @ ''}''"

definition revoked_notice :: string where
  "revoked_notice = feed_error ''token_revoked'' ''Your token has been revoked. The connection is being closed.''"

section \<open>The first frame\<close>

definition feed_auth :: "auth_env \<Rightarrow> u64 \<Rightarrow> revocations \<Rightarrow> client_frame \<Rightarrow> string + claims" where
  "feed_auth ae now store frame =
     (case frame of
        TextFrame text \<Rightarrow>
          (case json_parse ae text of
             None \<Rightarrow> Inl (feed_error ''invalid_message'' (''Could not parse JSON. Expected '' @ auth_frame_text))
           | Some payload \<Rightarrow>
             (if Option.bind (vget payload ''action'') as_str \<noteq> Some ''AUTH'' then
                Inl (feed_error ''invalid_action'' (''First message must have '' @ escaped_quotes ''action'' @ '':'' @
                  escaped_quotes ''AUTH'' @ ''. Use HTTP endpoints for CRUD operations.''))
              else case Option.bind (vget payload ''token'') as_str of
                Some token \<Rightarrow>
                  (case verify_token ae now token of
                     Inl _ \<Rightarrow> Inl (feed_error ''invalid_token''
                       ''JWT verification failed. The token may be expired, malformed, or signed with the wrong secret.'')
                   | Inr cl \<Rightarrow>
                       (if is_revoked (jti cl) store then
                          Inl (feed_error ''token_revoked'' ''This token has been revoked. Mint a new token via POST /auth/tokens.'')
                        else Inr cl))
              | None \<Rightarrow>
                  Inl (feed_error ''missing_token'' (''AUTH message is missing the '' @ escaped_quotes ''token'' @
                    '' field. Expected '' @ auth_frame_text))))
      | _ \<Rightarrow> Inl (feed_error ''invalid_message'' (''First message must be a text frame containing '' @ auth_frame_text)))"

section \<open>The connection\<close>

text \<open>What was sent to the client, and the claims while the connection is open.\<close>

record feed_state =
  fd_sent :: "string list"
  fd_claims :: "claims option"

definition open_feed :: "string + claims \<Rightarrow> feed_state" where
  "open_feed r =
     (case r of
        Inl msg \<Rightarrow> \<lparr>fd_sent = [msg], fd_claims = None\<rparr>
      | Inr cl \<Rightarrow> \<lparr>fd_sent = [feed_greeting], fd_claims = Some cl\<rparr>)"

text \<open>
  What the two tasks wait for: a tick of the timer, with the store at that moment; a broadcast
  message, and whether the client takes it; a warning that messages were missed; the end of the
  broadcast; a frame of the client.
\<close>

datatype feed_event =
    Tick revocations
  | Broadcast string bool
  | Lagged nat
  | BroadcastClosed
  | Frame client_frame

definition feed_allows :: "auth_env \<Rightarrow> claims \<Rightarrow> string \<Rightarrow> bool" where
  "feed_allows ae cl msg \<longleftrightarrow>
     (case json_parse ae msg of
        Some event \<Rightarrow>
          (case Option.bind (vget event ''collection'') as_str of
             Some collection \<Rightarrow> has_collection_access cl ''read'' collection
           | None \<Rightarrow> False)
      | None \<Rightarrow> False)"

definition close_feed :: "feed_state \<Rightarrow> feed_state" where
  "close_feed s = s\<lparr>fd_claims := None\<rparr>"

definition feed_push :: "string \<Rightarrow> feed_state \<Rightarrow> feed_state" where
  "feed_push msg s = s\<lparr>fd_sent := fd_sent s @ [msg]\<rparr>"

fun feed_turn :: "auth_env \<Rightarrow> claims \<Rightarrow> feed_event \<Rightarrow> feed_state \<Rightarrow> feed_state" where
  "feed_turn ae cl (Tick store) s =
     (if is_revoked (jti cl) store then close_feed (feed_push revoked_notice s) else s)"
| "feed_turn ae cl (Broadcast msg taken) s =
     (if feed_allows ae cl msg then (if taken then feed_push msg s else close_feed s) else s)"
| "feed_turn ae cl (Lagged n) s = s"
| "feed_turn ae cl BroadcastClosed s = close_feed s"
| "feed_turn ae cl (Frame (TextFrame text)) s = s"
| "feed_turn ae cl (Frame _) s = close_feed s"

definition feed_step :: "auth_env \<Rightarrow> feed_event \<Rightarrow> feed_state \<Rightarrow> feed_state" where
  "feed_step ae v s = (case fd_claims s of Some cl \<Rightarrow> feed_turn ae cl v s | None \<Rightarrow> s)"

definition handle_socket :: "auth_env \<Rightarrow> u64 \<Rightarrow> revocations \<Rightarrow> client_frame \<Rightarrow> feed_event list \<Rightarrow> feed_state" where
  "handle_socket ae now store first vs = fold (feed_step ae) vs (open_feed (feed_auth ae now store first))"

section \<open>What a client sees\<close>

fun broadcast_of :: "feed_event \<Rightarrow> string list" where
  "broadcast_of (Broadcast msg taken) = [msg]"
| "broadcast_of _ = []"

definition broadcasts :: "feed_event list \<Rightarrow> string list" where
  "broadcasts vs = concat (map broadcast_of vs)"

lemma feed_step_closed [simp]: "fd_claims s = None \<Longrightarrow> feed_step ae v s = s"
  by (simp add: feed_step_def)

lemma feed_closed [simp]: "fd_claims s = None \<Longrightarrow> fold (feed_step ae) vs s = s"
  by (induction vs) simp_all

lemma feed_step_open:
  assumes "fd_claims s = Some cl" and "fd_claims (feed_step ae v s) = Some cl'"
  shows "cl' = cl" and "fd_sent (feed_step ae v s) = fd_sent s @ filter (feed_allows ae cl) (broadcast_of v)"
proof -
  have "fd_claims (feed_turn ae cl v s) = Some cl'" using assms by (simp add: feed_step_def)
  then have "cl' = cl \<and> fd_sent (feed_turn ae cl v s) = fd_sent s @ filter (feed_allows ae cl) (broadcast_of v)"
    using assms(1)
    by (cases "(ae, cl, v, s)" rule: feed_turn.cases) (auto simp: close_feed_def feed_push_def split: if_splits)
  then show "cl' = cl" "fd_sent (feed_step ae v s) = fd_sent s @ filter (feed_allows ae cl) (broadcast_of v)"
    using assms(1) by (simp_all add: feed_step_def)
qed

lemma feed_run_open:
  assumes "fd_claims s = Some cl" and "fd_claims (fold (feed_step ae) vs s) = Some cl'"
  shows "fd_sent (fold (feed_step ae) vs s) = fd_sent s @ filter (feed_allows ae cl) (broadcasts vs)"
  using assms
proof (induction vs arbitrary: s)
  case Nil
  then show ?case by (simp add: broadcasts_def)
next
  case (Cons v vs)
  show ?case
  proof (cases "fd_claims (feed_step ae v s)")
    case None
    then show ?thesis using Cons.prems(2) by simp
  next
    case (Some cl1)
    then have "cl1 = cl" using feed_step_open(1) [OF Cons.prems(1)] by blast
    then show ?thesis
      using Cons.IH [of "feed_step ae v s"] Cons.prems Some feed_step_open(2) [OF Cons.prems(1)]
      by (simp add: broadcasts_def)
  qed
qed

text \<open>An event that names its collection is forwarded exactly to tokens that may read all of it.\<close>

definition event_of :: "string \<Rightarrow> json \<Rightarrow> bool" where
  "event_of c ev \<longleftrightarrow> wf_value ev \<and> vget ev ''collection'' = Some (String c)"

lemma feed_allows_event:
  assumes "text_ok ae" and "event_of c ev"
  shows "feed_allows ae cl (json_text ae ev) \<longleftrightarrow> has_collection_access cl ''read'' c"
  using assms by (simp add: feed_allows_def text_ok_def event_of_def)


lemma change_event_event:
  assumes "str_ok c" and "str_ok k" and "wf_value v"
  shows "event_of c (change_event c k v)"
proof -
  have "str_ok ''event''" "str_ok ''change''" "str_ok ''collection''" "str_ok ''key''" "str_ok ''new_v''"
    by (simp_all add: str_ok_def bytes_of_def)
  then show ?thesis
    using assms by (simp add: event_of_def change_event_def of_entries_def)
qed

lemma insert_event_event:
  assumes "str_ok c" and "str_ok k"
  shows "event_of c (insert_event c k v)"
proof -
  have "str_ok ''event''" "str_ok ''change''" "str_ok ''collection''" "str_ok ''key''" "str_ok ''new_v''"
    "str_ok ''expires_at_ms''"
    by (simp_all add: str_ok_def bytes_of_def)
  then show ?thesis
    using assms by (auto simp: event_of_def insert_event_def change_event_def of_entries_def split: option.splits)
qed

text \<open>
  C36. The feed is exact. While a connection is open its client has been sent the greeting and then,
  in order, exactly those of the events its receiver delivered that name a collection its token may read as a
  whole. Events that the receiver has lost because it lagged are not delivered, and the client is not told of them.
\<close>

theorem feed_exact:
  assumes "text_ok ae" and "feed_auth ae now store first = Inr cl"
    and "broadcasts vs = map (\<lambda>(c, ev). json_text ae ev) chs" and "list_all (\<lambda>(c, ev). event_of c ev) chs"
    and "fd_claims (handle_socket ae now store first vs) \<noteq> None"
  shows "fd_sent (handle_socket ae now store first vs) =
    feed_greeting # map (\<lambda>(c, ev). json_text ae ev) (filter (\<lambda>(c, ev). has_collection_access cl ''read'' c) chs)"
proof -
  let ?s = "\<lparr>fd_sent = [feed_greeting], fd_claims = Some cl\<rparr>"
  have start: "handle_socket ae now store first vs = fold (feed_step ae) vs ?s"
    using assms(2) by (simp add: handle_socket_def open_feed_def)
  obtain cl' where "fd_claims (fold (feed_step ae) vs ?s) = Some cl'" using assms(5) start by auto
  then have "fd_sent (fold (feed_step ae) vs ?s) = feed_greeting # filter (feed_allows ae cl) (broadcasts vs)"
    using feed_run_open [of ?s cl ae vs cl'] by simp
  moreover have "filter (feed_allows ae cl) (map (\<lambda>(c, ev). json_text ae ev) chs) =
      map (\<lambda>(c, ev). json_text ae ev) (filter (\<lambda>(c, ev). has_collection_access cl ''read'' c) chs)"
    using assms(4) by (induction chs) (auto simp: feed_allows_event [OF assms(1)])
  ultimately show ?thesis by (simp add: start assms(3))
qed

text \<open>A tick that finds the token revoked says so and ends the connection for good.\<close>

lemma revoked_feed_closes:
  assumes "fd_claims s = Some cl" and "is_revoked (jti cl) store"
  shows "fold (feed_step ae) (Tick store # vs) s = \<lparr>fd_sent = fd_sent s @ [revoked_notice], fd_claims = None\<rparr>"
  using assms by (simp add: feed_step_def close_feed_def feed_push_def)

text \<open>A frame that is not text, a ping among them, ends the connection.\<close>

lemma ping_closes: "fd_claims (feed_step ae (Frame OtherFrame) s) = None"
  by (simp add: feed_step_def close_feed_def split: option.splits)

text \<open>A token without an identifier, which the HTTP middleware refuses, is let in.\<close>

lemma feed_accepts_without_jti:
  assumes "json_parse ae text = Some payload" and "vget payload ''action'' = Some (String ''AUTH'')"
    and "vget payload ''token'' = Some (String token)"
    and "verify_token ae now token = Inr cl" and "jti cl = []" and "\<not> is_revoked [] store"
  shows "feed_auth ae now store (TextFrame text) = Inr cl"
    and "auth_middleware ae now (Some (''Bearer '' @ token)) (Some store) =
      Inl (Unauthorized ''Token missing required jti claim'')"
  using assms by (simp_all add: feed_auth_def auth_middleware_def starts_with_def)

section \<open>An example\<close>

abbreviation demo_reader :: claims where
  "demo_reader \<equiv> \<lparr>sub = ''u'', exp_at = 100, scopes = [''read:a:*''], jti = ''j''\<rparr>"

definition demo_first :: client_frame where
  "demo_first = TextFrame (json_text demo_auth
     (Object [(''action'', String ''AUTH''), (''token'', String (enc_token demo_reader))]))"

lemma demo_feed_auth: "feed_auth demo_auth 5 [] demo_first = Inr demo_reader"
proof -
  have "verify_token demo_auth 5 (enc_token demo_reader) = Inr demo_reader"
    by (simp add: verify_token_def demo_auth_def dec_token_def enc_token_def)
  moreover have "json_parse demo_auth (json_text demo_auth v) = Some v" for v by (simp add: demo_auth_def)
  ultimately show ?thesis by (simp add: feed_auth_def demo_first_def is_revoked_def)
qed

theorem feed_exact_witness:
  "fd_sent (handle_socket demo_auth 5 [] demo_first
      [Broadcast (json_text demo_auth (change_event ''b'' ''k'' Null)) True,
       Broadcast (json_text demo_auth (change_event ''a'' ''k'' Null)) True]) =
    [feed_greeting, json_text demo_auth (change_event ''a'' ''k'' Null)]"
proof -
  let ?a = "change_event ''a'' ''k'' Null" and ?b = "change_event ''b'' ''k'' Null"
  let ?vs = "[Broadcast (json_text demo_auth ?b) True, Broadcast (json_text demo_auth ?a) True]"
  have "str_ok ''a''" "str_ok ''b''" "str_ok ''k''" by (simp_all add: str_ok_def bytes_of_def)
  then have ev: "event_of ''b'' ?b" "event_of ''a'' ?a" by (simp_all add: change_event_event)
  have scope: "has_collection_access demo_reader ''read'' ''a''" "\<not> has_collection_access demo_reader ''read'' ''b''"
    by code_simp+
  have opened: "fd_claims (handle_socket demo_auth 5 [] demo_first ?vs) \<noteq> None"
    by (simp add: handle_socket_def demo_feed_auth open_feed_def feed_step_def feed_push_def)
  have "broadcasts ?vs = map (\<lambda>(c, ev). json_text demo_auth ev) [(''b'', ?b), (''a'', ?a)]"
    by (simp add: broadcasts_def)
  from feed_exact [OF demo_auth_ok(2) demo_feed_auth this _ opened] ev scope show ?thesis by simp
qed

end
