(* ===== verification/Browser.thy ===== *)
theory Browser
  imports Handlers Recovery
begin

text \<open>
  The browser build: opening a database on the origin's private file (\<open>engine/open_wasm.rs\<close>) and the
  message handlers of the worker (\<open>moltendb-wasm/src/lib.rs\<close>), but for \<open>get\<close>, whose scans differ
  from the native ones. The conversion between the values of the two languages is left out.
\<close>

section \<open>Opening\<close>

text \<open>
  \<open>OpfsStorage::new\<close>: the browser gives out the file, or one of the steps to it failed.
\<close>

definition opfs_new :: "bytes option \<Rightarrow> bool \<Rightarrow> (nat \<Rightarrow> u64) \<Rightarrow> browser_io list \<Rightarrow> browser_io list \<Rightarrow> db_error + opfs" where
  "opfs_new access sync_mode clk ios reads =
     (case access of
        None \<Rightarrow> Inl WriteError
      | Some content \<Rightarrow>
          Inr \<lparr>of_file = content, of_open = True, of_sync = sync_mode, of_clock = clk, of_ticks = 0,
            of_io = ios, of_reads = reads\<rparr>)"

text \<open>The storage the configuration selects.\<close>

definition worker_storage :: "bool \<Rightarrow> cipher option \<Rightarrow> db_error + opfs \<Rightarrow> db_error + storage" where
  "worker_storage in_memory encryption opened =
     (if in_memory then Inr InMemoryStorage
      else case opened of
             Inl err \<Rightarrow> Inl err
           | Inr h \<Rightarrow> Inr (case encryption of Some c \<Rightarrow> EncryptedStorage c 0 (OpfsStorage h) | None \<Rightarrow> OpfsStorage h))"

text \<open>After the replay, collections that expired meanwhile are dropped; errors are ignored.\<close>

definition drop_expired :: "env \<Rightarrow> u64 \<Rightarrow> db \<Rightarrow> db" where
  "drop_expired env now db =
     fold (\<lambda>(col, expires_at) db. if expires_at \<le> now then snd (db_delete_collection env col db) else db)
       (all_ttl_expiries db) db"

definition open_wasm :: "env \<Rightarrow> nat \<Rightarrow> db_error + storage \<Rightarrow> db_error + db" where
  "open_wasm env tick selected =
     (case selected of
        Inl err \<Rightarrow> Inl err
      | Inr st \<Rightarrow>
          (case db_open env tick st of
             Inl err \<Rightarrow> Inl err
           | Inr db \<Rightarrow>
               (case now_unix_ms env db of
                  (Inl err, db1) \<Rightarrow> Inl err
                | (Inr now, db1) \<Rightarrow> Inr (drop_expired env now db1))))"

section \<open>Messages to the worker\<close>

text \<open>An exception carries a value too.\<close>

type_synonym worker_result = "(json + json) outcome \<times> db"

definition with_status :: "nat \<Rightarrow> json \<Rightarrow> json" where
  "with_status code body =
     (case body of
        Object obj \<Rightarrow> Object (bt_insert ''statusCode'' (json_u64 (word_of_nat code)) obj)
      | v \<Rightarrow> v)"

definition worker_reply :: "response outcome \<times> db \<Rightarrow> worker_result" where
  "worker_reply r =
     (case r of
        (Returns (code, body), db) \<Rightarrow>
          (Returns (if 400 \<le> code then Inl (with_status code body) else Inr (with_status code body)), db)
      | (Aborts, db) \<Rightarrow> (Aborts, db))"

definition worker_set :: "world \<Rightarrow> limits \<Rightarrow> json \<Rightarrow> db \<Rightarrow> worker_result" where
  "worker_set w lim request db = worker_reply (process_set w request lim db)"

definition worker_update :: "world \<Rightarrow> limits \<Rightarrow> json \<Rightarrow> db \<Rightarrow> worker_result" where
  "worker_update w lim request db = worker_reply (process_update w request lim db)"

definition worker_delete :: "world \<Rightarrow> limits \<Rightarrow> json \<Rightarrow> db \<Rightarrow> worker_result" where
  "worker_delete w lim request db = worker_reply (process_delete w request lim db)"

definition worker_stats :: "world \<Rightarrow> json \<Rightarrow> db \<Rightarrow> worker_result" where
  "worker_stats w request db = worker_reply (process_stats w request db)"

definition status_body :: "string \<Rightarrow> json" where
  "status_body s = Object (of_entries [(''status'', String s)])"

definition handle_compact :: "env \<Rightarrow> db \<Rightarrow> worker_result" where
  "handle_compact env db =
     (case db_compact env db of
        (Inl e, db') \<Rightarrow> (if e = Aborted then Aborts else Returns (Inl (String (db_error_text e))), db')
      | (Inr _, db') \<Rightarrow> (Returns (Inr (status_body ''compacted'')), db'))"

definition handle_clear :: "db \<Rightarrow> worker_result" where
  "handle_clear db = (Returns (Inr (status_body ''cleared'')), clear_all db)"

definition handle_clear_opfs :: "db \<Rightarrow> worker_result" where
  "handle_clear_opfs db =
     (case clear_opfs (db_storage db) of
        (Inl e, st) \<Rightarrow> (Returns (Inl (String (db_error_text e))), db\<lparr>db_storage := st\<rparr>)
      | (Inr _, st) \<Rightarrow> (Returns (Inr (status_body ''opfs_cleared'')), clear_all (db\<lparr>db_storage := st\<rparr>)))"

section \<open>The browser's file keeps what was acknowledged\<close>

text \<open>A new database in the browser satisfies the invariant that every acknowledged operation keeps.\<close>

lemma fresh_browser_db_ok:
  assumes "opfs_new (Some []) sync_mode clk ios [] = Inr h" and "list_all (\<lambda>i. \<not> is_short i) ios"
  shows "db_ok env (fresh_db (OpfsStorage h) (empty_tables n))"
proof -
  have "opfs_logs h []" using assms by (auto simp: opfs_new_def opfs_logs_def honest_def)
  then have l: "logs env (OpfsStorage h) []" by auto
  show ?thesis
    unfolding db_ok_def consistent_def
    by (intro conjI exI [of _ "[]"]) (use l in \<open>auto simp: replay_tables_def replay_start_def empty_tables_def
        tables_ok_def state_ok_def schemas_ok_def names_indexed_def fresh_db_def tables.extend_def docs_of_def fun_eq_iff\<close>)
qed

text \<open>
  Wiping works on a plain database: the answer says so, memory is empty, the file is empty and
  closed.
\<close>

lemma clear_opfs_wipes:
  assumes "db_storage db = OpfsStorage h" and "of_open h" and "opfs_fine h"
  shows "\<exists>h'. handle_clear_opfs db = (Returns (Inr (status_body ''opfs_cleared'')),
      clear_all (db\<lparr>db_storage := OpfsStorage h'\<rparr>)) \<and> of_file h' = [] \<and> \<not> of_open h'"
proof -
  let ?h1 = "h\<lparr>of_io := tl (of_io h), of_file := []\<rparr>"
  have "opfs_fine ?h1" using opfs_call_fine(2) [OF assms(3)] by (simp add: opfs_fine_def)
  then have "truncate_and_close h = (Inr (), ?h1\<lparr>of_io := tl (of_io ?h1), of_open := False\<rparr>)"
    using opfs_call_fine(1) [OF assms(3)] opfs_call_fine(1) [of ?h1] assms(2)
    by (simp add: truncate_and_close_def with_handle_def opfs_truncate_def op_bind_def)
  then show ?thesis
    using assms(1) by (intro exI [of _ "?h1\<lparr>of_io := tl (of_io ?h1), of_open := False\<rparr>"]) (simp add: handle_clear_opfs_def)
qed

text \<open>
  It does not on an encrypted one: the wrapper inherits the default of the trait, which does
  nothing, so the answer is the same, but the next start finds every document again.
\<close>

lemma encrypted_clear_comes_back:
  assumes "env_ok env" and "db_ok env db" and "db_storage db = EncryptedStorage c n inner"
  shows "\<exists>db' db''. handle_clear_opfs db = (Returns (Inr (status_body ''opfs_cleared'')), db') \<and>
    db_open env tick (db_storage db') = Inr db'' \<and> (\<forall>col k. stored_doc db'' col k = stored_doc db col k)"
proof -
  have "consistent env db" using assms(2) by (simp add: db_ok_def)
  from reopen_consistent [OF assms(1) this]
  obtain db'' where "db_open env tick (db_storage db) = Inr db''" "docs_of (t_state db'') = docs_of (t_state db)"
    by blast
  then show ?thesis
    using assms(3) by (auto simp: handle_clear_opfs_def clear_all_def stored_doc_docs)
qed

text \<open>
  Compaction is not atomic: the file is emptied before the new records are written. When the first
  write throws, the documents are in memory only, and a restart finds none.
\<close>

lemma browser_compaction_not_atomic:
  assumes "of_open h" and "of_io h = [Completes, Throws 0]" and "of_reads h = []"
    and "opfs_entries (of_clock h) (of_ticks h) st sc \<noteq> []"
  shows "\<exists>h'. compact_from_maps env st sc (OpfsStorage h) = (Inl WriteError, OpfsStorage h') \<and>
    stream_into_state env (OpfsStorage h') t = (Inr 0, t)"
proof -
  let ?es = "opfs_entries (of_clock h) (of_ticks h) st sc"
  let ?h1 = "h\<lparr>of_io := [Throws 0], of_file := [], of_ticks := of_ticks h + length ?es\<rparr>"
  have w: "write_records es n buf s = (Inl WriteError, s\<lparr>of_io := []\<rparr>)"
    if "of_io s = [Throws 0]" "of_file s = []" "es \<noteq> [] \<or> buf \<noteq> []" for es n buf s
    using that
  proof (induction es arbitrary: buf)
    case Nil
    then show ?case
      by (auto simp: write_buffer_def op_bind_def opfs_write_at_def next_answer_def bytes_at_def)
  next
    case (Cons e es)
    have ne: "buf @ write_msgpack_entry e \<noteq> []"
      by (simp add: write_msgpack_entry_def Let_def log_entry_to_msgpack_def)
    then have "write_buffer n (buf @ write_msgpack_entry e) s = (Inl WriteError, s\<lparr>of_io := []\<rparr>)"
      using Cons.prems(1,2)
      by (auto simp: write_buffer_def op_bind_def opfs_write_at_def next_answer_def bytes_at_def)
    then show ?case
      using Cons.IH [of "buf @ write_msgpack_entry e"] Cons.prems(1,2) ne
      by (auto simp: op_bind_def write_msgpack_entry_def Let_def)
  qed
  have "do_compact st sc h = (Inl WriteError, ?h1\<lparr>of_io := []\<rparr>)"
    using assms w [of ?h1 ?es "[]" 0]
    by (simp add: do_compact_def with_handle_def opfs_truncate_def op_bind_def opfs_call_def next_answer_def Let_def)
  moreover have "stream_into_state env (OpfsStorage (?h1\<lparr>of_io := []\<rparr>)) t = (Inr 0, t)"
    using assms(1,3)
    by (simp add: stream_into_state_def stream_log_into_def opfs_stream_def replay_start_def)
  ultimately show ?thesis by (intro exI [of _ "?h1\<lparr>of_io := []\<rparr>"]) simp
qed

text \<open>A write of which the browser took only a part is acknowledged all the same.\<close>

lemma short_write_acknowledged:
  assumes "of_open h" and "of_io h = [Completes, Short k]" and "\<not> of_sync h"
  shows "\<exists>h'. write_entry e (OpfsStorage h) = (Inr (), OpfsStorage h') \<and>
    of_file h' = of_file h @ take k (write_msgpack_entry e)"
  using assms
  by (simp add: opfs_write_entry_def with_handle_def op_bind_def opfs_call_def opfs_write_at_def next_answer_def
      write_msgpack_entry_def Let_def)

end
