(* ===== verification/SeqIndex.thy ===== *)
theory SeqIndex
  imports Operations Coalesce
begin

text \<open>
  The sequence index of a running database (\<open>seq_index\<close> and \<open>seq_counters\<close> of \<open>engine/mod.rs\<close>): every
  operation, failed ones included, keeps it in step with the documents, and so does a restart.
  This discharges what the theory Coalesce asks of a collection.
\<close>

section \<open>Numbered documents\<close>

text \<open>The bytes of a document that has its sequence number under the stored name only.\<close>

definition numbered :: "u64 \<Rightarrow> bytes \<Rightarrow> bool" where
  "numbered n b \<longleftrightarrow> (\<exists>m. doc_ok (Object m) \<and> b = value_to_msgpack (Object m) \<and>
     bt_get m SEQ = None \<and> bt_get m IKEY_SEQ = Some (json_u64 n))"

lemma tokenized_names: "bt_get (of_entries (map (\<lambda>(k, v). (ikey_of k, tokenize v)) m)) k \<noteq> None \<Longrightarrow> ikey_of k = k"
proof -
  assume "bt_get (of_entries (map (\<lambda>(k, v). (ikey_of k, tokenize v)) m)) k \<noteq> None"
  then obtain k0 v where "k = ikey_of k0" by (auto simp: map_of_of_entries dest!: map_of_SomeD)
  then show ?thesis by (simp add: ikey_of_def)
qed

lemma numbered_decode:
  assumes "numbered n b"
  obtains m where "msgpack_to_value b = Some (Object m)"
    and "\<And>k. bt_get m k \<noteq> None \<Longrightarrow> ikey_of k = k" and "bt_get m IKEY_SEQ = Some (json_u64 n)"
proof -
  obtain m0 where m0: "doc_ok (Object m0)" "b = value_to_msgpack (Object m0)"
    "bt_get m0 SEQ = None" "bt_get m0 IKEY_SEQ = Some (json_u64 n)"
    using assms by (auto simp: numbered_def)
  then have "bt_ok m0" by (simp add: doc_ok_def)
  let ?m = "of_entries (map (\<lambda>(k, v). (ikey_of k, tokenize v)) m0)"
  have "msgpack_to_value b = Some (Object ?m)" using m0(1) by (simp add: m0(2))
  moreover have "bt_get ?m IKEY_SEQ = Some (json_u64 n)"
    using stored_fields(2) [OF \<open>bt_ok m0\<close>] m0(3,4) by simp
  ultimately show ?thesis using that tokenized_names by blast
qed

lemma numbered_unique: "numbered n b \<Longrightarrow> numbered n' b \<Longrightarrow> n = n'"
  by (elim numbered_decode) (auto simp: json_u64_def)

lemma numbered_seq:
  assumes "numbered n b" and "skips_values skip"
  shows "read_msgpack_seq_token skip b = Returns n"
proof -
  obtain m where m: "doc_ok (Object m)" "b = value_to_msgpack (Object m)"
    "bt_get m SEQ = None" "bt_get m IKEY_SEQ = Some (json_u64 n)"
    using assms(1) by (auto simp: numbered_def)
  then have "bt_ok m" by (simp add: doc_ok_def)
  then show ?thesis
    using read_seq_written [OF assms(2) m(1)] m(2,4) by (simp add: raw_seq_def raw_field_ikey(2))
qed

lemma numbered_small:
  "doc_small (2 ^ 29) (Object m) \<Longrightarrow> bt_get m SEQ = None \<Longrightarrow> bt_get m IKEY_SEQ = Some (json_u64 n) \<Longrightarrow>
    numbered n (value_to_msgpack (Object m))"
  unfolding numbered_def using doc_small_ok [of "2 ^ 29" "Object m"] by fastforce

section \<open>A collection and its index\<close>

definition indexed :: "collection \<Rightarrow> (u64, string) btreemap \<Rightarrow> u64 \<Rightarrow> bool" where
  "indexed col idx nx \<longleftrightarrow> dm_ok col \<and> bt_ok idx \<and>
     (\<forall>k b. dm_get col k = Some b \<longrightarrow> (\<exists>n. numbered n b \<and> bt_get idx n = Some k)) \<and>
     (\<forall>n k. bt_get idx n = Some k \<longrightarrow> n < nx \<and> (\<exists>b. dm_get col k = Some b \<and> numbered n b))"

lemma indexed_Nil [simp]: "indexed [] [] nx"
  by (simp add: indexed_def)

lemma indexed_number:
  assumes "indexed col idx nx" and "dm_get col k = Some b"
  obtains n where "numbered n b" and "bt_get idx n = Some k" and "n < nx"
  using assms unfolding indexed_def by metis






section \<open>The invariant and the operations\<close>

definition index_of :: "db \<Rightarrow> string \<Rightarrow> (u64, string) btreemap" where
  "index_of db c = (case dm_get (db_seq_index db) c of Some idx \<Rightarrow> idx | None \<Rightarrow> [])"

definition in_step :: "db \<Rightarrow> bool" where
  "in_step db \<longleftrightarrow> (\<forall>c. indexed (col_of (t_state db) c) (index_of db c) (counter_of db c))"

lemma col_of_update [simp]:
  "col_of (dm_insert c col st) c' = (if c' = c then col else col_of st c')"
  "col_of (dm_remove c st) c' = (if c' = c then [] else col_of st c')"
  by (simp_all add: col_of_def)

lemma in_step_frame:
  "t_state db' = t_state db \<Longrightarrow> db_seq_index db' = db_seq_index db \<Longrightarrow> db_seq_counters db' = db_seq_counters db \<Longrightarrow>
    in_step db' = in_step db"
  by (simp add: in_step_def index_of_def counter_of_def)

lemma in_step_updates [simp]:
  "in_step (db\<lparr>t_ticks := t\<rparr>) = in_step db" "in_step (db\<lparr>t_ttl_expiry := x\<rparr>) = in_step db"
  "in_step (db\<lparr>t_schemas := sc\<rparr>) = in_step db" "in_step (db\<lparr>db_storage := st\<rparr>) = in_step db"
  "in_step (db\<lparr>db_tx := evs\<rparr>) = in_step db" "in_step (db\<lparr>db_max_sizes := ms\<rparr>) = in_step db"
  "in_step (db\<lparr>db_ttl_defaults := x\<rparr>) = in_step db"
  by (rule in_step_frame; simp)+


lemma log_write_index:
  "log_write env cmd c k v db = (r, db') \<Longrightarrow> db_seq_index db' = db_seq_index db"
  "log_write env cmd c k v db = (r, db') \<Longrightarrow> db_seq_counters db' = db_seq_counters db"
  by (auto simp: log_write_def op_bind_def now_unix_ms_def split: prod.splits)




subsection \<open>Insert\<close>

text \<open>What a client may store: an object without the public name of the sequence number.\<close>

definition unnumbered :: "json \<Rightarrow> bool" where
  "unnumbered v = (case v of Object obj \<Rightarrow> bt_get obj SEQ = None | _ \<Rightarrow> False)"

lemma item_doc_numbered:
  assumes "unnumbered v" and "doc_small (2 ^ 28) v"
    and "n = (case old of Some ex \<Rightarrow> u64_or seq ex IKEY_SEQ | None \<Rightarrow> seq)"
  shows "numbered n (value_to_msgpack (item_doc now seq old v))" and "u64_or seq (item_doc now seq old v) IKEY_SEQ = n"
proof -
  obtain obj where obj: "v = Object obj" "bt_get obj SEQ = None"
    using assms(1) by (auto simp: unnumbered_def split: json.splits)
  let ?m = "case old of Some ex \<Rightarrow> stamp_overwrite now seq ex obj | None \<Rightarrow> stamp_new now seq obj"
  have d: "item_doc now seq old v = Object ?m" by (simp add: item_doc_def obj)
  have f: "bt_get ?m SEQ = None" "bt_get ?m IKEY_SEQ = Some (json_u64 n)"
    using obj(2) assms(3) by (simp_all add: stamp_overwrite_def stamp_new_def split: option.split)
  show "numbered n (value_to_msgpack (item_doc now seq old v))"
    using numbered_small [OF _ f] item_doc_small [OF assms(2), of now seq old] unfolding d by blast
  show "u64_or seq (item_doc now seq old v) IKEY_SEQ = n"
    using f(2) unfolding d by (simp add: u64_or_def get_u64_def)
qed









subsection \<open>Update\<close>




subsection \<open>Delete\<close>













subsection \<open>The methods of the handle\<close>




section \<open>Histories\<close>






section \<open>What the readers need\<close>



section \<open>Start-up\<close>

text \<open>A loaded collection: every document has a number of its own, and none has the last one.\<close>

definition numbered_col :: "collection \<Rightarrow> bool" where
  "numbered_col col \<longleftrightarrow> dm_ok col \<and> (\<forall>(k, b)\<in>set col. \<exists>n. numbered n b \<and> n < - 1) \<and>
     (\<forall>(k, b)\<in>set col. \<forall>(k', b')\<in>set col. \<forall>n. numbered n b \<longrightarrow> numbered n b' \<longrightarrow> k = k')"

lemma seq_pairs_numbered:
  assumes "skips_values (skip_value env)" and "\<forall>(k, b)\<in>set col. \<exists>n. numbered n b"
  obtains ps where "seq_pairs env col = Returns ps" and "map snd ps = map fst col"
    and "\<And>n k. (n, k) \<in> set ps \<longleftrightarrow> (\<exists>b. (k, b) \<in> set col \<and> numbered n b)"
proof -
  have "\<exists>ps. seq_pairs env col = Returns ps \<and> map snd ps = map fst col \<and>
      (\<forall>n k. (n, k) \<in> set ps \<longleftrightarrow> (\<exists>b. (k, b) \<in> set col \<and> numbered n b))"
    using assms(2)
  proof (induction col)
    case (Cons kb col)
    obtain k b where kb: "kb = (k, b)" by (cases kb)
    obtain n where n: "numbered n b" using Cons.prems by (auto simp: kb)
    obtain ps where ps: "seq_pairs env col = Returns ps" "map snd ps = map fst col"
      "\<forall>n k. (n, k) \<in> set ps \<longleftrightarrow> (\<exists>b. (k, b) \<in> set col \<and> numbered n b)"
      using Cons by auto
    have "(n', k') \<in> set ((n, k) # ps) \<longleftrightarrow> (\<exists>b'. (k', b') \<in> set (kb # col) \<and> numbered n' b')" for n' k'
    proof -
      have "numbered n' b \<longleftrightarrow> n' = n" using n numbered_unique by blast
      then have "(\<exists>b'. (k', b') \<in> set (kb # col) \<and> numbered n' b') \<longleftrightarrow> k' = k \<and> n' = n \<or> (n', k') \<in> set ps"
        unfolding ps(3) [rule_format] kb by auto
      then show ?thesis by auto
    qed
    then show ?case using ps(1,2) numbered_seq [OF n assms(1)] by (auto simp: kb)
  qed simp
  then show ?thesis using that by blast
qed

lemma index_fold:
  assumes "fold (\<lambda>(seq, k) (bt, mx). (bt_insert seq k bt, if seq > mx then seq else mx)) ps (bt0, mx0) = (idx, mx)"
    and "bt_ok bt0" and "distinct (map fst ps)"
  shows "bt_ok idx \<and> (\<forall>n. bt_get idx n = (case map_of ps n of Some k \<Rightarrow> Some k | None \<Rightarrow> bt_get bt0 n)) \<and>
    mx0 \<le> mx \<and> (\<forall>n\<in>fst ` set ps. n \<le> mx) \<and> (mx \<in> fst ` set ps \<or> mx = (mx0 :: u64))"
  using assms
proof (induction ps arbitrary: bt0 mx0)
  case (Cons p ps)
  obtain seq k where p: "p = (seq, k)" by (cases p)
  have fresh: "map_of ps seq = None" using Cons.prems(3) by (simp add: p map_of_eq_None_iff)
  define m where "m = (if seq > mx0 then seq else mx0)"
  have "bt_ok idx \<and> (\<forall>n. bt_get idx n = (case map_of ps n of Some k \<Rightarrow> Some k | None \<Rightarrow> bt_get (bt_insert seq k bt0) n)) \<and>
    m \<le> mx \<and> (\<forall>n\<in>fst ` set ps. n \<le> mx) \<and> (mx \<in> fst ` set ps \<or> mx = m)"
    using Cons.prems by (intro Cons.IH bt_ok_insert) (simp_all add: p m_def)
  moreover have "mx0 \<le> m" "seq \<le> m" "m = seq \<or> m = mx0" by (auto simp: m_def)
  moreover have "(case map_of ps n of Some k \<Rightarrow> Some k | None \<Rightarrow> bt_get (bt_insert seq k bt0) n) =
      (case map_of (p # ps) n of Some k \<Rightarrow> Some k | None \<Rightarrow> bt_get bt0 n)" for n
    using fresh by (cases "n = seq") (simp_all add: p split: option.split)
  ultimately show ?case by (auto simp: p)
qed simp

lemma index_collection_spec:
  assumes "distinct (map fst ps)" and "index_collection ps = (idx, mx)"
  shows "bt_ok idx" and "\<And>n k. bt_get idx n = Some k \<longleftrightarrow> (n, k) \<in> set ps"
    and "\<And>n k. (n, k) \<in> set ps \<Longrightarrow> n \<le> mx" and "mx \<in> fst ` set ps \<or> mx = 0"
proof -
  note R = index_fold [OF assms(2) [unfolded index_collection_def] bt_ok_Nil assms(1)]
  show "bt_ok idx" "mx \<in> fst ` set ps \<or> mx = 0" using R by simp_all
  have "bt_get idx n = map_of ps n" for n using R by (simp split: option.split)
  then show "bt_get idx n = Some k \<longleftrightarrow> (n, k) \<in> set ps" for n k using assms(1) by simp
  show "n \<le> mx" if "(n, k) \<in> set ps" for n k using R that by force
qed

lemma loaded_indexed:
  assumes "skips_values (skip_value env)" and "numbered_col col"
  obtains ps idx mx where "seq_pairs env col = Returns ps" and "index_collection ps = (idx, mx)"
    and "indexed col idx (mx + 1)"
proof -
  have ok: "dm_ok col" and num: "\<And>k b. (k, b) \<in> set col \<Longrightarrow> \<exists>n. numbered n b \<and> n < - 1"
    and own: "\<And>k b k' b' n. (k, b) \<in> set col \<Longrightarrow> (k', b') \<in> set col \<Longrightarrow> numbered n b \<Longrightarrow> numbered n b' \<Longrightarrow> k = k'"
    using assms(2) unfolding numbered_col_def by blast+
  obtain ps where ps: "seq_pairs env col = Returns ps" "map snd ps = map fst col"
    "\<And>n k. (n, k) \<in> set ps \<longleftrightarrow> (\<exists>b. (k, b) \<in> set col \<and> numbered n b)"
    using seq_pairs_numbered [OF assms(1), of col] num by blast
  have "distinct (map snd ps)" using ok ps(2) by (simp add: dm_ok_def)
  moreover have "inj_on fst (set ps)"
    using ps(3) own by (intro inj_onI) (metis prod.collapse)
  ultimately have d: "distinct (map fst ps)" by (simp add: distinct_map)
  obtain idx mx where ic: "index_collection ps = (idx, mx)" by (cases "index_collection ps")
  note spec = index_collection_spec [OF d ic]
  have "mx < - 1"
  proof (cases "mx = 0")
    case False
    then obtain k where "(mx, k) \<in> set ps" using spec(4) by auto
    then obtain b where "(k, b) \<in> set col" "numbered mx b" using ps(3) by blast
    then show ?thesis using num numbered_unique by blast
  qed (simp add: word_gt_0)
  then have "unat mx + 1 < 2 ^ 64" by (simp add: word_less_nat_alt unsigned_minus_1_eq_mask mask_eq_exp_minus_1)
  then have less: "n < mx + 1" if "n \<le> mx" for n
    using that by (simp add: word_less_nat_alt word_le_nat_alt unat_word_ariths)
  have "indexed col idx (mx + 1)"
    unfolding indexed_def
  proof (intro conjI allI impI)
    show "dm_ok col" "bt_ok idx" using ok spec(1) by simp_all
    show "\<exists>n. numbered n b \<and> bt_get idx n = Some k" if "dm_get col k = Some b" for k b
      using that num [of k b] ps(3) spec(2) by (metis map_of_SomeD)
    show "n < mx + 1" "\<exists>b. dm_get col k = Some b \<and> numbered n b" if "bt_get idx n = Some k" for n k
      using that spec(2,3) ps(3) less dm_get_in [OF ok] by blast+
  qed
  then show ?thesis using that ps(1) ic by blast
qed

lemma build_indexes_in_step:
  assumes "skips_values (skip_value env)" and "dm_ok st" and "\<forall>(c, col)\<in>set st. numbered_col col"
    and "build_indexes env st db = (r, db')"
  shows "r = Inr () \<and> t_state db' = t_state db \<and>
    (\<forall>c. case dm_get st c of Some col \<Rightarrow> indexed col (index_of db' c) (counter_of db' c)
     | None \<Rightarrow> index_of db' c = index_of db c \<and> counter_of db' c = counter_of db c)"
  using assms(2-4)
proof (induction st arbitrary: db)
  case (Cons ccol st)
  obtain c col where ccol: "ccol = (c, col)" by (cases ccol)
  obtain ps idx mx where l: "seq_pairs env col = Returns ps" "index_collection ps = (idx, mx)" "indexed col idx (mx + 1)"
    using loaded_indexed [OF assms(1), of col] Cons.prems(2) by (auto simp: ccol)
  let ?db = "db\<lparr>db_seq_index := dm_insert c idx (db_seq_index db), db_seq_counters := dm_insert c (mx + 1) (db_seq_counters db)\<rparr>"
  have run: "build_indexes env st ?db = (r, db')" using Cons.prems(3) l by (simp add: ccol op_bind_def)
  have st: "dm_ok st" "dm_get st c = None" using Cons.prems(1) by (simp_all add: dm_ok_def ccol map_of_eq_None_iff)
  have now: "index_of ?db c = idx" "counter_of ?db c = mx + 1" "\<And>c'. c' \<noteq> c \<Longrightarrow> index_of ?db c' = index_of db c'"
    "\<And>c'. c' \<noteq> c \<Longrightarrow> counter_of ?db c' = counter_of db c'"
    by (simp_all add: index_of_def counter_of_def)
  have IH: "r = Inr () \<and> t_state db' = t_state ?db \<and>
    (\<forall>c. case dm_get st c of Some col \<Rightarrow> indexed col (index_of db' c) (counter_of db' c)
     | None \<Rightarrow> index_of db' c = index_of ?db c \<and> counter_of db' c = counter_of ?db c)"
    using Cons.prems(2) by (intro Cons.IH [OF st(1) _ run]) simp
  have "case dm_get (ccol # st) c' of Some col \<Rightarrow> indexed col (index_of db' c') (counter_of db' c')
     | None \<Rightarrow> index_of db' c' = index_of db c' \<and> counter_of db' c' = counter_of db c'" for c'
    using IH [THEN conjunct2, THEN conjunct2, THEN spec, of c'] st(2) l(3) now
    by (cases "c' = c") (auto simp: ccol split: option.splits)
  then show ?case using IH by simp
qed simp

text \<open>The index that a start builds from the loaded documents is in step with them.\<close>

lemma opened_in_step:
  assumes "skips_values (skip_value env)" and "stream_into_state env st (empty_tables tick) = (Inr n, t)"
    and "dm_ok (t_state t)" and "\<forall>(c, col)\<in>set (t_state t). numbered_col col"
  shows "\<exists>db. db_open env tick st = Inr db \<and> in_step db \<and> t_state db = t_state t"
proof -
  obtain r db where b: "build_indexes env (t_state t) (fresh_db st t) = (r, db)"
    by (cases "build_indexes env (t_state t) (fresh_db st t)")
  note B = build_indexes_in_step [OF assms(1,3,4) b]
  have fresh: "index_of (fresh_db st t) c = []" for c by (simp add: fresh_db_def tables.extend_def index_of_def)
  have "indexed (col_of (t_state db) c) (index_of db c) (counter_of db c)" for c
    using B [THEN conjunct2, THEN conjunct2, THEN spec, of c] B fresh [of c]
    by (cases "dm_get (t_state t) c") (simp_all add: col_of_def)
  then show ?thesis using B b assms(2) by (simp add: db_open_def in_step_def)
qed

section \<open>Clearing\<close>

text \<open>
  \<open>clear_all\<close> empties the documents but neither the index nor the counters. A document that is
  inserted again under its old key is then indexed twice, and pages read from the index repeat it.
\<close>

lemma insert_into_cleared:
  assumes "op_insert env c [(k, Object obj)] (clear_all db) = (Inr u, db')" and "item_small (k, Object obj)"
    and "bt_get obj SEQ = None"
  obtains b where "col_of (t_state db') c = [(k, b)]" and "numbered (counter_of db c) b"
    and "index_of db' c = bt_insert (counter_of db c) k (index_of db c)"
proof -
  let ?db0 = "(create_collection c (clear_all db))\<lparr>db_uuids := Suc (db_uuids db)\<rparr>"
  obtain db1 db2 where b: "log_write env IKEY_TX_BEGIN c (uuid env (db_uuids db)) Null ?db0 = (Inr (), db1)"
    and it: "insert_item env c (k, Object obj) db1 = (Inr (), db2)"
    and e: "log_write env IKEY_TX_COMMIT c (uuid env (db_uuids db)) Null db2 = (Inr u, db')"
    using assms(1) by (auto simp: op_insert_def op_bind_eq_Inr new_uuid_def create_collection_def clear_all_def)
  obtain now seq v d1 d2 d3 where ns: "next_seq c (db1\<lparr>t_ticks := Suc (t_ticks db1)\<rparr>) = (Inr seq, d1)"
    and v: "v = item_doc now seq (docs_of (t_state db1) c k) (Object obj)"
    and d2: "d2 = index_put c (u64_or seq v IKEY_SEQ) k (put_doc c k (value_to_msgpack v) d1)"
    and lw: "log_write env IKEY_INSERT c k v d2 = (Inr (), d3)"
    and d3: "db2 = d3\<lparr>db_tx := db_tx d3 @ [insert_event c k v]\<rparr>"
    using insert_item_steps [OF it] by metis
  note frame = log_write_tables [OF b] log_write_index [OF b] log_write_tables [OF lw] log_write_index [OF lw]
    log_write_tables [OF e] log_write_index [OF e]
  have d1: "t_state d1 = [(c, [])]" "db_seq_index d1 = db_seq_index db" and seq: "seq = counter_of db c"
    using ns frame(1-3) by (auto simp: next_seq_def Let_def counter_of_def create_collection_def clear_all_def col_of_def)
  have "docs_of (t_state db1) c k = None"
    using frame(1) by (simp add: create_collection_def clear_all_def col_of_def docs_of_def)
  moreover have u: "unnumbered (Object obj)" "doc_small (2 ^ 28) (Object obj)"
    using assms(2,3) by (simp_all add: unnumbered_def item_small_def)
  ultimately have "numbered seq (value_to_msgpack v)" "u64_or seq v IKEY_SEQ = seq"
    using item_doc_numbered [OF u refl, where old = None] by (simp_all add: v)
  moreover have "t_state db' = t_state d2" "db_seq_index db' = db_seq_index d2"
    using frame d3 by simp_all
  ultimately show ?thesis
    using that [of "value_to_msgpack v"] d1 seq by (simp add: d2 index_put_def put_doc_def index_of_def col_of_def)
qed

lemma cleared_lists_twice:
  assumes "in_step db" and "stored_doc db c k \<noteq> None"
    and "op_insert env c [(k, Object obj)] (clear_all db) = (Inr u, db')" and "item_small (k, Object obj)"
    and "bt_get obj SEQ = None" and "2 \<le> lim"
  shows "\<exists>v rest. get_filtered_index skip (col_of (t_state db') c) (Some (index_of db' c)) (\<lambda>_ _. True) 0 lim asc =
    (k, v) # (k, v) # rest"
proof -
  let ?idx = "index_of db' c" let ?col = "col_of (t_state db') c"
  obtain b where b: "?col = [(k, b)]" "numbered (counter_of db c) b"
    "?idx = bt_insert (counter_of db c) k (index_of db c)"
    using insert_into_cleared [OF assms(3-5)] .
  obtain m where m: "msgpack_to_value b = Some (Object m)" using numbered_decode [OF b(2)] .
  have i: "indexed (col_of (t_state db) c) (index_of db c) (counter_of db c)" using assms(1) by (simp add: in_step_def)
  obtain b0 where "dm_get (col_of (t_state db) c) k = Some b0"
    using assms(2) by (auto simp: stored_doc_def col_of_def bind_eq_Some_conv)
  then obtain n where n: "bt_get (index_of db c) n = Some k" "n < counter_of db c"
    using indexed_number [OF i] by metis
  have ok: "bt_ok ?idx" using i b(3) by (auto simp: indexed_def)
  have two: "(n, k) \<in> set ?idx" "(counter_of db c, k) \<in> set ?idx"
    unfolding bt_get_in [OF ok] using n by (auto simp: b(3))
  have w: "wanted (\<lambda>_ _. True) ?col p \<longleftrightarrow> snd p = k" for p by (simp add: wanted_def b(1))
  let ?ps = "filter (wanted (\<lambda>_ _. True) ?col) (if asc then ?idx else rev ?idx)"
  have "distinct ?ps" using bt_distinct [OF ok] by (simp add: distinct_map)
  moreover have "{(n, k), (counter_of db c, k)} \<subseteq> set ?ps" using two by (simp add: w)
  ultimately have "card {(n, k), (counter_of db c, k)} \<le> length ?ps"
    by (metis card_mono distinct_card finite_set)
  then have len: "2 \<le> length ?ps" using n(2) by (simp add: card_insert_if)
  have "decode_winners ?col (map snd ?ps) = map (\<lambda>p. (k, Object m)) ?ps"
  proof -
    have "decode_winners ?col (map snd ps) = map (\<lambda>p. (k, Object m)) ps" if "\<forall>p\<in>set ps. snd p = k" for ps :: "(u64 \<times> string) list"
      using that by (induction ps) (simp_all add: decode_winners_def b(1) m)
    then show ?thesis by (simp add: w)
  qed
  moreover have "decodable ?col" by (simp add: decodable_def b(1) m)
  ultimately have "index_scan (\<lambda>_ _. True) ?col (0 + lim) [] (if asc then ?idx else rev ?idx) =
      take lim (map (\<lambda>p. (k, Object m)) ?ps)"
    using index_scan_take [of ?col "[]" lim] assms(6) by simp
  then have "get_filtered_index skip ?col (Some ?idx) (\<lambda>_ _. True) 0 lim asc = take lim (map (\<lambda>p. (k, Object m)) ?ps)"
    by (simp add: get_filtered_index_def)
  moreover obtain p q ps where "?ps = p # q # ps"
    using len by (metis One_nat_def Suc_le_length_iff Suc_1)
  ultimately show ?thesis using assms(6) by (cases lim; cases "lim - 1") auto
qed

section \<open>Properties\<close>




end
