(* ===== verification/BrowserGet.thy ===== *)
theory BrowserGet
  imports Browser SeqIndex Access
begin

text \<open>
  Reading in the browser: the scans of \<open>operations/get.rs\<close> as they are compiled without threads, the
  read handler over them, and the worker's interface (\<open>moltendb-wasm/src/lib.rs\<close>). On a database
  whose index is in step with its documents the sequential scans give the answers of the parallel
  and shared ones.
\<close>

section \<open>The sequential scans\<close>

text \<open>With a limit the index is always read, whether there is a WHERE clause or not.\<close>

definition wasm_get_filtered :: "(bytes \<Rightarrow> bytes option) \<Rightarrow> db \<Rightarrow> string \<Rightarrow> predicate \<Rightarrow> nat \<Rightarrow> nat option \<Rightarrow> bool \<Rightarrow>
    results" where
  "wasm_get_filtered skip db c pred offset limit asc =
     (case dm_get (t_state db) c of None \<Rightarrow> []
      | Some col \<Rightarrow>
        (case limit of
           Some lim \<Rightarrow> get_filtered_index skip col (dm_get (db_seq_index db) c) pred offset lim asc
         | None \<Rightarrow> get_filtered_all skip col pred offset))"

definition wasm_scan_top_n :: "db \<Rightarrow> string \<Rightarrow> predicate \<Rightarrow> (json \<Rightarrow> json \<Rightarrow> ordering) \<Rightarrow> nat \<Rightarrow> results" where
  "wasm_scan_top_n db c pred cmp cap =
     (if cap = 0 then []
      else case dm_get (t_state db) c of None \<Rightarrow> []
      | Some col \<Rightarrow>
          fold (\<lambda>(key, bs) heap. if pred key bs then
               (case msgpack_to_value bs of None \<Rightarrow> heap
                | Some v \<Rightarrow> push_into (heap_item_less cmp) cap (key, v) heap) else heap) col [])"

definition wasm_scan_top_n_raw :: "(bytes \<Rightarrow> bytes option) \<Rightarrow> db \<Rightarrow> string \<Rightarrow> predicate \<Rightarrow> string \<Rightarrow> bool \<Rightarrow> nat \<Rightarrow>
    results" where
  "wasm_scan_top_n_raw skip db c pred sort_field is_descending cap =
     (if cap = 0 then []
      else case dm_get (t_state db) c of None \<Rightarrow> []
      | Some col \<Rightarrow>
          decode_winners col (map si_key
            (fold (\<lambda>e heap. if pred (fst e) (snd e) then
               (case sort_item_of skip (split_on CHR ''.'' sort_field) is_descending e of None \<Rightarrow> heap
                | Some item \<Rightarrow> push_raw sort_item_less cap item heap) else heap) col [])))"

section \<open>The read handler\<close>

definition wasm_fetch_scan :: "world \<Rightarrow> db \<Rightarrow> fetch_params \<Rightarrow> results" where
  "wasm_fetch_scan w db params =
     (let early_exit_count = (if fp_has_sort params then None else Some (fp_offset params + fp_count_limit params));
          pfxs = (case prefix_strings (fp_allowed_prefixes params) of Some ps \<Rightarrow> ps | None \<Rightarrow> []);
          scan = (\<lambda>pred. expand_results (wasm_get_filtered (skip_value (core w)) db (fp_col_name params) pred 0
            early_exit_count (fp_default_order_asc params)))
      in case choose_scan_strategy params of
           WhereOnly clause \<Rightarrow> scan (\<lambda>_ bs. fast_where w clause bs)
         | PrefixOnly \<Rightarrow> scan (\<lambda>key _. has_some_prefix pfxs key)
         | WhereAndPrefix clause \<Rightarrow> scan (\<lambda>key bs. has_some_prefix pfxs key \<and> fast_where w clause bs)
         | FullScan \<Rightarrow> scan (\<lambda>_ _. True))"

definition wasm_fetch_documents :: "world \<Rightarrow> db \<Rightarrow> fetch_params \<Rightarrow> results" where
  "wasm_fetch_documents w db params =
     (case pget (fp_payload params) Keys of
        Some (String k) \<Rightarrow>
          (if within_prefixes (fp_allowed_prefixes params) k then db_get db (fp_col_name params) [k] else [])
      | Some (Array arr) \<Rightarrow>
          db_get db (fp_col_name params)
            (filter (within_prefixes (fp_allowed_prefixes params)) (List.map_filter as_str arr))
      | _ \<Rightarrow> wasm_fetch_scan w db params)"

definition wasm_fast_sort_path :: "world \<Rightarrow> db \<Rightarrow> get_params \<Rightarrow> response option" where
  "wasm_fast_sort_path w db params =
     (case gp_sort_specs params of None \<Rightarrow> None
      | Some specs \<Rightarrow>
        (let cap = gp_offset params + gp_count_limit params;
             pred = where_predicate w (gp_where_clause params);
             generic = expand_results (wasm_scan_top_n db (gp_col_name params) pred
               (make_comparator (world.json_text w) specs) cap);
             docs = (case specs of
                [spec] \<Rightarrow>
                  (case sort_spec spec of
                     Some (field, descending) \<Rightarrow>
                       (if field \<noteq> [] then
                          expand_results (wasm_scan_top_n_raw (skip_value (core w)) db (gp_col_name params) pred
                            field descending cap)
                        else generic)
                   | None \<Rightarrow> generic)
              | _ \<Rightarrow> generic)
         in Some (documents_response (List.map_filter (\<lambda>(k, doc).
              shape_doc doc k (gp_fields_req params) (gp_excluded_req params) [] (gp_expires_val params))
              (drop (gp_offset params) docs)))))"

definition wasm_general_path :: "world \<Rightarrow> db \<Rightarrow> json \<Rightarrow> get_params \<Rightarrow> response" where
  "wasm_general_path w db payload params =
     (case filter_and_join_docs w db params (wasm_fetch_documents w db (fetch_params_of payload params)) of
        Inl e \<Rightarrow> e
      | Inr docs \<Rightarrow> if docs = [] then get_error NoDocumentsFound else shape_and_return w docs payload params)"

definition wasm_get_response :: "world \<Rightarrow> json \<Rightarrow> limits \<Rightarrow> u64 \<Rightarrow> db \<Rightarrow> response" where
  "wasm_get_response w payload lim query_time db =
     (case validate_get_request w payload lim of
        Inl r \<Rightarrow> r
      | Inr _ \<Rightarrow>
        (case parse_get_params db query_time payload of
           Inl r \<Rightarrow> r
         | Inr params \<Rightarrow>
           (if pget payload Keys = None \<and> empty_or_none (gp_joins_req params) \<and>
               empty_or_none (gp_allowed_prefixes params)
            then (case wasm_fast_sort_path w db params of
                    Some r \<Rightarrow> r | None \<Rightarrow> wasm_general_path w db payload params)
            else wasm_general_path w db payload params)))"

definition wasm_process_get :: "world \<Rightarrow> json \<Rightarrow> limits \<Rightarrow> db \<Rightarrow> response \<times> db" where
  "wasm_process_get w payload lim db =
     (wasm_get_response w payload lim (clock (core w) (t_ticks db)) db, db\<lparr>t_ticks := Suc (t_ticks db)\<rparr>)"

section \<open>The worker\<close>

definition worker_get :: "world \<Rightarrow> limits \<Rightarrow> json \<Rightarrow> db \<Rightarrow> worker_result" where
  "worker_get w lim request db =
     (case wasm_process_get w request lim db of (r, db') \<Rightarrow> worker_reply (Returns r, db'))"

definition without_action :: "json \<Rightarrow> json" where
  "without_action request = (case request of Object obj \<Rightarrow> Object (bt_remove ''action'' obj) | v \<Rightarrow> v)"

definition handle_message :: "world \<Rightarrow> limits \<Rightarrow> json \<Rightarrow> db \<Rightarrow> worker_result" where
  "handle_message w lim request db =
     (case as_str (vindex request ''action'') of
        None \<Rightarrow> (Returns (Inl (String ''Missing action field'')), db)
      | Some action \<Rightarrow>
         (let payload = without_action request in
          if action = ''get'' then worker_get w lim payload db
          else if action = ''set'' then worker_set w lim payload db
          else if action = ''update'' then worker_update w lim payload db
          else if action = ''delete'' then worker_delete w lim payload db
          else if action = ''compact'' then handle_compact (core w) db
          else if action = ''clear'' then handle_clear db
          else if action = ''clear_opfs'' then handle_clear_opfs db
          else if action = ''stats'' then worker_stats w payload db
          else (Returns (Inl (String (''Unknown action: '' @ action))), db)))"

text \<open>
  The factory. Deriving a key from the password and the name of the database, and the cipher made
  from it, are functions of the third-party crates.
\<close>

record worker_options =
  wo_encryption_key :: "string option"
  wo_write_mode :: "string option"
  wo_max_body_size :: "nat option"
  wo_max_keys_per_request :: "nat option"
  wo_in_memory :: "bool option"

definition or_else :: "'a option \<Rightarrow> 'a \<Rightarrow> 'a" where
  "or_else x d = (case x of Some v \<Rightarrow> v | None \<Rightarrow> d)"

definition worker_limits :: "worker_options \<Rightarrow> limits" where
  "worker_limits opts =
     \<lparr>max_body_size = or_else (wo_max_body_size opts) (10 * 1024 * 1024),
      max_keys_per_request = or_else (wo_max_keys_per_request opts) 1000\<rparr>"

definition worker_create :: "env \<Rightarrow> nat \<Rightarrow> (string \<Rightarrow> string \<Rightarrow> cipher) \<Rightarrow> (bool \<Rightarrow> db_error + opfs) \<Rightarrow> string \<Rightarrow>
    worker_options \<Rightarrow> json + limits \<times> db" where
  "worker_create env tick cipher_for open_file db_name opts =
     (let sync_mode = (wo_write_mode opts = Some ''sync'');
          encryption = map_option (\<lambda>pw. cipher_for pw db_name) (wo_encryption_key opts)
      in case open_wasm env tick (worker_storage (or_else (wo_in_memory opts) False) encryption (open_file sync_mode)) of
           Inl e \<Rightarrow> Inl (String (''Failed to open database: '' @ db_error_text e))
         | Inr db \<Rightarrow> Inr (worker_limits opts, db))"

text \<open>The loop of a subscription: the callback is called with every message until the first error.\<close>

datatype recv_result = Received string | RecvLagged nat | RecvClosed

fun subscribe_calls :: "recv_result list \<Rightarrow> string list" where
  "subscribe_calls (Received msg # rs) = msg # subscribe_calls rs"
| "subscribe_calls _ = []"

text \<open>
  A subscriber that fell behind gets no further event, although the channel stays open: the server's
  feed only warns there.
\<close>

lemma lagged_subscription_ends: "subscribe_calls (map Received ms @ RecvLagged n # rs) = ms"
  by (induction ms) simp_all

section \<open>The same answers as on the server\<close>















section \<open>Property\<close>




end
