(* ===== verification/Expiry.thy ===== *)
theory Expiry
  imports TtlSweep
begin

text \<open>
  The life of the expiry table: every change of it is announced to the background sweep, the sweep's heap
  covers every expiry, and so a round drops every collection that is due.
\<close>

section \<open>Announcements\<close>

definition expiry_event :: "string \<Rightarrow> u64 \<Rightarrow> json" where
  "expiry_event c expires_at = Object (of_entries [(''event'', String ''ttl_expiry''),
     (''collection'', String c), (''expires_at_ms'', json_u64 expires_at)])"

lemma expiry_event_read: "try_update_heap (expiry_event c e) heap = expiry_push e c heap"
  by (simp add: try_update_heap_def expiry_event_def of_entries_def get_u64_def)

text \<open>The events since an earlier state tell of every expiry that is new.\<close>

definition announces :: "db \<Rightarrow> db \<Rightarrow> bool" where
  "announces db0 db \<longleftrightarrow> (\<exists>evs. db_tx db = db_tx db0 @ evs \<and>
     (\<forall>c x. get_ttl_expiry db c = Some x \<longrightarrow> get_ttl_expiry db0 c = Some x \<or> expiry_event c x \<in> set evs))"

lemma announces_refl [simp]: "announces db db"
  by (simp add: announces_def)

lemma announces_step:
  assumes "announces db0 db" and "db_tx db' = db_tx db @ evs"
    and "\<And>c x. get_ttl_expiry db' c = Some x \<Longrightarrow> get_ttl_expiry db c = Some x \<or> expiry_event c x \<in> set evs"
  shows "announces db0 db'"
proof -
  obtain evs0 where "db_tx db = db_tx db0 @ evs0"
    "\<And>c x. get_ttl_expiry db c = Some x \<Longrightarrow> get_ttl_expiry db0 c = Some x \<or> expiry_event c x \<in> set evs0"
    using assms(1) by (auto simp: announces_def)
  then show ?thesis
    unfolding announces_def using assms(2,3) by (intro exI [of _ "evs0 @ evs"]) auto
qed

lemma announces_same:
  "announces db0 db \<Longrightarrow> db_tx db' = db_tx db \<Longrightarrow> t_ttl_expiry db' = t_ttl_expiry db \<Longrightarrow> announces db0 db'"
  using announces_step [of db0 db db' "[]"] by (simp add: get_ttl_expiry_def)

lemma announces_frame [simp]:
  "announces db0 db \<Longrightarrow> announces db0 (db\<lparr>t_ticks := t\<rparr>)" "announces db0 db \<Longrightarrow> announces db0 (db\<lparr>db_storage := st\<rparr>)"
  "announces db0 db \<Longrightarrow> announces db0 (db\<lparr>db_max_sizes := ms\<rparr>)" "announces db0 db \<Longrightarrow> announces db0 (db\<lparr>t_schemas := sc\<rparr>)"
  "announces db0 db \<Longrightarrow> announces db0 (put_doc c k b db)" "announces db0 db \<Longrightarrow> announces db0 (remove_doc c k db)"
  "announces db0 db \<Longrightarrow> announces db0 (create_collection c db)" "announces db0 db \<Longrightarrow> announces db0 (index_put c n k db)"
  "announces db0 db \<Longrightarrow> announces db0 (db\<lparr>db_ttl_defaults := y\<rparr>)" "announces db0 db \<Longrightarrow> announces db0 (clear_all db)"
  "announces db0 db \<Longrightarrow> announces db0 (db\<lparr>t_state := s, db_seq_index := i\<rparr>)"
  by (rule announces_same; simp add: put_doc_def remove_doc_def create_collection_def index_put_def clear_all_def)+

lemma announces_removed: "announces db0 db \<Longrightarrow> announces db0 (db\<lparr>t_ttl_expiry := dm_remove c (t_ttl_expiry db)\<rparr>)"
  by (rule announces_step [where evs = "[]"]) (auto simp: get_ttl_expiry_def dm_get_remove split: if_splits)

lemma announces_leaves:
  "keeps (announces db0) (now_unix_ms env)" "keeps (announces db0) (new_uuid env)" "keeps (announces db0) (next_seq c)"
  "keeps (announces db0) (log_write env cmd c k v)" "keeps (announces db0) (validate_document c v)"
  "keeps (announces db0) (prepare_item now seq c k v)" "keeps (announces db0) (patch_doc env updates doc)"
  "keeps (announces db0) (unindex_doc env c k)"
  unfolding keeps_def
  by (intro allI impI; erule announces_same;
      auto simp: now_unix_ms_def new_uuid_def next_seq_def Let_def log_write_def op_bind_def validate_document_def
        prepare_item_def patch_doc_def unindex_doc_def index_remove_def
        split: prod.splits sum.splits option.splits outcome.splits json.splits)+

lemma announces_send: "keeps (announces db0) (send ev)"
  unfolding keeps_def
  by (intro allI impI, erule announces_step [where evs = "[ev]"]) (simp_all add: send_def get_ttl_expiry_def)

lemmas announces_rules = keeps_bind keeps_upd keeps_return keeps_raise announces_leaves announces_send announces_frame

section \<open>Every call announces the expiries it sets\<close>

lemma announces_insert: "keeps (announces db0) (op_insert env c items)"
proof -
  have "keeps (announces db0) (insert_item env c kv)" for kv
    unfolding insert_item_def by (cases kv) (simp, intro announces_rules)
  then show ?thesis unfolding op_insert_def by (intro announces_rules keeps_iter)
qed

lemma announces_update: "keeps (announces db0) (op_update env c k updates)"
  unfolding op_update_def by (intro announces_rules keeps_lookup)

lemma announces_delete: "keeps (announces db0) (op_delete env c keys)"
proof -
  have "keeps (announces db0) (op_iter (delete_key env c) keys)"
    unfolding delete_key_def by (intro announces_rules keeps_iter)
  then have "keeps (announces db0) (\<lambda>db. if dm_get (t_state db) c = None then (Inr (), db) else op_iter (delete_key env c) keys db)"
    by (simp add: keeps_def)
  then show ?thesis unfolding op_delete_def by (intro announces_rules)
qed

lemma announces_delete_counted: "keeps (announces db0) (delete_counted env c keys)"
  using keeps_bind [OF announces_delete [of db0 env c keys] keeps_return [of "announces db0" "length keys"]]
  by (auto simp: keeps_def delete_counted_def)

lemma announces_delete_filtered: "keeps (announces db0) (op_delete_filtered env c p l asc)"
  using announces_delete_counted [of db0 env c]
  by (auto simp: keeps_def op_delete_filtered_def Let_def split: option.split outcome.split)

lemma announces_delete_n: "keeps (announces db0) (op_delete_n env c n asc)"
  using announces_delete_counted [of db0 env c]
  by (auto simp: keeps_def op_delete_n_def split: option.split outcome.split)

lemma announces_delete_collection: "keeps (announces db0) (op_delete_collection env c)"
  unfolding op_delete_collection_def by (intro announces_rules)

lemma announces_set_schema: "keeps (announces db0) (op_set_schema env c schema)"
  unfolding op_set_schema_def by (auto intro!: announces_rules split: sum.split)

lemma announces_evict_expired: "keeps (announces db0) (evict_expired env c)"
proof -
  have "announces db0 (snd (case op_delete_collection env c db of
      (_, db2) \<Rightarrow> (Inr () :: db_error + unit, db2\<lparr>t_ttl_expiry := dm_remove c (t_ttl_expiry db2)\<rparr>)))"
    if "announces db0 db" for db
    using keepsD [OF announces_delete_collection that] announces_removed
    by (cases "op_delete_collection env c db") simp
  then show ?thesis
    by (auto simp: keeps_def evict_expired_def op_bind_def now_unix_ms_def split: option.split)
qed

text \<open>The record of the expiry may fail to be written; the event is sent all the same.\<close>

lemma renew_ttl_run:
  assumes "dm_get (db_ttl_defaults db) c = Some secs" and "e = clock env (t_ticks db) + secs * 1000"
    and "log_write env TTL_EXPIRY c (dec (unat e)) Null
      (db\<lparr>t_ticks := Suc (t_ticks db), t_ttl_expiry := dm_insert c e (t_ttl_expiry db)\<rparr>) = (r, db3)"
  shows "renew_ttl env c db = (Inr (), db3\<lparr>db_tx := db_tx db3 @ [expiry_event c e]\<rparr>)"
  using assms by (simp add: renew_ttl_def op_bind_def now_unix_ms_def send_def Let_def expiry_event_def)

lemma log_write_tx: "log_write env cmd c k v db = (r, db') \<Longrightarrow> db_tx db' = db_tx db"
  by (auto simp: log_write_def op_bind_def now_unix_ms_def split: prod.splits)

lemma announces_renew_ttl: "keeps (announces db0) (renew_ttl env c)"
  unfolding keeps_def
proof (intro allI impI)
  fix db assume a: "announces db0 db"
  show "announces db0 (snd (renew_ttl env c db))"
  proof (cases "dm_get (db_ttl_defaults db) c")
    case (Some secs)
    let ?e = "clock env (t_ticks db) + secs * 1000"
    let ?db2 = "db\<lparr>t_ticks := Suc (t_ticks db), t_ttl_expiry := dm_insert c ?e (t_ttl_expiry db)\<rparr>"
    obtain r db3 where w: "log_write env TTL_EXPIRY c (dec (unat ?e)) Null ?db2 = (r, db3)"
      by (cases "log_write env TTL_EXPIRY c (dec (unat ?e)) Null ?db2")
    have run: "snd (renew_ttl env c db) = db3\<lparr>db_tx := db_tx db3 @ [expiry_event c ?e]\<rparr>"
      using renew_ttl_run [OF Some refl w] by simp
    show ?thesis
      unfolding run
      by (rule announces_step [OF a, where evs = "[expiry_event c ?e]"])
        (use log_write_tx [OF w] log_write_ttl [OF w] in \<open>auto simp: get_ttl_expiry_def split: if_splits\<close>)
  qed (use a in \<open>simp add: renew_ttl_def\<close>)
qed

lemma announces_run: "keeps (announces db) m \<Longrightarrow> announces db (snd (m db))"
  by (rule op_run_kept) simp_all

lemma announces_perform: "announces db (perform env call db)"
proof -
  have ins: "keeps (announces db) (db_insert env c items)" for c items
    unfolding db_insert_def
    by (intro checked_keeps keeps_bind announces_evict_expired announces_insert enforce_max_size_keeps
        announces_delete announces_renew_ttl)
  have del: "keeps (announces db) (db_delete_collection env c)" for c
  proof -
    have "announces db (db1\<lparr>t_ttl_expiry := dm_remove c (t_ttl_expiry db1), db_ttl_defaults := y, db_seq_counters := z\<rparr>)"
      if "announces db db1" for db1 y z
      by (rule announces_same [OF announces_removed [OF that, where c = c]]) simp_all
    then show ?thesis
      unfolding db_delete_collection_def by (intro keeps_bind keeps_upd announces_delete_collection)
  qed
  have ttl: "announces db (set_ttl_default c secs db)" for c secs
    unfolding set_ttl_default_def
    by (cases "secs = 0") (simp_all, rule announces_same [OF announces_removed [OF announces_refl, where c = c]], simp_all)
  have refl: "announces db db" by simp
  show ?thesis
  proof (cases call)
    case (CallSetTtlDefault c secs)
    then show ?thesis using ttl by simp
  next
    case CallCompact
    then show ?thesis by (simp add: db_compact_def split: prod.split)
  qed (simp_all only: perform.simps db_update_def db_delete_def db_delete_filtered_def db_delete_n_def db_set_schema_def
      set_max_size_def announces_run checked_keeps ins del announces_update announces_delete
      announces_delete_filtered announces_delete_n announces_set_schema announces_frame refl)
qed

section \<open>What the heap covers\<close>

text \<open>Every expiry has an entry in the heap that is due by then, or an event that is still to come.\<close>

definition covered :: "json set \<Rightarrow> expiry_heap \<Rightarrow> db \<Rightarrow> bool" where
  "covered pending heap db \<longleftrightarrow> sorted (map fst heap) \<and>
     (\<forall>c x. get_ttl_expiry db c = Some x \<longrightarrow> (\<exists>e\<le>x. (e, c) \<in> set heap) \<or> expiry_event c x \<in> pending)"

lemma coveredD:
  "covered pending heap db \<Longrightarrow> get_ttl_expiry db c = Some x \<Longrightarrow> (\<exists>e\<le>x. (e, c) \<in> set heap) \<or> expiry_event c x \<in> pending"
  by (simp add: covered_def)

lemma covered_announced:
  assumes "covered (set (drop n (db_tx db))) heap db" and "n \<le> length (db_tx db)" and "announces db db'"
  shows "covered (set (drop n (db_tx db'))) heap db'" and "n \<le> length (db_tx db')"
proof -
  obtain evs where evs: "db_tx db' = db_tx db @ evs"
    "\<And>c x. get_ttl_expiry db' c = Some x \<Longrightarrow> get_ttl_expiry db c = Some x \<or> expiry_event c x \<in> set evs"
    using assms(3) by (auto simp: announces_def)
  have new: "set (drop n (db_tx db')) = set (drop n (db_tx db)) \<union> set evs" using assms(2) by (simp add: evs(1))
  show "n \<le> length (db_tx db')" using assms(2) by (simp add: evs(1))
  show "covered (set (drop n (db_tx db'))) heap db'"
    unfolding new covered_def using assms(1) evs(2) unfolding covered_def by blast
qed

lemma expiry_push_set [simp]: "set (expiry_push e c heap) = insert (e, c) (set heap)"
  by (simp add: expiry_push_def set_insort_key)

lemma expiry_push_sorted: "sorted (map fst heap) \<Longrightarrow> sorted (map fst (expiry_push e c heap))"
  by (simp add: expiry_push_def sorted_insort_key)

lemma update_heap_cases: "try_update_heap ev heap = heap \<or> (\<exists>e c. try_update_heap ev heap = expiry_push e c heap)"
  by (auto simp: try_update_heap_def split: option.split)

lemma covered_received:
  assumes "covered (insert ev pending) heap db"
  shows "covered pending (try_update_heap ev heap) db"
proof -
  have "sorted (map fst (try_update_heap ev heap))" "set heap \<subseteq> set (try_update_heap ev heap)"
    using assms update_heap_cases [of ev heap] by (auto simp: covered_def expiry_push_sorted)
  moreover have "(x, c) \<in> set (try_update_heap (expiry_event c x) heap)" for c x by (simp add: expiry_event_read)
  ultimately show ?thesis using assms unfolding covered_def by blast
qed

lemma covered_all_received:
  "covered (set evs \<union> pending) heap db \<Longrightarrow> covered pending (fold try_update_heap evs heap) db"
proof (induction evs arbitrary: heap)
  case (Cons ev evs)
  then have "covered (set evs \<union> pending) (try_update_heap ev heap) db" by (intro covered_received) simp
  from Cons.IH [OF this] show ?case by simp
qed simp

lemma sweep_drop_announces: "announces db (sweep_drop env c db)"
  using announces_perform [of db env "CallDeleteCollection c"] by (simp add: sweep_drop_def)

lemma covered_popped:
  assumes "covered pending ((e, c) # rest) db" and "healthy (db_storage db)"
  shows "covered pending rest (sweep_drop env c db)"
    and "get_ttl_expiry db c = Some x \<Longrightarrow> covered pending (expiry_push x c rest) db"
proof -
  have s: "sorted (map fst rest)" using assms(1) by (simp add: covered_def)
  have "(\<exists>e\<le>y. (e, c') \<in> set rest) \<or> expiry_event c' y \<in> pending"
    if "get_ttl_expiry (sweep_drop env c db) c' = Some y" for c' y
  proof -
    have c': "c' \<noteq> c" using that sweep_drop_gone(3) [OF assms(2)] by auto
    then have "get_ttl_expiry db c' = Some y" using that sweep_drop_frame(2) [OF c'] by simp
    from coveredD [OF assms(1) this] show ?thesis using c' by auto
  qed
  then show "covered pending rest (sweep_drop env c db)" using s by (simp add: covered_def)
  show "covered pending (expiry_push x c rest) db" if cx: "get_ttl_expiry db c = Some x"
    unfolding covered_def
  proof (intro conjI allI impI)
    show "sorted (map fst (expiry_push x c rest))" using expiry_push_sorted [OF s] .
    show "(\<exists>e\<le>y. (e, c') \<in> set (expiry_push x c rest)) \<or> expiry_event c' y \<in> pending"
      if y: "get_ttl_expiry db c' = Some y" for c' y
      using coveredD [OF assms(1) y] y cx by (cases "c' = c") auto
  qed
qed

lemma sweep_evict_covered:
  assumes "healthy (db_storage db)" and "covered pending heap db" and "sweep_evict env now heap db = (heap', db')"
  shows "covered pending heap' db' \<and> (\<exists>evs. db_tx db' = db_tx db @ evs)"
  using assms
proof (induction env now heap db rule: sweep_evict.induct)
  case (1 env now heap db)
  show ?case
  proof (cases heap)
    case Nil
    then show ?thesis using "1.prems" by (simp add: sweep_evict.simps)
  next
    case (Cons p rest)
    obtain e c where p: "p = (e, c)" by (cases p)
    note IH = 1(1-3) [OF Cons p [symmetric]]
    note pop = covered_popped [OF "1.prems"(2) [unfolded Cons p] "1.prems"(1)]
    have drop: "\<exists>evs. db_tx (sweep_drop env c db) = db_tx db @ evs" "healthy (db_storage (sweep_drop env c db))"
      using sweep_drop_announces [of db env c] sweep_drop_gone(2) [OF "1.prems"(1)] by (auto simp: announces_def)
    have chain: "\<exists>evs. db_tx db' = db_tx db @ evs" if "\<exists>evs. db_tx db' = db_tx (sweep_drop env c db) @ evs"
      using that drop(1) by auto
    show ?thesis
    proof (cases "e \<le> now")
      case False
      then show ?thesis using "1.prems" by (auto simp: sweep_evict.simps [of env now "(e, c) # rest" db] Cons p)
    next
      case due: True
      show ?thesis
      proof (cases "get_ttl_expiry db c")
        case None
        then have "sweep_evict env now rest (sweep_drop env c db) = (heap', db')"
          using "1.prems"(3) due by (simp add: sweep_evict.simps [of env now "(e, c) # rest" db] Cons p)
        from IH(1) [OF due None drop(2) pop(1) this] show ?thesis using chain by blast
      next
        case (Some x)
        show ?thesis
        proof (cases "now < x")
          case True
          then have "sweep_evict env now (expiry_push x c rest) db = (heap', db')"
            using "1.prems"(3) due Some by (simp add: sweep_evict.simps [of env now "(e, c) # rest" db] Cons p)
          from IH(2) [OF due Some True "1.prems"(1) pop(2) [OF Some] this] show ?thesis .
        next
          case False
          then have "sweep_evict env now rest (sweep_drop env c db) = (heap', db')"
            using "1.prems"(3) due Some by (simp add: sweep_evict.simps [of env now "(e, c) # rest" db] Cons p)
          from IH(3) [OF due Some False drop(2) pop(1) this] show ?thesis using chain by blast
        qed
      qed
    qed
  qed
qed

section \<open>The sweep beside the engine\<close>

lemma sweep_startup_step:
  assumes "fold (\<lambda>(c, expires_at) (heap, db).
      if expires_at \<le> now then (heap, sweep_drop env c db) else (expiry_push expires_at c heap, db)) xs (heap, db) = (heap', db')"
    and "healthy (db_storage db)" and "sorted (map fst heap)"
  shows "healthy (db_storage db') \<and> sorted (map fst heap') \<and> set heap \<subseteq> set heap' \<and>
    (\<exists>evs. db_tx db' = db_tx db @ evs) \<and>
    (\<forall>c x. get_ttl_expiry db' c = Some x \<longrightarrow> get_ttl_expiry db c = Some x \<and> ((c, x) \<in> set xs \<longrightarrow> (x, c) \<in> set heap'))"
  using assms
proof (induction xs arbitrary: heap db)
  case (Cons p xs)
  obtain c e where p: "p = (c, e)" by (cases p)
  show ?case
  proof (cases "e \<le> now")
    case True
    note gone = sweep_drop_gone(2,3) [OF Cons.prems(2), of env c]
    have tx: "\<exists>evs. db_tx (sweep_drop env c db) = db_tx db @ evs"
      using sweep_drop_announces [of db env c] by (auto simp: announces_def)
    have kept: "c' \<noteq> c \<and> get_ttl_expiry db c' = Some x" if "get_ttl_expiry (sweep_drop env c db) c' = Some x" for c' x
      using that gone(2) sweep_drop_frame(2) [of c' c env db] by (cases "c' = c") auto
    have rest: "fold (\<lambda>(c, expires_at) (heap, db).
        if expires_at \<le> now then (heap, sweep_drop env c db) else (expiry_push expires_at c heap, db)) xs
        (heap, sweep_drop env c db) = (heap', db')"
      using Cons.prems(1) True by (simp add: p)
    note IH = Cons.IH [OF rest gone(1) Cons.prems(3)]
    have "\<exists>evs. db_tx db' = db_tx db @ evs" using IH tx by auto
    moreover have "get_ttl_expiry db c' = Some x \<and> ((c', x) \<in> set (p # xs) \<longrightarrow> (x, c') \<in> set heap')"
      if "get_ttl_expiry db' c' = Some x" for c' x
      using IH that kept [of c' x] by (auto simp: p)
    ultimately show ?thesis using IH by blast
  next
    case False
    then have "fold (\<lambda>(c, expires_at) (heap, db).
        if expires_at \<le> now then (heap, sweep_drop env c db) else (expiry_push expires_at c heap, db)) xs
        (expiry_push e c heap, db) = (heap', db')"
      using Cons.prems(1) by (simp add: p)
    from Cons.IH [OF this Cons.prems(2) expiry_push_sorted [OF Cons.prems(3)]] show ?thesis by (auto simp: p)
  qed
qed simp

lemma sweep_startup_covered:
  assumes "sweep_startup env now db = (heap, db')" and "healthy (db_storage db)"
  shows "covered pending heap db' \<and> (\<exists>evs. db_tx db' = db_tx db @ evs)"
proof -
  note s = sweep_startup_step [OF assms(1) [unfolded sweep_startup_def] assms(2)]
  have "(x, c) \<in> set heap" if "get_ttl_expiry db' c = Some x" for c x
  proof -
    have "get_ttl_expiry db c = Some x" using s that by simp
    then have "(c, x) \<in> set (sort_key snd (all_ttl_expiries db))"
      by (auto simp: get_ttl_expiry_def all_ttl_expiries_def dest: map_of_SomeD)
    then show ?thesis using s that by simp
  qed
  then show ?thesis using s by (auto simp: covered_def)
qed

text \<open>
  The task beside the engine: its heap, the number of events it has received, and the database. It subscribes and
  starts, the engine is called, events arrive one by one and none is lost, and it evicts at some reading of the clock.
  When it drops collections the backend takes its writes.
\<close>

inductive sweeping :: "env \<Rightarrow> expiry_heap \<Rightarrow> nat \<Rightarrow> db \<Rightarrow> bool" for env where
  sweep_start: "healthy (db_storage db) \<Longrightarrow> n \<le> length (db_tx db) \<Longrightarrow> sweep_startup env now db = (heap, db') \<Longrightarrow>
    sweeping env heap n db'"
| sweep_call: "sweeping env heap n db \<Longrightarrow> sweeping env heap n (perform env call db)"
| sweep_receive: "sweeping env heap n db \<Longrightarrow> n < length (db_tx db) \<Longrightarrow>
    sweeping env (try_update_heap (db_tx db ! n) heap) (Suc n) db"
| sweep_due: "sweeping env heap n db \<Longrightarrow> healthy (db_storage db) \<Longrightarrow> sweep_evict env now heap db = (heap', db') \<Longrightarrow>
    sweeping env heap' n db'"

lemma sweeping_covered:
  assumes "sweeping env heap n db"
  shows "n \<le> length (db_tx db) \<and> covered (set (drop n (db_tx db))) heap db"
  using assms
proof (induction rule: sweeping.induct)
  case (sweep_start db n now heap db')
  then show ?case using sweep_startup_covered by fastforce
next
  case (sweep_call heap n db call)
  then show ?case using covered_announced [OF _ _ announces_perform] by blast
next
  case (sweep_receive heap n db)
  have "drop n (db_tx db) = db_tx db ! n # drop (Suc n) (db_tx db)"
    using sweep_receive.hyps(2) by (simp add: Cons_nth_drop_Suc)
  then show ?case using sweep_receive covered_received by fastforce
next
  case (sweep_due heap n db now heap' db')
  from sweep_evict_covered [OF sweep_due.hyps(2) sweep_due.IH [THEN conjunct2] sweep_due.hyps(3)]
  obtain evs where "db_tx db' = db_tx db @ evs" "covered (set (drop n (db_tx db))) heap' db'" by blast
  then show ?case using sweep_due.IH unfolding covered_def by auto
qed

text \<open>
  C32. Every collection that is due is dropped: whatever calls of the engine's methods, received events and rounds came
  before, when the backend takes its writes and the task has received the events that were sent, a round at a time no
  earlier than the expiry of a collection removes the collection with its documents. The conditions are real: an event
  that is lost because the receiver lagged, or a drop that fails after its entry was popped, leaves the collection.
\<close>

theorem sweep_drops_expired:
  assumes "sweeping env heap n db" and "healthy (db_storage db)"
    and "get_ttl_expiry db c = Some x" and "x \<le> now"
  shows "dm_get (t_state (snd (sweep_round env (drop n (db_tx db)) now heap db))) c = None"
proof -
  let ?heap = "fold try_update_heap (drop n (db_tx db)) heap"
  have cov: "covered {} ?heap db"
    using sweeping_covered [OF assms(1)] by (intro covered_all_received) simp
  then obtain e where e: "(e, c) \<in> set ?heap" "e \<le> x" using coveredD [OF cov assms(3)] by auto
  have "e \<le> now" using e(2) assms(4) by simp
  moreover have "sorted (map fst ?heap)" using cov by (simp add: covered_def)
  ultimately show ?thesis
    using sweep_evict_drops [OF assms(2) _ e(1)] assms(3,4) by (simp add: sweep_round_def)
qed

theorem sweep_drops_expired_witness:
  "dm_get (t_state (snd (sweep_round demo_env [] 9 [(9, ''c'')] (demo_db1\<lparr>t_ttl_expiry := [(''c'', 9)], db_tx := []\<rparr>)))) ''c'' = None"
proof -
  let ?db = "demo_db1\<lparr>t_ttl_expiry := [(''c'', 9)], db_tx := []\<rparr>"
  have h: "healthy (db_storage ?db)" using demo_storage_healthy by simp
  have "sweep_startup demo_env 1 ?db = ([(9, ''c'')], ?db)"
    by (simp add: sweep_startup_def all_ttl_expiries_def expiry_push_def word_le_nat_alt)
  from sweep_start [OF h _ this] have "sweeping demo_env [(9, ''c'')] 0 ?db" by simp
  from sweep_drops_expired [OF this h, of "''c''" 9 9] show ?thesis by (simp add: get_ttl_expiry_def)
qed

end
