(* ===== verification/TtlReplay.thy ===== *)
theory TtlReplay
  imports Expiry
begin

text \<open>
  Expiries in the log: every insert into a collection with a time to live appends a \<open>TTL_EXPIRY\<close> record, and a
  restart evaluates each of them against the clock of the restart, the ones that a later insert has renewed included.
\<close>

section \<open>The log of an insert\<close>

definition inserts_into :: "string \<Rightarrow> string set \<Rightarrow> log_entry \<Rightarrow> bool" where
  "inserts_into c ks w \<longleftrightarrow> doc_record w \<and> e_cmd w = IKEY_INSERT \<and> e_collection w = c \<and> e_key w \<in> ks"

lemma insert_items_logged:
  assumes "op_iter (insert_item env c) items db = (Inr u, db')" and "roomy (db_storage db)"
    and "name_ok c" and "list_all item_small items"
  shows "\<exists>ws. list_all (inserts_into c (fst ` set items)) ws \<and> map e_key ws = map fst items \<and> appends env ws db db' \<and>
    docs_of (t_state db') = fold docs_apply ws (docs_of (t_state db))"
  using assms
proof (induction items arbitrary: db)
  case Nil
  then show ?case by (intro exI [of _ "[]"]) (simp add: appends_Nil op_return_def)
next
  case (Cons kv items)
  obtain k v0 where kv: "kv = (k, v0)" by (cases kv)
  obtain db1 where one: "insert_item env c (k, v0) db = (Inr (), db1)" and rest: "op_iter (insert_item env c) items db1 = (Inr u, db')"
    using Cons.prems(1) by (auto simp: kv op_bind_eq_Inr)
  have small: "item_small (k, v0)" "list_all item_small items" using Cons.prems(4) by (simp_all add: kv)
  obtain t v where w: "appends env [new_entry t IKEY_INSERT c k v] db db1"
    "docs_of (t_state db1) = docs_apply (new_entry t IKEY_INSERT c k v) (docs_of (t_state db))"
    "doc_record (new_entry t IKEY_INSERT c k v)"
    using insert_item_Inr [OF one Cons.prems(2,3) small(1)] by metis
  have "roomy (db_storage db1)" using w(1) by (simp add: appends_def)
  from Cons.IH [OF rest this Cons.prems(3) small(2)]
  obtain ws where ws: "list_all (inserts_into c (fst ` set items)) ws" "appends env ws db1 db'"
    "docs_of (t_state db') = fold docs_apply ws (docs_of (t_state db1))" "map e_key ws = map fst items" by blast
  have "list_all (inserts_into c (fst ` set (kv # items))) ws"
    using ws(1) by (rule list.pred_mono_strong) (auto simp: inserts_into_def)
  moreover have "inserts_into c (fst ` set (kv # items)) (new_entry t IKEY_INSERT c k v)"
    using w(3) by (simp add: inserts_into_def kv)
  ultimately show ?case
    using appends_trans [OF w(1) ws(2)] ws(3,4) w(2)
    by (intro exI [of _ "new_entry t IKEY_INSERT c k v # ws"]) (simp add: kv)
qed

text \<open>The records of one transaction.\<close>

definition tx_records :: "string \<Rightarrow> string \<Rightarrow> log_entry list \<Rightarrow> log_entry list \<Rightarrow> bool" where
  "tx_records c x ws rs \<longleftrightarrow> (\<exists>t t'. rs = new_entry t IKEY_TX_BEGIN c x Null # ws @ [new_entry t' IKEY_TX_COMMIT c x Null])"

lemma op_insert_logged:
  assumes "env_ok env" and "roomy (db_storage db)" and "name_ok c" and "list_all item_small items"
    and "op_insert env c items db = (Inr u, db')"
  obtains x ws rs where "list_all (inserts_into c (fst ` set items)) ws" and "tx_records c x ws rs"
    and "appends env rs db db'" and "docs_of (t_state db') = fold docs_apply ws (docs_of (t_state db))"
    and "map e_key ws = map fst items"
proof -
  let ?x = "uuid env (db_uuids db)"
  let ?db0 = "(create_collection c db)\<lparr>db_uuids := Suc (db_uuids db)\<rparr>"
  obtain db1 db2 where b: "log_write env IKEY_TX_BEGIN c ?x Null ?db0 = (Inr (), db1)"
    and it: "op_iter (insert_item env c) items db1 = (Inr (), db2)"
    and e: "log_write env IKEY_TX_COMMIT c ?x Null db2 = (Inr u, db')"
    using assms(5) by (auto simp: op_insert_def op_bind_eq_Inr new_uuid_def create_collection_def)
  have x: "name_ok ?x" using assms(1) by (simp add: env_ok_def)
  have s0: "db_storage ?db0 = db_storage db" by (simp add: create_collection_def)
  then have room: "roomy (db_storage ?db0)" using assms(2) by simp
  obtain t where b': "appends env [new_entry t IKEY_TX_BEGIN c ?x Null] ?db0 db1"
    using log_write_appends [OF b room name_literals(4) assms(3) x small_Null] by metis
  have "roomy (db_storage db1)" using b' by (simp add: appends_def)
  from insert_items_logged [OF it this assms(3,4)]
  obtain ws where ws: "list_all (inserts_into c (fst ` set items)) ws" "appends env ws db1 db2"
    "docs_of (t_state db2) = fold docs_apply ws (docs_of (t_state db1))" "map e_key ws = map fst items" by blast
  have "roomy (db_storage db2)" using ws(2) by (simp add: appends_def)
  then obtain t' where e': "appends env [new_entry t' IKEY_TX_COMMIT c ?x Null] db2 db'"
    using log_write_appends [OF e _ name_literals(5) assms(3) x small_Null] by metis
  let ?rs = "new_entry t IKEY_TX_BEGIN c ?x Null # ws @ [new_entry t' IKEY_TX_COMMIT c ?x Null]"
  have "appends env ?rs ?db0 db'" using appends_trans [OF appends_trans [OF b' ws(2)] e'] by simp
  then have "appends env ?rs db db'" using appends_storage [OF s0 refl] by simp
  moreover have "docs_of (t_state db') = fold docs_apply ws (docs_of (t_state db))"
    using ws(3) log_write_tables [OF b] log_write_tables [OF e] by (simp add: create_collection_def docs_create)
  moreover have "tx_records c ?x ws ?rs" by (auto simp: tx_records_def)
  ultimately show ?thesis using that ws(1,4) by blast
qed

section \<open>Its replay\<close>

lemma replay_tx_records:
  assumes "list_all (inserts_into c ks) ws" and "tx_records c x ws rs"
  shows "fold (replay_entry env) (map stored_entry rs) rp =
    rp\<lparr>rp_tables := fold (apply_entry env) (map stored_entry ws) (rp_tables rp), rp_active := None, rp_buffer := []\<rparr>"
proof -
  obtain t t' where rs: "rs = new_entry t IKEY_TX_BEGIN c x Null # ws @ [new_entry t' IKEY_TX_COMMIT c x Null]"
    using assms(2) by (auto simp: tx_records_def)
  let ?b = "rp\<lparr>rp_active := Some x, rp_buffer := []\<rparr>"
  have "replay_entry env (stored_entry (new_entry t IKEY_TX_BEGIN c x Null)) rp = ?b"
    by (simp add: replay_entry_def)
  moreover have "list_all plain (map stored_entry ws)"
    using assms(1) by (auto simp: list_all_iff inserts_into_def doc_record_def intro: plain_stored)
  then have "fold (replay_entry env) (map stored_entry ws) ?b = ?b\<lparr>rp_buffer := map stored_entry ws\<rparr>"
    by (subst replay_body) simp_all
  ultimately show ?thesis by (simp add: rs replay_entry_def)
qed

lemma inserts_docs:
  assumes "list_all (inserts_into c ks) ws"
  shows "docs_of (t_state (fold (apply_entry env) (map stored_entry ws) t)) = fold docs_apply ws (docs_of (t_state t))"
    and "k \<notin> ks \<Longrightarrow> fold docs_apply ws D c k = D c k"
proof -
  have "list_all doc_record ws" using assms by (rule list.pred_mono_strong) (simp add: inserts_into_def)
  then show "docs_of (t_state (fold (apply_entry env) (map stored_entry ws) t)) = fold docs_apply ws (docs_of (t_state t))"
    by (rule fold_docs_apply)
  show "k \<notin> ks \<Longrightarrow> fold docs_apply ws D c k = D c k"
    using assms by (induction ws arbitrary: D) (auto simp: inserts_into_def docs_apply_def)
qed

lemma inserts_present:
  "list_all (inserts_into c ks) ws \<Longrightarrow> k \<in> e_key ` set ws \<Longrightarrow> fold docs_apply ws D c k \<noteq> None"
proof (induction ws rule: rev_induct)
  case (snoc w ws)
  then show ?case by (cases "k = e_key w") (auto simp: inserts_into_def docs_apply_def)
qed simp

lemma apply_ticks: "t_ticks t \<le> t_ticks (apply_entry env e t)"
  by (simp add: apply_entry_def split: option.split sum.split)

lemma apply_all_ticks: "t_ticks t \<le> t_ticks (fold (apply_entry env) es t)"
proof (induction es arbitrary: t)
  case (Cons e es)
  then show ?case using apply_ticks [of t env e] le_trans by fastforce
qed simp

lemma replay_ticks: "t_ticks (rp_tables rp) \<le> t_ticks (rp_tables (fold (replay_entry env) es rp))"
proof (induction es arbitrary: rp)
  case (Cons e es)
  have "t_ticks (rp_tables rp) \<le> t_ticks (rp_tables (replay_entry env e rp))"
    by (simp add: replay_entry_def apply_ticks apply_all_ticks)
  also have "\<dots> \<le> t_ticks (rp_tables (fold (replay_entry env) (e # es) rp))" using Cons by simp
  finally show ?case .
qed simp

text \<open>The record of an expiry, read by a restart after it has passed and before.\<close>

definition expiry_record :: "u64 \<Rightarrow> string \<Rightarrow> u64 \<Rightarrow> log_entry" where
  "expiry_record t c e = new_entry t TTL_EXPIRY c (dec (unat e)) Null"

lemma replay_expiry:
  assumes "rp_active rp = None"
  shows "replay_entry env (stored_entry (expiry_record t c e)) rp =
    rp\<lparr>rp_tables := apply_entry env (stored_entry (expiry_record t c e)) (rp_tables rp)\<rparr>"
  using assms by (simp add: replay_entry_def expiry_record_def)

lemma apply_expiry_past:
  "e \<le> clock env (t_ticks ts) \<Longrightarrow>
    t_state (apply_entry env (stored_entry (expiry_record t c e)) ts) = dm_remove c (t_state ts)"
  by (simp add: apply_entry_def parse_u64_dec expiry_record_def)

lemma apply_expiry_ahead:
  "clock env (t_ticks ts) < e \<Longrightarrow>
    apply_entry env (stored_entry (expiry_record t c e)) ts =
      ts\<lparr>t_ttl_expiry := dm_insert c e (t_ttl_expiry ts), t_ticks := Suc (t_ticks ts)\<rparr>"
  by (simp add: apply_entry_def parse_u64_dec expiry_record_def)

text \<open>Two inserts into a collection, each followed by the record of its expiry.\<close>

lemma replay_renewed:
  assumes "list_all (inserts_into c ks) ws" and "tx_records c x ws rs"
    and "list_all (inserts_into c ks') ws'" and "tx_records c x' ws' rs'"
    and "\<And>n. tick \<le> n \<Longrightarrow> e0 \<le> clock env n \<and> clock env n < e1"
    and "log = map stored_entry (rs @ expiry_record t c e0 # rs' @
    [expiry_record t' c e1])"
  shows "dm_get (t_ttl_expiry (replay_tables env (es @ log) (empty_tables tick))) c = Some e1"
    and "k \<notin> ks' \<Longrightarrow> docs_of (t_state (replay_tables env (es @ log) (empty_tables tick))) c k = None"
proof -
  let ?rp0 = "fold (replay_entry env) es (replay_start (empty_tables tick))"
  let ?t1 = "fold (apply_entry env) (map stored_entry ws) (rp_tables ?rp0)"
  let ?e0 = "stored_entry (expiry_record t c e0)"
  let ?e1 = "stored_entry (expiry_record t' c e1)"
  let ?t2 = "apply_entry env ?e0 ?t1"
  let ?t3 = "fold (apply_entry env) (map stored_entry ws') ?t2"
  have "tick \<le> t_ticks (rp_tables ?rp0)"
    using replay_ticks [of "replay_start (empty_tables tick)" env es] by (simp add: replay_start_def empty_tables_def)
  then have t1: "tick \<le> t_ticks ?t1" using apply_all_ticks le_trans by blast
  then have t3: "tick \<le> t_ticks ?t3" using apply_ticks apply_all_ticks le_trans by meson
  have run: "replay_tables env (es @ log) (empty_tables tick) = apply_entry env ?e1 ?t3"
    by (simp add: assms(6) replay_tables_def replay_tx_records [OF assms(1,2)] replay_tx_records [OF assms(3,4)] replay_expiry)
  have last: "apply_entry env ?e1 ?t3 = ?t3\<lparr>t_ttl_expiry := dm_insert c e1 (t_ttl_expiry ?t3), t_ticks := Suc (t_ticks ?t3)\<rparr>"
    using assms(5) [OF t3] by (intro apply_expiry_ahead) simp
  show "dm_get (t_ttl_expiry (replay_tables env (es @ log) (empty_tables tick))) c = Some e1"
    by (simp add: run last)
  have "docs_of (t_state ?t2) c k = None"
    using apply_expiry_past [of e0 env ?t1] assms(5) [OF t1] by (simp add: docs_drop)
  then show "docs_of (t_state (replay_tables env (es @ log) (empty_tables tick))) c k = None" if "k \<notin> ks'"
    using that by (simp add: run last inserts_docs [OF assms(3)])
qed

lemma digits_utf8: "list_all is_digit s \<Longrightarrow> str_ok s"
proof (induction s)
  case (Cons c s)
  have "(word_of_nat (of_char c) :: u8) < 0x80"
    using Cons.prems by (simp add: is_digit_def word_less_nat_alt unat_of_nat)
  then show ?case using Cons by (simp add: str_ok_def bytes_of_def)
qed (simp add: str_ok_def bytes_of_def)

lemma length_dec: "n < 10 ^ Suc k \<Longrightarrow> length (dec n) \<le> Suc k"
proof (induction k arbitrary: n)
  case (Suc k)
  have "n div 10 < 10 ^ Suc k" using Suc.prems by (simp add: less_mult_imp_div_less mult.commute)
  from Suc.IH [OF this] show ?case by (subst dec.simps) simp
qed (simp add: dec.simps)

lemma name_ok_dec: "name_ok (dec (unat (e :: u64)))"
proof -
  have "unat e < 2 ^ 64" using unsigned_less [of e, where ?'a = nat] by simp
  then have "unat e < 10 ^ Suc 19" by simp
  then show ?thesis using length_dec digits_utf8 [OF dec_digits] by (fastforce simp: name_ok_def)
qed

section \<open>An insert into a collection with a time to live\<close>

lemma ttl_insert_logged:
  assumes "env_ok env" and "roomy (db_storage db)" and "healthy (db_storage db)" and "name_ok c"
    and "list_all item_small items" and "dm_get (db_ttl_defaults db) c = Some secs" and "dm_get (db_max_sizes db) c = None"
    and "\<And>e. get_ttl_expiry db c = Some e \<Longrightarrow> clock env (t_ticks db) < e"
    and "db_insert env c items db = (Inr u, db')"
  obtains x ws rs t e where "list_all (inserts_into c (fst ` set items)) ws" and "tx_records c x ws rs"
    and "appends env (rs @ [expiry_record t c e]) db db'"
    and "docs_of (t_state db') = fold docs_apply ws (docs_of (t_state db))" and "get_ttl_expiry db' c = Some e"
    and "healthy (db_storage db')" and "db_ttl_defaults db' = db_ttl_defaults db" and "db_max_sizes db' = db_max_sizes db"
    and "map e_key ws = map fst items"
proof -
  obtain n db1 where ins: "op_insert env c items (db\<lparr>t_ticks := n\<rparr>) = (Inr (), db1)"
    and rest: "op_bind (enforce_max_size env c) (\<lambda>_. renew_ttl env c) db1 = (Inr u, db')"
  proof (cases "get_ttl_expiry db c")
    case None
    then have "evict_expired env c db = (Inr (), db\<lparr>t_ticks := t_ticks db\<rparr>)"
      by (simp add: evict_expired_def get_ttl_expiry_def)
    then show ?thesis
      using that [of "t_ticks db"] assms(9) by (auto simp: db_insert_def check_fault_bind op_bind_eq_Inr split: if_splits)
  next
    case (Some e)
    moreover have "\<not> e \<le> clock env (t_ticks db)" using assms(8) [OF Some] by simp
    ultimately have "evict_expired env c db = (Inr (), db\<lparr>t_ticks := Suc (t_ticks db)\<rparr>)"
      by (simp add: evict_expired_def get_ttl_expiry_def op_bind_def now_unix_ms_def collection_is_expired_def)
    then show ?thesis
      using that [of "Suc (t_ticks db)"] assms(9)
      by (auto simp: db_insert_def check_fault_bind op_bind_eq_Inr split: if_splits)
  qed
  let ?db = "db\<lparr>t_ticks := n\<rparr>"
  have room: "roomy (db_storage ?db)" using assms(2) by simp
  obtain x ws rs where ws: "list_all (inserts_into c (fst ` set items)) ws" "tx_records c x ws rs"
    "appends env rs ?db db1" "docs_of (t_state db1) = fold docs_apply ws (docs_of (t_state ?db))"
    "map e_key ws = map fst items"
    using op_insert_logged [OF assms(1) room assms(4,5) ins] .
  have s: "settings db1 = settings ?db" using keepsD [OF settings_insert _ ins] by blast
  have h1: "healthy (db_storage db1)" using keepsD [OF insert_keeps_healthy _ ins] assms(3) by simp
  have ren: "renew_ttl env c db1 = (Inr u, db')"
    using rest s assms(7) by (simp add: op_bind_def enforce_max_size_def settings_def)
  let ?e = "clock env (t_ticks db1) + secs * 1000"
  let ?db2 = "db1\<lparr>t_ticks := Suc (t_ticks db1), t_ttl_expiry := dm_insert c ?e (t_ttl_expiry db1)\<rparr>"
  obtain r db3 where w: "log_write env TTL_EXPIRY c (dec (unat ?e)) Null ?db2 = (r, db3)"
    by (cases "log_write env TTL_EXPIRY c (dec (unat ?e)) Null ?db2")
  have dflt: "dm_get (db_ttl_defaults db1) c = Some secs" using s assms(6) by (simp add: settings_def)
  have db': "db' = db3\<lparr>db_tx := db_tx db3 @ [expiry_event c ?e]\<rparr>"
    using ren renew_ttl_run [OF dflt refl w] by simp
  have "healthy (db_storage ?db2)" using h1 by simp
  then obtain st where "write_entry (new_entry (clock env (t_ticks ?db2)) TTL_EXPIRY c (dec (unat ?e)) Null) (db_storage ?db2) = (Inr (), st)"
    "healthy st" using healthy_write by blast
  then have r: "r = Inr ()" and h3: "healthy (db_storage db3)"
    using w by (auto simp: log_write_def op_bind_def now_unix_ms_def)
  have "roomy (db_storage ?db2)" using ws(3) by (simp add: appends_def)
  moreover have "name_ok (dec (unat ?e))" by (rule name_ok_dec)
  ultimately obtain t p q where w3: "db3 = ?db2\<lparr>t_ticks := p, db_storage := q\<rparr>"
    "appends env [expiry_record t c ?e] ?db2 db3"
    using log_write_appends [OF w [unfolded r] _ name_literals(7) assms(4) _ small_Null] unfolding expiry_record_def by metis
  have a3: "appends env [expiry_record t c ?e] db1 db'"
    using w3(2) appends_storage [of db1 ?db2 db' db3] by (simp add: db')
  have "appends env (rs @ [expiry_record t c ?e]) ?db db'" using appends_trans [OF ws(3) a3] .
  then have a: "appends env (rs @ [expiry_record t c ?e]) db db'" using appends_storage [of ?db db] by simp
  have d: "docs_of (t_state db') = fold docs_apply ws (docs_of (t_state db))"
    using ws(4) w3(1) by (simp add: db')
  have "get_ttl_expiry db' c = Some ?e" "db_ttl_defaults db' = db_ttl_defaults db" "db_max_sizes db' = db_max_sizes db"
    using s w3(1) by (simp_all add: db' get_ttl_expiry_def settings_def)
  then show ?thesis using that [OF ws(1,2) a d] h3 ws(5) by (simp add: db')
qed

lemma open_expiries:
  assumes "env_ok env" and "logs env st es" and "list_all (\<lambda>e. doc_ok (e_value e)) es"
  obtains db where "db_open env tick st = Inr db" and "t_state db = t_state (replay_tables env es (empty_tables tick))"
    and "t_ttl_expiry db = t_ttl_expiry (replay_tables env es (empty_tables tick))"
proof -
  have frame: "build_indexes env st d = (r, d') \<Longrightarrow> t_ttl_expiry d' = t_ttl_expiry d" for st d r d'
    by (induction st arbitrary: d) (auto simp: op_bind_def op_return_def op_raise_def split: prod.splits outcome.splits)
  obtain db where db: "db_open env tick st = Inr db" "t_state db = t_state (replay_tables env es (empty_tables tick))"
    using open_logs [OF assms] .
  have run: "stream_into_state env st (empty_tables tick) = (Inr (length es), replay_tables env es (empty_tables tick))"
    using stream_into_state_logs [OF assms(2)] assms(1) by (simp add: env_ok_def)
  have "t_ttl_expiry db = t_ttl_expiry (replay_tables env es (empty_tables tick))"
    using db(1) frame by (auto simp: db_open_def run fresh_db_def tables.extend_def split: prod.splits sum.splits)
  then show ?thesis using that db by blast
qed

section \<open>A restart after a renewal\<close>

text \<open>
  C16. A renewed time to live does not survive a restart. Two batches are inserted into a collection with a time to live,
  the second before the expiry set by the first, which it renews; memory keeps the first batch. A restart between the two
  expiries loads the collection as not expired, with the renewed expiry, but without the first batch: replaying the
  record of the first expiry drops what the log has inserted before.
\<close>

theorem renewed_expiry_loses_documents:
  assumes "env_ok env" and "consistent env db" and "healthy (db_storage db)" and "name_ok c"
    and "list_all item_small items" and "list_all item_small items'"
    and "dm_get (db_ttl_defaults db) c = Some secs" and "dm_get (db_max_sizes db) c = None" and "get_ttl_expiry db c = None"
    and "db_insert env c items db = (Inr u, db1)" and "get_ttl_expiry db1 c = Some e0" and "clock env (t_ticks db1) < e0"
    and "db_insert env c items' db1 = (Inr u', db2)" and "get_ttl_expiry db2 c = Some e1"
    and "\<And>n. tick \<le> n \<Longrightarrow> e0 \<le> clock env n \<and> clock env n < e1"
  shows "\<exists>db3. db_open env tick (db_storage db2) = Inr db3 \<and> get_ttl_expiry db3 c = Some e1 \<and>
    (\<forall>k\<in>fst ` set items. stored_doc db1 c k \<noteq> None) \<and>
    (\<forall>k. k \<notin> fst ` set items' \<longrightarrow> stored_doc db2 c k = stored_doc db1 c k \<and> stored_doc db3 c k = None)"
proof -
  have room: "roomy (db_storage db)" using assms(2) by (simp add: consistent_def)
  have none: "\<And>e. get_ttl_expiry db c = Some e \<Longrightarrow> clock env (t_ticks db) < e" using assms(9) by simp
  obtain x ws rs t e where one: "list_all (inserts_into c (fst ` set items)) ws" "tx_records c x ws rs"
    "appends env (rs @ [expiry_record t c e]) db db1" "get_ttl_expiry db1 c = Some e" "healthy (db_storage db1)"
    "db_ttl_defaults db1 = db_ttl_defaults db" "db_max_sizes db1 = db_max_sizes db"
    "docs_of (t_state db1) = fold docs_apply ws (docs_of (t_state db))" "map e_key ws = map fst items"
    using ttl_insert_logged [OF assms(1) room assms(3-5,7,8) none assms(10)] .
  have e: "e = e0" using one(4) assms(11) by simp
  have room1: "roomy (db_storage db1)" using one(3) by (simp add: appends_def)
  have ttl1: "dm_get (db_ttl_defaults db1) c = Some secs" "dm_get (db_max_sizes db1) c = None"
    using one(6,7) assms(7,8) by simp_all
  have live: "\<And>e. get_ttl_expiry db1 c = Some e \<Longrightarrow> clock env (t_ticks db1) < e" using assms(11,12) by simp
  obtain x' ws' rs' t' e' where two: "list_all (inserts_into c (fst ` set items')) ws'" "tx_records c x' ws' rs'"
    "appends env (rs' @ [expiry_record t' c e']) db1 db2" "docs_of (t_state db2) = fold docs_apply ws' (docs_of (t_state db1))"
    "get_ttl_expiry db2 c = Some e'"
    using ttl_insert_logged [OF assms(1) room1 one(5) assms(4,6) ttl1 live assms(13)] .
  have e': "e' = e1" using two(5) assms(14) by simp
  obtain es where es: "logs env (db_storage db) es" "list_all (\<lambda>e. doc_ok (e_value e)) es"
    using assms(2) by (auto simp: consistent_def)
  let ?new = "rs @ expiry_record t c e0 # rs' @ [expiry_record t' c e1]"
  have "appends env ?new db db2" using appends_trans [OF one(3) two(3)] by (simp add: e e')
  then have logs: "logs env (db_storage db2) (es @ map stored_entry ?new)" using es(1) by (simp add: appends_def)
  have doc: "doc_ok Null" by (simp add: doc_ok_def)
  have tx: "list_all (\<lambda>e. doc_ok (e_value e)) (map stored_entry rs)"
    if "list_all (inserts_into c ks) ws" "tx_records c x ws rs" for ks ws x rs
    using that doc by (auto simp: tx_records_def list_all_iff inserts_into_def doc_record_def)
  have "list_all (\<lambda>e. doc_ok (e_value e)) (es @ map stored_entry ?new)"
    using es(2) tx [OF one(1,2)] tx [OF two(1,2)] doc by (simp add: expiry_record_def)
  from open_expiries [OF assms(1) logs this, of tick]
  obtain db3 where db3: "db_open env tick (db_storage db2) = Inr db3"
    "t_state db3 = t_state (replay_tables env (es @ map stored_entry ?new) (empty_tables tick))"
    "t_ttl_expiry db3 = t_ttl_expiry (replay_tables env (es @ map stored_entry ?new) (empty_tables tick))" .
  have "e_key ` set ws = fst ` set items" using one(9) by (metis list.set_map)
  then have first: "stored_doc db1 c k \<noteq> None" if "k \<in> fst ` set items" for k
    using inserts_present [OF one(1)] that by (simp add: stored_doc_docs one(8))
  note renewed = replay_renewed [OF one(1,2) two(1,2) assms(15) refl, where es = es and t = t and t' = t']
  show ?thesis
    using db3 renewed first two(4) inserts_docs(2) [OF two(1)]
    by (intro exI [of _ db3]) (simp add: stored_doc_docs get_ttl_expiry_def)
qed

section \<open>An example\<close>

lemma log_write_fault:
  "log_write env cmd c k v db = (r, db') \<Longrightarrow> db_io_fault db' = db_io_fault db"
  "log_write env cmd c k v db = (r, db') \<Longrightarrow> db_max_sizes db' = db_max_sizes db"
  "log_write env cmd c k v db = (r, db') \<Longrightarrow> db_ttl_defaults db' = db_ttl_defaults db"
  by (auto simp: log_write_def op_bind_def now_unix_ms_def split: prod.splits)

text \<open>The readings of the clock that the insert of one document takes.\<close>

lemma op_insert_one_ticks:
  assumes "op_insert env c [(k, v0)] db = (Inr u, db')"
  shows "t_ticks db' = t_ticks db + 4" and "db_io_fault db' = db_io_fault db"
proof -
  let ?x = "uuid env (db_uuids db)"
  let ?db0 = "(create_collection c db)\<lparr>db_uuids := Suc (db_uuids db)\<rparr>"
  obtain d1 d2 where b: "log_write env IKEY_TX_BEGIN c ?x Null ?db0 = (Inr (), d1)"
    and it: "insert_item env c (k, v0) d1 = (Inr (), d2)"
    and e: "log_write env IKEY_TX_COMMIT c ?x Null d2 = (Inr u, db')"
    using assms by (auto simp: op_insert_def op_bind_eq_Inr new_uuid_def create_collection_def)
  obtain now seq v d3 d4 d5 where ns: "next_seq c (d1\<lparr>t_ticks := Suc (t_ticks d1)\<rparr>) = (Inr seq, d3)"
    and d4: "d4 = index_put c (u64_or seq v IKEY_SEQ) k (put_doc c k (value_to_msgpack v) d3)"
    and w: "log_write env IKEY_INSERT c k v d4 = (Inr (), d5)"
    and d2: "d2 = d5\<lparr>db_tx := db_tx d5 @ [insert_event c k v]\<rparr>"
    using insert_item_steps [OF it] by metis
  have d3: "t_ticks d3 = Suc (t_ticks d1)" "db_io_fault d3 = db_io_fault d1" using ns by (auto simp: next_seq_def Let_def)
  show "t_ticks db' = t_ticks db + 4"
    using log_write_ticks [OF b] log_write_ticks [OF w] log_write_ticks [OF e] d3(1)
    by (simp add: d2 d4 index_put_def put_doc_def create_collection_def)
  show "db_io_fault db' = db_io_fault db"
    using log_write_fault(1) [OF b] log_write_fault(1) [OF w] log_write_fault(1) [OF e] d3(2)
    by (simp add: d2 d4 index_put_def put_doc_def create_collection_def)
qed

lemma ttl_insert_one:
  assumes "schemaless c db" and "\<not> db_io_fault db" and "dm_get (db_ttl_defaults db) c = Some secs"
    and "dm_get (db_max_sizes db) c = None"
    and "evict_expired env c db = (Inr (), db\<lparr>t_ticks := n\<rparr>)" and "e = clock env (n + 4) + secs * 1000"
  shows "\<exists>db'. db_insert env c [(k, v)] db = (Inr (), db') \<and> schemaless c db' \<and> \<not> db_io_fault db' \<and>
    db_ttl_defaults db' = db_ttl_defaults db \<and> db_max_sizes db' = db_max_sizes db \<and>
    t_ticks db' = n + 6 \<and> get_ttl_expiry db' c = Some e"
proof -
  have "schemaless c (db\<lparr>t_ticks := n\<rparr>)" using assms(1) by (simp add: schemaless_def)
  then obtain d1 where ins: "op_insert env c [(k, v)] (db\<lparr>t_ticks := n\<rparr>) = (Inr (), d1)" and s1: "schemaless c d1"
    using op_insert_succeeds [of c env "[(k, v)]"] unfolding succeeds_def by (metis (full_types) unit.exhaust)
  have set: "settings d1 = settings (db\<lparr>t_ticks := n\<rparr>)" using keepsD [OF settings_insert _ ins] by blast
  note t = op_insert_one_ticks [OF ins]
  have e: "e = clock env (t_ticks d1) + secs * 1000" using t(1) assms(6) by simp
  let ?d2 = "d1\<lparr>t_ticks := Suc (t_ticks d1), t_ttl_expiry := dm_insert c e (t_ttl_expiry d1)\<rparr>"
  have "schemaless c ?d2" using s1 by (simp add: schemaless_def)
  then obtain d3 where w: "log_write env TTL_EXPIRY c (dec (unat e)) Null ?d2 = (Inr (), d3)" and s3: "schemaless c d3"
    using schemaless_log_write [of c env TTL_EXPIRY c "dec (unat e)" Null] unfolding succeeds_def by (metis (full_types) unit.exhaust)
  have dflt: "dm_get (db_ttl_defaults d1) c = Some secs" "db_max_sizes d1 = db_max_sizes db" "db_ttl_defaults d1 = db_ttl_defaults db"
    using set assms(3) by (simp_all add: settings_def)
  have "db_insert env c [(k, v)] db = (Inr (), d3\<lparr>db_tx := db_tx d3 @ [expiry_event c e]\<rparr>)"
    using assms(2,4,5) ins renew_ttl_run [OF dflt(1) e w] dflt(2)
    by (simp add: db_insert_def check_fault_def op_bind_def enforce_max_size_def)
  moreover have "t_ttl_expiry d3 = dm_insert c e (t_ttl_expiry d1)" "db_io_fault d3 = db_io_fault d1"
    "db_max_sizes d3 = db_max_sizes d1" "db_ttl_defaults d3 = db_ttl_defaults d1"
    using log_write_ttl [OF w] log_write_fault [OF w] by simp_all
  ultimately show ?thesis
    using s3 t log_write_ticks [OF w] dflt(2,3) assms(2) by (simp add: schemaless_def get_ttl_expiry_def)
qed

text \<open>The clock runs up to 1004, where the expiry that the first of two inserts has set is reached.\<close>

definition ttl_env :: env where
  "ttl_env = demo_env\<lparr>clock := \<lambda>n. word_of_nat (if n < 100 then n else 1004)\<rparr>"

definition ttl_db :: db where
  "ttl_db = set_ttl_default ''c'' 1 demo_db"

lemma ttl_demo_inserts:
  "\<exists>db1 db2. db_insert ttl_env ''c'' demo_items ttl_db = (Inr (), db1) \<and> get_ttl_expiry db1 ''c'' = Some 1004 \<and> t_ticks db1 = 6 \<and>
    db_insert ttl_env ''c'' [(''m'', Object [])] db1 = (Inr (), db2) \<and> get_ttl_expiry db2 ''c'' = Some 1011"
proof -
  have "schemaless ''c'' ttl_db" "\<not> db_io_fault ttl_db" "dm_get (db_ttl_defaults ttl_db) ''c'' = Some 1" "db_max_sizes ttl_db = []"
    "evict_expired ttl_env ''c'' ttl_db = (Inr (), ttl_db\<lparr>t_ticks := 0\<rparr>)"
    using demo_db_sel by (simp_all add: ttl_db_def set_ttl_default_def schemaless_def evict_expired_def)
      (simp add: demo_db_def fresh_db_def tables.extend_def empty_tables_def)
  then obtain db1 where db1: "db_insert ttl_env ''c'' demo_items ttl_db = (Inr (), db1)" "schemaless ''c'' db1" "\<not> db_io_fault db1"
    "db_ttl_defaults db1 = db_ttl_defaults ttl_db" "db_max_sizes db1 = []" "t_ticks db1 = 6" "get_ttl_expiry db1 ''c'' = Some 1004"
    using ttl_insert_one [of "''c''" ttl_db 1 ttl_env 0 1004 "''k''" "Object [(''a'', Null)]"] by (auto simp: ttl_env_def)
  have "evict_expired ttl_env ''c'' db1 = (Inr (), db1\<lparr>t_ticks := 7\<rparr>)"
    using db1(6,7) by (simp add: evict_expired_def get_ttl_expiry_def op_bind_def now_unix_ms_def collection_is_expired_def
        ttl_env_def word_le_nat_alt)
  moreover have "dm_get (db_ttl_defaults db1) ''c'' = Some 1" by (simp add: db1(4) ttl_db_def set_ttl_default_def)
  ultimately obtain db2 where "db_insert ttl_env ''c'' [(''m'', Object [])] db1 = (Inr (), db2)" "get_ttl_expiry db2 ''c'' = Some 1011"
    using ttl_insert_one [of "''c''" db1 1 ttl_env 7 1011 "''m''" "Object []"] db1(2,3,5) by (auto simp: ttl_env_def)
  then show ?thesis using db1 by blast
qed

theorem renewed_expiry_loses_documents_witness:
  "\<exists>db1 db2 db3. db_insert ttl_env ''c'' demo_items ttl_db = (Inr (), db1) \<and>
    db_insert ttl_env ''c'' [(''m'', Object [])] db1 = (Inr (), db2) \<and>
    db_open ttl_env 100 (db_storage db2) = Inr db3 \<and> get_ttl_expiry db3 ''c'' = Some 1011 \<and>
    stored_doc db2 ''c'' ''k'' \<noteq> None \<and> stored_doc db3 ''c'' ''k'' = None"
proof -
  obtain db1 db2 where ins: "db_insert ttl_env ''c'' demo_items ttl_db = (Inr (), db1)" "get_ttl_expiry db1 ''c'' = Some 1004" "t_ticks db1 = 6"
    "db_insert ttl_env ''c'' [(''m'', Object [])] db1 = (Inr (), db2)" "get_ttl_expiry db2 ''c'' = Some 1011"
    using ttl_demo_inserts by metis
  have env: "env_ok ttl_env" using demo_env_ok by (simp add: env_ok_def ttl_env_def gzip_ok_def)
  have "consistent ttl_env demo_db" using demo_db_ok by (simp add: db_ok_def)
  then have con: "consistent ttl_env ttl_db"
    using consistent_cong [of ttl_db demo_db] by (simp add: ttl_db_def set_ttl_default_def)
  have db: "healthy (db_storage ttl_db)" "dm_get (db_ttl_defaults ttl_db) ''c'' = Some 1" "dm_get (db_max_sizes ttl_db) ''c'' = None"
    "get_ttl_expiry ttl_db ''c'' = None"
    using demo_db_sel by (simp_all add: ttl_db_def set_ttl_default_def schemaless_def get_ttl_expiry_def)
  have small: "list_all item_small [(''m'', Object [])]"
    by (simp add: name_ok_def str_ok_def bytes_of_def item_small_def doc_small_def value_to_msgpack_def write_map_header_def)
  have live: "clock ttl_env (t_ticks db1) < 1004" by (simp add: ins(3) ttl_env_def word_less_nat_alt)
  have clock: "\<And>n. 100 \<le> n \<Longrightarrow> 1004 \<le> clock ttl_env n \<and> clock ttl_env n < 1011"
    by (simp add: ttl_env_def word_less_nat_alt)
  obtain db3 where "db_open ttl_env 100 (db_storage db2) = Inr db3" "get_ttl_expiry db3 ''c'' = Some 1011"
    "stored_doc db1 ''c'' ''k'' \<noteq> None" "stored_doc db2 ''c'' ''k'' = stored_doc db1 ''c'' ''k''" "stored_doc db3 ''c'' ''k'' = None"
    using renewed_expiry_loses_documents [OF env con db(1) demo_names(1,3) small db(2-4) ins(1,2) live ins(4,5), of 100] clock by auto
  then show ?thesis using ins by metis
qed

end
