(* ===== verification/Spec2Isabelle.thy ===== *)
theory Spec2Isabelle
  imports Async Extractor Projection Startup Requests Feed BrowserGet TtlReplay
begin

text \<open>
  A verification development of MoltenDB, an embedded JSON document database in Rust: a core
  library (\<open>src/moltendb-core\<close>), an authentication library (\<open>src/moltendb-auth\<close>) and an HTTP
  server (\<open>src/moltendb-server\<close>).

  The program. A \<open>Db\<close> handle (\<open>engine/mod.rs\<close>) keeps collections of documents in memory as
  MessagePack bytes. Every write is a transaction of records in a write-ahead log kept by a
  storage backend (\<open>engine/storage\<close>); a compaction writes the documents to a snapshot file and
  empties the log; opening a database replays the snapshot and the log (\<open>engine/open.rs\<close>).

  The theories, each importing the one before it unless noted.

  \<^item> Prelude: operations with state and errors (\<open>op\<close>: a function from a state to an error or a
    value, and the state, which is kept on errors), maps as association lists (\<open>dashmap\<close> for
    \<open>DashMap\<close>, \<open>btreemap\<close> for \<open>BTreeMap\<close> with its sorted iteration), byte strings, UTF-8, decimals.
  \<^item> Json: \<open>serde_json::Value\<close> (\<open>json\<close>, \<open>number\<close>) and its accessors. A double is its bit pattern.
  \<^item> SystemFields: the field, token and command names of \<open>common/system_fields.rs\<close>,
    \<open>common/log_commands.rs\<close>, and the operators of \<open>common/where_operators.rs\<close>.
  \<^item> MsgPack, LogCodec: \<open>common/system_field_tokens.rs\<close>, the encoder, the decoder, the renaming of
    system fields, the log record codec and the raw scans. \<open>read_value\<close> recurses with fuel; the
    length of the input is enough (\<open>read_value_enough\<close>). Skipping a value is done by a third-party
    deserialiser, a parameter (\<open>skip_value\<close>) of which \<open>skips_values\<close> is assumed.
  \<^item> Wal: \<open>storage/disk/log.rs\<close>, \<open>apply_entry\<close> and the replay of \<open>storage/mod.rs\<close>, and
    \<open>operations/recover.rs\<close>. \<open>env\<close> collects what the code takes from outside: clock, identifiers,
    the JSON Schema validator, gzip.
  \<^item> Opfs: \<open>OpfsStorage\<close>, the browser's backend (\<open>storage/wasm.rs\<close>), whose calls may throw or fall short.
  \<^item> Storage: the backends \<open>SyncDiskStorage\<close>, \<open>OpfsStorage\<close>, \<open>InMemoryStorage\<close>, \<open>EncryptedStorage\<close> and the
    snapshot file. Every system call of a disk may fail: \<open>d_io\<close> lists the answers. The contract
    of a log backend is the locale \<open>wal_backend\<close>, interpreted on \<open>write_entry\<close>.
  \<^item> Engine: the handle (\<open>db\<close>), its operations \<open>set.rs\<close>, \<open>update.rs\<close>, \<open>delete.rs\<close>, \<open>ttl.rs\<close>,
    \<open>compact.rs\<close>, schemas, \<open>open.rs\<close>.
  \<^item> Durability, History: the invariants \<open>consistent\<close> (replaying what the backend holds gives the
    documents in memory) and \<open>tables_ok\<close> (memory is well formed), and that every operation keeps them.
  \<^item> Calls: the methods of the handle that change the database as data (\<open>call\<close>, \<open>perform\<close>), what every
    call keeps whether it succeeds or fails, and histories of acknowledged calls (\<open>acked\<close>).
  \<^item> Operations: what insert and update do to documents, progress on a backend without faults.
  \<^item> Recovery: crashes, torn records, interleaved writers, failing or encrypted compaction.
  \<^item> Async: \<open>AsyncDiskStorage\<close> as a machine (\<open>async_step\<close>): the channel, the turns of the writer task
    with its buffer, the calls of the engine's threads and the drop. Its channel is a \<open>wal_backend\<close> too.
  \<^item> F64, Query (on Wal): double arithmetic, exact in units of the smallest double, and \<open>query.rs\<close>:
    cursors, predicates and WHERE clauses on bytes and on values. WhereAgree: where both evaluators
    agree and where they differ. Extractor: the single-pass extractor against one search per path.
    Projection: what \<open>project\<close> and \<open>exclude\<close> keep.
  \<^item> TopN, Scan, Coalesce: bounded heaps kept by parallel workers and merged (\<open>TopN\<close>, with the locale
    \<open>bounded_scan\<close> of an order under which the result is independent of the division of the work),
    the scans of \<open>operations/get.rs\<close> and the coordinator of \<open>engine/coalesce.rs\<close> (\<open>Scan\<close>), and that a
    shared scan gives every request the answer of a scan of its own (\<open>Coalesce\<close>).
  \<^item> Auth (on MsgPack): \<open>src/moltendb-auth\<close>: scopes, tokens, the revocation list and its file, users,
    the middleware. JWT, HMAC, password hashing and JSON printing are parameters. The contract of
    a revocation list is the locale \<open>revocation_list\<close>, interpreted on the store.
  \<^item> RateLimit (on Prelude), TtlSweep (on Operations): \<open>rate_limit.rs\<close> and \<open>ttl_sweep.rs\<close> of the server.
    Expiry (on TtlSweep): every call announces the expiries it sets, and the heap of the sweep covers them (\<open>covered\<close>)
    however calls, events and rounds interleave (\<open>sweeping\<close>). TtlReplay (on Expiry): expiries in the log at a restart.
  \<^item> Validation (on Wal): the checks every request passes, error texts and error responses. Handlers (on Validation,
    Scan, TtlSweep): \<open>process_set\<close>, \<open>process_update\<close>, \<open>process_delete\<close>, \<open>process_schema\<close>,
    \<open>process_stats\<close>, \<open>process_snapshot\<close>. GetHandler: \<open>process_get\<close> with its scans, joins, sorting and
    shaping. Routes (with Auth): the endpoints of \<open>route_handlers.rs\<close>. Access: what a scoped token can
    read. Requests: a document set and read back through the handlers.
  \<^item> Feed (on Auth, Operations): \<open>ws.rs\<close>, the change feed over a web socket as a fold over what its
    tasks wait for.
  \<^item> Browser (on Handlers, Recovery): \<open>engine/open_wasm.rs\<close> and the worker of \<open>moltendb-wasm\<close>; that a new
    database in the browser starts in the invariant of Durability, which all backends share.
  \<^item> SeqIndex (on Operations, Coalesce): the sequence index and its counters: every method of the handle but
    \<open>clear_all\<close>, failed calls included, keeps them in step with the documents (\<open>in_step\<close>), and so does the index a start builds; this gives
    Coalesce what it asks of a collection. \<open>clear_all\<close> does not (\<open>cleared_lists_twice\<close>).
  \<^item> BrowserGet (on Browser, SeqIndex): the scans without threads, the read handler over them, the worker's
    dispatch, factory and subscription.
  \<^item> Isolation (on GetHandler): every method of the handle and every write handler changes only what the
    database keeps about its collection.
  \<^item> Server (on Access, Isolation, RateLimit): \<open>main.rs\<close>: the route table, the layers around it and the endpoint a
    request reaches, as one function of request and state (\<open>serve\<close>), and the tasks that run beside it.
    The locale \<open>state_frame\<close> takes a relation of states from the endpoints through the layers.
  \<^item> Keys (on Storage): the key of an encrypted database. PointInTime (on Recovery, Keys): the command
    \<open>recover\<close>, and that \<open>recover_to\<close> finds what a restart would find had the log ended there.
  \<^item> Startup (on Server, PointInTime): the start of the server, what it demands and what it opens.

  What the theorems show. Documents and log records survive encoding and decoding. Memory is well
  formed after any calls. After a history of acknowledged operations a restart finds exactly the documents
  in memory, time to live, \<open>clear_all\<close> and faults of the disk that the code ignores apart; a crash
  recovers a prefix of the transactions, each whole; a rejected insert leaves no trace on disk.
  Filters on stored bytes agree with filters on documents for the queries both define alike.
  Insert and update stamp versions, times and sequence numbers as documented. The asynchronous
  backend, if it is not compacted, loses only the latest transactions in a crash and none in a shutdown. A shared scan
  answers like a scan of its own, the sequence index lists exactly the documents in every state
  reached without \<open>clear_all\<close>, the browser's sequential scans answer like the server's parallel ones, and a document set over the request handlers is read back by them. A scope grants what it says, a
  read is confined to the token's keys, a change feed to its collections, and a write request to the
  collections its token may write. The background sweep drops every collection that is due and
  none that is not. A request without a valid token changes nothing, and a revoked
  token is refused by every later request. Point-in-time recovery finds what a restart would have found. Several theorems state
  what the code does where its documentation says otherwise (torn tails, interleaved
  transactions, failed snapshots, encrypted snapshots, stale raw fields, compaction beside
  writers, keys set to null, the index after a clear, the configured secret, the recovery command,
  renewed expiries after a restart).

  Bounds. Integers of the code are machine words and wrap; \<open>usize\<close> is \<open>nat\<close>. Theorems about stored
  documents bound a document to less than a gigabyte and its nesting to 128, as the request
  parser does, so that length prefixes fit. Where arithmetic at the ends of a type's range would panic the
  model goes on: \<open>offset + limit\<close> of a scan, adding a lifetime to the clock (a debug build panics at 64
  bits, \<open>Instant + Duration\<close> at the end of its range: \<open>refresh_scoped_token\<close>, \<open>handle_revoke\<close>,
  \<open>load_entry\<close>) and taking a window from an instant near the start of the clock (\<open>check_rate_limit\<close>).

  Not modelled, and parameters where a definition needs them. Of the browser build the conversions
  between the two languages' values; of the server the framework under \<open>main.rs\<close> (how a path matches a
  pattern, how a body becomes JSON, the CORS layer, TLS connections, the parsing of the command line),
  the signals that begin a shutdown and the time given to running requests, and the readings of the
  host that \<open>/system/metrics\<close> reports. DashMap's sharding and the order of its iteration are abstracted:
  iteration order is the order of the list. Benchmarks, examples and tests are not part of the model.
\<close>

section \<open>Documents and records\<close>

text \<open>
  C15. What the API stores it returns: a document that is encoded for storage, decoded and renamed for the API is the
  document that came in, if no field of it, at any depth, has a name of the form "-1" that stands for a stored name
  (such a field would come back under the public name).
\<close>

theorem api_roundtrip:
  assumes "doc_ok v" and "no_ikeys v"
  shows "map_option expand_system_fields (msgpack_to_value (value_to_msgpack v)) = Some v"
  using assms expand_tokenize by (simp add: doc_ok_def)

theorem api_roundtrip_witness:
  "map_option expand_system_fields (msgpack_to_value (value_to_msgpack
     (Object [(VERSION, json_u64 3), (''a'', Array [Null, Bool True])]))) =
   Some (Object [(VERSION, json_u64 3), (''a'', Array [Null, Bool True])])"
  by (rule api_roundtrip)
    (simp_all add: doc_ok_def str_ok_def bytes_of_def len_ok_def expand_key_def json_u64_def)

text \<open>The decoder answers within fuel the length of its input.\<close>

lemma decoder_total:
  "length bs < fuel \<Longrightarrow> map_option fst (read_value fuel bs) = msgpack_to_value bs"
  unfolding msgpack_to_value_def by (subst read_value_enough [of bs fuel]) simp_all

text \<open>
  A log record of the write-ahead log is read back as it was written, up to the in-memory form
  of its command and the stored names of its document's fields.
\<close>

lemma log_record_roundtrip:
  "entry_ok e \<Longrightarrow> log_entry_from_msgpack skip (log_entry_to_msgpack e) =
     Some (e\<lparr>e_cmd := stored_cmd (e_cmd e), e_value := tokenize (e_value e)\<rparr>)"
  using log_entry_read_back [of e skip] by (simp add: stored_entry_def)

section \<open>Well-formed memory\<close>

text \<open>
  C6. Memory stays well typed: whatever methods of the handle are called (inserts with and without a time to live or a
  size cap, updates, the four deletes, schema changes, settings, compaction, clearing), and whether they succeed or
  fail, no collection and no key occurs twice, every name can be stored, and the bytes of every document decode to a
  well-formed value that is nested no deeper than the decoder follows and that encodes to no more than the codec's
  lengths can hold. The memory at the start is of this kind, as that of a new database is, and the arguments of the
  calls have names and sizes that a record can hold (\<open>storable_call\<close>).
\<close>

theorem memory_well_typed:
  assumes "tables_ok db" and "(called storable_call env)\<^sup>*\<^sup>* db db'"
  shows "dm_ok (t_state db') \<and>
    (\<forall>(c, col)\<in>set (t_state db'). name_ok c \<and> dm_ok col \<and>
       (\<forall>(k, b)\<in>set col. name_ok k \<and>
          (\<exists>v. msgpack_to_value b = Some v \<and> wf_value v \<and> nested 128 v \<and> length (value_to_msgpack v) \<le> 2 ^ 29)))"
proof -
  have "tables_ok db'" using called_history [of storable_call env db db' tables_ok] assms called_tables by blast
  then have "dm_ok (t_state db')" and cols: "\<forall>(c, col)\<in>set (t_state db'). name_ok c \<and> col_ok col"
    by (simp_all add: tables_ok_def History.state_ok_def)
  moreover have "name_ok k \<and> (\<exists>v. msgpack_to_value b = Some v \<and> wf_value v \<and> nested 128 v \<and>
      length (value_to_msgpack v) \<le> 2 ^ 29)" if "col_ok col" "(k, b) \<in> set col" for col k b
    using that bytes_ok_decode [of b] by (fastforce simp: col_ok_def doc_small_def)
  ultimately show ?thesis by (fastforce simp: col_ok_def)
qed

theorem memory_well_typed_witness:
  "dm_ok (t_state demo_db1) \<and> t_state demo_db1 \<noteq> []"
proof -
  have "t_state demo_db1 \<noteq> []" using demo_version by (auto simp: stored_doc_def)
  moreover have "tables_ok demo_db" using demo_db_ok by (simp add: db_ok_def)
  ultimately show ?thesis
    using memory_well_typed [of demo_db demo_env demo_db1] acked_called [OF demo_acked] by blast
qed

section \<open>Durability\<close>

text \<open>
  C1. Acknowledged operations survive a restart: after any history of calls that returned \<open>Ok\<close> (\<open>acked\<close>), opening the
  database on the files the history left succeeds and finds exactly the documents the running database had. The calls
  are inserts, updates, the four deletes, schema changes, settings and compactions, with names and sizes that a record
  can hold. Inserts go to collections without a time to live (see \<open>renewed_expiry_loses_documents\<close> of TtlReplay),
  inserts into a collection with a size cap happen on a backend whose writes succeed (the eviction ignores a failed
  one), and a compaction meets no fault of the disk (see \<open>failed_snapshot_loses_log\<close> of Recovery). \<open>clear_all\<close> is no
  part of it: it writes nothing.
\<close>

theorem acked_survive_restart:
  assumes "env_ok env" and "db_ok env db" and "(acked env)\<^sup>*\<^sup>* db db'"
  shows "\<exists>db''. db_open env tick (db_storage db') = Inr db'' \<and>
    (\<forall>c k. stored_doc db'' c k = stored_doc db' c k)"
proof -
  have "consistent env db'" using acked_history [OF assms(1,3,2)] by (simp add: db_ok_def)
  from reopen_consistent [OF assms(1) this, of tick] show ?thesis by (auto simp: stored_doc_docs)
qed

theorem acked_survive_restart_witness:
  "\<exists>db''. db_open demo_env 9 (db_storage demo_db1) = Inr db'' \<and>
    (\<forall>c k. stored_doc db'' c k = stored_doc demo_db1 c k) \<and> stored_doc demo_db1 ''c'' ''k'' \<noteq> None"
proof -
  have "stored_doc demo_db1 ''c'' ''k'' \<noteq> None" using demo_version by auto
  then show ?thesis
    using acked_survive_restart [OF demo_env_ok demo_db_ok, of demo_db1 9] demo_acked by blast
qed

text \<open>
  C4. An insert that a schema rejects is not durable: although items before the rejected one are
  already in memory, a restart finds the documents from before the call.
\<close>

theorem rejected_insert_not_durable:
  assumes "env_ok env" and "db_ok env db" and "name_ok c" and "list_all item_small items"
    and "op_insert env c items db = (Inl (db_error.SchemaValidationError msg), db')"
  shows "\<exists>db''. db_open env tick (db_storage db') = Inr db'' \<and>
    (\<forall>c k. stored_doc db'' c k = stored_doc db c k)"
proof -
  have "consistent env db" using assms(2) by (simp add: db_ok_def)
  from op_insert_rejected [OF assms(1) this assms(3-5), of tick] show ?thesis by (auto simp: stored_doc_docs)
qed

definition demo_strict_db :: db where
  "demo_strict_db = demo_db\<lparr>t_schemas := [(''c'', Null, \<lambda>v. vget v ''bad'' = None)]\<rparr>"

lemma demo_strict_ok: "db_ok env demo_strict_db"
  using demo_db_ok [of env] demo_names(1) small_Null
  by (auto simp: db_ok_def consistent_def demo_strict_db_def tables_ok_def schemas_ok_def dm_ok_def names_indexed_def)

lemma demo_strict_insert:
  "\<exists>db'. op_insert demo_env ''c'' [(''k'', Object [(''bad'', Null)])] demo_strict_db =
     (Inl (db_error.SchemaValidationError ''Document does not conform to schema''), db')"
proof -
  let ?db = "create_collection ''c'' demo_strict_db"
  let ?x = "uuid demo_env (db_uuids ?db)"
  have "healthy (db_storage demo_strict_db)"
    using demo_db_sel(5) by (simp add: demo_strict_db_def schemaless_def)
  then obtain st where "write_entry (new_entry (clock demo_env (t_ticks ?db)) IKEY_TX_BEGIN ''c'' ?x Null) (db_storage demo_strict_db) = (Inr (), st)"
    using healthy_write by blast
  then obtain db1 where b: "log_write demo_env IKEY_TX_BEGIN ''c'' ?x Null (?db\<lparr>db_uuids := Suc (db_uuids ?db)\<rparr>) = (Inr (), db1)"
    "t_schemas db1 = [(''c'', Null, \<lambda>v. vget v ''bad'' = None)]" "t_state db1 = t_state ?db"
    by (auto simp: log_write_def op_bind_def now_unix_ms_def create_collection_def demo_strict_db_def)
  have "docs_of (t_state ?db) ''c'' ''k'' = None"
    using demo_db_sel(6) [of "''c''" "''k''"]
    by (auto simp add: create_collection_def demo_strict_db_def docs_of_def col_of_def split: option.split)
  then have n: "stored_doc (db1\<lparr>t_ticks := i, db_seq_counters := j\<rparr>) ''c'' ''k'' = None" for i j
    by (simp add: stored_doc_docs b(3))
  have v: "vget (Object (stamp_new now seq [(''bad'', Null)])) ''bad'' \<noteq> None" for now seq
    by (simp add: stamp_new_def)
  obtain db2 where i: "insert_item demo_env ''c'' (''k'', Object [(''bad'', Null)]) db1 =
      (Inl (db_error.SchemaValidationError ''Document does not conform to schema''), db2)"
    using n v b(2)
    by (simp add: insert_item_def op_bind_def now_unix_ms_def next_seq_def Let_def prepare_item_def validate_document_def)
  show ?thesis
    using b(1) i by (simp add: op_insert_def op_bind_def new_uuid_def)
qed

theorem rejected_insert_not_durable_witness:
  "\<exists>db' db''. op_insert demo_env ''c'' [(''k'', Object [(''bad'', Null)])] demo_strict_db =
     (Inl (db_error.SchemaValidationError ''Document does not conform to schema''), db') \<and>
   db_open demo_env 5 (db_storage db') = Inr db'' \<and>
   (\<forall>c k. stored_doc db'' c k = stored_doc demo_strict_db c k)"
proof -
  have "list_all item_small [(''k'', Object [(''bad'', Null)])]"
    using demo_names(2)
    by (simp add: item_small_def doc_small_def value_to_msgpack_def write_map_header_def write_map_key_def
        key_token_def write_str_def str_ok_def bytes_of_def)
  then show ?thesis
    using rejected_insert_not_durable [OF demo_env_ok demo_strict_ok demo_names(1), where tick = 5]
      demo_strict_insert by blast
qed

text \<open>
  C5. Compaction on a disk without faults succeeds, keeps the documents in memory, and a restart
  from the compacted files finds the same documents.
\<close>

theorem compaction_keeps_documents:
  assumes "env_ok env" and "db_ok env db" and "storage_fine (db_storage db)"
    and "length (compacted (t_state db) (t_schemas db)) < 2 ^ 64"
  shows "\<exists>db' db''. db_compact env db = (Inr (), db') \<and> t_state db' = t_state db \<and>
    db_open env tick (db_storage db') = Inr db'' \<and>
    (\<forall>c k. stored_doc db'' c k = stored_doc db c k)"
proof -
  obtain db' where db': "db_compact env db = (Inr (), db')" "consistent env db'" "t_state db' = t_state db"
    using db_compact_consistent [OF assms(2-4)] by (auto simp: db_ok_def)
  from reopen_consistent [OF assms(1) db'(2), of tick] db' show ?thesis by (auto simp: stored_doc_docs)
qed

theorem compaction_keeps_documents_witness:
  "\<exists>db' db''. db_compact demo_env demo_db = (Inr (), db') \<and> db_open demo_env 3 (db_storage db') = Inr db''"
proof -
  have "storage_fine (db_storage demo_db)"
    by (simp add: demo_db_def fresh_db_def tables.extend_def io_fine_def demo_disk_def)
  moreover have "length (compacted (t_state demo_db) (t_schemas demo_db)) < 2 ^ 64"
    by (simp add: demo_db_def fresh_db_def tables.extend_def empty_tables_def compacted_def
        doc_entries_def schema_entries_def)
  ultimately show ?thesis
    using compaction_keeps_documents [OF demo_env_ok demo_db_ok, of 3] by blast
qed

end
